(* ===== verification/Okr_Prelude.thy ===== *)
theory Okr_Prelude
  imports Main "HOL-Library.Word" "HOL-Library.Monad_Syntax"
begin

text \<open>
  Shared vocabulary of the development: the machine integers of the program, byte buffers with
  checked little-endian access, and the generic lemmas on options, lists and words that the
  component theories use.

  Buffers are lists of bytes. Every read and write is checked against the length of the buffer:
  an access outside it, which is undefined behaviour in C, is \<open>None\<close>. Loops that need not end
  are written with \<open>partial_function (option)\<close>, where \<open>None\<close> also stands for not returning. So
  \<open>Some\<close> always says: every access stayed inside its buffer and the call returned.
\<close>

unbundle bit_operations_syntax

named_theorems buf_simps \<open>reading and writing byte buffers\<close>
named_theorems option_simps \<open>elimination of the option monad\<close>

type_synonym byte = "8 word"
type_synonym u16 = "16 word"
type_synonym u32 = "32 word"
type_synonym u64 = "64 word"
type_synonym buf = "byte list"

section \<open>The option monad\<close>

lemma bind_Some_iff [option_simps]:
  "(Option.bind m f = Some y) \<longleftrightarrow> (\<exists>x. m = Some x \<and> f x = Some y)"
  by (cases m) auto

lemma Some_bind_iff [option_simps]:
  "(Some y = Option.bind m f) \<longleftrightarrow> (\<exists>x. m = Some x \<and> f x = Some y)"
  by (cases m) auto

lemma bind_None_iff [option_simps]:
  "(Option.bind m f = None) \<longleftrightarrow> (m = None \<or> (\<exists>x. m = Some x \<and> f x = None))"
  by (cases m) auto

lemma bind_SomeE:
  assumes "Option.bind m f = Some y"
  obtains x where "m = Some x" "f x = Some y"
  using assms by (cases m) auto

section \<open>Little-endian values\<close>

definition le_word :: "byte list \<Rightarrow> 'a::len word" where
  "le_word bs = foldr (\<lambda>b w. ucast b + 256 * w) bs 0"

fun le_bytes :: "nat \<Rightarrow> 'a::len word \<Rightarrow> byte list" where
  "le_bytes 0 w = []"
| "le_bytes (Suc n) w = ucast w # le_bytes n (drop_bit 8 w)"

lemma le_word_Nil [simp]: "le_word [] = 0"
  by (simp add: le_word_def)

lemma le_word_Cons [simp]: "le_word (b # bs) = ucast b + 256 * le_word bs"
  by (simp add: le_word_def)

lemma length_le_bytes [simp]: "length (le_bytes n w) = n"
  by (induction n w rule: le_bytes.induct) auto

lemma take_bit_step:
  fixes w :: "'a::len word"
  shows "ucast (ucast w :: byte) + 256 * take_bit n (drop_bit 8 w) = take_bit (n + 8) w"
proof -
  have low: "(ucast (ucast w :: byte) :: 'a word) = take_bit 8 w"
    by (rule bit_word_eqI) (auto simp: bit_simps)
  have "256 * take_bit n (drop_bit 8 w) = push_bit 8 (take_bit n (drop_bit 8 w))"
    by (simp add: push_bit_eq_mult mult.commute)
  also have "\<dots> = push_bit 8 (drop_bit 8 (take_bit (n + 8) w))"
    by (rule arg_cong [where f = "push_bit 8"]) (rule bit_word_eqI, auto simp: bit_simps)
  finally have high: "256 * take_bit n (drop_bit 8 w) = push_bit 8 (drop_bit 8 (take_bit (n + 8) w))" .
  have "take_bit 8 w = take_bit 8 (take_bit (n + 8) w)"
    by (simp add: min_def)
  then show ?thesis
    using bits_ident [of 8 "take_bit (n + 8) w"] low high by (simp add: add.commute)
qed

lemma le_word_le_bytes_take_bit: "le_word (le_bytes n w) = take_bit (8 * n) w"
proof (induction n w rule: le_bytes.induct)
  case (2 n w)
  then show ?case
    using take_bit_step [of w "8 * n"] by (simp add: add.commute)
qed simp

lemma le_word_le_bytes [simp]:
  fixes w :: "'a::len word"
  assumes "LENGTH('a) \<le> 8 * n"
  shows "le_word (le_bytes n w) = w"
  using assms by (simp add: le_word_le_bytes_take_bit take_bit_word_eq_self)

section \<open>Checked buffer access\<close>

definition rd8 :: "buf \<Rightarrow> nat \<Rightarrow> byte option" where
  "rd8 b i = (if i < length b then Some (b ! i) else None)"

definition rd_le :: "nat \<Rightarrow> buf \<Rightarrow> nat \<Rightarrow> 'a::len word option" where
  "rd_le n b i = (if i + n \<le> length b then Some (le_word (take n (drop i b))) else None)"

definition rd16 :: "buf \<Rightarrow> nat \<Rightarrow> u16 option" where "rd16 = rd_le 2"
definition rd32 :: "buf \<Rightarrow> nat \<Rightarrow> u32 option" where "rd32 = rd_le 4"
definition rd64 :: "buf \<Rightarrow> nat \<Rightarrow> u64 option" where "rd64 = rd_le 8"

text \<open>\<open>slice\<close> is a bounded read of \<open>n\<close> bytes, \<open>put\<close> a bounded \<open>CopyMem\<close> into a buffer.\<close>

definition slice :: "buf \<Rightarrow> nat \<Rightarrow> nat \<Rightarrow> buf option" where
  "slice b i n = (if i + n \<le> length b then Some (take n (drop i b)) else None)"

definition put :: "buf \<Rightarrow> nat \<Rightarrow> buf \<Rightarrow> buf option" where
  "put b i xs = (if i + length xs \<le> length b
     then Some (take i b @ xs @ drop (i + length xs) b) else None)"

lemma rd8_Some_iff [buf_simps]: "rd8 b i = Some x \<longleftrightarrow> i < length b \<and> b ! i = x"
  by (auto simp: rd8_def)

lemma rd8_None_iff [buf_simps]: "rd8 b i = None \<longleftrightarrow> length b \<le> i"
  by (auto simp: rd8_def)

lemma slice_Some_iff [buf_simps]:
  "slice b i n = Some xs \<longleftrightarrow> i + n \<le> length b \<and> xs = take n (drop i b)"
  by (auto simp: slice_def)

lemma put_length [buf_simps]: "put b i xs = Some b' \<Longrightarrow> length b' = length b"
  by (auto simp: put_def split: if_splits)

lemma put_nth:
  assumes "put b i xs = Some b'" and "j < length b"
  shows "b' ! j = (if i \<le> j \<and> j < i + length xs then xs ! (j - i) else b ! j)"
  using assms by (auto simp: put_def nth_append split: if_splits)

lemma put_slice_same: "put b i xs = Some b' \<Longrightarrow> slice b' i (length xs) = Some xs"
  by (auto simp: put_def slice_def split: if_splits)

lemma put_append:
  "put b i (xs @ ys) = do { b' \<leftarrow> put b i xs; put b' (i + length xs) ys }"
  by (auto simp: put_def ac_simps)

lemma put_le_rd_le:
  fixes w :: "'a::len word"
  assumes "put b i (le_bytes n w) = Some b'" and "LENGTH('a) \<le> 8 * n"
  shows "rd_le n b' i = Some w"
  using put_slice_same [OF assms(1)] assms(2)
  by (auto simp: rd_le_def slice_def split: if_splits)

lemma rd8_put_other:
  assumes "put b i xs = Some b'" and "j < i \<or> i + length xs \<le> j"
  shows "rd8 b' j = rd8 b j"
  using assms by (auto simp: put_def rd8_def nth_append split: if_splits)

text \<open>Reads and updates inside a buffer do not depend on what follows it.\<close>

lemma rd8_append [buf_simps]: "rd8 b i = Some x \<Longrightarrow> rd8 (b @ t) i = Some x"
  by (auto simp: rd8_def nth_append split: if_splits)

lemma rd_le_append: "rd_le n b i = Some x \<Longrightarrow> rd_le n (b @ t) i = Some x"
  by (auto simp: rd_le_def split: if_splits)

lemma slice_append: "slice b i n = Some x \<Longrightarrow> slice (b @ t) i n = Some x"
  by (auto simp: slice_def split: if_splits)

lemma put_append_right: "put b i xs = Some b' \<Longrightarrow> put (b @ t) i xs = Some (b' @ t)"
  by (auto simp: put_def split: if_splits)

lemma rd16_append: "rd16 b i = Some x \<Longrightarrow> rd16 (b @ t) i = Some x"
  and rd32_append: "rd32 b i = Some y \<Longrightarrow> rd32 (b @ t) i = Some y"
  and rd64_append: "rd64 b i = Some z \<Longrightarrow> rd64 (b @ t) i = Some z"
  by (simp_all add: rd16_def rd32_def rd64_def rd_le_append)

lemmas buffer_append = rd8_append rd16_append rd32_append rd64_append slice_append put_append_right

section \<open>Words as numbers\<close>

lemma unat_div_numeral [simp]:
  fixes x :: "'a::len word"
  assumes "(numeral n :: nat) < 2 ^ LENGTH('a)"
  shows "unat (x div numeral n) = unat x div numeral n"
  using assms by (simp add: unat_div_distrib take_bit_nat_eq_self)

lemma unat_ucast_up [simp]:
  fixes x :: "'a::len word"
  assumes "LENGTH('a) \<le> LENGTH('b::len)"
  shows "unat (ucast x :: 'b word) = unat x"
proof -
  have "unat x < 2 ^ LENGTH('a)"
    by (rule unsigned_less)
  also have "\<dots> \<le> 2 ^ LENGTH('b)"
    using assms by simp
  finally show ?thesis
    by (simp add: unsigned_ucast_eq take_bit_nat_eq_self)
qed

lemma ucast_unat_eq: "unat (x :: 'a::len word) = n \<Longrightarrow> (ucast x :: 'b::len word) = of_nat n"
  by auto

lemma unat_of_nat_u64: "n < 2 ^ 64 \<Longrightarrow> unat (of_nat n :: u64) = n"
  by (simp add: unat_of_nat take_bit_nat_eq_self)

lemma unat_of_nat_u32: "n < 2 ^ 32 \<Longrightarrow> unat (of_nat n :: u32) = n"
  by (simp add: unat_of_nat take_bit_nat_eq_self)

lemma unat_add_no_wrap:
  fixes x y :: "'a::len word"
  assumes "unat x + unat y < 2 ^ LENGTH('a)"
  shows "unat (x + y) = unat x + unat y"
  using assms by (simp add: unat_word_ariths)

lemma unat_mult_no_wrap:
  fixes x y :: "'a::len word"
  assumes "unat x * unat y < 2 ^ LENGTH('a)"
  shows "unat (x * y) = unat x * unat y"
  using assms by (simp add: unat_word_ariths)

lemma unat_sub_no_wrap:
  fixes x y :: "'a::len word"
  assumes "unat y \<le> unat x"
  shows "unat (x - y) = unat x - unat y"
  using assms by (simp add: unat_sub word_le_nat_alt)

lemma unat_le_word:
  assumes "8 * length bs \<le> LENGTH('a)"
  shows "unat (le_word bs :: 'a::len word) = foldr (\<lambda>b n. unat b + 256 * n) bs 0
    \<and> foldr (\<lambda>b n. unat b + 256 * n) bs (0::nat) < 2 ^ (8 * length bs)"
  using assms
proof (induction bs)
  case (Cons b bs)
  let ?v = "foldr (\<lambda>b n. unat b + 256 * n) bs (0::nat)"
  have b: "unat b < 256"
    using unsigned_less [of b] by simp
  have len: "8 + 8 * length bs \<le> LENGTH('a)"
    using Cons.prems by simp
  have v: "unat (le_word bs :: 'a word) = ?v" "?v < 2 ^ (8 * length bs)"
    using Cons len by auto
  have lt: "unat b + 256 * ?v < 2 ^ (8 * length (b # bs))"
    using v(2) b by (simp add: power_add)
  also have le: "(2::nat) ^ (8 * length (b # bs)) \<le> 2 ^ LENGTH('a)"
    using Cons.prems by simp
  finally have fit: "unat b + 256 * ?v < 2 ^ LENGTH('a)" .
  have "(le_word (b # bs) :: 'a word) = of_nat (unat b + 256 * ?v)"
    using v(1) by (simp flip: v(1))
  then have "unat (le_word (b # bs) :: 'a word) = unat b + 256 * ?v"
    using fit by (simp only: unat_of_nat) simp
  then show ?case
    using lt by simp
qed simp

lemma le_word_zero_iff:
  assumes "8 * length bs \<le> LENGTH('a)"
  shows "(le_word bs :: 'a::len word) = 0 \<longleftrightarrow> (\<forall>x \<in> set bs. x = 0)"
proof -
  have "(le_word bs :: 'a word) = 0 \<longleftrightarrow> foldr (\<lambda>b n. unat b + 256 * n) bs (0::nat) = 0"
    using unat_le_word [OF assms] by (metis unsigned_0 unsigned_eq_0_iff)
  also have "\<dots> \<longleftrightarrow> (\<forall>x \<in> set bs. x = 0)"
    by (induction bs) (auto simp: unat_eq_zero)
  finally show ?thesis .
qed

end
