(* ===== verification/Okr_Bitmap.thy ===== *)
theory Okr_Bitmap
  imports Okr_Prelude
begin

text \<open>
  The backup bitmap of \<^verbatim>\<open>src/OkrPkg/okrefi/func.c\<close>: one bit for every block of 64 sectors of a
  partition, kept as an array of bytes. \<open>MarkBit\<close> and \<open>ReadBit\<close> access one bit,
  \<open>GetDataToBitmap\<close> is the callback of the partition scan that marks the blocks a run of
  sectors touches, unless the run lies inside a file the backup leaves out.
\<close>

record SIZE_L =
  Begin :: u64
  Number :: u32

definition BLOCK_SIZE :: nat where "BLOCK_SIZE = 64"

definition bit_mask :: "u64 \<Rightarrow> byte" where
  "bit_mask block = push_bit (unat (block AND 7)) 1"

definition MarkBit :: "u64 \<Rightarrow> buf \<Rightarrow> buf option" where
  "MarkBit block bitmap =
     (let i = unat (drop_bit 3 block) in
      if i < length bitmap then Some (bitmap[i := bitmap ! i OR bit_mask block]) else None)"

definition ReadBit :: "u64 \<Rightarrow> buf \<Rightarrow> bool option" where
  "ReadBit block bitmap =
     (let i = unat (drop_bit 3 block) in
      if i < length bitmap then Some (bit_mask block AND bitmap ! i \<noteq> 0) else None)"


text \<open>The \<open>while (firstblk<=lastblk)\<close> loop; both bounds are quotients by 64, so they never wrap.\<close>

function mark_blocks :: "nat \<Rightarrow> nat \<Rightarrow> buf \<Rightarrow> buf option" where
  "mark_blocks firstblk lastblk bitmap =
     (if firstblk \<le> lastblk
      then do { bitmap' \<leftarrow> MarkBit (of_nat firstblk) bitmap;
                mark_blocks (Suc firstblk) lastblk bitmap' }
      else Some bitmap)"
  by pat_completeness auto
termination
  by (relation "measure (\<lambda>(firstblk, lastblk, bitmap). Suc lastblk - firstblk)") auto

declare mark_blocks.simps [simp del]

definition in_unused :: "u64 \<Rightarrow> u64 \<Rightarrow> SIZE_L \<Rightarrow> bool" where
  "in_unused sector num l \<longleftrightarrow>
     Begin l \<le> sector \<and> sector + num \<le> Begin l + ucast (Number l)"

definition GetDataToBitmap :: "SIZE_L list \<Rightarrow> u64 \<Rightarrow> u64 \<Rightarrow> buf \<Rightarrow> buf option" where
  "GetDataToBitmap unused sector num bitmap =
     (if list_ex (in_unused sector num) unused then Some bitmap
      else mark_blocks (unat (sector div 64)) (unat ((sector + num - 1) div 64)) bitmap)"

text \<open>\<open>find_lenght\<close>: whether \<open>requiredlength\<close> zero bytes occur between \<open>startindex\<close> and
  \<open>TotalLength\<close>; the loop stops at a non-zero byte once enough were seen.\<close>

function find_lenght_loop :: "buf \<Rightarrow> nat \<Rightarrow> nat \<Rightarrow> nat \<Rightarrow> nat \<Rightarrow> nat option" where
  "find_lenght_loop b i tot req j =
     (if i < tot
      then do { x \<leftarrow> rd8 b i;
                if x \<noteq> 0 then (if j \<ge> req then Some j else find_lenght_loop b (Suc i) tot req j)
                else find_lenght_loop b (Suc i) tot req (Suc j) }
      else Some j)"
  by pat_completeness auto
termination
  by (relation "measure (\<lambda>(b, i, tot, req, j). tot - i)") auto

declare find_lenght_loop.simps [simp del]

definition find_lenght :: "buf \<Rightarrow> u64 \<Rightarrow> u64 \<Rightarrow> u64 \<Rightarrow> int option" where
  "find_lenght b startindex TotalLength requiredlength =
     do { j \<leftarrow> find_lenght_loop b (unat startindex) (unat TotalLength) (unat requiredlength) 0;
          Some (if j \<ge> unat requiredlength then 1 else 0) }"

section \<open>One bit\<close>

lemma unat_drop_bit_3: "unat (drop_bit 3 (block :: u64)) = unat block div 8"
  by (simp add: unat_drop_bit_eq drop_bit_eq_div)

lemma unat_and_7: "unat (block AND 7 :: u64) = unat block mod 8"
proof -
  have "block AND 7 = take_bit 3 block"
    by (simp add: take_bit_eq_mask mask_eq_exp_minus_1)
  then show ?thesis
    by (simp add: take_bit_eq_mod unat_mod_distrib)
qed

lemma bit_mask_iff: "bit (bit_mask block) n \<longleftrightarrow> n = unat block mod 8"
  by (auto simp: bit_mask_def unat_and_7 bit_simps)

lemma bit_mask_and_iff: "bit_mask block AND x \<noteq> 0 \<longleftrightarrow> bit x (unat block mod 8)"
proof
  assume "bit_mask block AND x \<noteq> 0"
  then obtain n where "bit (bit_mask block AND x) n"
    by (auto simp: bit_eq_iff)
  then show "bit x (unat block mod 8)"
    by (auto simp: bit_simps bit_mask_iff)
next
  assume "bit x (unat block mod 8)"
  then have "bit (bit_mask block AND x) (unat block mod 8)"
    by (simp add: bit_simps bit_mask_iff)
  then show "bit_mask block AND x \<noteq> 0"
    by auto
qed

lemma ReadBit_alt:
  "ReadBit block bm =
     (if unat block div 8 < length bm then Some (bit (bm ! (unat block div 8)) (unat block mod 8))
      else None)"
  by (simp add: ReadBit_def Let_def unat_drop_bit_3 bit_mask_and_iff)

lemma MarkBit_alt:
  "MarkBit block bm =
     (if unat block div 8 < length bm
      then Some (bm[unat block div 8 := bm ! (unat block div 8) OR bit_mask block]) else None)"
  by (simp add: MarkBit_def Let_def unat_drop_bit_3)


section \<open>The interface of a bit store\<close>

text \<open>
  What the scan, the backup and the restore rely on: a store of \<open>cap s\<close> bits in which marking a
  bit sets it and leaves every other bit alone. \<open>mark_all\<close> marks a list of positions in order.
\<close>

fun mark_all :: "(nat \<Rightarrow> 's \<Rightarrow> 's option) \<Rightarrow> nat list \<Rightarrow> 's \<Rightarrow> 's option" where
  "mark_all mark [] s = Some s"
| "mark_all mark (n # ns) s = do { s' \<leftarrow> mark n s; mark_all mark ns s' }"

locale bit_store =
  fixes mark :: "nat \<Rightarrow> 's \<Rightarrow> 's option"
    and read :: "nat \<Rightarrow> 's \<Rightarrow> bool option"
    and cap :: "'s \<Rightarrow> nat"
  assumes mark_total: "n < cap s \<Longrightarrow> \<exists>s'. mark n s = Some s'"
    and mark_cap: "mark n s = Some s' \<Longrightarrow> cap s' = cap s"
    and read_total: "n < cap s \<Longrightarrow> \<exists>v. read n s = Some v"
    and read_mark: "\<lbrakk>mark n s = Some s'; n < cap s; m < cap s\<rbrakk>
      \<Longrightarrow> read m s' = (if m = n then Some True else read m s)"
begin

lemma mark_all_total:
  "\<forall>n\<in>set ns. n < cap s \<Longrightarrow> \<exists>s'. mark_all mark ns s = Some s'"
proof (induction ns arbitrary: s)
  case (Cons n ns)
  then obtain s1 where s1: "mark n s = Some s1"
    using mark_total [of n s] by auto
  with Cons.prems have "\<forall>k\<in>set ns. k < cap s1"
    by (simp add: mark_cap)
  with Cons.IH s1 show ?case by auto
qed simp

lemma mark_all_cap: "mark_all mark ns s = Some s' \<Longrightarrow> cap s' = cap s"
  by (induction ns arbitrary: s) (auto simp: option_simps dest: mark_cap)

lemma read_mark_all:
  "\<lbrakk>mark_all mark ns s = Some s'; \<forall>n\<in>set ns. n < cap s; m < cap s\<rbrakk>
    \<Longrightarrow> read m s' = (if m \<in> set ns then Some True else read m s)"
proof (induction ns arbitrary: s)
  case (Cons n ns)
  then obtain s1 where s1: "mark n s = Some s1" "mark_all mark ns s1 = Some s'"
    by (auto simp: option_simps)
  then have "cap s1 = cap s"
    by (simp add: mark_cap)
  with Cons s1 show ?case
    by (auto simp: read_mark)
qed simp

end

text \<open>The byte array implements the interface; positions are 64-bit block numbers.\<close>

definition bm_cap :: "buf \<Rightarrow> nat" where
  "bm_cap bm = min (8 * length bm) (2 ^ 64)"

abbreviation mark_nat :: "nat \<Rightarrow> buf \<Rightarrow> buf option" where
  "mark_nat n \<equiv> MarkBit (of_nat n)"

abbreviation read_nat :: "nat \<Rightarrow> buf \<Rightarrow> bool option" where
  "read_nat n \<equiv> ReadBit (of_nat n)"

lemma unat_block: "n < bm_cap bm \<Longrightarrow> unat (of_nat n :: u64) = n"
  by (simp add: bm_cap_def unat_of_nat take_bit_nat_eq_self)

lemma bm_cap_index: "n < bm_cap bm \<Longrightarrow> n div 8 < length bm"
  by (auto simp: bm_cap_def)

lemma MarkBit_length: "MarkBit b bm = Some bm' \<Longrightarrow> length bm' = length bm"
  by (auto simp: MarkBit_alt split: if_splits)

lemma nat_eq_div_mod_8: "(m :: nat) = n \<longleftrightarrow> m div 8 = n div 8 \<and> m mod 8 = n mod 8"
  by (metis div_mult_mod_eq)

lemma read_mark_nat:
  assumes "mark_nat n bm = Some bm'" "n < bm_cap bm" "m < bm_cap bm"
  shows "read_nat m bm' = (if m = n then Some True else read_nat m bm)"
proof -
  have bm': "bm' = bm[n div 8 := bm ! (n div 8) OR bit_mask (of_nat n)]"
    using assms by (auto simp: MarkBit_alt unat_block split: if_splits)
  have "n div 8 < length bm" "m div 8 < length bm"
    using assms bm_cap_index by auto
  then show ?thesis
    using assms bm' unat_block [of m bm] unat_block [of n bm] nat_eq_div_mod_8 [of m n]
    by (auto simp: ReadBit_alt bit_simps bit_mask_iff nth_list_update)
qed

interpretation bm: bit_store mark_nat read_nat bm_cap
proof unfold_locales
  show "\<exists>s'. mark_nat n s = Some s'" if "n < bm_cap s" for n and s :: buf
    using that bm_cap_index [OF that] by (simp add: MarkBit_alt unat_block)
  show "bm_cap s' = bm_cap s" if "mark_nat n s = Some s'" for n and s s' :: buf
    using MarkBit_length [OF that] by (simp add: bm_cap_def)
  show "\<exists>v. read_nat n s = Some v" if "n < bm_cap s" for n and s :: buf
    using that bm_cap_index [OF that] by (simp add: ReadBit_alt unat_block)
qed (rule read_mark_nat)

section \<open>Marking the blocks of a run of sectors\<close>

lemma mark_blocks_mark_all:
  "mark_blocks firstblk lastblk bm = mark_all mark_nat [firstblk..<Suc lastblk] bm"
proof (induction firstblk lastblk bm rule: mark_blocks.induct)
  case (1 firstblk lastblk bm)
  show ?case
  proof (cases "firstblk \<le> lastblk")
    case True
    then have "[firstblk..<Suc lastblk] = firstblk # [Suc firstblk..<Suc lastblk]"
      by (simp add: upt_conv_Cons)
    with True 1 show ?thesis
      by (cases "MarkBit (of_nat firstblk) bm")
        (simp_all add: mark_blocks.simps [of firstblk lastblk bm])
  next
    case False
    then show ?thesis by (simp add: mark_blocks.simps [of firstblk lastblk bm])
  qed
qed


lemma mark_all_length: "mark_all mark_nat ns bm = Some bm' \<Longrightarrow> length bm' = length bm"
  by (induction ns arbitrary: bm) (auto simp: option_simps dest: MarkBit_length)

lemma block_of_range:
  fixes a n k :: nat
  assumes "0 < n"
  shows "(a div 64 \<le> k \<and> k \<le> (a + n - 1) div 64) \<longleftrightarrow> (\<exists>s. a \<le> s \<and> s < a + n \<and> s div 64 = k)"
proof
  assume k: "a div 64 \<le> k \<and> k \<le> (a + n - 1) div 64"
  show "\<exists>s. a \<le> s \<and> s < a + n \<and> s div 64 = k"
  proof (cases "a \<le> 64 * k")
    case True
    have "64 * k \<le> a + n - 1"
      using k by (simp add: less_eq_div_iff_mult_less_eq mult.commute)
    with True assms show ?thesis
      by (intro exI [of _ "64 * k"]) auto
  next
    case False
    then have "a div 64 = k"
      using k by (intro antisym) auto
    with assms show ?thesis
      by (intro exI [of _ a]) auto
  qed
next
  assume "\<exists>s. a \<le> s \<and> s < a + n \<and> s div 64 = k"
  then show "a div 64 \<le> k \<and> k \<le> (a + n - 1) div 64"
    by (auto intro: div_le_mono)
qed

text \<open>\<open>touches a n k\<close>: block \<open>k\<close> holds one of the sectors \<open>a, \<dots>, a + n - 1\<close>.\<close>

definition touches :: "nat \<Rightarrow> nat \<Rightarrow> nat \<Rightarrow> bool" where
  "touches a n k \<longleftrightarrow> (\<exists>s. a \<le> s \<and> s < a + n \<and> s div 64 = k)"

lemma GetDataToBitmap_marks:
  assumes "\<not> list_ex (in_unused sector num) unused"
    and "0 < unat num"
    and "unat sector + unat num \<le> 64 * bm_cap bm"
    and "unat sector + unat num < 2 ^ 64"
  shows "\<exists>bm'. GetDataToBitmap unused sector num bm = Some bm' \<and> length bm' = length bm \<and>
    (\<forall>k < bm_cap bm. read_nat k bm' =
       (if touches (unat sector) (unat num) k then Some True else read_nat k bm))"
proof -
  let ?a = "unat sector" and ?n = "unat num"
  let ?ns = "[?a div 64..<Suc ((?a + ?n - 1) div 64)]"
  have "unat (sector + num) = ?a + ?n"
    using assms(4) by (simp add: unat_add_no_wrap)
  moreover have "1 \<le> sector + num"
    using assms(2) calculation by (simp add: word_le_nat_alt)
  ultimately have last: "unat (sector + num - 1) = ?a + ?n - 1"
    using unat_sub_no_wrap [of 1 "sector + num"] by (simp add: word_le_nat_alt)
  have eq: "GetDataToBitmap unused sector num bm = mark_all mark_nat ?ns bm"
    using assms(1) last by (simp add: GetDataToBitmap_def mark_blocks_mark_all)
  have cap: "\<forall>k\<in>set ?ns. k < bm_cap bm"
    using assms(2,3) by auto
  then obtain bm' where bm': "mark_all mark_nat ?ns bm = Some bm'"
    using bm.mark_all_total by blast
  have "k \<in> set ?ns \<longleftrightarrow> touches ?a ?n k" for k
    unfolding touches_def using block_of_range [OF assms(2), of ?a k] by (simp only: set_upt atLeastLessThan_iff less_Suc_eq_le)
  with eq bm' show ?thesis
    using mark_all_length [OF bm'] bm.read_mark_all [OF bm' cap] by auto
qed

lemma GetDataToBitmap_effect:
  assumes "0 < unat num"
    and "unat sector + unat num \<le> 64 * bm_cap bm"
    and "unat sector + unat num < 2 ^ 64"
  shows "\<exists>bm'. GetDataToBitmap unused sector num bm = Some bm' \<and> length bm' = length bm \<and>
    (\<forall>k < bm_cap bm. read_nat k bm' =
       (if \<not> list_ex (in_unused sector num) unused \<and> touches (unat sector) (unat num) k
        then Some True else read_nat k bm))"
proof (cases "list_ex (in_unused sector num) unused")
  case True
  then show ?thesis by (simp add: GetDataToBitmap_def)
next
  case False
  then show ?thesis
    using GetDataToBitmap_marks [OF False assms] by auto
qed

text \<open>
  C14. \<open>GetDataToBitmap\<close> (func.c) on a non-empty run of sectors that fits the bitmap: it returns
  and keeps the size of the bitmap; unless the run lies inside a file left out of the backup it
  sets the bit of every 64-sector block the run touches; it leaves every other bit as it was.
\<close>

theorem GetDataToBitmap_marks_exactly:
  assumes "0 < unat num"
    and "unat sector + unat num \<le> 64 * bm_cap bm"
    and "unat sector + unat num < 2 ^ 64"
  shows "\<exists>bm'. GetDataToBitmap unused sector num bm = Some bm' \<and> length bm' = length bm \<and>
    (\<forall>k < bm_cap bm. read_nat k bm' =
       (if \<not> list_ex (in_unused sector num) unused \<and> touches (unat sector) (unat num) k
        then Some True else read_nat k bm))"
  by (rule GetDataToBitmap_effect [OF assms])

theorem GetDataToBitmap_marks_exactly_witness:
  "\<exists>bm'. GetDataToBitmap [\<lparr>Begin = 0, Number = 8\<rparr>] 60 8 [0] = Some bm' \<and> length bm' = length [0 :: byte] \<and>
    (\<forall>k < bm_cap [0]. read_nat k bm' =
       (if \<not> list_ex (in_unused 60 8) [\<lparr>Begin = 0, Number = 8\<rparr>]
           \<and> touches (unat (60 :: u64)) (unat (8 :: u64)) k
        then Some True else read_nat k [0]))"
  by (rule GetDataToBitmap_marks_exactly) (simp_all add: bm_cap_def)

section \<open>Searching zero bytes\<close>

lemma find_lenght_loop_count:
  assumes "tot \<le> length b"
  shows "\<exists>j'. find_lenght_loop b i tot req j = Some j' \<and>
    (req \<le> j' \<longleftrightarrow> req \<le> j + length (filter (\<lambda>x. x = 0) (take (tot - i) (drop i b))))"
  using assms
proof (induction b i tot req j rule: find_lenght_loop.induct)
  case (1 b i tot req j)
  show ?case
  proof (cases "i < tot")
    case True
    then have split: "take (tot - i) (drop i b) = b ! i # take (tot - Suc i) (drop (Suc i) b)"
      using 1(3) by (metis Cons_nth_drop_Suc Suc_diff_Suc order_less_le_trans take_Suc_Cons)
    have rd: "rd8 b i = Some (b ! i)"
      using True 1(3) by (simp add: rd8_def)
    consider (z) "b ! i = 0" | (stop) "b ! i \<noteq> 0" "req \<le> j" | (go) "b ! i \<noteq> 0" "\<not> req \<le> j"
      by blast
    then show ?thesis
    proof cases
      case z
      then show ?thesis
        using 1(2) [OF True rd] 1(3) True rd split
        by (auto simp: find_lenght_loop.simps [of b i tot req j])
    next
      case stop
      then show ?thesis
        using True rd split by (simp add: find_lenght_loop.simps [of b i tot req j])
    next
      case go
      then show ?thesis
        using 1(1) [OF True rd] 1(3) True rd split
        by (auto simp: find_lenght_loop.simps [of b i tot req j])
    qed
  next
    case False
    then show ?thesis by (simp add: find_lenght_loop.simps [of b i tot req j])
  qed
qed

text \<open>
  \<open>find_lenght\<close> (func.c) answers whether at least \<open>requiredlength\<close> zero bytes occur between
  \<open>startindex\<close> and \<open>TotalLength\<close>, adjacent or not: the counter is not reset by a non-zero byte.
\<close>

theorem find_lenght_counts_zeros:
  assumes "unat TotalLength \<le> length b"
  shows "find_lenght b startindex TotalLength requiredlength =
    Some (if unat requiredlength \<le> length (filter (\<lambda>x. x = 0)
            (take (unat TotalLength - unat startindex) (drop (unat startindex) b))) then 1 else 0)"
  using find_lenght_loop_count [OF assms, of "unat startindex" "unat requiredlength" 0]
  by (auto simp: find_lenght_def)

theorem find_lenght_counts_zeros_witness:
  "find_lenght [0, 5, 0] 0 3 2 =
    Some (if unat (2 :: u64) \<le> length (filter (\<lambda>x. x = 0)
            (take (unat (3 :: u64) - unat (0 :: u64)) (drop (unat (0 :: u64)) [0, 5, 0 :: byte]))) then 1 else 0)"
  by (rule find_lenght_counts_zeros) simp

end
