(* ===== verification/Okr_DiskIo.thy ===== *)
theory Okr_DiskIo
  imports Okr_Prelude
begin

text \<open>
  Sector I/O of \<^verbatim>\<open>src/OkrPkg/okrefi/utils.c\<close>: \<open>DiskRead\<close>, \<open>DiskWrite\<close>, \<open>DiskFlush\<close> and the
  request-merging layer \<open>SmartDiskIo\<close>.

  The firmware's \<open>EFI_BLOCK_IO\<close> protocol is not part of the repository. It is the parameter
  \<open>disk_env\<close> over an abstract device state \<open>'d\<close>: a read gives the bytes or an error status, a
  write and a flush give the new device state and whether they succeeded. What the program
  relies on is stated by the hypotheses \<open>reads_sectors\<close> and \<open>writes_sectors\<close>: blocks are read
  back as they are stored, and a write replaces exactly the blocks it names.
  A buffer pointer is an offset into the caller's memory. \<open>AllocatePool\<close> gives a block of memory
  with arbitrary contents, or fails. The fields of \<open>CONTINUE_RWDISK_INFO\<close> carry the prefix \<open>rw\<close>.
\<close>

record 'd disk_env =
  ReadBlocks :: "'d \<Rightarrow> u16 \<Rightarrow> u64 \<Rightarrow> u32 \<Rightarrow> buf option"
  WriteBlocks :: "'d \<Rightarrow> u16 \<Rightarrow> u64 \<Rightarrow> buf \<Rightarrow> 'd \<times> bool"
  FlushBlocks :: "'d \<Rightarrow> u16 \<Rightarrow> 'd \<times> bool"
  g_disknum :: u16
  AllocatePool :: "'d \<Rightarrow> nat \<Rightarrow> buf option"

record CONTINUE_RWDISK_INFO =
  rwFunc :: byte
  rwDiskNumber :: byte
  rwNumber :: u32
  rwSector :: u64
  rwBuffer :: nat

definition COMMAND_READ :: byte where "COMMAND_READ = 2"
definition COMMAND_WRITE :: byte where "COMMAND_WRITE = 3"

text \<open>\<open>DiskRead\<close>: on an error \<open>FALSE\<close> is returned; the buffer is taken to be left alone by the firmware then.\<close>

definition DiskRead ::
  "'d disk_env \<Rightarrow> 'd \<Rightarrow> u16 \<Rightarrow> u64 \<Rightarrow> u32 \<Rightarrow> buf \<Rightarrow> nat \<Rightarrow> (bool \<times> buf) option" where
  "DiskRead env d diskindex sector num mem buffer =
     (if g_disknum env \<le> diskindex then Some (False, mem)
      else case ReadBlocks env d diskindex sector (512 * num) of
        None \<Rightarrow> Some (False, mem)
      | Some bytes \<Rightarrow> do { mem' \<leftarrow> put mem buffer bytes; Some (True, mem') })"

definition DiskWrite ::
  "'d disk_env \<Rightarrow> 'd \<Rightarrow> u16 \<Rightarrow> u64 \<Rightarrow> u32 \<Rightarrow> buf \<Rightarrow> nat \<Rightarrow> (bool \<times> 'd) option" where
  "DiskWrite env d diskindex sector num mem buffer =
     (if g_disknum env \<le> diskindex then Some (False, d)
      else do { bytes \<leftarrow> slice mem buffer (unat (512 * num));
                Some (case WriteBlocks env d diskindex sector bytes of (d', ok) \<Rightarrow> (ok, d')) })"

definition DiskFlush :: "'d disk_env \<Rightarrow> 'd \<Rightarrow> u16 \<Rightarrow> bool \<times> 'd" where
  "DiskFlush env d diskindex =
     (if g_disknum env \<le> diskindex then (False, d)
      else case FlushBlocks env d diskindex of (d', ok) \<Rightarrow> (ok, d'))"

definition SmartDiskIoInit :: "byte \<Rightarrow> byte \<Rightarrow> CONTINUE_RWDISK_INFO" where
  "SmartDiskIoInit disk readorwrite =
     \<lparr>rwFunc = readorwrite, rwDiskNumber = disk, rwNumber = 0, rwSector = 0, rwBuffer = 0\<rparr>"

text \<open>One transfer of the inner loop; with a command that is neither read nor write the C code
  tests an uninitialised variable.\<close>

definition smart_xfer ::
  "'d disk_env \<Rightarrow> byte \<Rightarrow> byte \<Rightarrow> u64 \<Rightarrow> u32 \<Rightarrow> nat \<Rightarrow> 'd \<times> buf \<Rightarrow> (bool \<times> 'd \<times> buf) option" where
  "smart_xfer env func disk sector count buffer st = (case st of (d, mem) \<Rightarrow>
     if func = COMMAND_READ
     then do { (ret, mem') \<leftarrow> DiskRead env d (ucast disk) sector count mem buffer;
               Some (ret, d, mem') }
     else if func = COMMAND_WRITE
     then do { (ret, d') \<leftarrow> DiskWrite env d (ucast disk) sector count mem buffer;
               Some (ret, d', mem) }
     else None)"

text \<open>The loop \<open>while(info->Number)\<close>: at most 2048 sectors per call, stopping at the first error.\<close>

function smart_flush ::
  "'d disk_env \<Rightarrow> byte \<Rightarrow> byte \<Rightarrow> u64 \<Rightarrow> u32 \<Rightarrow> nat \<Rightarrow> 'd \<times> buf \<Rightarrow> (bool \<times> 'd \<times> buf) option" where
  "smart_flush env func disk sector number buffer st =
     (if number = 0 then Some (True, st)
      else let count = (if number > 2048 then 2048 else number) in
        do { (ret, st') \<leftarrow> smart_xfer env func disk sector count buffer st;
             if \<not> ret then Some (False, st')
             else smart_flush env func disk (sector + ucast count) (number - count)
                    (buffer + unat count * 512) st' })"
  by pat_completeness auto
termination
proof (relation "measure (\<lambda>(env, func, disk, sector, number, buffer, st). unat number)", goal_cases)
  case (2 env func disk sector number buffer st count x ret st')
  then have "0 < unat count" "unat count \<le> unat number"
    by (auto simp: word_less_nat_alt word_le_nat_alt unat_gt_0 split: if_splits)
  then show ?case by (simp add: unat_sub_no_wrap)
qed simp

declare smart_flush.simps [simp del]

definition SmartDiskIo ::
  "'d disk_env \<Rightarrow> CONTINUE_RWDISK_INFO \<Rightarrow> u64 \<Rightarrow> u32 \<Rightarrow> nat \<Rightarrow> 'd \<times> buf
   \<Rightarrow> (bool \<times> CONTINUE_RWDISK_INFO \<times> 'd \<times> buf) option" where
  "SmartDiskIo env info sector number buffer st =
     (let fresh = info\<lparr>rwSector := sector, rwNumber := number, rwBuffer := buffer\<rparr> in
      if rwNumber info = 0 then Some (True, fresh, st)
      else if number \<noteq> 0 \<and> sector = rwSector info + ucast (rwNumber info)
      then Some (True, info\<lparr>rwNumber := rwNumber info + number\<rparr>, st)
      else do { (ret, st') \<leftarrow> smart_flush env (rwFunc info) (rwDiskNumber info) (rwSector info)
                  (rwNumber info) (rwBuffer info) st;
                Some (ret, fresh, st') })"

text \<open>The callers' pattern (\<open>DiskReadThread\<close>, \<open>DiskWriteThread\<close>): requests with adjacent
  buffers, their results not looked at, then a call with number 0 to write out what is pending.\<close>

fun smart_requests ::
  "'d disk_env \<Rightarrow> CONTINUE_RWDISK_INFO \<Rightarrow> (u64 \<times> u32) list \<Rightarrow> nat \<Rightarrow> 'd \<times> buf
   \<Rightarrow> (bool \<times> CONTINUE_RWDISK_INFO \<times> 'd \<times> buf) option" where
  "smart_requests env info [] buffer st = SmartDiskIo env info 0 0 0 st"
| "smart_requests env info ((sector, number) # reqs) buffer st =
     do { (_, info', st') \<leftarrow> SmartDiskIo env info sector number buffer st;
          smart_requests env info' reqs (buffer + 512 * unat number) st' }"

lemma DiskRead_length: "DiskRead env d k lba n mem off = Some (ok, mem') \<Longrightarrow> length mem' = length mem"
  by (auto simp: DiskRead_def option_simps dest: put_length split: if_splits option.splits)

section \<open>What the block device promises\<close>

definition reads_sectors ::
  "'d disk_env \<Rightarrow> ('d \<Rightarrow> u16 \<Rightarrow> nat \<Rightarrow> buf) \<Rightarrow> u16 \<Rightarrow> nat \<Rightarrow> bool" where
  "reads_sectors env sec k tot \<longleftrightarrow>
     (\<forall>d i. length (sec d k i) = 512) \<and>
     (\<forall>d lba n. 0 < unat n \<and> unat n \<le> 2048 \<and> unat lba + unat n \<le> tot \<longrightarrow>
        ReadBlocks env d k lba (512 * n) =
          Some (concat (map (sec d k) [unat lba..<unat lba + unat n])))"

definition store_sectors :: "(nat \<Rightarrow> buf) \<Rightarrow> nat \<Rightarrow> buf \<Rightarrow> nat \<Rightarrow> buf" where
  "store_sectors f s bytes i =
     (if s \<le> i \<and> i < s + length bytes div 512 then take 512 (drop (512 * (i - s)) bytes) else f i)"

definition writes_sectors ::
  "'d disk_env \<Rightarrow> ('d \<Rightarrow> u16 \<Rightarrow> nat \<Rightarrow> buf) \<Rightarrow> u16 \<Rightarrow> nat \<Rightarrow> bool" where
  "writes_sectors env sec k tot \<longleftrightarrow>
     (\<forall>d lba bytes. 0 < length bytes \<and> length bytes \<le> 512 * 2048 \<and> 512 dvd length bytes \<and>
        unat lba + length bytes div 512 \<le> tot \<longrightarrow>
        (\<exists>d'. WriteBlocks env d k lba bytes = (d', True) \<and>
              sec d' k = store_sectors (sec d k) (unat lba) bytes))"

section \<open>Merging requests\<close>

text \<open>
  The merging layer does not depend on the direction of the transfer. Seen through an abstraction
  \<open>absf\<close> of the state, it is correct for every effect that is additive in the number of sectors
  and is implemented by \<open>smart_xfer\<close> for up to 2048 sectors. \<open>effs\<close> is the effect of a list of
  requests performed one by one.
\<close>

type_synonym 's effect = "nat \<Rightarrow> nat \<Rightarrow> nat \<Rightarrow> 's \<Rightarrow> 's option"

fun effs :: "'s effect \<Rightarrow> (nat \<times> nat) list \<Rightarrow> nat \<Rightarrow> 's \<Rightarrow> 's option" where
  "effs eff [] b st = Some st"
| "effs eff ((s, n) # rs) b st = do { st' \<leftarrow> eff s n b st; effs eff rs (b + 512 * n) st' }"

definition additive :: "'s effect \<Rightarrow> bool" where
  "additive eff \<longleftrightarrow>
     (\<forall>s b st st'. eff s 0 b st = Some st' \<longrightarrow> st' = st) \<and>
     (\<forall>s m n b st. eff s (m + n) b st =
        do { st' \<leftarrow> eff s m b st; eff (s + m) n (b + 512 * m) st' })"

definition xfer_implements ::
  "('d \<times> buf \<Rightarrow> 's) \<Rightarrow> 'd disk_env \<Rightarrow> byte \<Rightarrow> byte \<Rightarrow> nat \<Rightarrow> 's effect \<Rightarrow> bool" where
  "xfer_implements absf env func disk tot eff \<longleftrightarrow>
     (\<forall>s n b st a. 0 < n \<and> n \<le> 2048 \<and> s + n \<le> tot \<and> eff s n b (absf st) = Some a \<longrightarrow>
        (\<exists>st'. smart_xfer env func disk (of_nat s) (of_nat n) b st = Some (True, st') \<and> absf st' = a))"

lemma additive_zero: "additive eff \<Longrightarrow> eff s 0 b st = Some st' \<Longrightarrow> st' = st"
  by (auto simp: additive_def)

lemma additive_add:
  "additive eff \<Longrightarrow> eff s (m + n) b st =
    do { st' \<leftarrow> eff s m b st; eff (s + m) n (b + 512 * m) st' }"
  unfolding additive_def by blast

lemma smart_flush_correct:
  assumes add: "additive eff" and impl: "xfer_implements absf env func disk tot eff"
    and "tot < 2 ^ 64"
  shows "eff s n b (absf st) = Some a \<Longrightarrow> s + n \<le> tot \<Longrightarrow> n < 2 ^ 32 \<Longrightarrow>
    \<exists>st'. smart_flush env func disk (of_nat s) (of_nat n) b st = Some (True, st') \<and> absf st' = a"
proof (induction n arbitrary: s b st rule: less_induct)
  case (less n)
  show ?case
  proof (cases "n = 0")
    case True
    then have "a = absf st"
      using additive_zero [OF add] less.prems(1) by blast
    with True show ?thesis by (simp add: smart_flush.simps)
  next
    case False
    let ?c = "min n 2048"
    have c: "0 < ?c" "?c \<le> n" "?c < 2 ^ 32" "?c + (n - ?c) = n" "n - ?c < n"
        "n - ?c < 2 ^ 32"
      using False less.prems(3) by auto
    have n: "unat (of_nat n :: u32) = n"
      using less.prems by (simp add: unat_of_nat take_bit_nat_eq_self)
    have cnt: "(if (of_nat n :: u32) > 2048 then 2048 else of_nat n) = (of_nat ?c :: u32)"
      using n by (auto simp: word_less_nat_alt min_def)
    have uc: "unat (of_nat ?c :: u32) = ?c"
      using c by (simp add: unat_of_nat take_bit_nat_eq_self)
    obtain a1 where a1: "eff s ?c b (absf st) = Some a1"
        "eff (s + ?c) (n - ?c) (b + 512 * ?c) a1 = Some a"
      using less.prems(1) additive_add [OF add, of s ?c "n - ?c" b "absf st"] c(4)
      by (auto simp: option_simps)
    obtain st1 where st1: "smart_xfer env func disk (of_nat s) (of_nat ?c) b st = Some (True, st1)"
        "absf st1 = a1"
      using impl [unfolded xfer_implements_def, rule_format, of ?c s b st a1] a1(1) c less.prems(2)
      by auto
    obtain st' where st': "smart_flush env func disk (of_nat (s + ?c)) (of_nat (n - ?c))
        (b + 512 * ?c) st1 = Some (True, st')" "absf st' = a"
      using less.IH [OF c(5), of "s + ?c" "b + 512 * ?c" st1] a1(2) st1(2) c(4,6) less.prems(2) by auto
    have "(of_nat s :: u64) + ucast (of_nat ?c :: u32) = of_nat (s + ?c)"
      using ucast_unat_eq [OF uc, where 'b = 64] by simp
    moreover have "(of_nat n :: u32) - of_nat ?c = of_nat (n - ?c)"
      using c by (simp add: of_nat_diff)
    ultimately have "smart_flush env func disk (of_nat s) (of_nat n) b st = Some (True, st')"
      using False n st1 st'(1) cnt uc
      by (subst smart_flush.simps) (auto simp: Let_def mult.commute unat_eq_0)
    with st'(2) show ?thesis by blast
  qed
qed

text \<open>The requests, as numbers, with what the pending request still has to do in front.\<close>

definition reqs_ok :: "nat \<Rightarrow> (u64 \<times> u32) list \<Rightarrow> bool" where
  "reqs_ok tot reqs \<longleftrightarrow> (\<forall>(s, n)\<in>set reqs. 0 < unat n \<and> unat s + unat n \<le> tot) \<and>
     sum_list (map (unat \<circ> snd) reqs) < 2 ^ 32"

definition reqs_nat :: "(u64 \<times> u32) list \<Rightarrow> (nat \<times> nat) list" where
  "reqs_nat reqs = map (\<lambda>(s, n). (unat s, unat n)) reqs"

text \<open>The same with every result looked at, as the restore does it; a failed call is \<open>None\<close>.\<close>

fun smart_strict ::
  "'d disk_env \<Rightarrow> CONTINUE_RWDISK_INFO \<Rightarrow> (u64 \<times> u32) list \<Rightarrow> nat \<Rightarrow> 'd \<times> buf
   \<Rightarrow> (CONTINUE_RWDISK_INFO \<times> 'd \<times> buf) option" where
  "smart_strict env info [] buffer st =
     do { (ret, info', st') \<leftarrow> SmartDiskIo env info 0 0 0 st; if ret then Some (info', st') else None }"
| "smart_strict env info ((sector, number) # reqs) buffer st =
     do { (ret, info', st') \<leftarrow> SmartDiskIo env info sector number buffer st;
          if ret then smart_strict env info' reqs (buffer + 512 * unat number) st' else None }"

lemma smart_strict_requests:
  "smart_strict env info reqs buffer st = Some r \<Longrightarrow> smart_requests env info reqs buffer st = Some (True, r)"
  by (induction reqs arbitrary: info buffer st) (auto elim!: bind_SomeE split: if_splits)

text \<open>No request is pending.\<close>

definition idle :: "byte \<Rightarrow> byte \<Rightarrow> CONTINUE_RWDISK_INFO \<Rightarrow> bool" where
  "idle func disk info \<longleftrightarrow> rwNumber info = 0 \<and> rwFunc info = func \<and> rwDiskNumber info = disk"

lemma idle_init [simp]: "idle func disk (SmartDiskIoInit disk func)"
  by (simp add: idle_def SmartDiskIoInit_def)

lemma smart_strict_pending:
  assumes add: "additive eff" and impl: "xfer_implements absf env func disk tot eff"
    and tot: "tot < 2 ^ 64"
  shows "\<lbrakk>effs eff ((unat (rwSector info), unat (rwNumber info)) # reqs_nat reqs) (rwBuffer info) (absf st) = Some a;
      rwFunc info = func; rwDiskNumber info = disk; rwNumber info \<noteq> 0;
      unat (rwSector info) + unat (rwNumber info) \<le> tot;
      \<forall>(s, n)\<in>set reqs. 0 < unat n \<and> unat s + unat n \<le> tot;
      unat (rwNumber info) + sum_list (map (unat \<circ> snd) reqs) < 2 ^ 32;
      buffer = rwBuffer info + 512 * unat (rwNumber info)\<rbrakk>
    \<Longrightarrow> \<exists>info' st'. smart_strict env info reqs buffer st = Some (info', st') \<and> absf st' = a \<and> idle func disk info'"
proof (induction reqs arbitrary: info buffer st)
  case Nil
  then obtain st' where
    "smart_flush env func disk (rwSector info) (rwNumber info) (rwBuffer info) st = Some (True, st')" "absf st' = a"
    using smart_flush_correct [OF add impl tot, of "unat (rwSector info)" "unat (rwNumber info)"
        "rwBuffer info" st a] by (auto simp: reqs_nat_def option_simps)
  with Nil show ?case
    by (auto simp: SmartDiskIo_def Let_def idle_def)
next
  case (Cons r reqs)
  obtain s n where r: "r = (s, n)" by force
  have n: "0 < unat n" "n \<noteq> 0" "unat s + unat n \<le> tot"
    using Cons.prems r by auto
  have sumlt: "unat (rwNumber info) + unat n + sum_list (map (unat \<circ> snd) reqs) < 2 ^ 32"
    using Cons.prems r by (simp add: comp_def)
  show ?case
  proof (cases "s = rwSector info + ucast (rwNumber info)")
    case True
    let ?i = "info\<lparr>rwNumber := rwNumber info + n\<rparr>"
    have us: "unat s = unat (rwSector info) + unat (rwNumber info)"
      using True Cons.prems(5) tot by (simp add: unat_add_no_wrap)
    have un: "unat (rwNumber info + n) = unat (rwNumber info) + unat n"
      using sumlt by (simp add: unat_add_no_wrap)
    have eff: "effs eff ((unat (rwSector ?i), unat (rwNumber ?i)) # reqs_nat reqs) (rwBuffer ?i) (absf st) = Some a"
      using Cons.prems(1) r us un
      by (auto simp: reqs_nat_def additive_add [OF add] option_simps add_mult_distrib2 add.assoc)
    have nz: "rwNumber info + n \<noteq> 0"
      using un n by (metis add_gr_0 less_numeral_extra(3) unat_0)
    have "\<exists>info' st'. smart_strict env ?i reqs (buffer + 512 * unat n) st = Some (info', st')
        \<and> absf st' = a \<and> idle func disk info'"
      by (rule Cons.IH [OF eff]) (use Cons.prems n us un sumlt nz in \<open>auto simp: algebra_simps comp_def\<close>)
    with True n(2) Cons.prems r show ?thesis
      by (simp add: SmartDiskIo_def Let_def)
  next
    case False
    obtain a1 where a1: "eff (unat (rwSector info)) (unat (rwNumber info)) (rwBuffer info) (absf st) = Some a1"
        "effs eff ((unat s, unat n) # reqs_nat reqs) buffer a1 = Some a"
      using Cons.prems r by (auto simp: reqs_nat_def option_simps)
    obtain st1 where fl: "smart_flush env func disk (rwSector info) (rwNumber info) (rwBuffer info) st
        = Some (True, st1)" "absf st1 = a1"
      using smart_flush_correct [OF add impl tot a1(1)] Cons.prems by auto
    let ?i = "info\<lparr>rwSector := s, rwNumber := n, rwBuffer := buffer\<rparr>"
    have "\<exists>info' st'. smart_strict env ?i reqs (buffer + 512 * unat n) st1 = Some (info', st')
        \<and> absf st' = a \<and> idle func disk info'"
      by (rule Cons.IH) (use Cons.prems n sumlt a1 fl r in auto)
    with False fl Cons.prems r show ?thesis
      by (simp add: SmartDiskIo_def Let_def)
  qed
qed

lemma smart_strict_correct:
  assumes "additive eff" and "xfer_implements absf env func disk tot eff" and "tot < 2 ^ 64"
    and "effs eff (reqs_nat reqs) buffer (absf st) = Some a" and "reqs_ok tot reqs" and "idle func disk info"
  shows "\<exists>info' st'. smart_strict env info reqs buffer st
    = Some (info', st') \<and> absf st' = a \<and> idle func disk info'"
proof (cases reqs)
  case Nil
  with assms(4,6) show ?thesis
    by (simp add: SmartDiskIo_def reqs_nat_def idle_def)
next
  case (Cons r rs)
  obtain s n where r: "r = (s, n)" by force
  let ?i = "info\<lparr>rwSector := s, rwNumber := n, rwBuffer := buffer\<rparr>"
  have "n \<noteq> 0"
    using assms(5) Cons r by (auto simp: reqs_ok_def)
  then have "\<exists>info' st'. smart_strict env ?i rs (buffer + 512 * unat n) st = Some (info', st')
      \<and> absf st' = a \<and> idle func disk info'"
    by (intro smart_strict_pending [OF assms(1-3)])
      (use assms(4-6) Cons r in \<open>auto simp: reqs_ok_def reqs_nat_def idle_def\<close>)
  then show ?thesis
    using Cons r assms(6) by (simp add: SmartDiskIo_def idle_def)
qed


section \<open>Reads and writes of sectors\<close>

text \<open>The device seen as an array of sectors, next to the memory of the caller.\<close>

definition disk_view ::
  "('d \<Rightarrow> u16 \<Rightarrow> nat \<Rightarrow> buf) \<Rightarrow> u16 \<Rightarrow> 'd \<times> buf \<Rightarrow> (nat \<Rightarrow> buf) \<times> buf" where
  "disk_view sec k st = (sec (fst st) k, snd st)"

definition read_eff :: "((nat \<Rightarrow> buf) \<times> buf) effect" where
  "read_eff s n b st = (case st of (f, mem) \<Rightarrow>
     if \<forall>i. length (f i) = 512
     then do { mem' \<leftarrow> put mem b (concat (map f [s..<s + n])); Some (f, mem') } else None)"

definition write_eff :: "((nat \<Rightarrow> buf) \<times> buf) effect" where
  "write_eff s n b st = (case st of (f, mem) \<Rightarrow>
     do { bytes \<leftarrow> slice mem b (512 * n); Some (store_sectors f s bytes, mem) })"

lemma length_concat_sectors:
  "(\<And>i. length (f i) = 512) \<Longrightarrow> length (concat (map f [s..<s + n])) = 512 * n"
  by (induction n) auto

lemma read_eff_additive: "additive read_eff"
proof -
  have "read_eff s (m + n) b st = do { st' \<leftarrow> read_eff s m b st; read_eff (s + m) n (b + 512 * m) st' }"
    for s m n b and st :: "(nat \<Rightarrow> buf) \<times> buf"
  proof -
    obtain f mem where st: "st = (f, mem)" by force
    have "[s..<s + (m + n)] = [s..<s + m] @ [s + m..<s + m + n]"
      by (metis add.assoc le_add1 upt_add_eq_append)
    then show ?thesis
      by (simp add: st read_eff_def put_append length_concat_sectors)
  qed
  moreover have "st' = st" if "read_eff s 0 b st = Some st'" for s b and st st' :: "(nat \<Rightarrow> buf) \<times> buf"
    using that by (auto simp: read_eff_def put_def option_simps split: prod.splits if_splits)
  ultimately show ?thesis
    unfolding additive_def by blast
qed

lemma store_sectors_append:
  assumes "length xs = 512 * m" "length ys = 512 * n"
  shows "store_sectors f s (xs @ ys) = store_sectors (store_sectors f s xs) (s + m) ys"
proof
  fix i
  have "take 512 (drop (512 * (i - s)) (xs @ ys)) = take 512 (drop (512 * (i - s)) xs)" if "s \<le> i" "i < s + m"
  proof -
    have "512 * (i - s) + 512 \<le> 512 * m" using that by simp
    then show ?thesis using assms by simp
  qed
  moreover have "drop (512 * (i - s)) (xs @ ys) = drop (512 * (i - (s + m))) ys" if "s + m \<le> i"
    using that assms by (simp add: diff_mult_distrib2)
  ultimately show "store_sectors f s (xs @ ys) i = store_sectors (store_sectors f s xs) (s + m) ys i"
    using assms by (auto simp: store_sectors_def)
qed

lemma write_eff_additive: "additive write_eff"
proof -
  have "write_eff s (m + n) b st = do { st' \<leftarrow> write_eff s m b st; write_eff (s + m) n (b + 512 * m) st' }"
    for s m n b and st :: "(nat \<Rightarrow> buf) \<times> buf"
  proof -
    obtain f mem where st: "st = (f, mem)" by force
    have "take (512 * (m + n)) (drop b mem) = take (512 * m) (drop b mem) @ take (512 * n) (drop (b + 512 * m) mem)"
      by (simp add: add_mult_distrib2 take_add add.commute)
    moreover have "store_sectors f s (take (512 * m) (drop b mem) @ take (512 * n) (drop (b + 512 * m) mem))
        = store_sectors (store_sectors f s (take (512 * m) (drop b mem))) (s + m) (take (512 * n) (drop (b + 512 * m) mem))"
      if "b + 512 * (m + n) \<le> length mem"
      by (rule store_sectors_append [of _ m _ n]) (use that in auto)
    ultimately show ?thesis
      by (auto simp: st write_eff_def slice_def)
  qed
  moreover have "st' = st" if "write_eff s 0 b st = Some st'" for s b and st st' :: "(nat \<Rightarrow> buf) \<times> buf"
    using that by (auto simp: write_eff_def slice_def store_sectors_def fun_eq_iff split: prod.splits if_splits)
  ultimately show ?thesis
    unfolding additive_def by blast
qed


lemma read_xfer_implements:
  assumes "reads_sectors env sec (ucast disk) tot" and "ucast disk < g_disknum env" and "tot < 2 ^ 64"
  shows "xfer_implements (disk_view sec (ucast disk)) env COMMAND_READ disk tot read_eff"
  unfolding xfer_implements_def
proof (intro allI impI, elim conjE)
  fix s n b a and st :: "'a \<times> buf"
  assume n: "0 < n" "n \<le> 2048" "s + n \<le> tot"
    and eff: "read_eff s n b (disk_view sec (ucast disk) st) = Some a"
  obtain d mem where st: "st = (d, mem)" by force
  let ?f = "sec d (ucast disk)"
  have u: "unat (of_nat n :: u32) = n" "unat (of_nat s :: u64) = s"
    using n assms(3) by (simp_all add: unat_of_nat take_bit_nat_eq_self)
  have rd: "ReadBlocks env d (ucast disk) (of_nat s) (512 * of_nat n)
      = Some (concat (map ?f [s..<s + n]))"
    using assms(1) n u unfolding reads_sectors_def by metis
  obtain mem' where "put mem b (concat (map ?f [s..<s + n])) = Some mem'" "a = (?f, mem')"
    using eff by (auto simp: st read_eff_def disk_view_def option_simps split: if_splits)
  with rd assms(2) show "\<exists>st'. smart_xfer env COMMAND_READ disk (of_nat s) (of_nat n) b st = Some (True, st')
      \<and> disk_view sec (ucast disk) st' = a"
    by (auto simp: st smart_xfer_def DiskRead_def disk_view_def)
qed

lemma write_xfer_implements:
  assumes "writes_sectors env sec (ucast disk) tot" and "ucast disk < g_disknum env" and "tot < 2 ^ 64"
  shows "xfer_implements (disk_view sec (ucast disk)) env COMMAND_WRITE disk tot write_eff"
  unfolding xfer_implements_def
proof (intro allI impI, elim conjE)
  fix s n b a and st :: "'a \<times> buf"
  assume n: "0 < n" "n \<le> 2048" "s + n \<le> tot"
    and eff: "write_eff s n b (disk_view sec (ucast disk) st) = Some a"
  obtain d mem where st: "st = (d, mem)" by force
  let ?f = "sec d (ucast disk)"
  have u: "unat (512 * of_nat n :: u32) = 512 * n" "unat (of_nat s :: u64) = s"
    using n assms(3) by (simp_all add: unat_word_ariths unat_of_nat take_bit_nat_eq_self)
  obtain bytes where bytes: "slice mem b (512 * n) = Some bytes" "a = (store_sectors ?f s bytes, mem)"
    using eff by (auto simp: st write_eff_def disk_view_def option_simps)
  then have "length bytes = 512 * n"
    by (auto simp: buf_simps)
  then obtain d' where "WriteBlocks env d (ucast disk) (of_nat s) bytes = (d', True)"
      "sec d' (ucast disk) = store_sectors ?f s bytes"
    using assms(1) [unfolded writes_sectors_def, rule_format, of bytes "of_nat s" d] n u by auto
  with bytes u assms(2) show "\<exists>st'. smart_xfer env COMMAND_WRITE disk (of_nat s) (of_nat n) b st
      = Some (True, st') \<and> disk_view sec (ucast disk) st' = a"
    by (auto simp: st smart_xfer_def DiskWrite_def disk_view_def COMMAND_READ_def COMMAND_WRITE_def)
qed


definition req_bytes :: "(nat \<Rightarrow> buf) \<Rightarrow> (nat \<times> nat) list \<Rightarrow> buf" where
  "req_bytes f rs = concat (map (\<lambda>(s, n). concat (map f [s..<s + n])) rs)"

lemma req_bytes_Cons [simp]:
  "req_bytes f ((s, n) # rs) = concat (map f [s..<s + n]) @ req_bytes f rs"
  by (simp add: req_bytes_def)

lemma req_bytes_Nil [simp]: "req_bytes f [] = []"
  by (simp add: req_bytes_def)

lemma effs_read:
  assumes "\<And>i. length (f i) = 512"
  shows "b + length (req_bytes f rs) \<le> length mem \<Longrightarrow>
    effs read_eff rs b (f, mem) = do { mem' \<leftarrow> put mem b (req_bytes f rs); Some (f, mem') }"
proof (induction rs arbitrary: b mem)
  case Nil
  then show ?case by (simp add: put_def)
next
  case (Cons r rs)
  obtain s n where r: "r = (s, n)" by force
  have len: "length (concat (map f [s..<s + n])) = 512 * n"
    by (simp add: length_concat_sectors assms)
  obtain mem1 where mem1: "put mem b (concat (map f [s..<s + n])) = Some mem1"
    using Cons.prems r by (simp add: put_def)
  have "effs read_eff rs (b + 512 * n) (f, mem1) =
      do { mem' \<leftarrow> put mem1 (b + 512 * n) (req_bytes f rs); Some (f, mem') }"
    by (rule Cons.IH) (use Cons.prems r len put_length [OF mem1] in simp)
  moreover have "read_eff s n b (f, mem) = Some (f, mem1)"
    using mem1 by (simp add: read_eff_def assms)
  ultimately show ?case
    using mem1 len by (simp add: r put_append)
qed

fun store_reqs :: "(nat \<Rightarrow> buf) \<Rightarrow> (nat \<times> nat) list \<Rightarrow> nat \<Rightarrow> buf \<Rightarrow> nat \<Rightarrow> buf" where
  "store_reqs f [] b mem = f"
| "store_reqs f ((s, n) # rs) b mem =
     store_reqs (store_sectors f s (take (512 * n) (drop b mem))) rs (b + 512 * n) mem"

lemma effs_write:
  "b + 512 * sum_list (map snd rs) \<le> length mem \<Longrightarrow>
    effs write_eff rs b (f, mem) = Some (store_reqs f rs b mem, mem)"
  by (induction rs arbitrary: f b) (auto simp: write_eff_def slice_def)

lemma sum_reqs_nat: "sum_list (map snd (reqs_nat reqs)) = sum_list (map (unat \<circ> snd) reqs)"
  by (simp add: reqs_nat_def comp_def case_prod_beta)

lemma length_req_bytes:
  "(\<And>i. length (f i) = 512) \<Longrightarrow> length (req_bytes f rs) = 512 * sum_list (map snd rs)"
  by (induction rs) (auto simp: length_concat_sectors)

lemma smart_strict_reads:
  assumes "reads_sectors env sec (ucast disk) tot" and "ucast disk < g_disknum env"
    and "tot < 2 ^ 64" and "reqs_ok tot reqs"
    and "buffer + 512 * sum_list (map (unat \<circ> snd) reqs) \<le> length mem" and "idle COMMAND_READ disk info"
  shows "\<exists>info' d' mem'. smart_strict env info reqs buffer (d, mem)
      = Some (info', d', mem') \<and> sec d' (ucast disk) = sec d (ucast disk) \<and>
    put mem buffer (req_bytes (sec d (ucast disk)) (reqs_nat reqs)) = Some mem' \<and> idle COMMAND_READ disk info'"
proof -
  let ?f = "sec d (ucast disk)"
  have len: "length (?f i) = 512" for i
    using assms(1) by (simp add: reads_sectors_def)
  have fits: "buffer + length (req_bytes ?f (reqs_nat reqs)) \<le> length mem"
    using assms(5) by (simp add: length_req_bytes len sum_reqs_nat)
  then obtain mem' where mem': "put mem buffer (req_bytes ?f (reqs_nat reqs)) = Some mem'"
    by (simp add: put_def)
  have "effs read_eff (reqs_nat reqs) buffer (disk_view sec (ucast disk) (d, mem)) = Some (?f, mem')"
    using effs_read [of ?f, OF len fits] mem' by (simp add: disk_view_def)
  then obtain info' d' mem'' where "smart_strict env info reqs buffer
      (d, mem) = Some (info', d', mem'')" "disk_view sec (ucast disk) (d', mem'') = (?f, mem')"
      "idle COMMAND_READ disk info'"
    using smart_strict_correct [OF read_eff_additive read_xfer_implements [OF assms(1-3)] assms(3)]
      assms(4,6) by (metis surj_pair)
  with mem' show ?thesis
    by (auto simp: disk_view_def)
qed

lemma smart_strict_writes:
  assumes "writes_sectors env sec (ucast disk) tot" and "ucast disk < g_disknum env"
    and "tot < 2 ^ 64" and "reqs_ok tot reqs"
    and "buffer + 512 * sum_list (map (unat \<circ> snd) reqs) \<le> length mem" and "idle COMMAND_WRITE disk info"
  shows "\<exists>info' d'. smart_strict env info reqs buffer (d, mem) = Some (info', d', mem) \<and>
    sec d' (ucast disk) = store_reqs (sec d (ucast disk)) (reqs_nat reqs) buffer mem \<and> idle COMMAND_WRITE disk info'"
proof -
  let ?f = "sec d (ucast disk)"
  have "effs write_eff (reqs_nat reqs) buffer (disk_view sec (ucast disk) (d, mem))
      = Some (store_reqs ?f (reqs_nat reqs) buffer mem, mem)"
    using assms(5) by (simp add: disk_view_def effs_write sum_reqs_nat)
  then obtain info' d' mem' where "smart_strict env info reqs buffer (d, mem) = Some (info', d', mem')"
      "disk_view sec (ucast disk) (d', mem') = (store_reqs ?f (reqs_nat reqs) buffer mem, mem)"
      "idle COMMAND_WRITE disk info'"
    using smart_strict_correct [OF write_eff_additive write_xfer_implements [OF assms(1-3)] assms(3)]
      assms(4,6) by (metis surj_pair)
  then show ?thesis
    by (auto simp: disk_view_def)
qed

text \<open>
  C15. \<open>SmartDiskIo\<close> (utils.c) in reading mode, used as the backup thread uses it: merging
  adjacent requests and splitting the merged ones into transfers of at most 2048 sectors fills
  the memory with exactly the sectors requested, in order, and touches nothing else.
\<close>

theorem SmartDiskIo_reads_requests:
  assumes "reads_sectors env sec (ucast disk) tot" and "ucast disk < g_disknum env"
    and "tot < 2 ^ 64" and "reqs_ok tot reqs"
    and "buffer + 512 * sum_list (map (unat \<circ> snd) reqs) \<le> length mem"
  shows "\<exists>info' d' mem'. smart_requests env (SmartDiskIoInit disk COMMAND_READ) reqs buffer (d, mem)
      = Some (True, info', d', mem') \<and> sec d' (ucast disk) = sec d (ucast disk) \<and>
    put mem buffer (req_bytes (sec d (ucast disk)) (reqs_nat reqs)) = Some mem'"
  using smart_strict_reads [OF assms idle_init, where d = d] by (blast dest: smart_strict_requests)

text \<open>
  C16. \<open>SmartDiskIo\<close> (utils.c) in writing mode, used as the restore thread uses it: the sectors of
  the disk afterwards are those before with the requests stored one after the other.
\<close>

theorem SmartDiskIo_writes_requests:
  assumes "writes_sectors env sec (ucast disk) tot" and "ucast disk < g_disknum env"
    and "tot < 2 ^ 64" and "reqs_ok tot reqs"
    and "buffer + 512 * sum_list (map (unat \<circ> snd) reqs) \<le> length mem"
  shows "\<exists>info' d'. smart_requests env (SmartDiskIoInit disk COMMAND_WRITE) reqs buffer (d, mem)
      = Some (True, info', d', mem) \<and>
    sec d' (ucast disk) = store_reqs (sec d (ucast disk)) (reqs_nat reqs) buffer mem"
  using smart_strict_writes [OF assms idle_init, where d = d] by (blast dest: smart_strict_requests)


section \<open>A device kept in memory\<close>

text \<open>An instance of the firmware parameter, used to show that its hypotheses can hold.\<close>

definition ram_sec :: "(nat \<Rightarrow> buf) \<Rightarrow> u16 \<Rightarrow> nat \<Rightarrow> buf" where
  "ram_sec d k i = take 512 (d i @ replicate 512 0)"

definition ram_env :: "u16 \<Rightarrow> (nat \<Rightarrow> buf) disk_env" where
  "ram_env n = \<lparr>
     ReadBlocks = (\<lambda>d k lba size.
       Some (concat (map (ram_sec d k) [unat lba..<unat lba + unat size div 512]))),
     WriteBlocks = (\<lambda>d k lba bytes. (store_sectors d (unat lba) bytes, True)),
     FlushBlocks = (\<lambda>d k. (d, True)),
     g_disknum = n,
     AllocatePool = (\<lambda>d size. Some (replicate size 0))\<rparr>"

lemma ram_reads_sectors: "reads_sectors (ram_env n) ram_sec k tot"
proof -
  have "unat (512 * c) div 512 = unat c" if "unat c \<le> 2048" for c :: u32
    using that by (simp add: unat_word_ariths)
  then show ?thesis
    by (auto simp: reads_sectors_def ram_env_def ram_sec_def)
qed

lemma ram_writes_sectors: "writes_sectors (ram_env n) ram_sec k tot"
proof -
  have "ram_sec (store_sectors d s bytes) k = store_sectors (ram_sec d k) s bytes"
    if "512 dvd length bytes" for d s bytes
  proof
    fix i
    have "512 * (i - s) + 512 \<le> length bytes" if i: "s \<le> i" "i < s + length bytes div 512"
    proof -
      have "512 * (i - s + 1) \<le> 512 * (length bytes div 512)"
        using i by (intro mult_le_mono2) linarith
      with \<open>512 dvd length bytes\<close> show ?thesis by simp
    qed
    then show "ram_sec (store_sectors d s bytes) k i = store_sectors (ram_sec d k) s bytes i"
      by (auto simp: ram_sec_def store_sectors_def min_def)
  qed
  then show ?thesis
    by (simp add: writes_sectors_def ram_env_def)
qed

theorem SmartDiskIo_reads_requests_witness:
  "\<exists>info' d' mem'. smart_requests (ram_env 1) (SmartDiskIoInit 0 COMMAND_READ) [(3, 1), (4, 1), (9, 1)] 0
      ((\<lambda>i. [of_nat i]), replicate 1536 0) = Some (True, info', d', mem') \<and>
    ram_sec d' (ucast (0 :: byte)) = ram_sec (\<lambda>i. [of_nat i]) (ucast (0 :: byte)) \<and>
    put (replicate 1536 0) 0 (req_bytes (ram_sec (\<lambda>i. [of_nat i]) (ucast (0 :: byte)))
      (reqs_nat [(3, 1), (4, 1), (9, 1)])) = Some mem'"
  by (rule SmartDiskIo_reads_requests [OF ram_reads_sectors, where tot = 100])
    (simp_all add: ram_env_def reqs_ok_def)

theorem SmartDiskIo_writes_requests_witness:
  "\<exists>info' d'. smart_requests (ram_env 1) (SmartDiskIoInit 0 COMMAND_WRITE) [(3, 1), (4, 1), (9, 1)] 0
      ((\<lambda>i. []), replicate 1536 7) = Some (True, info', d', replicate 1536 7) \<and>
    ram_sec d' (ucast (0 :: byte)) =
      store_reqs (ram_sec (\<lambda>i. []) (ucast (0 :: byte))) (reqs_nat [(3, 1), (4, 1), (9, 1)]) 0 (replicate 1536 7)"
  by (rule SmartDiskIo_writes_requests [OF ram_writes_sectors, where tot = 100])
    (simp_all add: ram_env_def reqs_ok_def)

end
