(* ===== verification/Okr_Types.thy ===== *)
theory Okr_Types
  imports Okr_Prelude
begin

text \<open>
  The partition descriptor of \<^verbatim>\<open>src/OkrPkg/okrefi/biosdisk.h\<close> and the constants of partition types.

  \<open>WIN32_PARTITIONINFO\<close> holds a C union at offsets 24 to 35 with a FAT, an NTFS and an ext view.
  The record keeps the three double words of the FAT view; the other views are functions of
  them, so that a field written through one view and read through another has the value C gives
  it. The fields the modelled code never reads or writes (drive letter, padding, device handle) are left out.
\<close>

record WIN32_PARTITIONINFO =
  BootBegin :: u64
  TotalSectors :: u64
  FirstFatSector :: u32
  RootDirClr :: u32
  SectorsPerFAT :: u32
  PartitionId :: byte
  FatCopies :: byte
  SectorsPerClr :: byte
  PartitionType :: byte
  bBootPartition :: byte
  bIfBackup :: byte
  DiskNumber :: byte
  PartitionTableBegin :: u32
  FreeSectors :: u64
  BackupDataSize :: u64
  TypeGuid :: buf
  UniGuid :: buf
  Label :: "u16 list"
  bGpt :: byte
  BitmapValid :: byte
  HasWindows :: byte

text \<open>The NTFS view: \<open>MftBeginSector\<close> at 24, \<open>SectorsPerFileRecord\<close> at 32, \<open>SectorsPerIndxBlock\<close> at 34.\<close>

definition MftBeginSector :: "WIN32_PARTITIONINFO \<Rightarrow> u64" where
  "MftBeginSector p = push_bit 32 (ucast (RootDirClr p)) OR ucast (FirstFatSector p)"

definition set_MftBeginSector :: "u64 \<Rightarrow> WIN32_PARTITIONINFO \<Rightarrow> WIN32_PARTITIONINFO" where
  "set_MftBeginSector x p = p\<lparr>FirstFatSector := ucast x, RootDirClr := ucast (drop_bit 32 x)\<rparr>"

definition SectorsPerFileRecord :: "WIN32_PARTITIONINFO \<Rightarrow> u16" where
  "SectorsPerFileRecord p = ucast (SectorsPerFAT p)"

definition SectorsPerIndxBlock :: "WIN32_PARTITIONINFO \<Rightarrow> u16" where
  "SectorsPerIndxBlock p = ucast (drop_bit 16 (SectorsPerFAT p))"

definition set_SectorsPerFileRecord :: "u16 \<Rightarrow> WIN32_PARTITIONINFO \<Rightarrow> WIN32_PARTITIONINFO" where
  "set_SectorsPerFileRecord x p =
     p\<lparr>SectorsPerFAT := push_bit 16 (drop_bit 16 (SectorsPerFAT p)) OR ucast x\<rparr>"

definition set_SectorsPerIndxBlock :: "u16 \<Rightarrow> WIN32_PARTITIONINFO \<Rightarrow> WIN32_PARTITIONINFO" where
  "set_SectorsPerIndxBlock x p =
     p\<lparr>SectorsPerFAT := push_bit 16 (ucast x) OR take_bit 16 (SectorsPerFAT p)\<rparr>"

text \<open>The ext view, and \<open>RootSectors\<close>, which shares its place with \<open>RootDirClr\<close>.\<close>

abbreviation blocks_per_group :: "WIN32_PARTITIONINFO \<Rightarrow> u32" where
  "blocks_per_group \<equiv> FirstFatSector"
abbreviation groups_count :: "WIN32_PARTITIONINFO \<Rightarrow> u32" where
  "groups_count \<equiv> RootDirClr"
abbreviation group_desc_sector :: "WIN32_PARTITIONINFO \<Rightarrow> u32" where
  "group_desc_sector \<equiv> SectorsPerFAT"
abbreviation RootSectors :: "WIN32_PARTITIONINFO \<Rightarrow> u32" where
  "RootSectors \<equiv> RootDirClr"

lemma view_MftBeginSector [simp]: "MftBeginSector (set_MftBeginSector x p) = x"
  by (rule bit_word_eqI) (auto simp: MftBeginSector_def set_MftBeginSector_def bit_simps)

lemma view_SectorsPerFileRecord [simp]:
  "SectorsPerFileRecord (set_SectorsPerFileRecord x p) = x"
  "SectorsPerFileRecord (set_SectorsPerIndxBlock y p) = SectorsPerFileRecord p"
  by (auto intro!: bit_word_eqI
      simp: SectorsPerFileRecord_def set_SectorsPerFileRecord_def set_SectorsPerIndxBlock_def bit_simps)

lemma view_SectorsPerIndxBlock [simp]:
  "SectorsPerIndxBlock (set_SectorsPerIndxBlock x p) = x"
  "SectorsPerIndxBlock (set_SectorsPerFileRecord y p) = SectorsPerIndxBlock p"
proof -
  have [simp]: "\<not> bit y (16 + n)" for n
    using bit_imp_le_length [of y "16 + n"] by auto
  show "SectorsPerIndxBlock (set_SectorsPerIndxBlock x p) = x"
    "SectorsPerIndxBlock (set_SectorsPerFileRecord y p) = SectorsPerIndxBlock p"
    by (auto intro!: bit_word_eqI
        simp: SectorsPerIndxBlock_def set_SectorsPerIndxBlock_def set_SectorsPerFileRecord_def bit_simps)
qed

text \<open>A cleared descriptor, as a global array has it before the scan.\<close>

definition empty_partition :: WIN32_PARTITIONINFO where
  "empty_partition = \<lparr>BootBegin = 0, TotalSectors = 0, FirstFatSector = 0, RootDirClr = 0,
     SectorsPerFAT = 0, PartitionId = 0, FatCopies = 0, SectorsPerClr = 0, PartitionType = 0,
     bBootPartition = 0, bIfBackup = 0, DiskNumber = 0, PartitionTableBegin = 0, FreeSectors = 0,
     BackupDataSize = 0, TypeGuid = replicate 16 0, UniGuid = replicate 16 0,
     Label = replicate 33 0, bGpt = 0, BitmapValid = 0, HasWindows = 0\<rparr>"

section \<open>Constants\<close>

definition SECTOR_SIZE :: nat where "SECTOR_SIZE = 512"
definition MAX_NUM_PARTITIONS :: nat where "MAX_NUM_PARTITIONS = 64"

definition FAT12 :: byte where "FAT12 = 0x01"
definition FAT16 :: byte where "FAT16 = 0x06"
definition FAT16_E :: byte where "FAT16_E = 0x0E"
definition NTFS :: byte where "NTFS = 0x07"
definition FAT32 :: byte where "FAT32 = 0x0B"
definition FAT32_E :: byte where "FAT32_E = 0x0C"
definition EXTEND_PARTITION :: byte where "EXTEND_PARTITION = 0x05"
definition BIG_EXTEND_PARTITION :: byte where "BIG_EXTEND_PARTITION = 0x0F"
definition PARTITION_LINUX :: byte where "PARTITION_LINUX = 0x83"
definition PARTITION_UNUSED :: byte where "PARTITION_UNUSED = 0"
definition UNKNOWN_PARTITION :: byte where "UNKNOWN_PARTITION = 0xFF"
definition GPT_PROTECTIVE_PARTITION :: byte where "GPT_PROTECTIVE_PARTITION = 0xEE"
definition GPT_SYSTEM_PARTITION :: byte where "GPT_SYSTEM_PARTITION = 0xEF"
definition SHD_BITLOCKER :: byte where "SHD_BITLOCKER = 0xD5"
definition SHD_BITLOCKERTOGO :: byte where "SHD_BITLOCKERTOGO = 0xD6"
definition LENOVO_PART :: byte where "LENOVO_PART = 0x12"

lemmas ptype_defs = FAT12_def FAT16_def FAT16_E_def NTFS_def FAT32_def FAT32_E_def
  EXTEND_PARTITION_def BIG_EXTEND_PARTITION_def PARTITION_LINUX_def PARTITION_UNUSED_def
  UNKNOWN_PARTITION_def GPT_PROTECTIVE_PARTITION_def GPT_SYSTEM_PARTITION_def
  SHD_BITLOCKER_def SHD_BITLOCKERTOGO_def LENOVO_PART_def

end
