(* ===== verification/Okr_Ntfs.thy ===== *)
theory Okr_Ntfs
  imports Okr_Types
begin

text \<open>
  The NTFS metadata reader of \<^verbatim>\<open>src/OkrPkg/okrefi/partition.c\<close>: walking the attributes of a file
  record, undoing the update sequence, and decoding run lists. A file record is a byte buffer;
  an attribute is the offset at which it starts.
\<close>

definition AttributeAttributeList :: u32 where "AttributeAttributeList = 0x20"
definition AttributeVolumeName :: u32 where "AttributeVolumeName = 0x60"
definition AttributeData :: u32 where "AttributeData = 0x80"
definition AttributeIndexRoot :: u32 where "AttributeIndexRoot = 0x90"
definition AttributeIndexAllocation :: u32 where "AttributeIndexAllocation = 0xa0"

text \<open>\<open>FindAttribute\<close>: the walk follows \<open>attr->Length\<close> without a check, so it may leave the
  record or, with a length of zero, never end; both are \<open>None\<close>. \<open>Some None\<close> is a null pointer.\<close>

partial_function (option) find_attribute_from :: "buf \<Rightarrow> u32 \<Rightarrow> nat \<Rightarrow> nat option option" where
  "find_attribute_from rec AttrType attr =
     do { typ \<leftarrow> rd32 rec attr;
          if typ = - 1 then Some None
          else if typ = AttrType then Some (Some attr)
          else do { len \<leftarrow> rd32 rec (attr + 4);
                    find_attribute_from rec AttrType (attr + unat len) } }"

declare find_attribute_from.simps [code]

definition FindAttribute :: "buf \<Rightarrow> u32 \<Rightarrow> nat option option" where
  "FindAttribute rec AttrType =
     do { off \<leftarrow> rd16 rec 20; find_attribute_from rec AttrType (unat off) }"

text \<open>\<open>FixupInode\<close>: the last two bytes of each sector are replaced from the update sequence array.\<close>

function fixup_from :: "buf \<Rightarrow> nat \<Rightarrow> nat \<Rightarrow> nat \<Rightarrow> buf option" where
  "fixup_from rec usa i UsaCount =
     (if i < UsaCount
      then do { x \<leftarrow> slice rec (usa + 2 * i) 2;
                rec' \<leftarrow> put rec (512 * (i - 1) + 510) x;
                fixup_from rec' usa (Suc i) UsaCount }
      else Some rec)"
  by pat_completeness auto
termination
  by (relation "measure (\<lambda>(rec, usa, i, n). n - i)") auto

declare fixup_from.simps [simp del]

definition FixupInode :: "buf \<Rightarrow> u32 \<Rightarrow> (bool \<times> buf) option" where
  "FixupInode rec InodeSize =
     do { usa \<leftarrow> rd16 rec 4;
          UsaCount \<leftarrow> rd16 rec 6;
          if ucast UsaCount > InodeSize + 1 \<or> UsaCount = 0 then Some (False, rec)
          else do { rec' \<leftarrow> fixup_from rec (unat usa) 1 (unat UsaCount); Some (True, rec') } }"

section \<open>Runs\<close>

definition run_n1 :: "byte \<Rightarrow> nat" where "run_n1 x = unat (x AND 0xf)"
definition run_n2 :: "byte \<Rightarrow> nat" where "run_n2 x = unat (drop_bit 4 x AND 0xf)"

definition RunLength :: "buf \<Rightarrow> nat \<Rightarrow> nat option" where
  "RunLength rec run = do { x \<leftarrow> rd8 rec run; Some (run_n1 x + run_n2 x + 1) }"

text \<open>The bytes \<open>run[hi], run[hi-1], \<dots>, run[lo+1]\<close> shifted into an accumulator from the left.\<close>

fun shift_bytes :: "buf \<Rightarrow> nat \<Rightarrow> nat \<Rightarrow> nat \<Rightarrow> u64 \<Rightarrow> u64 option" where
  "shift_bytes rec run lo 0 acc = Some acc"
| "shift_bytes rec run lo (Suc k) acc =
     do { x \<leftarrow> rd8 rec (run + lo + Suc k);
          shift_bytes rec run lo k (push_bit 8 acc + ucast x) }"

text \<open>\<open>RunLCN\<close>: the top byte is sign-extended; without offset bytes the result is 0. On a zero
  header byte the C loop counts down from 0xffffffff and leaves the buffer.\<close>

definition RunLCN :: "buf \<Rightarrow> nat \<Rightarrow> u64 option" where
  "RunLCN rec run =
     do { x \<leftarrow> rd8 rec run;
          if run_n2 x = 0 then (if run_n1 x = 0 then None else Some 0)
          else do { top \<leftarrow> rd8 rec (run + run_n1 x + run_n2 x);
                    shift_bytes rec run (run_n1 x) (run_n2 x - 1) (scast top) } }"

definition RunCount :: "buf \<Rightarrow> nat \<Rightarrow> u32 option" where
  "RunCount rec run =
     do { x \<leftarrow> rd8 rec run; c \<leftarrow> shift_bytes rec run 0 (run_n1 x) 0; Some (ucast c) }"

text \<open>The loop of \<open>FindRun\<close>. The result is what the function returns and what it leaves in
  \<open>*lcn\<close> and \<open>*count\<close>; callers look at these also after a failure.\<close>

function find_run_from ::
  "buf \<Rightarrow> u64 \<Rightarrow> nat \<Rightarrow> u64 \<Rightarrow> u64 \<Rightarrow> u32 \<Rightarrow> (bool \<times> u64 \<times> u32) option" where
  "find_run_from rec vcn run base lcn cnt =
     do { x \<leftarrow> rd8 rec run;
          if x = 0 then Some (False, lcn, cnt)
          else do {
            delta \<leftarrow> RunLCN rec run;
            c \<leftarrow> RunCount rec run;
            let lcn' = lcn + delta in
            if base \<le> vcn \<and> vcn < base + ucast c
            then Some (True, (if delta = 0 then 0 else lcn' + vcn - base), c - ucast (vcn - base))
            else find_run_from rec vcn (run + (run_n1 x + run_n2 x + 1)) (base + ucast c) lcn' c } }"
  by pat_completeness auto
termination
proof (relation "measure (\<lambda>(rec, vcn, run, base, lcn, cnt). length rec - run)", goal_cases)
  case (2 rec vcn run base lcn cnt x delta c)
  then have "run < length rec" by (simp add: buf_simps)
  then show ?case by simp
qed simp

declare find_run_from.simps [simp del]

definition FindRun :: "buf \<Rightarrow> nat \<Rightarrow> u64 \<Rightarrow> u64 \<Rightarrow> u32 \<Rightarrow> (bool \<times> u64 \<times> u32) option" where
  "FindRun rec attr vcn lcn cnt =
     do { LowVcn \<leftarrow> rd64 rec (attr + 16);
          HighVcn \<leftarrow> rd64 rec (attr + 24);
          if vcn < LowVcn \<or> vcn > HighVcn then Some (False, lcn, cnt)
          else do { off \<leftarrow> rd16 rec (attr + 32);
                    find_run_from rec vcn (attr + unat off) LowVcn 0 cnt } }"


section \<open>Attributes\<close>

text \<open>\<open>attr_chain rec ofs ats\<close>: from offset \<open>ofs\<close> on, following the lengths, the record holds
  attributes of these types at these offsets and then the end mark.\<close>

fun attr_chain :: "buf \<Rightarrow> nat \<Rightarrow> (nat \<times> u32) list \<Rightarrow> bool" where
  "attr_chain rec ofs [] \<longleftrightarrow> rd32 rec ofs = Some (- 1)"
| "attr_chain rec ofs ((ofs', typ) # ats) \<longleftrightarrow> ofs' = ofs \<and> rd32 rec ofs = Some typ \<and> typ \<noteq> - 1 \<and>
     (\<exists>len. rd32 rec (ofs + 4) = Some len \<and> attr_chain rec (ofs + unat len) ats)"

lemma find_attribute_from_chain:
  "attr_chain rec ofs ats \<Longrightarrow>
    find_attribute_from rec t ofs = Some (map_option fst (find (\<lambda>(ofs', typ). typ = t) ats))"
proof (induction ats arbitrary: ofs)
  case Nil
  then show ?case by (simp add: find_attribute_from.simps)
next
  case (Cons a ats)
  then show ?case by (cases a) (auto simp: find_attribute_from.simps [of rec t ofs])
qed

lemma find_attribute_zero_length:
  assumes ret: "find_attribute_from rec t ofs = Some r"
    and "rd32 rec ofs = Some typ" "typ \<noteq> - 1" "typ \<noteq> t" "rd32 rec (ofs + 4) = Some 0"
  shows False
proof -
  have "rec' = rec \<longrightarrow> t' = t \<longrightarrow> ofs' = ofs \<longrightarrow> False" if "find_attribute_from rec' t' ofs' = Some r'" for rec' t' ofs' r'
  proof (rule find_attribute_from.raw_induct
      [where P = "\<lambda>rec' t' ofs' r'. rec' = rec \<longrightarrow> t' = t \<longrightarrow> ofs' = ofs \<longrightarrow> False", OF _ that], goal_cases)
    case (1 f rec' t' ofs' r')
    then show ?case
      using assms(2-5) by (fastforce simp: option_simps)
  qed
  with ret show False by blast
qed

section \<open>Runs as extents\<close>

lemma shift_bytes_le_word:
  "run + lo + k < length rec \<Longrightarrow>
    shift_bytes rec run lo k acc =
      Some (push_bit (8 * k) acc + le_word (take k (drop (run + lo + 1) rec)))"
proof (induction k arbitrary: acc)
  case (Suc k)
  have step: "take (Suc k) (drop (run + lo + 1) rec) = take k (drop (run + lo + 1) rec) @ [rec ! (run + lo + Suc k)]"
    using Suc.prems by (simp add: take_Suc_conv_app_nth add.commute add.left_commute)
  have app: "le_word (xs @ [y]) = le_word xs + push_bit (8 * length xs) (ucast y :: u64)" for xs y
    by (induction xs) (simp_all add: push_bit_eq_mult algebra_simps power_add)
  have len: "length (take k (drop (run + lo + 1) rec)) = k"
    using Suc.prems by simp
  have "push_bit (8 * k) (push_bit 8 acc + ucast (rec ! (run + lo + Suc k)))
      = push_bit (8 * Suc k) acc + push_bit (8 * k) (ucast (rec ! (run + lo + Suc k)))"
    by (simp add: push_bit_add add.commute)
  then show ?case
    using Suc step app [of "take k (drop (run + lo + 1) rec)"] len
    by (simp add: rd8_def algebra_simps)
qed simp

text \<open>The runs of a run list, decoded up to the end mark, and the extents they denote: first
  virtual cluster, number of clusters, and the first cluster on the volume (\<open>None\<close> for a run
  that the code takes as sparse).\<close>

function runs_at :: "buf \<Rightarrow> nat \<Rightarrow> (u64 \<times> u32) list option" where
  "runs_at rec run =
     do { x \<leftarrow> rd8 rec run;
          if x = 0 then Some []
          else do { delta \<leftarrow> RunLCN rec run; c \<leftarrow> RunCount rec run;
                    rest \<leftarrow> runs_at rec (run + (run_n1 x + run_n2 x + 1));
                    Some ((delta, c) # rest) } }"
  by pat_completeness auto
termination
proof (relation "measure (\<lambda>(rec, run). length rec - run)", goal_cases)
  case (2 rec run x)
  then have "run < length rec" by (simp add: buf_simps)
  then show ?case by simp
qed simp

declare runs_at.simps [simp del]

type_synonym extent = "nat \<times> nat \<times> u64 option"

fun extents :: "u64 \<Rightarrow> nat \<Rightarrow> (u64 \<times> u32) list \<Rightarrow> extent list" where
  "extents lcn v [] = []"
| "extents lcn v ((delta, c) # rs) =
     (v, unat c, if delta = 0 then None else Some (lcn + delta)) # extents (lcn + delta) (v + unat c) rs"

definition clusters_of :: "(u64 \<times> u32) list \<Rightarrow> nat" where
  "clusters_of rs = sum_list (map (unat \<circ> snd) rs)"

definition covers :: "nat \<Rightarrow> extent \<Rightarrow> bool" where
  "covers v e \<longleftrightarrow> fst e \<le> v \<and> v < fst e + fst (snd e)"

definition extent_lcn :: "u64 \<Rightarrow> extent \<Rightarrow> u64" where
  "extent_lcn vcn e = (case snd (snd e) of None \<Rightarrow> 0 | Some l \<Rightarrow> l + (vcn - of_nat (fst e)))"

definition extent_rest :: "u64 \<Rightarrow> extent \<Rightarrow> u32" where
  "extent_rest vcn e = of_nat (fst e + fst (snd e) - unat vcn)"

lemma find_run_from_extents:
  "\<lbrakk>runs_at rec run = Some rs; unat base + clusters_of rs < 2 ^ 64\<rbrakk> \<Longrightarrow>
    \<exists>l' c'. find_run_from rec vcn run base lcn cnt =
      Some (case find (covers (unat vcn)) (extents lcn (unat base) rs) of
              Some e \<Rightarrow> (True, extent_lcn vcn e, extent_rest vcn e)
            | None \<Rightarrow> (False, l', c'))"
proof (induction rs arbitrary: run base lcn cnt)
  case Nil
  then have "rd8 rec run = Some 0"
    by (subst (asm) runs_at.simps) (auto simp: option_simps split: if_splits)
  then show ?case
    by (subst find_run_from.simps) simp
next
  case (Cons r rs)
  obtain delta c where r: "r = (delta, c)" by force
  from Cons.prems(1) r obtain x where x: "rd8 rec run = Some x" "x \<noteq> 0"
      "RunLCN rec run = Some delta" "RunCount rec run = Some c"
      "runs_at rec (run + (run_n1 x + run_n2 x + 1)) = Some rs"
    by (subst (asm) runs_at.simps) (auto simp: option_simps split: if_splits)
  have sum: "unat base + unat c + clusters_of rs < 2 ^ 64"
    using Cons.prems(2) r by (simp add: clusters_of_def comp_def)
  then have add: "unat (base + ucast c) = unat base + unat c"
    by (simp add: unat_add_no_wrap)
  show ?case
  proof (cases "base \<le> vcn \<and> vcn < base + ucast c")
    case True
    then have le: "unat base \<le> unat vcn" "unat vcn < unat base + unat c"
      using add by (auto simp: word_le_nat_alt word_less_nat_alt)
    have "unat (vcn - base) = unat vcn - unat base"
      using le by (simp add: unat_sub_no_wrap)
    then have "c - ucast (vcn - base) = of_nat (unat base + unat c - unat vcn)"
      using le ucast_unat_eq [of "vcn - base" "unat vcn - unat base", where 'b = 32]
      by (simp add: of_nat_diff)
    then show ?thesis
      using True x le r
      by (subst find_run_from.simps)
        (auto simp: covers_def extent_lcn_def extent_rest_def algebra_simps Let_def)
  next
    case False
    then have "\<not> covers (unat vcn) (unat base, unat c, l)" for l
      using add by (auto simp: covers_def word_le_nat_alt word_less_nat_alt)
    moreover have "\<exists>l' c'. find_run_from rec vcn (run + (run_n1 x + run_n2 x + 1)) (base + ucast c) (lcn + delta) c =
      Some (case find (covers (unat vcn)) (extents (lcn + delta) (unat (base + ucast c)) rs) of
              Some e \<Rightarrow> (True, extent_lcn vcn e, extent_rest vcn e) | None \<Rightarrow> (False, l', c'))"
      by (rule Cons.IH [OF x(5)]) (use sum add in simp)
    moreover have "find_run_from rec vcn run base lcn cnt =
        find_run_from rec vcn (run + (run_n1 x + run_n2 x + 1)) (base + ucast c) (lcn + delta) c"
      using False x by (subst find_run_from.simps) (auto simp: Let_def)
    ultimately show ?thesis
      using add r by simp
  qed
qed


section \<open>Properties\<close>

text \<open>
  \<open>FindRun\<close> (partition.c) on an attribute whose run list decodes to runs that do not pass
  the largest cluster number: for a virtual cluster between \<open>LowVcn\<close> and \<open>HignVcn\<close> it returns
  TRUE exactly when a run covers the cluster; then it yields the cluster on the volume, 0 in a
  run without an offset, and the number of clusters left in that run.
\<close>

lemma FindRun_locates_extent:
  assumes "rd64 rec (attr + 16) = Some low" and "rd64 rec (attr + 24) = Some high"
    and "rd16 rec (attr + 32) = Some off"
    and "runs_at rec (attr + unat off) = Some rs"
    and "unat low + clusters_of rs < 2 ^ 64"
    and "low \<le> vcn" and "vcn \<le> high"
  shows "\<exists>l' c'. FindRun rec attr vcn lcn cnt =
    Some (case find (covers (unat vcn)) (extents 0 (unat low) rs) of
            Some e \<Rightarrow> (True, extent_lcn vcn e, extent_rest vcn e)
          | None \<Rightarrow> (False, l', c'))"
proof -
  have "FindRun rec attr vcn lcn cnt = find_run_from rec vcn (attr + unat off) low 0 cnt"
    using assms by (auto simp: FindRun_def)
  then show ?thesis
    using find_run_from_extents [OF assms(4,5), of vcn 0 cnt] by simp
qed

text \<open>
  \<open>FindAttribute\<close> (partition.c) returns the first attribute of the wanted type of a
  well-formed record, and a null pointer when there is none.
\<close>

lemma FindAttribute_first:
  assumes "rd16 rec 20 = Some off" and "attr_chain rec (unat off) ats"
  shows "FindAttribute rec t = Some (map_option fst (find (\<lambda>(ofs, typ). typ = t) ats))"
  using assms by (simp add: FindAttribute_def find_attribute_from_chain)

text \<open>
  C40. \<open>FindAttribute\<close> (partition.c) never returns on a record whose first attribute has another
  type and a length of zero: the walk has no guard against it.
\<close>

theorem FindAttribute_zero_length_diverges:
  assumes "rd16 rec 20 = Some off" and "rd32 rec (unat off) = Some typ"
    and "typ \<noteq> - 1" and "typ \<noteq> t" and "rd32 rec (unat off + 4) = Some 0"
  shows "FindAttribute rec t = None"
  using find_attribute_zero_length [OF _ assms(2-5)] assms(1)
  by (cases "find_attribute_from rec t (unat off)") (auto simp: FindAttribute_def)

text \<open>The byte at \<open>j\<close> once the sectors from \<open>i\<close> on are fixed up.\<close>

definition fixed_byte :: "buf \<Rightarrow> nat \<Rightarrow> nat \<Rightarrow> nat \<Rightarrow> nat \<Rightarrow> byte" where
  "fixed_byte rec usa i n j =
     (if 510 \<le> j mod 512 \<and> i \<le> j div 512 + 1 \<and> j div 512 + 1 < n
      then rec ! (usa + 2 * (j div 512 + 1) + (j mod 512 - 510)) else rec ! j)"

lemma sector_tail_iff:
  fixes j :: nat
  assumes "1 \<le> i"
  shows "512 * (i - 1) + 510 \<le> j \<and> j < 512 * (i - 1) + 512 \<longleftrightarrow> j div 512 + 1 = i \<and> 510 \<le> j mod 512"
proof -
  obtain p where i: "i = Suc p"
    using assms by (cases i) auto
  have "512 * p + 510 \<le> 512 * q + r \<and> 512 * q + r < 512 * p + 512 \<longleftrightarrow> q = p \<and> 510 \<le> r"
    if "r < 512" for q r :: nat
    using that by (cases q p rule: linorder_cases) auto
  from this [of "j mod 512" "j div 512"] show ?thesis by (simp add: i)
qed

lemma fixed_byte_step:
  assumes i: "1 \<le> i" "i < n" and usa: "usa + 2 * n \<le> 510" and j: "j < length rec"
    and sl: "slice rec (usa + 2 * i) 2 = Some x" and pt: "put rec (512 * (i - 1) + 510) x = Some rec'"
  shows "fixed_byte rec' usa (Suc i) n j = fixed_byte rec usa i n j"
proof -
  have x: "x = take 2 (drop (usa + 2 * i) rec)" "length x = 2" "512 * (i - 1) + 512 \<le> length rec"
    using sl pt by (auto simp: slice_def put_def split: if_splits)
  have keep: "rec' ! k = rec ! k" if "k < 510" for k
    using put_nth [OF pt, of k] that x(3) by simp
  have at: "rec' ! j = (if j div 512 + 1 = i \<and> 510 \<le> j mod 512
      then rec ! (usa + 2 * i + (j mod 512 - 510)) else rec ! j)"
  proof (cases "j div 512 + 1 = i \<and> 510 \<le> j mod 512")
    case True
    then have "j - (512 * (i - 1) + 510) = j mod 512 - 510" "j mod 512 - 510 < 2"
      using minus_mult_div_eq_mod [of j 512] by auto
    with True show ?thesis
      using put_nth [OF pt j] sector_tail_iff [OF i(1), of j] usa i(2) x by (simp add: add.commute)
  next
    case False
    then show ?thesis
      using put_nth [OF pt j] sector_tail_iff [OF i(1), of j] x(2) by auto
  qed
  have "usa + 2 * (q + 1) + e < 510" if "q + 1 < n" "e < 2" for q e :: nat
    using that usa by simp
  moreover have "j mod 512 - 510 < 2"
    by (simp add: less_diff_conv2)
  ultimately have "usa + 2 * (j div 512 + 1) + (j mod 512 - 510) < 510" if "j div 512 + 1 < n"
    using that by blast
  then show ?thesis
    using at keep i(2) by (auto simp: fixed_byte_def not_less_eq_eq)
qed

lemma fixup_from_nth:
  assumes "usa + 2 * n \<le> 510"
  shows "\<lbrakk>1 \<le> i; 512 * (n - 1) \<le> length rec\<rbrakk> \<Longrightarrow>
    \<exists>rec'. fixup_from rec usa i n = Some rec' \<and> length rec' = length rec \<and>
      (\<forall>j < length rec. rec' ! j = fixed_byte rec usa i n j)"
  using assms
proof (induction rec usa i n rule: fixup_from.induct)
  case (1 rec usa i n)
  show ?case
  proof (cases "i < n")
    case False
    then show ?thesis by (auto simp: fixup_from.simps [of rec usa i n] fixed_byte_def)
  next
    case True
    have "512 * i \<le> 512 * (n - 1)"
      using True by simp
    then have len: "512 * (i - 1) + 512 \<le> length rec"
      using True "1.prems" by (simp add: diff_mult_distrib2)
    obtain x where sl: "slice rec (usa + 2 * i) 2 = Some x" "length x = 2"
      using True len "1.prems"(3) by (simp add: slice_def)
    obtain r where pt: "put rec (512 * (i - 1) + 510) x = Some r"
      using len sl(2) by (simp add: put_def)
    have lr: "length r = length rec"
      using put_length [OF pt] .
    obtain rec' where "fixup_from r usa (Suc i) n = Some rec'" "length rec' = length r"
        "\<forall>j < length r. rec' ! j = fixed_byte r usa (Suc i) n j"
      using "1.IH" [OF True sl(1) pt] "1.prems" lr by auto
    with lr True sl pt show ?thesis
      using fixed_byte_step [OF "1.prems"(1) True "1.prems"(3) _ sl(1) pt]
      by (auto simp: fixup_from.simps [of rec usa i n])
  qed
qed


text \<open>
  C26. \<open>FixupInode\<close> (partition.c) on a record of InodeSize sectors with its update sequence array inside the
  first sector: an array without entries, or with more than the record has sectors, is refused and
  the record left alone; in every other case the last two bytes of each protected sector become the
  corresponding entry of the array and every other byte is kept, whatever stood at the sector ends:
  they are not compared with the sequence number, so that a record written in part is accepted.
\<close>

theorem FixupInode_restores_sector_ends:
  assumes "rd16 rec 4 = Some usa" and "rd16 rec 6 = Some UsaCount"
    and "512 * unat InodeSize \<le> length rec" and "unat usa + 2 * (unat InodeSize + 1) \<le> 510"
  shows "if UsaCount = 0 \<or> unat InodeSize + 1 < unat UsaCount
    then FixupInode rec InodeSize = Some (False, rec)
    else \<exists>rec'. FixupInode rec InodeSize = Some (True, rec') \<and> length rec' = length rec \<and>
      (\<forall>j < length rec. rec' ! j =
         (if 510 \<le> j mod 512 \<and> j div 512 + 1 < unat UsaCount
          then rec ! (unat usa + 2 * (j div 512 + 1) + (j mod 512 - 510)) else rec ! j))"
proof -
  have "unat (InodeSize + 1) = unat InodeSize + 1"
    using assms(4) by (simp add: unat_add_no_wrap)
  then have big: "ucast UsaCount > InodeSize + 1 \<longleftrightarrow> unat InodeSize + 1 < unat UsaCount"
    by (simp add: word_less_nat_alt)
  show ?thesis
  proof (cases "UsaCount = 0 \<or> unat InodeSize + 1 < unat UsaCount")
    case True
    then have "ucast UsaCount > InodeSize + 1 \<or> UsaCount = 0" unfolding big by blast
    then have "FixupInode rec InodeSize = Some (False, rec)" using assms(1,2) by (simp add: FixupInode_def)
    then show ?thesis by (simp only: True if_True)
  next
    case False
    then have n: "unat usa + 2 * unat UsaCount \<le> 510" "512 * (unat UsaCount - 1) \<le> length rec"
      using assms(3,4) by auto
    have "\<not> (ucast UsaCount > InodeSize + 1 \<or> UsaCount = 0)" using False unfolding big by blast
    then show ?thesis
      using fixup_from_nth [OF n(1) order_refl n(2)] assms(1,2) unfolding if_not_P [OF False]
      by (auto simp: FixupInode_def fixed_byte_def)
  qed
qed

text \<open>The on-disk form of one run: a header byte with the two field widths, the number of
  clusters in \<open>n1\<close> bytes and the offset to the previous run in \<open>n2\<close> bytes, low byte first.\<close>

definition enc_run :: "nat \<Rightarrow> nat \<Rightarrow> u64 \<Rightarrow> u64 \<Rightarrow> buf" where
  "enc_run n1 n2 c delta = of_nat (n1 + 16 * n2) # le_bytes n1 c @ le_bytes n2 delta"

lemma run_header:
  assumes "n1 < 16" "n2 < 16"
  shows "run_n1 (of_nat (n1 + 16 * n2)) = n1" "run_n2 (of_nat (n1 + 16 * n2)) = n2"
proof -
  let ?h = "of_nat (n1 + 16 * n2) :: byte"
  have h: "unat ?h = n1 + 16 * n2"
    using assms by (simp add: unat_of_nat take_bit_nat_eq_self del: of_nat_add of_nat_mult)
  have lo: "unat (x AND 0xf) = unat x mod 16" for x :: byte
  proof -
    have "x AND 0xf = take_bit 4 x"
      by (simp add: take_bit_eq_mask mask_eq_exp_minus_1)
    then show ?thesis by (simp add: take_bit_eq_mod unat_mod_distrib)
  qed
  have hi: "unat (drop_bit 4 x) = unat x div 16" for x :: byte
    by (simp add: unat_drop_bit_eq drop_bit_eq_div)
  show "run_n1 ?h = n1" "run_n2 ?h = n2"
    unfolding run_n1_def run_n2_def lo hi h using assms by simp_all
qed

lemma le_bytes_append:
  "le_bytes (m + n) w = le_bytes m w @ le_bytes n (drop_bit (8 * m) w)"
  by (induction m arbitrary: w) (simp_all add: drop_bit_drop_bit add.commute)

lemma sign_extend_top:
  fixes w :: u64
  assumes "m < 8"
  shows "push_bit (8 * m) (scast (ucast (drop_bit (8 * m) w) :: byte)) + take_bit (8 * m) w
    = signed_take_bit (8 * m + 7) w"
proof -
  have "push_bit (8 * m) (scast (ucast (drop_bit (8 * m) w) :: byte) :: u64) AND take_bit (8 * m) w = 0"
    by (rule bit_word_eqI) (auto simp: bit_simps)
  then have "push_bit (8 * m) (scast (ucast (drop_bit (8 * m) w) :: byte) :: u64) + take_bit (8 * m) w
      = push_bit (8 * m) (scast (ucast (drop_bit (8 * m) w) :: byte)) OR take_bit (8 * m) w"
    by (simp add: disjunctive_add_eq_or)
  also have "\<dots> = signed_take_bit (8 * m + 7) w"
    using assms by (intro bit_word_eqI) (auto simp: bit_simps min_def)
  finally show ?thesis .
qed

text \<open>
  \<open>RunCount\<close>, \<open>RunLCN\<close> and \<open>RunLength\<close> (partition.c) read back a run from its on-disk form:
  the count modulo 2^32, the offset sign-extended from its width, and the length of the run.
\<close>

lemma run_decode_roundtrip:
  assumes "n1 \<le> 8" and "0 < n2" and "n2 \<le> 8" and "take (1 + n1 + n2) (drop run rec) = enc_run n1 n2 c delta"
  shows "RunCount rec run = Some (ucast (take_bit (8 * n1) c)) \<and>
    RunLCN rec run = Some (signed_take_bit (8 * n2 - 1) delta) \<and>
    RunLength rec run = Some (1 + n1 + n2)"
proof -
  obtain m where m: "n2 = Suc m" "m < 8"
    using assms(2,3) by (cases n2) auto
  have "length (take (1 + n1 + n2) (drop run rec)) = 1 + n1 + n2"
    by (simp only: assms(4)) (simp add: enc_run_def)
  then have len: "run + n1 + n2 < length rec"
    by simp
  have nth: "rec ! (run + i) = enc_run n1 n2 c delta ! i" if "i < 1 + n1 + n2" for i
    using that len assms(4) by (metis add_leE le_add1 nth_drop nth_take order_less_imp_le
        order.strict_trans1 less_imp_le_nat)
  have head: "rd8 rec run = Some (of_nat (n1 + 16 * n2))"
    using nth [of 0] len by (simp add: rd8_def enc_run_def)
  have cnt: "take n1 (drop (run + 1) rec) = le_bytes n1 c"
    using arg_cong [OF assms(4), of "\<lambda>xs. take n1 (drop 1 xs)"]
    by (simp add: enc_run_def drop_take)
  have lcn: "take n2 (drop (run + n1 + 1) rec) = le_bytes n2 delta"
    using arg_cong [OF assms(4), of "drop (1 + n1)"]
    by (simp add: enc_run_def drop_take add.commute)
  have low: "take m (drop (run + n1 + 1) rec) = le_bytes m delta"
    using arg_cong [OF lcn, of "take m"] m le_bytes_append [of m 1 delta] by simp
  have top: "rec ! (run + n1 + n2) = ucast (drop_bit (8 * m) delta)"
    using arg_cong [OF lcn, of "\<lambda>xs. xs ! m"] m le_bytes_append [of m 1 delta] len
    by (simp add: nth_append)
  have "RunCount rec run = Some (ucast (take_bit (8 * n1) c))"
    using head len cnt assms(1,3) run_header [of n1 n2]
    by (simp add: RunCount_def shift_bytes_le_word le_word_le_bytes_take_bit)
  moreover have "RunLCN rec run = Some (signed_take_bit (8 * n2 - 1) delta)"
    using head len low top assms(1,3) run_header [of n1 n2] m sign_extend_top [OF m(2), of delta]
    by (simp add: RunLCN_def shift_bytes_le_word le_word_le_bytes_take_bit rd8_def add.commute [of 7])
  moreover have "RunLength rec run = Some (1 + n1 + n2)"
    using head assms(1,3) run_header [of n1 n2] by (simp add: RunLength_def)
  ultimately show ?thesis by blast
qed


section \<open>Witnesses\<close>

text \<open>A small record: an attribute of type 0x10, a data attribute with the run list
  \<open>(5 clusters at 3), (2 sparse), (1 at 3 - 1)\<close>, and the end mark.\<close>

section \<open>Buffers with a tail\<close>

lemma fixup_from_length: "fixup_from rec usa i n = Some rec' \<Longrightarrow> length rec' = length rec"
proof (induction rec usa i n rule: fixup_from.induct)
  case (1 rec usa i n)
  show ?case
  proof (cases "i < n")
    case True
    obtain x rec1 where "slice rec (usa + 2 * i) 2 = Some x" "put rec (512 * (i - 1) + 510) x = Some rec1"
        "fixup_from rec1 usa (Suc i) n = Some rec'"
      using 1(2) True by (subst (asm) fixup_from.simps) (auto simp: option_simps)
    then show ?thesis
      using 1(1) [OF True] put_length by metis
  next
    case False
    then show ?thesis
      using 1(2) by (subst (asm) fixup_from.simps) simp
  qed
qed

lemma FixupInode_length: "FixupInode rec n = Some (ok, rec') \<Longrightarrow> length rec' = length rec"
  by (auto simp: FixupInode_def option_simps dest: fixup_from_length split: if_splits)

lemma fixup_from_append:
  "fixup_from rec usa i n = Some rec' \<Longrightarrow> fixup_from (rec @ t) usa i n = Some (rec' @ t)"
proof (induction rec usa i n rule: fixup_from.induct)
  case (1 rec usa i n)
  show ?case
  proof (cases "i < n")
    case True
    obtain x rec1 where *: "slice rec (usa + 2 * i) 2 = Some x" "put rec (512 * (i - 1) + 510) x = Some rec1"
        "fixup_from rec1 usa (Suc i) n = Some rec'"
      using 1(2) True by (subst (asm) fixup_from.simps) (auto simp: option_simps)
    show ?thesis
      using 1(1) [OF True *] buffer_append(5) [OF *(1)] buffer_append(6) [OF *(2)] True
      by (subst fixup_from.simps) simp
  next
    case False
    then show ?thesis
      using 1(2) by (subst fixup_from.simps, subst (asm) fixup_from.simps) simp
  qed
qed

lemma FixupInode_append:
  "FixupInode rec n = Some (ok, rec') \<Longrightarrow> FixupInode (rec @ t) n = Some (ok, rec' @ t)"
  by (auto simp: FixupInode_def buffer_append fixup_from_append elim!: bind_SomeE split: if_splits)

lemma find_attribute_from_append:
  assumes "find_attribute_from rec ty a = Some r"
  shows "find_attribute_from (rec @ t) ty a = Some r"
  using assms
proof (rule find_attribute_from.raw_induct [rotated])
  fix f :: "buf \<Rightarrow> u32 \<Rightarrow> nat \<Rightarrow> nat option option" and rec :: buf and ty a r
  assume IH: "\<And>rec ty a r. f rec ty a = Some r \<Longrightarrow> find_attribute_from (rec @ t) ty a = Some r"
    and body: "do { x \<leftarrow> rd32 rec a;
          if x = - 1 then Some None
          else if x = ty then Some (Some a)
          else do { len \<leftarrow> rd32 rec (a + 4); f rec ty (a + unat len) } } = Some r"
  show "find_attribute_from (rec @ t) ty a = Some r"
    using body by (subst find_attribute_from.simps) (auto simp: buffer_append IH elim!: bind_SomeE split: if_splits)
qed

lemma FindAttribute_append:
  "FindAttribute rec ty = Some r \<Longrightarrow> FindAttribute (rec @ t) ty = Some r"
  by (auto simp: FindAttribute_def buffer_append find_attribute_from_append elim!: bind_SomeE)

lemma shift_bytes_append:
  "shift_bytes rec run lo k acc = Some r \<Longrightarrow> shift_bytes (rec @ t) run lo k acc = Some r"
  by (induction k arbitrary: acc) (auto simp: buffer_append elim!: bind_SomeE)

lemma RunLCN_append: "RunLCN rec run = Some r \<Longrightarrow> RunLCN (rec @ t) run = Some r"
  by (auto simp: RunLCN_def buffer_append shift_bytes_append elim!: bind_SomeE split: if_splits)

lemma RunCount_append: "RunCount rec run = Some r \<Longrightarrow> RunCount (rec @ t) run = Some r"
  by (auto simp: RunCount_def buffer_append shift_bytes_append elim!: bind_SomeE)

lemma find_run_from_append:
  "find_run_from rec vcn run base lcn cnt = Some r \<Longrightarrow> find_run_from (rec @ t) vcn run base lcn cnt = Some r"
proof (induction rec vcn run base lcn cnt rule: find_run_from.induct)
  case (1 rec vcn run base lcn cnt)
  obtain x where x: "rd8 rec run = Some x"
    using 1(2) by (subst (asm) find_run_from.simps) (auto elim!: bind_SomeE)
  show ?case
  proof (cases "x = 0")
    case True
    then show ?thesis
      using 1(2) x by (subst find_run_from.simps, subst (asm) find_run_from.simps) (simp add: buffer_append)
  next
    case False
    obtain dl c where dc: "RunLCN rec run = Some dl" "RunCount rec run = Some c"
      using 1(2) x False by (subst (asm) find_run_from.simps) (auto elim!: bind_SomeE)
    show ?thesis
      using 1(2) 1(1) [OF x False dc refl] x False dc
      by (subst find_run_from.simps, subst (asm) find_run_from.simps)
        (auto simp: buffer_append RunLCN_append RunCount_append Let_def split: if_splits)
  qed
qed

lemma FindRun_append: "FindRun rec a vcn lcn cnt = Some r \<Longrightarrow> FindRun (rec @ t) a vcn lcn cnt = Some r"
  by (auto simp: FindRun_def buffer_append find_run_from_append elim!: bind_SomeE split: if_splits)

section \<open>A sample record\<close>

definition sample_record :: buf where
  "sample_record = [0,0,0,0, 42,0, 1,0, 0,0,0,0,0,0,0,0, 0,0,0,0, 24,0, 0,0,
     0x10,0,0,0, 8,0,0,0,
     0x80,0,0,0, 50,0,0,0, 1,0,0,0, 0,0,0,0, 0,0,0,0,0,0,0,0, 7,0,0,0,0,0,0,0, 40,0,
     0,0,0,0,0,0, 0x11,5,3, 0x01,2, 0x11,1,0xff, 0, 0,
     0xff,0xff,0xff,0xff]"

lemma FindRun_locates_extent_witness:
  "\<exists>l' c'. FindRun sample_record 32 6 0 0 =
    Some (case find (covers 6) (extents 0 0 [(3, 5), (0, 2), (- 1, 1)]) of
            Some e \<Rightarrow> (True, extent_lcn 6 e, extent_rest 6 e)
          | None \<Rightarrow> (False, l', c'))"
proof -
  have 1: "rd64 sample_record (32 + 16) = Some 0" "rd64 sample_record (32 + 24) = Some 7"
      "rd16 sample_record (32 + 32) = Some 40"
    by (simp_all add: rd64_def rd16_def rd_le_def sample_record_def)
  have 2: "runs_at sample_record (32 + unat (40 :: u16)) = Some [(3, 5), (0, 2), (- 1, 1)]"
    by code_simp
  show ?thesis
    using FindRun_locates_extent [OF 1 2, of 6 0 0] by (simp add: clusters_of_def)
qed

lemma FindAttribute_first_witness:
  "FindAttribute sample_record 0x80 =
    Some (map_option fst (find (\<lambda>(ofs, typ). typ = (0x80 :: u32)) [(24, 0x10), (32, 0x80)]))"
proof (rule FindAttribute_first)
  show "rd16 sample_record 20 = Some 24"
    by code_simp
  show "attr_chain sample_record (unat (24 :: u16)) [(24, 0x10), (32, 0x80)]"
    by (simp add: rd32_def rd_le_def sample_record_def)
qed

theorem FindAttribute_zero_length_diverges_witness:
  "FindAttribute (replicate 20 0 @ [24,0,0,0, 0x10,0,0,0, 0,0,0,0]) 0x80 = None"
proof (rule FindAttribute_zero_length_diverges)
  show "rd16 (replicate 20 0 @ [24,0,0,0, 0x10,0,0,0, 0,0,0,0]) 20 = Some 24"
    "rd32 (replicate 20 0 @ [24,0,0,0, 0x10,0,0,0, 0,0,0,0]) (unat (24 :: u16)) = Some 0x10"
    "rd32 (replicate 20 0 @ [24,0,0,0, 0x10,0,0,0, 0,0,0,0]) (unat (24 :: u16) + 4) = Some 0"
    by code_simp+
qed simp_all

text \<open>A sector whose end [1, 1] is replaced by [7, 9], and one that is refused.\<close>

theorem FixupInode_restores_sector_ends_witness:
  "(\<exists>rec'. FixupInode ([0,0,0,0, 8,0, 2,0, 1,1, 7,9] @ replicate 498 0 @ [1,1]) 1 = Some (True, rec') \<and>
      length rec' = 512 \<and> rec' ! 510 = 7 \<and> rec' ! 511 = 9 \<and> rec' ! 10 = 7) \<and>
    FixupInode ([0,0,0,0, 8,0, 3,0, 1,1, 7,9] @ replicate 498 0 @ [1,1]) 1 =
      Some (False, [0,0,0,0, 8,0, 3,0, 1,1, 7,9] @ replicate 498 0 @ [1,1])"
proof -
  let ?r = "\<lambda>n. [0,0,0,0, 8,0, n,0, 1,1, 7,9] @ replicate 498 0 @ [1,1 :: byte]"
  have r: "rd16 (?r n) 4 = Some 8" "rd16 (?r 2) 6 = Some 2" "rd16 (?r 3) 6 = Some 3"
    "512 * unat (1 :: u32) \<le> length (?r n)" "unat (8 :: u16) + 2 * (unat (1 :: u32) + 1) \<le> 510" "length (?r n) = 512" for n
    by (simp_all add: rd16_def rd_le_def)
  obtain rec' where f: "FixupInode (?r 2) 1 = Some (True, rec')" "length rec' = 512"
    "\<forall>j < length (?r 2). rec' ! j = (if 510 \<le> j mod 512 \<and> j div 512 + 1 < unat (2 :: u16)
          then ?r 2 ! (unat (8 :: u16) + 2 * (j div 512 + 1) + (j mod 512 - 510)) else ?r 2 ! j)"
    using FixupInode_restores_sector_ends [OF r(1,2,4,5)] r(6) by auto
  have "FixupInode (?r 3) 1 = Some (False, ?r 3)"
    using FixupInode_restores_sector_ends [OF r(1,3,4,5)] by simp
  then show ?thesis using f by (intro conjI exI [of _ rec']) auto
qed

lemma run_decode_roundtrip_witness:
  "RunCount [0x11, 5, 0xff] 0 = Some (ucast (take_bit (8 * 1) (5 :: u64))) \<and>
    RunLCN [0x11, 5, 0xff] 0 = Some (signed_take_bit (8 * 1 - 1) (- 1)) \<and>
    RunLength [0x11, 5, 0xff] 0 = Some (1 + 1 + 1)"
proof (rule run_decode_roundtrip)
  show "take (1 + 1 + 1) (drop 0 [0x11, 5, 0xff]) = enc_run 1 1 5 (- 1)"
    by code_simp
qed simp_all

end
