(* ===== verification/Okr_Strings.thy ===== *)
theory Okr_Strings
  imports Okr_Prelude
begin

text \<open>
  String and byte helpers of \<^verbatim>\<open>src/OkrPkg/okrefi/utils.c\<close> and \<^verbatim>\<open>func.c\<close>. A C string is the list
  of bytes (or 16-bit characters) from the pointer on; running past the end of the list without
  meeting a terminator is \<open>None\<close>. Plain \<open>char\<close> is signed, so comparisons go through \<open>sint\<close>.
\<close>

definition ALGIN_SIZE_BYTE :: u64 where "ALGIN_SIZE_BYTE = 4096"

definition CalcAliginSize :: "u64 \<Rightarrow> u64" where
  "CalcAliginSize num = (num + ALGIN_SIZE_BYTE - 1) div ALGIN_SIZE_BYTE * ALGIN_SIZE_BYTE"

fun Ascii2Unicode :: "byte list \<Rightarrow> u16 list option" where
  "Ascii2Unicode [] = None"
| "Ascii2Unicode (c # cs) = (if c = 0 then Some [0] else map_option ((#) (scast c)) (Ascii2Unicode cs))"

fun Unicode2Ascii :: "u16 list \<Rightarrow> byte list option" where
  "Unicode2Ascii [] = None"
| "Unicode2Ascii (c # cs) =
     (if (ucast c :: byte) = 0 then Some [0] else map_option ((#) (ucast c)) (Unicode2Ascii cs))"

fun StrLength :: "u16 list \<Rightarrow> nat option" where
  "StrLength [] = None"
| "StrLength (c # cs) = (if c = 0 then Some 0 else map_option Suc (StrLength cs))"

fun Upper :: "byte list \<Rightarrow> (nat \<times> byte list) option" where
  "Upper [] = None"
| "Upper (c # cs) =
     (if c = 0 then Some (0, c # cs)
      else do { (i, r) \<leftarrow> Upper cs;
                Some (Suc i, (if 0x61 \<le> sint c \<and> sint c \<le> 0x7a then c - 32 else c) # r) })"

text \<open>\<open>strnicmp\<close>: the loop condition is evaluated, and both characters are read, before the
  remaining length is tested.\<close>

fun strnicmp :: "byte list \<Rightarrow> byte list \<Rightarrow> nat \<Rightarrow> int option" where
  "strnicmp (a # s1) (b # s2) len =
     (let near = sint a = sint b \<or> sint a = sint b + 0x20 \<or> sint a = sint b - 0x20;
          stop = (if len = 0 then 0 else if sint a > sint b then 1 else if a = b then 0 else - 1)
      in if near \<and> len \<noteq> 0
         then if a = 0 \<or> b = 0 then Some stop
              else if sint a > sint b \<and> (sint a < 0x61 \<or> sint a > 0x7a) then Some 1
              else if sint a < sint b \<and> (sint a < 0x41 \<or> sint a > 0x5a) then Some (- 1)
              else strnicmp s1 s2 (len - 1)
         else Some stop)"
| "strnicmp _ _ _ = None"

text \<open>\<open>mywcsnicmp\<close> on 16-bit characters; the difference of the first distinct pair is returned.\<close>

fun mywcsnicmp :: "u16 list \<Rightarrow> u16 list \<Rightarrow> nat \<Rightarrow> int option" where
  "mywcsnicmp (s # src) (d # dst) len =
     (let stop = Some (if len \<noteq> 0 \<and> d \<noteq> s then uint s - uint d else 0) in
      if d \<noteq> 0 \<and> len \<noteq> 0
      then if uint s > uint d \<and> uint s \<noteq> uint d + 0x20 then stop
           else if uint s < uint d \<and> uint s \<noteq> uint d - 0x20 then stop
           else mywcsnicmp src dst (len - 1)
      else stop)"
| "mywcsnicmp _ _ _ = None"

text \<open>16-bit characters in a byte buffer.\<close>

fun word_pairs :: "buf \<Rightarrow> u16 list" where
  "word_pairs (a # b # r) = le_word [a, b] # word_pairs r"
| "word_pairs [a] = [ucast a]"
| "word_pairs [] = []"

fun MyMemCmp :: "byte list \<Rightarrow> byte list \<Rightarrow> nat \<Rightarrow> int option" where
  "MyMemCmp xs ys 0 = Some 0"
| "MyMemCmp (x # xs) (y # ys) (Suc n) = (if x \<noteq> y then Some 1 else MyMemCmp xs ys n)"
| "MyMemCmp _ _ (Suc n) = None"

text \<open>\<open>modifysatasn\<close>: swap the bytes of each word of the 20-byte serial number, drop the leading
  blanks, and clear the tail. The \<open>j++\<close> between the two last loops skips one position.\<close>

fun swap_pairs :: "byte list \<Rightarrow> byte list" where
  "swap_pairs (a # b # r) = b # a # swap_pairs r"
| "swap_pairs r = r"

definition modifysatasn :: "buf \<Rightarrow> buf option" where
  "modifysatasn sn =
     (if length sn < 20 then None
      else let temp = swap_pairs (take 20 sn);
               i = length (takeWhile (\<lambda>c. c = 0x20) temp)
           in Some (drop i temp @ (if i = 0 then [] else sn ! (20 - i) # replicate (i - 1) 0) @ drop 20 sn))"

definition sthvalue :: "byte \<Rightarrow> int" where
  "sthvalue c =
     (if 0x30 \<le> sint c \<and> sint c \<le> 0x39 then 48
      else if 0x61 \<le> sint c \<and> sint c \<le> 0x66 then 87
      else if 0x41 \<le> sint c \<and> sint c \<le> 0x46 then 55 else - 1)"

definition hex_byte :: "byte \<Rightarrow> byte \<Rightarrow> byte" where
  "hex_byte a b =
     word_of_int (push_bit 4 ((sint a - sthvalue a) AND 15) OR ((sint b - sthvalue b) AND 15))"

fun hex_pairs :: "byte list \<Rightarrow> byte list" where
  "hex_pairs (a # b # r) = hex_byte a b # hex_pairs r"
| "hex_pairs [a] = [hex_byte a 0]"
| "hex_pairs [] = []"

definition strtohex :: "byte list \<Rightarrow> (nat \<times> byte list) option" where
  "strtohex str =
     (if 0 \<in> set str then let s = takeWhile (\<lambda>c. c \<noteq> 0) str in Some (length s, hex_pairs s) else None)"

section \<open>Alignment\<close>

lemma unat_CalcAliginSize:
  assumes "unat num \<le> 2 ^ 64 - 4096"
  shows "unat (CalcAliginSize num) = (unat num + 4095) div 4096 * 4096"
proof -
  define n where "n = unat num"
  have "num + ALGIN_SIZE_BYTE - 1 = num + 4095"
    by (simp add: ALGIN_SIZE_BYTE_def)
  moreover have sum: "unat (num + 4095) = n + 4095"
    using assms unfolding n_def by (subst unat_add_no_wrap) auto
  ultimately have q: "unat ((num + ALGIN_SIZE_BYTE - 1) div ALGIN_SIZE_BYTE) = (n + 4095) div 4096"
    by (simp add: unat_div_distrib ALGIN_SIZE_BYTE_def take_bit_nat_eq_self add.commute [of _ num])
  have le: "(n + 4095) div 4096 * 4096 \<le> n + 4095" and bound: "n \<le> 2 ^ 64 - 4096"
    using assms by (auto simp: n_def)
  show ?thesis
    unfolding CalcAliginSize_def n_def [symmetric] using le bound
    by (subst unat_mult_no_wrap, simp_all only: q) (auto simp: ALGIN_SIZE_BYTE_def)
qed

lemma align_4096_bounds: "n \<le> (n + 4095) div 4096 * 4096" "(n + 4095) div 4096 * 4096 < n + (4096 :: nat)"
  using div_mult_mod_eq [of "n + 4095" 4096] mod_less_divisor [of 4096 "n + 4095"]
  by linarith+

text \<open>
\<open>CalcAliginSize\<close> (utils.c) rounds up to the next multiple of 4096, unless the sum wraps.
\<close>

theorem CalcAliginSize_rounds_up:
  assumes "unat num \<le> 2 ^ 64 - 4096"
  shows "4096 dvd unat (CalcAliginSize num) \<and> unat num \<le> unat (CalcAliginSize num) \<and>
    unat (CalcAliginSize num) < unat num + 4096"
  using align_4096_bounds [of "unat num"] by (simp add: unat_CalcAliginSize [OF assms])

theorem CalcAliginSize_rounds_up_witness:
  "4096 dvd unat (CalcAliginSize 5000) \<and> unat (5000 :: u64) \<le> unat (CalcAliginSize 5000) \<and>
    unat (CalcAliginSize 5000) < unat (5000 :: u64) + 4096"
  by (rule CalcAliginSize_rounds_up) simp

section \<open>Comparison without case\<close>

definition up_char :: "byte \<Rightarrow> byte" where
  "up_char c = (if 0x61 \<le> sint c \<and> sint c \<le> 0x7a then c - 32 else c)"

text \<open>Equality of two strings in their first \<open>n\<close> characters, ignoring the case of ASCII letters
  and stopping at a terminator.\<close>

fun same_nocase :: "byte list \<Rightarrow> byte list \<Rightarrow> nat \<Rightarrow> bool" where
  "same_nocase (a # s1) (b # s2) (Suc n) \<longleftrightarrow>
     up_char a = up_char b \<and> (a = 0 \<or> same_nocase s1 s2 n)"
| "same_nocase _ _ 0 \<longleftrightarrow> True"
| "same_nocase _ _ _ \<longleftrightarrow> False"

lemma sint_eq_iff: "sint a = sint b \<longleftrightarrow> a = (b :: 'a::len word)"
  by (auto intro: signed_word_eqI)

lemma sint_lower [simp]:
  fixes c :: byte
  assumes "0x61 \<le> sint c" "sint c \<le> 0x7a"
  shows "sint (c - 32) = sint c - 32"
  using assms by (simp add: sint_word_ariths signed_take_bit_int_eq_self)

lemma up_char_eq_iff:
  "up_char a = up_char b \<longleftrightarrow> a = b
     \<or> (sint a = sint b + 32 \<and> 0x61 \<le> sint a \<and> sint a \<le> 0x7a)
     \<or> (sint a = sint b - 32 \<and> 0x41 \<le> sint a \<and> sint a \<le> 0x5a)"
  unfolding up_char_def sint_eq_iff [symmetric] by auto

text \<open>
  \<open>strnicmp\<close> (utils.c) on terminated strings returns, and it returns 0 exactly for strings
  that agree in their first \<open>n\<close> characters up to the case of ASCII letters.
\<close>

theorem strnicmp_same_nocase:
  assumes "0 \<in> set s1" and "0 \<in> set s2"
  shows "\<exists>r. strnicmp s1 s2 n = Some r \<and> (r = 0 \<longleftrightarrow> same_nocase s1 s2 n)"
  using assms
proof (induction s1 s2 n rule: strnicmp.induct)
  case (1 a s1 b s2 len)
  have z: "a = b \<longleftrightarrow> sint a = sint b"
    by (simp add: sint_eq_iff)
  show ?case
  proof (cases len)
    case (Suc n)
    then show ?thesis
      using 1 z by (auto simp: Let_def up_char_eq_iff)
  qed simp
qed auto

theorem strnicmp_same_nocase_witness:
  "\<exists>r. strnicmp [0x61, 0x42, 0] [0x41, 0x62, 0] 3 = Some r \<and>
    (r = 0 \<longleftrightarrow> same_nocase [0x61, 0x42, 0] [0x41, 0x62, 0] 3)"
  by (rule strnicmp_same_nocase) simp_all

text \<open>
  \<open>mywcsnicmp\<close> (utils.c) has no test for letters: it accepts every pair of characters where
  the first is 0x20 above or below the second, whatever they are, so that names that differ in
  such a position compare equal.
\<close>

theorem mywcsnicmp_conflates_nonletters:
  assumes "d \<noteq> 0" and "uint s = uint d + 0x20 \<or> uint s = uint d - 0x20"
  shows "mywcsnicmp (s # src) (d # dst) (Suc n) = mywcsnicmp src dst n"
  using assms by (auto simp: Let_def)

theorem mywcsnicmp_conflates_nonletters_witness:
  "mywcsnicmp [0x5b, 0] [0x7b, 0] (Suc 1) = mywcsnicmp [0] [0] 1"
  by (rule mywcsnicmp_conflates_nonletters) simp_all

section \<open>Character sets and hexadecimal digits\<close>

text \<open>
\<open>Ascii2Unicode\<close> followed by \<open>Unicode2Ascii\<close> (utils.c) gives back every terminated string,
  bytes above 0x7f included: the sign extension of the first call is cut off by the second.
\<close>

theorem Ascii_Unicode_roundtrip:
  assumes "0 \<notin> set cs"
  shows "Option.bind (Ascii2Unicode (cs @ 0 # rest)) Unicode2Ascii = Some (cs @ [0])"
proof -
  have cast: "(ucast (scast (c :: byte) :: u16) :: byte) = c" for c
    by (rule bit_word_eqI) (auto simp: bit_simps)
  have "Ascii2Unicode (cs @ 0 # rest) = Some (map scast cs @ [0])"
    using assms by (induction cs) auto
  moreover have "Unicode2Ascii (map scast cs @ [0]) = Some (cs @ [0])"
    using assms by (induction cs) (auto simp: cast)
  ultimately show ?thesis by simp
qed

theorem Ascii_Unicode_roundtrip_witness:
  "Option.bind (Ascii2Unicode ([0x41, 0xe4] @ 0 # [])) Unicode2Ascii = Some ([0x41, 0xe4] @ [0])"
  by (rule Ascii_Unicode_roundtrip) simp

definition hex_digit :: "nat \<Rightarrow> byte" where
  "hex_digit k = (if k < 10 then of_nat (48 + k) else of_nat (87 + k))"

fun to_hex :: "byte list \<Rightarrow> byte list" where
  "to_hex [] = []"
| "to_hex (b # bs) = hex_digit (unat b div 16) # hex_digit (unat b mod 16) # to_hex bs"

lemma hex_digit_cases: "\<forall>k\<in>{0..<16}. hex_digit k \<noteq> 0 \<and> (sint (hex_digit k) - sthvalue (hex_digit k)) AND 15 = int k"
  by code_simp

lemma byte_div_16 [simp]: "unat (b :: byte) div 16 < 16"
proof -
  have "unat b < 2 ^ 8"
    using unsigned_less [of b] by simp
  then show ?thesis by simp
qed

lemma hex_byte_digits:
  "hex_byte (hex_digit (unat b div 16)) (hex_digit (unat b mod 16)) = b"
proof -
  have "push_bit 4 (int (unat b div 16)) = push_bit 4 (drop_bit 4 (uint b))"
    and "int (unat b mod 16) = take_bit 4 (uint b)"
    by (simp_all add: zdiv_int zmod_int drop_bit_eq_div take_bit_eq_mod)
  moreover have "push_bit 4 (drop_bit 4 (uint b)) OR take_bit 4 (uint b) = uint b"
    by (rule bit_eqI) (auto simp: bit_simps)
  ultimately have "push_bit 4 (int (unat b div 16)) OR int (unat b mod 16) = uint b"
    by simp
  then show ?thesis
    using hex_digit_cases by (simp add: hex_byte_def)
qed

text \<open>
  \<open>strtohex\<close> (func.c) decodes the lower-case hexadecimal text of any byte string to that byte
  string, and returns the length of the text.
\<close>

lemma strtohex_roundtrip:
  "strtohex (to_hex bs @ 0 # rest) = Some (2 * length bs, bs)"
proof -
  have nz: "0 \<notin> set (to_hex bs)"
    using hex_digit_cases byte_div_16 by (induction bs) (fastforce simp del: byte_div_16)+
  have "length (to_hex bs) = 2 * length bs" "hex_pairs (to_hex bs) = bs"
    by (induction bs) (auto simp: hex_byte_digits)
  moreover have "takeWhile (\<lambda>c. c \<noteq> 0) (to_hex bs @ 0 # rest) = to_hex bs"
    using nz by (subst takeWhile_append2) auto
  ultimately show ?thesis
    by (simp add: strtohex_def)
qed

section \<open>Serial numbers\<close>

text \<open>
  \<open>modifysatasn\<close> (utils.c) swaps the byte pairs of a 20-byte serial number and drops the
  leading blanks, and clears the rest but one: with \<open>i\<close> leading blanks the byte at \<open>20 - i\<close> keeps
  the value the raw serial number had there, so the result need not be terminated after its text.
\<close>

theorem modifysatasn_stale_byte:
  assumes "length sn = 20" and "i = length (takeWhile (\<lambda>c. c = 0x20) (swap_pairs sn))" and "0 < i"
  shows "\<exists>r. modifysatasn sn = Some r \<and> length r = 20 \<and>
    take (20 - i) r = drop i (swap_pairs sn) \<and> r ! (20 - i) = sn ! (20 - i) \<and>
    (\<forall>k. 20 - i < k \<and> k < 20 \<longrightarrow> r ! k = 0)"
proof -
  have len: "length (swap_pairs sn) = length sn" for sn
    by (induction sn rule: swap_pairs.induct) auto
  then have "i \<le> 20"
    using assms(1,2) by (metis length_takeWhile_le)
  define t where "t = swap_pairs sn"
  have l: "length t = 20"
    using len assms by (simp add: t_def)
  have "modifysatasn sn = Some (drop i t @ sn ! (20 - i) # replicate (i - 1) 0)"
    using assms by (simp add: modifysatasn_def t_def Let_def)
  then show ?thesis
    unfolding t_def [symmetric] using l \<open>i \<le> 20\<close> assms(3) by (auto simp: nth_append nth_Cons')
qed

theorem modifysatasn_stale_byte_witness:
  "\<exists>r. modifysatasn ([0x41, 0x20] @ replicate 18 0x42) = Some r \<and> length r = 20 \<and>
    take (20 - 1) r = drop 1 (swap_pairs ([0x41, 0x20] @ replicate 18 0x42)) \<and>
    r ! (20 - 1) = ([0x41, 0x20] @ replicate 18 0x42) ! (20 - 1) \<and>
    (\<forall>k. 20 - 1 < k \<and> k < 20 \<longrightarrow> r ! k = 0)"
  by (rule modifysatasn_stale_byte) (simp, code_simp, simp)

end
