(* ===== verification/Okr_Volume.thy ===== *)
theory Okr_Volume
  imports Okr_Bitmap Okr_DiskIo Okr_Ntfs Okr_Strings
begin

text \<open>
  The volume reader of \<^verbatim>\<open>src/OkrPkg/okrefi/partition.c\<close>: recognising a file system from its boot
  sector, finding the cluster bitmap of an NTFS volume, counting the used clusters of a volume
  and scanning it for the sectors a backup has to save.

  The static variables of the file and the buffers of \<open>g_data\<close> it uses are the fields of the
  record \<open>part_state\<close>. \<open>m_group_desc\<close> only ever is null or equal to \<open>g_data.groupdesc\<close>, so it is
  a flag. A buffer that was allocated is its contents.
\<close>

record DISKINFO =
  totalsector :: u64
  formatted :: bool
  disk_guid :: buf
  removable :: bool
  datadisk :: bool
  curdisktype :: byte
  isRAIDDisk :: byte
  raidDisksn :: buf

record part_state =
  m_group_desc :: bool
  m_BootBegin :: u64
  m_SectorsPerCluster :: u32
  m_PartitionType :: byte
  m_PartitionIndex :: byte
  m_DiskNumber :: byte
  m_bLBAMode :: bool
  m_BitmapSectorList :: "SIZE_L list"
  m_FatBuffer :: "buf option"
  m_dwFatBufferSize :: u32
  m_FatSize :: u32
  m_RecursiveTimes :: u32
  g_dwTotalPartitions :: u32
  g_Partitions :: "WIN32_PARTITIONINFO list"
  g_disklist :: "DISKINFO list"
  groupdesc :: "buf option"
  groupdescsize :: u32
  scanbuffer :: "buf option"
  oempartition :: u32

definition INODE_VOLUME :: u32 where "INODE_VOLUME = 3"
definition INODE_BITMAP :: u32 where "INODE_BITMAP = 6"
definition SCANBUFFER_SIZE :: u32 where "SCANBUFFER_SIZE = 0x10000"
definition EXT4_BG_BLOCK_UNINIT :: u16 where "EXT4_BG_BLOCK_UNINIT = 2"
definition MAX_BITMAP_RUNS :: nat where "MAX_BITMAP_RUNS = 16"

text \<open>Partition ids the program knows but does not back up.\<close>

definition IsUnSupportedPartition :: "u16 \<Rightarrow> int" where
  "IsUnSupportedPartition pid =
     (if pid \<in> set (map ucast [NTFS, FAT16, FAT32, FAT16_E, FAT32_E, PARTITION_LINUX]) then 0
      else if pid \<in> set [0x82, 0x01, 0x02, 0x03, 0x04, 0x42, 0x39, 0x41, 0x51, 0x53, 0x54, 0x55,
                         0x63, 0x64, 0x81, 0x85, 0x86, 0xa5, 0xa6, 0xa9, 0xb7, 0xfd] then 1
      else 2)"

definition myalloc :: "'d disk_env \<Rightarrow> 'd \<Rightarrow> u32 \<Rightarrow> buf option" where
  "myalloc env d len = AllocatePool env d (unat (if len < 0x1000 then 0x1000 else len))"

text \<open>\<open>SetMem\<close> takes the length before the value. The call on \<open>m_BitmapSectorList\<close> has them the
  other way round and clears nothing.\<close>

definition InitPartition :: "part_state \<Rightarrow> part_state" where
  "InitPartition s = s\<lparr>m_group_desc := False, m_FatBuffer := None, m_dwFatBufferSize := 0,
     m_RecursiveTimes := 0, g_dwTotalPartitions := 0,
     g_Partitions := replicate MAX_NUM_PARTITIONS empty_partition\<rparr>"

definition CleanPartition :: "part_state \<Rightarrow> part_state" where
  "CleanPartition s = s\<lparr>m_FatBuffer := None\<rparr>"

section \<open>Reading allocation tables\<close>

text \<open>\<open>GetExt3BitmapSector\<close>: the group descriptors are read on the first call after
  \<open>m_group_desc\<close> was reset. Group descriptor \<open>i\<close> is at \<open>32 * i\<close>, \<open>bg_flags\<close> at 18 in it.\<close>

definition GetExt3BitmapSector ::
  "'d disk_env \<Rightarrow> 'd \<Rightarrow> WIN32_PARTITIONINFO \<Rightarrow> u32 \<Rightarrow> part_state \<Rightarrow> (u32 \<times> part_state) option" where
  "GetExt3BitmapSector env d Partition GroupIndex s =
     do { s' \<leftarrow> (if m_group_desc s then Some s
            else do {
              let desc_size = (groups_count Partition * 32 + 0xfff) AND NOT 0xfff;
              let s1 = (if groupdesc s = None \<or> desc_size > groupdescsize s
                 then s\<lparr>groupdescsize := desc_size, groupdesc := myalloc env d desc_size\<rparr> else s);
              gd \<leftarrow> groupdesc s1;
              (_, gd') \<leftarrow> DiskRead env d (ucast (DiskNumber Partition))
                 (ucast (group_desc_sector Partition) + BootBegin Partition) (desc_size div 512) gd 0;
              Some (s1\<lparr>groupdesc := Some gd', m_group_desc := True\<rparr>) });
          gd \<leftarrow> groupdesc s';
          flags \<leftarrow> rd16 gd (32 * unat GroupIndex + 18);
          if flags AND EXT4_BG_BLOCK_UNINIT \<noteq> 0 then Some (0, s')
          else do { blk \<leftarrow> rd32 gd (32 * unat GroupIndex);
                    Some (blk * ucast (SectorsPerClr Partition), s') } }"

text \<open>Whether entry \<open>i\<close> of an allocation table with entries of \<open>m_FatSize\<close> bytes is in use; an
  entry of one byte stands for eight clusters.\<close>

definition entry_used :: "u32 \<Rightarrow> buf \<Rightarrow> nat \<Rightarrow> bool option" where
  "entry_used fatsize b i =
     do { x \<leftarrow> rd8 b (i * unat fatsize);
          if x \<noteq> 0 then Some True
          else if fatsize = 2 then do { w \<leftarrow> rd16 b (i * unat fatsize); Some (w \<noteq> 0) }
          else if fatsize = 4 then do { w \<leftarrow> rd32 b (i * unat fatsize); Some (w \<noteq> 0) }
          else Some False }"

function count_entries :: "u32 \<Rightarrow> buf \<Rightarrow> nat \<Rightarrow> nat \<Rightarrow> u64 \<Rightarrow> u64 option" where
  "count_entries fatsize b i n acc =
     (if i < n
      then do { used \<leftarrow> entry_used fatsize b i;
                count_entries fatsize b (Suc i) n
                  (if used then (if fatsize = 1 then acc + 8 else acc + 1) else acc) }
      else Some acc)"
  by pat_completeness auto
termination
  by (relation "measure (\<lambda>(fs, b, i, n, acc). n - i)") auto

declare count_entries.simps [simp del]

text \<open>The variables of the two scanning loops. \<open>groupindex\<close> is uninitialised in C for the file
  systems that do not use it.\<close>

record scan_vars =
  tot :: u64
  fatSector :: u64
  remainSectors :: u32
  runindex :: nat
  groupindex :: u32
  bitmapsize :: u32

text \<open>What both loops do after a read of \<open>cnt\<close> sectors: the number of table entries the buffer
  now holds, and on NTFS the step to the next run of the bitmap.\<close>

definition entries_read ::
  "WIN32_PARTITIONINFO \<Rightarrow> part_state \<Rightarrow> u64 \<Rightarrow> u32 \<Rightarrow> scan_vars \<Rightarrow> (u32 \<times> scan_vars) option" where
  "entries_read Partition s totsec cnt v =
     (if m_FatSize s = 2 then Some (cnt * 256, v)
      else if m_FatSize s = 4 then Some (cnt * 128, v)
      else if m_PartitionType s = NTFS
      then let v1 = v\<lparr>remainSectors := remainSectors v - cnt\<rparr> in
        if remainSectors v1 = 0
        then if runindex v < length (m_BitmapSectorList s)
          then let r = m_BitmapSectorList s ! runindex v in
            Some (cnt * 512, v1\<lparr>fatSector := Begin r + m_BootBegin s, remainSectors := Number r,
              runindex := Suc (runindex v), tot := ucast (Number r)\<rparr>)
          else None
        else Some (cnt * 512, v1)
      else if m_PartitionType s = PARTITION_LINUX
      then do { c \<leftarrow> (if tot v = 0
                  then if m_SectorsPerCluster s = 0 \<or> blocks_per_group Partition = 0 then None
                    else Some (ucast (totsec div ucast (m_SectorsPerCluster s)
                                        mod ucast (blocks_per_group Partition)))
                  else Some (blocks_per_group Partition));
                Some ((c + 7) div 8, v) }
      else Some (cnt, v))"

text \<open>The choice of the next read: the number of sectors and the first one. \<open>None\<close> in the
  result is an uninitialised block group, which is skipped. \<open>lim\<close> is the buffer in sectors.\<close>

definition next_read ::
  "'d disk_env \<Rightarrow> 'd \<Rightarrow> WIN32_PARTITIONINFO \<Rightarrow> u32 \<Rightarrow> scan_vars \<Rightarrow> part_state
   \<Rightarrow> ((u32 \<times> u64) option \<times> part_state) option" where
  "next_read env d Partition lim v s =
     (let cnt = (if tot v > ucast lim then lim else ucast (tot v)) in
      if m_PartitionType s = NTFS
      then Some (Some (if cnt > remainSectors v then remainSectors v else cnt, fatSector v), s)
      else if m_PartitionType s = PARTITION_LINUX
      then do { (sec, s') \<leftarrow> GetExt3BitmapSector env d Partition (groupindex v) s;
                Some (if sec = 0 then None else Some (bitmapsize v, ucast sec + m_BootBegin s), s') }
      else Some (Some (cnt, fatSector v), s))"

text \<open>The loop of \<open>GetPartTotalClr\<close>, where \<open>total\<close> is a double word.\<close>

partial_function (option) total_clr_loop ::
  "'d disk_env \<Rightarrow> 'd \<Rightarrow> WIN32_PARTITIONINFO \<Rightarrow> scan_vars \<Rightarrow> u64 \<Rightarrow> part_state
   \<Rightarrow> (u64 \<times> part_state) option" where
  "total_clr_loop env d Partition v totalClrs s =
     (if tot v = 0 then Some (totalClrs, s)
      else do {
        (sel, s1) \<leftarrow> next_read env d Partition (m_dwFatBufferSize s div 512) v s;
        (case sel of
           None \<Rightarrow> total_clr_loop env d Partition
             (v\<lparr>tot := ucast (ucast (tot v) - bitmapsize v), groupindex := groupindex v + 1\<rparr>) totalClrs s1
         | Some (cnt, sec) \<Rightarrow> do {
             fb \<leftarrow> m_FatBuffer s1;
             (_, fb') \<leftarrow> DiskRead env d (ucast (m_DiskNumber s1)) sec cnt fb 0;
             (n, v1) \<leftarrow> entries_read Partition s1 (TotalSectors Partition) cnt
               (v\<lparr>tot := ucast (ucast (tot v) - cnt), fatSector := sec + ucast cnt\<rparr>);
             acc \<leftarrow> count_entries (m_FatSize s1) fb' 0 (unat n) totalClrs;
             total_clr_loop env d Partition (v1\<lparr>groupindex := groupindex v1 + 1\<rparr>) acc
               (s1\<lparr>m_FatBuffer := Some fb'\<rparr>) }) })"

declare total_clr_loop.simps [code]

definition ext_buffersize :: "WIN32_PARTITIONINFO \<Rightarrow> u32 \<Rightarrow> u32" where
  "ext_buffersize Partition spc =
     (let blocksize = spc * 512 in
      ((blocks_per_group Partition + 7) div 8 + blocksize - 1) AND NOT (blocksize - 1))"

definition GetPartTotalClr ::
  "'d disk_env \<Rightarrow> 'd \<Rightarrow> WIN32_PARTITIONINFO \<Rightarrow> part_state \<Rightarrow> (u64 \<times> part_state) option" where
  "GetPartTotalClr env d Partition s0 =
     do {
       let s = s0\<lparr>m_group_desc := False\<rparr>;
       let v = \<lparr>tot = ucast (SectorsPerFAT Partition),
                fatSector = ucast (FirstFatSector Partition) + BootBegin Partition,
                remainSectors = 0, runindex = 0, groupindex = 0, bitmapsize = 0\<rparr>;
       (v1, buffersize) \<leftarrow>
         (if m_PartitionType s = NTFS
          then if m_SectorsPerCluster s = 0 \<or> m_BitmapSectorList s = [] then None
            else let r = m_BitmapSectorList s ! 0 in
              Some (v\<lparr>tot := ucast (ucast (TotalSectors Partition div ucast (m_SectorsPerCluster s)
                                            div 4096 + 1) :: u32),
                      fatSector := Begin r + m_BootBegin s, remainSectors := Number r, runindex := 1\<rparr>,
                    m_dwFatBufferSize s)
          else if m_PartitionType s = PARTITION_LINUX
          then let buffersize = ext_buffersize Partition (m_SectorsPerCluster s);
                   bms = (buffersize + 511) div 512
            in Some (v\<lparr>bitmapsize := bms, tot := ucast (groups_count Partition * bms)\<rparr>, buffersize)
          else Some (v, m_dwFatBufferSize s));
       let s1 = (if m_FatBuffer s = None \<or> buffersize > m_dwFatBufferSize s
         then let size = (if buffersize > 0x10000 then (buffersize + 0xfff) AND NOT 0xfff else 0x10000)
           in s\<lparr>m_dwFatBufferSize := size, m_FatBuffer := AllocatePool env d (unat size)\<rparr>
         else s);
       if m_FatBuffer s1 = None then Some (0, s1)
       else do { (n, s2) \<leftarrow> total_clr_loop env d Partition v1 0 s1;
                 Some (n, s2\<lparr>m_group_desc := False\<rparr>) } }"

section \<open>The cluster bitmap of an NTFS volume\<close>

text \<open>The three rounds of \<open>GetBitmapFileRecordSector\<close>. \<open>count * secperclr\<close> is a double word.\<close>

fun bitmap_record_loop ::
  "buf \<Rightarrow> nat \<Rightarrow> u32 \<Rightarrow> nat \<Rightarrow> u32 \<Rightarrow> u64 \<Rightarrow> u64 \<Rightarrow> u32 \<Rightarrow> u64 option" where
  "bitmap_record_loop rec attr secperclr 0 offset vcn lcn cnt = Some 0"
| "bitmap_record_loop rec attr secperclr (Suc i) offset vcn lcn cnt =
     do { (found, lcn', cnt') \<leftarrow> FindRun rec attr vcn lcn cnt;
          if \<not> found then Some 0
          else if offset < cnt' * secperclr
          then Some (lcn' * ucast secperclr + ucast offset)
          else bitmap_record_loop rec attr secperclr i (offset - cnt' * secperclr)
                 (vcn + ucast cnt') lcn' cnt' }"

text \<open>The size passed to \<open>FixupInode\<close> is in bytes here, in sectors everywhere else.\<close>

definition GetBitmapFileRecordSector ::
  "'d disk_env \<Rightarrow> 'd \<Rightarrow> WIN32_PARTITIONINFO \<Rightarrow> buf \<Rightarrow> part_state \<Rightarrow> (u64 \<times> buf) option" where
  "GetBitmapFileRecordSector env d Partition mem s =
     do {
       let recordsize = (ucast (SectorsPerFileRecord Partition) :: u32);
       (_, mem1) \<leftarrow> DiskRead env d (ucast (m_DiskNumber s))
         (BootBegin Partition + MftBeginSector Partition) recordsize mem 0;
       (ok, mem2) \<leftarrow> FixupInode mem1 (recordsize * 512);
       if \<not> ok then Some (0, mem2)
       else do {
         attr \<leftarrow> FindAttribute mem2 AttributeData;
         (case attr of None \<Rightarrow> Some (0, mem2)
          | Some a \<Rightarrow> do {
              sec \<leftarrow> bitmap_record_loop mem2 a (ucast (SectorsPerClr Partition)) 3
                (INODE_BITMAP * recordsize) 0 0 0;
              Some (sec, mem2) }) } }"

text \<open>The loop that fills \<open>m_BitmapSectorList\<close> with the runs of the bitmap file.\<close>

fun bitmap_runs ::
  "buf \<Rightarrow> nat \<Rightarrow> u32 \<Rightarrow> nat \<Rightarrow> u64 \<Rightarrow> u64 \<Rightarrow> u32 \<Rightarrow> SIZE_L list option" where
  "bitmap_runs rec attr secperclr 0 vcn lcn cnt = Some []"
| "bitmap_runs rec attr secperclr (Suc i) vcn lcn cnt =
     do { (found, lcn', cnt') \<leftarrow> FindRun rec attr vcn lcn cnt;
          if \<not> found then Some []
          else do { rest \<leftarrow> bitmap_runs rec attr secperclr i (vcn + ucast cnt') lcn' cnt';
                    Some (\<lparr>Begin = lcn' * ucast secperclr, Number = cnt' * secperclr\<rparr> # rest) } }"

definition no_run :: SIZE_L where "no_run = \<lparr>Begin = 0, Number = 0\<rparr>"

definition InitNTFS ::
  "'d disk_env \<Rightarrow> 'd \<Rightarrow> WIN32_PARTITIONINFO \<Rightarrow> part_state \<Rightarrow> (bool \<times> part_state) option" where
  "InitNTFS env d Partition s0 =
     do {
       let recordsize = (ucast (SectorsPerFileRecord Partition) :: u32);
       let secperclr = (ucast (SectorsPerClr Partition) :: u32);
       let s = s0\<lparr>m_DiskNumber := DiskNumber Partition, m_FatSize := 1,
                  m_BootBegin := BootBegin Partition,
                  m_BitmapSectorList := replicate MAX_BITMAP_RUNS no_run\<rparr>;
       if secperclr AND (secperclr - 1) \<noteq> 0 \<or> recordsize > 32 then Some (False, s)
       else case (case scanbuffer s of Some b \<Rightarrow> Some b
                  | None \<Rightarrow> AllocatePool env d (unat (recordsize * 512))) of
         None \<Rightarrow> Some (False, s)
       | Some mem \<Rightarrow> do {
           let keep = (\<lambda>m. s\<lparr>scanbuffer := (if scanbuffer s = None then None else Some m)\<rparr>);
           (bitmapsector, mem1) \<leftarrow> GetBitmapFileRecordSector env d Partition mem s;
           if bitmapsector = 0 then Some (False, keep mem1)
           else do {
             (_, mem2) \<leftarrow> DiskRead env d (ucast (m_DiskNumber s)) (bitmapsector + m_BootBegin s)
               recordsize mem1 0;
             (ok, mem3) \<leftarrow> FixupInode mem2 recordsize;
             if \<not> ok then Some (False, keep mem3)
             else do {
               attr \<leftarrow> FindAttribute mem3 AttributeData;
               (case attr of None \<Rightarrow> Some (False, keep mem3)
                | Some a \<Rightarrow> do {
                    runs \<leftarrow> bitmap_runs mem3 a secperclr MAX_BITMAP_RUNS 0 0 0;
                    Some (True, (keep mem3)\<lparr>m_BitmapSectorList :=
                      runs @ drop (length runs) (replicate MAX_BITMAP_RUNS no_run)\<rparr>) }) } } } }"

definition InitPartParamF16 :: "WIN32_PARTITIONINFO \<Rightarrow> part_state \<Rightarrow> part_state" where
  "InitPartParamF16 Partition s = s\<lparr>m_FatSize := 2,
     m_DiskNumber := DiskNumber Partition, m_BootBegin := BootBegin Partition\<rparr>"

definition InitPartParamF32 :: "WIN32_PARTITIONINFO \<Rightarrow> part_state \<Rightarrow> part_state" where
  "InitPartParamF32 Partition s = s\<lparr>m_FatSize := 4,
     m_DiskNumber := DiskNumber Partition, m_BootBegin := BootBegin Partition\<rparr>"

definition CalcPartitionSize ::
  "'d disk_env \<Rightarrow> 'd \<Rightarrow> WIN32_PARTITIONINFO \<Rightarrow> part_state \<Rightarrow> (WIN32_PARTITIONINFO \<times> part_state) option" where
  "CalcPartitionSize env d P s =
     do {
       let t = PartitionType P;
       let s1 = s\<lparr>m_FatSize := 1, m_DiskNumber := DiskNumber P, m_BootBegin := BootBegin P\<rparr>;
       (bRet, P', s') \<leftarrow>
         (if t = FAT16 then Some (True, P, InitPartParamF16 P s)
          else if t = FAT32 then Some (True, P, InitPartParamF32 P s)
          else if t = NTFS then do { (r, s2) \<leftarrow> InitNTFS env d P s; Some (r, P, s2) }
          else if t = PARTITION_LINUX then Some (True, P, s1)
          else if t = SHD_BITLOCKER \<or> t = SHD_BITLOCKERTOGO then Some (True, P\<lparr>FreeSectors := 0\<rparr>, s1)
          else Some (False, P, s));
       if \<not> bRet then Some (P', s')
       else do {
         (totalUsedClusters, s2) \<leftarrow> GetPartTotalClr env d P' s';
         let validsector = totalUsedClusters * ucast (m_SectorsPerCluster s2);
         Some (P'\<lparr>FreeSectors := (if validsector < TotalSectors P'
                     then TotalSectors P' - validsector else 0)\<rparr>, s2) } }"

section \<open>Recognising a file system\<close>

text \<open>The string literals of \<open>CheckPartitionType\<close>, as the C compiler stores them.\<close>

definition c_string :: "string \<Rightarrow> byte list" where
  "c_string cs = map of_char cs @ [0]"

definition has_text :: "buf \<Rightarrow> nat \<Rightarrow> string \<Rightarrow> bool option" where
  "has_text mem at txt = do { r \<leftarrow> strnicmp (drop at mem) (c_string txt) (length txt); Some (r = 0) }"

text \<open>The type from the signatures alone: the later tests override the earlier ones.\<close>

definition signature_type :: "buf \<Rightarrow> nat \<Rightarrow> byte \<Rightarrow> byte option" where
  "signature_type mem off t0 =
     do {
       nt \<leftarrow> has_text mem (off + 3) ''NTFS'';
       f32 \<leftarrow> has_text mem (off + 82) ''FAT3'';
       f16 \<leftarrow> has_text mem (off + 54) ''FAT1'';
       fve \<leftarrow> has_text mem (off + 3) ''-FVE-FS-'';
       togo \<leftarrow> has_text mem (off + 3) ''MSWIN4.1'';
       Some (if togo then SHD_BITLOCKERTOGO else if fve then SHD_BITLOCKER
             else if f16 then FAT16 else if f32 then FAT32 else if nt then NTFS else t0) }"

text \<open>The type from the fields of a FAT boot sector, for a sector without a signature.\<close>

definition guess_type :: "buf \<Rightarrow> nat \<Rightarrow> byte \<Rightarrow> byte option" where
  "guess_type mem off t =
     (if t \<in> {NTFS, FAT32, FAT16, SHD_BITLOCKER, SHD_BITLOCKERTOGO} then Some t
      else do {
        RootEntry \<leftarrow> rd16 mem (off + 17);
        SecPerFat \<leftarrow> rd16 mem (off + 22);
        BigTotalSec \<leftarrow> rd32 mem (off + 32);
        TotalSec \<leftarrow> rd16 mem (off + 19);
        Some (if RootEntry = 0 \<or> SecPerFat = 0
              then (if BigTotalSec = 0 then NTFS else FAT32)
              else (if TotalSec \<noteq> 0 then FAT12 else FAT16)) })"

text \<open>The sanity checks on the sector and cluster size, and the second chance of an ext volume.\<close>

definition geometry_type :: "buf \<Rightarrow> nat \<Rightarrow> byte \<Rightarrow> byte option" where
  "geometry_type mem off t =
     do {
       SecInByte \<leftarrow> rd16 mem (off + 11);
       SecPerClr \<leftarrow> rd8 mem (off + 13);
       magic \<leftarrow> rd16 mem (off + 1024 + 0x38);
       let bad = (SecInByte = 0 \<or> SecInByte AND 0x1ff \<noteq> 0 \<or> SecPerClr = 0
                  \<or> SecInByte AND (SecInByte - 1) \<noteq> 0 \<or> SecPerClr AND (SecPerClr - 1) \<noteq> 0);
       let t1 = (if bad then PARTITION_UNUSED else t);
       Some (if t1 = PARTITION_UNUSED \<and> magic = 0xEF53 then PARTITION_LINUX else t1) }"

text \<open>The value of \<open>m_PartitionType\<close> before the fields are filled in; \<open>Some None\<close> is the early
  return of \<open>FALSE\<close> on a sector that has neither the boot mark nor an ext super block.\<close>

definition detect_type :: "buf \<Rightarrow> nat \<Rightarrow> byte \<Rightarrow> byte option option" where
  "detect_type mem off t0 =
     do {
       mark \<leftarrow> rd16 mem (off + 0x1fe);
       magic \<leftarrow> rd16 mem (off + 1024 + 0x38);
       if mark \<noteq> 0xaa55 \<and> magic \<noteq> 0xEF53 then Some None
       else do {
         t1 \<leftarrow> signature_type mem off (if mark \<noteq> 0xaa55 then PARTITION_LINUX else t0);
         t2 \<leftarrow> guess_type mem off t1;
         t3 \<leftarrow> geometry_type mem off t2;
         Some (Some t3) } }"

definition fill_ntfs ::
  "'d disk_env \<Rightarrow> 'd \<Rightarrow> buf \<Rightarrow> nat \<Rightarrow> bool \<Rightarrow> WIN32_PARTITIONINFO \<Rightarrow> part_state
   \<Rightarrow> (WIN32_PARTITIONINFO \<times> part_state) option" where
  "fill_ntfs env d mem off bGetFreeClr P s =
     do {
       ts \<leftarrow> rd64 mem (off + 40);
       mft \<leftarrow> rd64 mem (off + 48);
       cpf \<leftarrow> rd32 mem (off + 64);
       cpi \<leftarrow> rd32 mem (off + 68);
       bps \<leftarrow> rd16 mem (off + 11);
       if cpf > 0x80 \<and> (0x100 - cpf \<ge> 32 \<or> bps = 0) then None
       else do {
         let spf = (if cpf > 0x80 then ucast (push_bit (unat (0x100 - cpf)) 1 div (ucast bps :: u32))
                    else ucast (cpf * m_SectorsPerCluster s));
         let P1 = P\<lparr>PartitionType := NTFS,
                    TotalSectors := (if TotalSectors P \<noteq> ts + 1 then ts else TotalSectors P)\<rparr>;
         let P2 = set_SectorsPerIndxBlock (ucast (cpi * m_SectorsPerCluster s))
           (set_SectorsPerFileRecord spf (set_MftBeginSector (mft * ucast (m_SectorsPerCluster s)) P1));
         if bGetFreeClr then CalcPartitionSize env d P2 s else Some (P2, s) } }"

definition fill_fat32 ::
  "'d disk_env \<Rightarrow> 'd \<Rightarrow> buf \<Rightarrow> nat \<Rightarrow> bool \<Rightarrow> WIN32_PARTITIONINFO \<Rightarrow> part_state
   \<Rightarrow> (WIN32_PARTITIONINFO \<times> part_state) option" where
  "fill_fat32 env d mem off bGetFreeClr P s =
     do {
       ts \<leftarrow> rd32 mem (off + 32);
       res \<leftarrow> rd16 mem (off + 14);
       spf \<leftarrow> rd32 mem (off + 36);
       nf \<leftarrow> rd8 mem (off + 16);
       root \<leftarrow> rd32 mem (off + 44);
       let P1 = P\<lparr>TotalSectors := ucast ts, FirstFatSector := ucast res, SectorsPerFAT := spf,
                  FatCopies := nf, RootDirClr := root, PartitionType := FAT32\<rparr>;
       if \<not> bGetFreeClr then Some (P1, s)
       else do {
         freeclr \<leftarrow> rd32 mem (off + 0x3e8);
         if freeclr = 0xffffffff then CalcPartitionSize env d P1 s
         else Some (P1\<lparr>FreeSectors := ucast (m_SectorsPerCluster s) * ucast freeclr\<rparr>, s) } }"

definition fill_fat16 ::
  "'d disk_env \<Rightarrow> 'd \<Rightarrow> buf \<Rightarrow> nat \<Rightarrow> bool \<Rightarrow> WIN32_PARTITIONINFO \<Rightarrow> part_state
   \<Rightarrow> (WIN32_PARTITIONINFO \<times> part_state) option" where
  "fill_fat16 env d mem off bGetFreeClr P s =
     (if m_SectorsPerCluster s > 128
      then Some (P\<lparr>PartitionType := PARTITION_UNUSED\<rparr>, s\<lparr>m_PartitionType := PARTITION_UNUSED\<rparr>)
      else do {
        ts \<leftarrow> rd32 mem (off + 32);
        res \<leftarrow> rd16 mem (off + 14);
        spf \<leftarrow> rd16 mem (off + 22);
        nf \<leftarrow> rd8 mem (off + 16);
        re \<leftarrow> rd16 mem (off + 17);
        let P1 = P\<lparr>TotalSectors := ucast ts, FirstFatSector := ucast res, SectorsPerFAT := ucast spf,
                   FatCopies := nf, RootDirClr := ucast re * 32 div 512, PartitionType := FAT16\<rparr>;
        if bGetFreeClr then CalcPartitionSize env d P1 s else Some (P1, s) })"

definition fill_ext ::
  "'d disk_env \<Rightarrow> 'd \<Rightarrow> buf \<Rightarrow> nat \<Rightarrow> bool \<Rightarrow> WIN32_PARTITIONINFO \<Rightarrow> part_state
   \<Rightarrow> (WIN32_PARTITIONINFO \<times> part_state) option" where
  "fill_ext env d mem off bGetFreeClr P s =
     do {
       lbs \<leftarrow> rd32 mem (off + 1024 + 0x18);
       bc \<leftarrow> rd32 mem (off + 1024 + 4);
       fbc \<leftarrow> rd32 mem (off + 1024 + 12);
       bpg \<leftarrow> rd32 mem (off + 1024 + 0x20);
       if lbs + 1 \<ge> 32 \<or> bpg = 0 then None
       else do {
         let spc = (push_bit (unat (lbs + 1)) 1 :: u32);
         let ts = (ucast bc * ucast spc :: u64);
         let free = (ucast (fbc * spc) :: u64);
         let P1 = P\<lparr>SectorsPerClr := ucast spc, PartitionType := PARTITION_LINUX, TotalSectors := ts,
                    SectorsPerFAT := (if spc \<le> 2 then spc * 2 else spc),
                    FirstFatSector := bpg, RootDirClr := (bc + bpg - 1) div bpg,
                    FreeSectors := (if free > ts then 0 else free)\<rparr>;
         let s1 = s\<lparr>m_SectorsPerCluster := spc\<rparr>;
         if bGetFreeClr then CalcPartitionSize env d P1 s1 else Some (P1, s1) } }"

definition CheckPartitionType ::
  "'d disk_env \<Rightarrow> 'd \<Rightarrow> buf \<Rightarrow> nat \<Rightarrow> bool \<Rightarrow> WIN32_PARTITIONINFO \<Rightarrow> part_state
   \<Rightarrow> (bool \<times> WIN32_PARTITIONINFO \<times> part_state) option" where
  "CheckPartitionType env d mem off bGetFreeClr P s0 =
     do {
       dt \<leftarrow> detect_type mem off (PartitionType P);
       (case dt of
          None \<Rightarrow> Some (False, P, s0\<lparr>m_PartitionType := PartitionType P\<rparr>)
        | Some t \<Rightarrow> do {
            spc \<leftarrow> rd8 mem (off + 13);
            let s = s0\<lparr>m_PartitionType := t, m_SectorsPerCluster := ucast spc\<rparr>;
            let P1 = P\<lparr>SectorsPerClr := spc\<rparr>;
            (P2, s2) \<leftarrow>
              (if t = NTFS then fill_ntfs env d mem off bGetFreeClr P1 s
               else if t = FAT32 then fill_fat32 env d mem off bGetFreeClr P1 s
               else if t = FAT16 then fill_fat16 env d mem off bGetFreeClr P1 s
               else if t = PARTITION_LINUX then fill_ext env d mem off bGetFreeClr P1 s
               else if t = SHD_BITLOCKER \<or> t = SHD_BITLOCKERTOGO then Some (P1\<lparr>PartitionType := t\<rparr>, s)
               else Some (P1, s));
            Some (True, P2, s2) }) }"

definition GetPartitionType :: "buf \<Rightarrow> nat \<Rightarrow> byte option" where
  "GetPartitionType mem off =
     do {
       nt \<leftarrow> has_text mem (off + 3) ''NTFS'';
       f16 \<leftarrow> has_text mem (off + 54) ''FAT16'';
       f32 \<leftarrow> has_text mem (off + 82) ''FAT32'';
       Some (if nt then NTFS else if f16 then FAT16 else if f32 then FAT32 else 0) }"

section \<open>Allocation that succeeds\<close>

definition allocates :: "'d disk_env \<Rightarrow> bool" where
  "allocates env \<longleftrightarrow> (\<forall>d n. \<exists>mem. AllocatePool env d n = Some mem \<and> length mem = n)"

lemma myalloc_enough: "allocates env \<Longrightarrow> \<exists>mem. myalloc env d n = Some mem \<and> unat n \<le> length mem"
proof -
  assume "allocates env"
  then obtain mem where "myalloc env d n = Some mem" "length mem = unat (if n < 0x1000 then 0x1000 else n)"
    unfolding allocates_def myalloc_def by blast
  moreover have "unat n \<le> unat (if n < 0x1000 then 0x1000 else n)" by (simp add: word_less_nat_alt)
  ultimately show ?thesis by auto
qed

end
