(* ===== verification/Okr_Scan.thy ===== *)
theory Okr_Scan
  imports Okr_Volume
begin

text \<open>
  \<open>ScanPartitionData\<close> of \<^verbatim>\<open>src/OkrPkg/okrefi/partition.c\<close>: the walk over the allocation table of a
  volume that hands every used range of sectors to a callback. The callback's private data is the
  backup bitmap, which the raw branch fills with \<open>SetMem\<close>.
\<close>

definition PARTITION_LINUX_BOOT_GUID :: buf where
  "PARTITION_LINUX_BOOT_GUID =
     [0x48, 0x61, 0x68, 0x21, 0x49, 0x64, 0x6f, 0x6e, 0x74, 0x4e, 0x65, 0x65, 0x64, 0x45, 0x46, 0x49]"

type_synonym getdata = "u64 \<Rightarrow> u64 \<Rightarrow> buf \<Rightarrow> buf option"

text \<open>What is done with one used entry.\<close>

definition use_entry ::
  "getdata \<Rightarrow> u32 \<Rightarrow> u32 \<Rightarrow> u64 \<Rightarrow> u64 \<Rightarrow> u64 \<Rightarrow> buf \<Rightarrow> buf option" where
  "use_entry getdatafunc fatsize spc totsec databeginsector cluster bm =
     (if fatsize = 1
      then if cluster * 8 * ucast spc < totsec
        then getdatafunc (cluster * 8 * ucast spc) (ucast (spc * 8)) bm else Some bm
      else if cluster \<ge> 2 \<and> (cluster - 2) * ucast spc \<le> totsec
        then getdatafunc (databeginsector + (cluster - 2) * ucast spc) (ucast spc) bm else Some bm)"

text \<open>The loop over the entries of one buffer; \<open>cluster\<close> counts on.\<close>

function scan_entries ::
  "getdata \<Rightarrow> u32 \<Rightarrow> u32 \<Rightarrow> u64 \<Rightarrow> u64 \<Rightarrow> buf \<Rightarrow> nat \<Rightarrow> nat \<Rightarrow> u64 \<Rightarrow> buf \<Rightarrow> (u64 \<times> buf) option" where
  "scan_entries getdatafunc fatsize spc totsec databeginsector b i n cluster bm =
     (if i < n
      then do { used \<leftarrow> entry_used fatsize b i;
                bm' \<leftarrow> (if used then use_entry getdatafunc fatsize spc totsec databeginsector cluster bm
                       else Some bm);
                scan_entries getdatafunc fatsize spc totsec databeginsector b (Suc i) n (cluster + 1) bm' }
      else Some (cluster, bm))"
  by pat_completeness auto
termination
  by (relation "measure (\<lambda>(g, fs, spc, ts, db, b, i, n, c, bm). n - i)") auto

declare scan_entries.simps [simp del]

text \<open>The loop of \<open>ScanPartitionData\<close>; \<open>lim\<close> is the scan buffer in sectors.\<close>

partial_function (option) scan_loop ::
  "'d disk_env \<Rightarrow> 'd \<Rightarrow> getdata \<Rightarrow> WIN32_PARTITIONINFO \<Rightarrow> u32 \<Rightarrow> u64 \<Rightarrow> scan_vars \<Rightarrow> u64 \<Rightarrow> buf \<Rightarrow> part_state
   \<Rightarrow> (buf \<times> part_state) option" where
  "scan_loop env d getdatafunc P lim databeginsector v cluster bm s =
     (if tot v = 0 then Some (bm, s)
      else do {
        (sel, s1) \<leftarrow> next_read env d P lim v s;
        (case sel of
           None \<Rightarrow> scan_loop env d getdatafunc P lim databeginsector
             (v\<lparr>tot := tot v - ucast (bitmapsize v), groupindex := groupindex v + 1\<rparr>) cluster bm s1
         | Some (cnt, sec) \<Rightarrow> do {
             fb \<leftarrow> scanbuffer s1;
             (_, fb') \<leftarrow> DiskRead env d (ucast (m_DiskNumber s1)) sec cnt fb 0;
             (n, v1) \<leftarrow> entries_read P s1 (TotalSectors P) cnt
               (v\<lparr>tot := tot v - ucast cnt, fatSector := sec + ucast cnt\<rparr>);
             let cluster1 = (if m_FatSize s1 \<noteq> 2 \<and> m_FatSize s1 \<noteq> 4
                               \<and> m_PartitionType s1 \<noteq> NTFS \<and> m_PartitionType s1 = PARTITION_LINUX
                             then ucast (groupindex v * blocks_per_group P div 8) else cluster);
             (cluster2, bm') \<leftarrow> scan_entries getdatafunc (m_FatSize s1) (m_SectorsPerCluster s1)
               (TotalSectors P) databeginsector fb' 0 (unat n) cluster1 bm;
             scan_loop env d getdatafunc P lim databeginsector (v1\<lparr>groupindex := groupindex v1 + 1\<rparr>)
               cluster2 bm' (s1\<lparr>scanbuffer := Some fb'\<rparr>) }) })"

declare scan_loop.simps [code]

text \<open>The \<open>switch\<close> on the type: the start values of the loop, or the result of an early return.
  It also hands the reserved area and the tables of a FAT volume to the callback.\<close>

definition scan_vars0 :: scan_vars where
  "scan_vars0 = \<lparr>tot = 0, fatSector = 0, remainSectors = 0, runindex = 0, groupindex = 0, bitmapsize = 0\<rparr>"

datatype scan_start =
  Loop scan_vars u32 u64 buf part_state
| Return int buf part_state

definition scan_prepare ::
  "'d disk_env \<Rightarrow> 'd \<Rightarrow> getdata \<Rightarrow> WIN32_PARTITIONINFO \<Rightarrow> buf \<Rightarrow> part_state \<Rightarrow> scan_start option" where
  "scan_prepare env d getdatafunc P bm s =
     (let t = m_PartitionType s;
          fat = ucast (FirstFatSector P) + m_BootBegin s
      in
      if t = FAT16 \<or> t = FAT16_E
      then do {
        let dbs = (ucast (FirstFatSector P + SectorsPerFAT P * 2 + 32) :: u64);
        bm1 \<leftarrow> getdatafunc 0 dbs bm;
        Some (Loop (scan_vars0\<lparr>tot := ucast (SectorsPerFAT P), fatSector := fat\<rparr>) 0 dbs bm1
                (s\<lparr>m_FatSize := 2\<rparr>)) }
      else if t = FAT32 \<or> t = FAT32_E
      then do {
        bm1 \<leftarrow> getdatafunc 0 (ucast (FirstFatSector P)) bm;
        bm2 \<leftarrow> getdatafunc (ucast (FirstFatSector P)) (ucast (SectorsPerFAT P * 2)) bm1;
        Some (Loop (scan_vars0\<lparr>tot := ucast (SectorsPerFAT P), fatSector := fat\<rparr>) 0
                (ucast (FirstFatSector P + SectorsPerFAT P * 2)) bm2 (s\<lparr>m_FatSize := 4\<rparr>)) }
      else if t = NTFS
      then do {
        (ok, s1) \<leftarrow> InitNTFS env d P s;
        if \<not> ok then Some (Return (- 1) bm s1)
        else if m_SectorsPerCluster s1 = 0 \<or> m_BitmapSectorList s1 = [] then None
        else let r = m_BitmapSectorList s1 ! 0 in
          Some (Loop (scan_vars0\<lparr>tot := ucast (ucast (TotalSectors P div ucast (m_SectorsPerCluster s1)
                                                       div 4096 + 1) :: u32),
                        fatSector := Begin r + m_BootBegin s1, remainSectors := Number r, runindex := 1\<rparr>)
                  0 0 bm s1) }
      else if t = PARTITION_LINUX
      then let bsize = ext_buffersize P (m_SectorsPerCluster s);
               bms = (bsize + 511) div 512
        in Some (Loop (scan_vars0\<lparr>tot := ucast (groups_count P * bms), bitmapsize := bms\<rparr>) bsize 0 bm
                   (s\<lparr>m_FatSize := 1\<rparr>))
      else do {
        let bsize = (ucast ((TotalSectors P + 63) div 64) :: u32);
        bm' \<leftarrow> put bm 0 (replicate (unat ((bsize + 7) div 8)) 0xff);
        Some (Return 0 bm' (s\<lparr>m_FatSize := 77\<rparr>)) })"

text \<open>The static variables at the start of the scan.\<close>

definition scan_begin :: "u16 \<Rightarrow> WIN32_PARTITIONINFO \<Rightarrow> part_state \<Rightarrow> part_state" where
  "scan_begin p P s = s\<lparr>m_group_desc := False, m_PartitionType := PartitionType P,
     m_PartitionIndex := ucast p, m_BootBegin := BootBegin P,
     m_DiskNumber := DiskNumber P, m_SectorsPerCluster := ucast (SectorsPerClr P)\<rparr>"

definition ScanPartitionData ::
  "'d disk_env \<Rightarrow> 'd \<Rightarrow> u16 \<Rightarrow> getdata \<Rightarrow> buf \<Rightarrow> part_state \<Rightarrow> (int \<times> buf \<times> part_state) option" where
  "ScanPartitionData env d partindex getdatafunc bm s0 =
     (if length (g_Partitions s0) \<le> unat partindex then None
      else do {
        let P = g_Partitions s0 ! unat partindex;
        let s = scan_begin partindex P s0;
        if \<not> (bGpt P \<noteq> 0 \<and> TypeGuid P = PARTITION_LINUX_BOOT_GUID)
           \<and> IsUnSupportedPartition (ucast (PartitionType P)) = 1
        then Some (- 1, bm, s)
        else do {
          st \<leftarrow> scan_prepare env d getdatafunc P bm s;
          (case st of
             Return r bm' s' \<Rightarrow> Some (r, bm', s')
           | Loop v bsize dbs bm1 s1 \<Rightarrow> do {
               let bsize' = (if bsize < SCANBUFFER_SIZE then SCANBUFFER_SIZE else bsize);
               (bm2, s2) \<leftarrow> scan_loop env d getdatafunc P (bsize' div 512) dbs v 0 bm1 s1;
               Some (0, bm2, s2\<lparr>m_group_desc := False\<rparr>) }) } })"

end
