(* ===== verification/Okr_ScanCorrect.thy ===== *)
theory Okr_ScanCorrect
  imports Okr_Scan
begin

text \<open>
  Correctness of \<open>ScanPartitionData\<close> with the callback \<open>GetDataToBitmap\<close>. The chunked loops over
  the allocation table are reduced to one pass (\<open>use_all\<close>) over the table as it is stored on the
  disk; from that follows which blocks of the bitmap are set after the scan of a FAT16, FAT32 or
  NTFS volume: exactly those that hold a sector the scan has to save.
\<close>

section \<open>A table as a list of entries\<close>

fun use_all :: "(u64 \<Rightarrow> 's \<Rightarrow> 's option) \<Rightarrow> bool list \<Rightarrow> u64 \<Rightarrow> 's \<Rightarrow> 's option" where
  "use_all act [] c s = Some s"
| "use_all act (u # us) c s = do { s' \<leftarrow> (if u then act c s else Some s); use_all act us (c + 1) s' }"

lemma use_all_append:
  "use_all act (us @ vs) c s = do { s' \<leftarrow> use_all act us c s; use_all act vs (c + of_nat (length us)) s' }"
  by (induction us arbitrary: c s) (auto simp: algebra_simps split: bind_splits)

definition nonzero_entry :: "nat \<Rightarrow> buf \<Rightarrow> nat \<Rightarrow> bool" where
  "nonzero_entry w b i \<longleftrightarrow> (\<exists>x \<in> set (take w (drop (i * w) b)). x \<noteq> 0)"

lemma entry_used_table:
  assumes "w = 1 \<or> w = 2 \<or> w = 4" "Suc i * w \<le> length b"
  shows "entry_used (of_nat w) b i = Some (nonzero_entry w b i)"
proof -
  have hd: "i * w < length b"
    using assms by auto
  have cons: "take w (drop (i * w) b) = b ! (i * w) # take (w - 1) (drop (Suc (i * w)) b)"
    using hd assms(1) by (auto simp: Cons_nth_drop_Suc [symmetric])
  have len: "length (take w (drop (i * w) b)) = w"
    using assms(2) by simp
  show ?thesis
    using assms hd le_word_zero_iff [of "take w (drop (i * w) b)", where 'a = 16]
      le_word_zero_iff [of "take w (drop (i * w) b)", where 'a = 32] len cons
    by (auto simp: entry_used_def nonzero_entry_def rd8_def rd16_def rd32_def rd_le_def Let_def)
qed


lemma scan_entries_use_all:
  assumes w: "w = 1 \<or> w = 2 \<or> w = 4" and "n * w \<le> length b" "i \<le> n"
  shows "scan_entries g (of_nat w) spc ts db b i n c bm =
    do { bm' \<leftarrow> use_all (use_entry g (of_nat w) spc ts db) (map (nonzero_entry w b) [i..<n]) c bm;
         Some (c + of_nat (n - i), bm') }"
  using assms(2,3)
proof (induction "n - i" arbitrary: i c bm)
  case (Suc m)
  then have lt: "i < n" by simp
  then have "Suc i * w \<le> n * w"
    by (meson Suc_leI mult_le_mono1)
  then have "entry_used (of_nat w) b i = Some (nonzero_entry w b i)"
    using Suc.prems by (intro entry_used_table [OF w]) simp
  moreover have "n - i = Suc (n - Suc i)"
    using lt by simp
  ultimately show ?case
    using lt Suc.hyps(1) [of "Suc i"] Suc.hyps(2) Suc.prems
    by (subst scan_entries.simps) (auto simp: upt_conv_Cons algebra_simps split: bind_splits)
qed (simp add: scan_entries.simps)

definition table_entries :: "nat \<Rightarrow> buf \<Rightarrow> bool list" where
  "table_entries w b = map (nonzero_entry w b) [0..<length b div w]"

lemma nonzero_entry_append1:
  "Suc i * w \<le> length xs \<Longrightarrow> nonzero_entry w (xs @ ys) i = nonzero_entry w xs i"
  by (simp add: nonzero_entry_def)

lemma table_entries_append:
  assumes "0 < w" "w dvd length xs"
  shows "table_entries w (xs @ ys) = table_entries w xs @ table_entries w ys"
proof -
  obtain k where k: "length xs = k * w"
    using assms(2) by (auto simp: dvd_def mult.commute)
  have d: "length (xs @ ys) div w = k + length ys div w" "length xs div w = k"
    using k assms(1) by simp_all
  have "nonzero_entry w (xs @ ys) i = nonzero_entry w xs i" if "i < k" for i
    using that k by (intro nonzero_entry_append1) (metis Suc_leI mult_le_mono1)
  moreover have "nonzero_entry w (xs @ ys) (k + i) = nonzero_entry w ys i" for i
    using k by (simp add: nonzero_entry_def add_mult_distrib)
  ultimately show ?thesis
    unfolding table_entries_def d upt_add_eq_append [OF le0, of k, simplified]
    by (auto simp: map_add_upt [symmetric] o_def add.commute intro!: nth_equalityI)
qed

lemma length_table_entries [simp]: "length (table_entries w b) = length b div w"
  by (simp add: table_entries_def)

lemma map_nonzero_prefix:
  assumes "n * w \<le> length xs"
  shows "map (nonzero_entry w (xs @ ys)) [0..<n] = map (nonzero_entry w xs) [0..<n]"
proof (rule map_cong)
  fix i assume "i \<in> set [0..<n]"
  then have "Suc i * w \<le> n * w"
    by (metis Suc_leI atLeastLessThan_iff mult_le_mono1 set_upt)
  then show "nonzero_entry w (xs @ ys) i = nonzero_entry w xs i"
    using assms by (intro nonzero_entry_append1) simp
qed simp

section \<open>Reading the table\<close>

abbreviation sectors_of :: "('d \<Rightarrow> u16 \<Rightarrow> nat \<Rightarrow> buf) \<Rightarrow> 'd \<Rightarrow> u16 \<Rightarrow> nat \<Rightarrow> nat \<Rightarrow> buf" where
  "sectors_of sec d k a n \<equiv> concat (map (sec d k) [a..<a + n])"

lemma length_sectors_of:
  "reads_sectors env sec k totd \<Longrightarrow> length (sectors_of sec d k a n) = 512 * n"
  by (rule length_concat_sectors) (simp add: reads_sectors_def)

lemma sectors_of_add: "sectors_of sec d k a (m + n) = sectors_of sec d k a m @ sectors_of sec d k (a + m) n"
  by (metis add.assoc concat_append le_add1 map_append upt_add_eq_append add.commute)

lemma DiskRead_sectors:
  assumes "reads_sectors env sec k totd" "k < g_disknum env"
    and "0 < unat cnt" "unat cnt \<le> 2048" "unat lba + unat cnt \<le> totd" "512 * unat cnt \<le> length fb"
  shows "DiskRead env d k lba cnt fb 0
    = Some (True, sectors_of sec d k (unat lba) (unat cnt) @ drop (512 * unat cnt) fb)"
  using assms length_sectors_of [OF assms(1), of d "unat lba" "unat cnt"]
  by (auto simp: DiskRead_def reads_sectors_def put_def)

text \<open>One round of a scanning loop over an intact device.\<close>

lemma scan_round:
  assumes "reads_sectors env sec k totd" "k < g_disknum env"
    and "0 < unat cnt" "unat cnt \<le> 2048" "unat lba + unat cnt \<le> totd" "512 * unat cnt \<le> length fb"
    and w: "w = 1 \<or> w = 2 \<or> w = 4"
    and n: "n = 512 * unat cnt div w"
  shows "\<exists>fb'. DiskRead env d k lba cnt fb 0 = Some (True, fb') \<and> length fb' = length fb \<and>
    scan_entries g (of_nat w) spc ts db fb' 0 n c bm =
      do { bm' \<leftarrow> use_all (use_entry g (of_nat w) spc ts db)
             (table_entries w (sectors_of sec d k (unat lba) (unat cnt))) c bm;
           Some (c + of_nat n, bm') }"
proof -
  let ?B = "sectors_of sec d k (unat lba) (unat cnt)"
  have len: "length ?B = 512 * unat cnt"
    by (rule length_sectors_of [OF assms(1)])
  have nw: "n * w \<le> length ?B"
    using n len by simp
  have "table_entries w ?B = map (nonzero_entry w (?B @ drop (512 * unat cnt) fb)) [0..<n]"
    unfolding table_entries_def len n [symmetric] by (rule map_nonzero_prefix [OF nw, symmetric])
  then show ?thesis
    using DiskRead_sectors [OF assms(1-6), of d] nw len assms(6)
    by (simp add: scan_entries_use_all [OF w])
qed

lemma chunk_bounds:
  fixes t :: u64 and lim :: u32
  assumes "t \<noteq> 0" "unat t < 2 ^ 32" "0 < unat lim" and c: "cnt = (if t > ucast lim then lim else ucast t)"
  shows "0 < unat cnt" "unat cnt \<le> unat t" "unat cnt \<le> unat lim"
proof -
  have "unat (ucast t :: u32) = unat t" "0 < unat t"
    using assms(1,2) by (simp_all add: unsigned_ucast_eq take_bit_nat_eq_self unat_gt_0)
  then show "0 < unat cnt" "unat cnt \<le> unat t" "unat cnt \<le> unat lim"
    using assms(3) unfolding c by (auto simp: word_less_nat_alt simp del: unat_gt_0 word_of_nat_eq_0_iff)
qed

lemma scan_round_rest:
  assumes dev: "reads_sectors env sec k totd" "k < g_disknum env"
    and cnt: "0 < unat cnt" "unat cnt \<le> 2048" "unat lba + unat cnt \<le> totd" "512 * unat cnt \<le> length fb"
    and w: "w = 1 \<or> w = 2 \<or> w = 4"
    and use: "use_all (use_entry g (of_nat w) spc ts db)
      (table_entries w (sectors_of sec d k (unat lba) (unat cnt) @ rst)) c bm = Some bm'"
  obtains fb' bm1 where "DiskRead env d k lba cnt fb 0 = Some (True, fb')" "length fb' = length fb"
    "scan_entries g (of_nat w) spc ts db fb' 0 (512 * unat cnt div w) c bm = Some (c + of_nat (512 * unat cnt div w), bm1)"
    "use_all (use_entry g (of_nat w) spc ts db) (table_entries w rst) (c + of_nat (512 * unat cnt div w)) bm1 = Some bm'"
proof -
  let ?B = "sectors_of sec d k (unat lba) (unat cnt)"
  have len: "length ?B = 512 * unat cnt"
    by (rule length_sectors_of [OF dev(1)])
  have "table_entries w (?B @ rst) = table_entries w ?B @ table_entries w rst"
    by (rule table_entries_append) (use w in \<open>auto simp: len\<close>)
  then obtain bm1 where "use_all (use_entry g (of_nat w) spc ts db) (table_entries w ?B) c bm = Some bm1"
      "use_all (use_entry g (of_nat w) spc ts db) (table_entries w rst) (c + of_nat (512 * unat cnt div w)) bm1 = Some bm'"
    using use by (auto simp: use_all_append option_simps len)
  then show thesis
    using scan_round [OF dev cnt w refl, of d g spc ts db c bm] that by auto
qed

lemma scan_loop_fat:
  assumes dev: "reads_sectors env sec k totd" "k < g_disknum env" "totd < 2 ^ 64"
    and w: "w = 2 \<or> w = 4"
    and lim: "0 < unat lim" "unat lim \<le> 2048"
  shows "\<lbrakk>m_PartitionType s \<noteq> NTFS; m_PartitionType s \<noteq> PARTITION_LINUX; m_FatSize s = of_nat w;
     k = ucast (m_DiskNumber s); scanbuffer s = Some fb; 512 * unat lim \<le> length fb;
     unat (fatSector v) + unat (tot v) \<le> totd; unat (tot v) < 2 ^ 32;
     use_all (use_entry g (of_nat w) (m_SectorsPerCluster s) (TotalSectors P) dbs)
       (table_entries w (sectors_of sec d k (unat (fatSector v)) (unat (tot v)))) c bm = Some bm'\<rbrakk>
   \<Longrightarrow> \<exists>s'. scan_loop env d g P lim dbs v c bm s = Some (bm', s')"
proof (induction "unat (tot v)" arbitrary: v c bm s fb rule: less_induct)
  case less
  show ?case
  proof (cases "tot v = 0")
    case True
    then show ?thesis
      using less.prems by (subst scan_loop.simps) (simp add: table_entries_def)
  next
    case False
    define cnt where "cnt = (if tot v > ucast lim then lim else ucast (tot v) :: u32)"
    note cnt = chunk_bounds [OF False less.prems(8) lim(1) cnt_def]
    have room: "unat cnt \<le> 2048" "unat (fatSector v) + unat cnt \<le> totd" "512 * unat cnt \<le> length fb"
      using cnt less.prems(6,7) lim by linarith+
    let ?n = "512 * unat cnt div w"
    let ?v1 = "v\<lparr>tot := tot v - ucast cnt, fatSector := fatSector v + ucast cnt\<rparr>"
    have v1: "unat (tot v) = unat cnt + unat (tot ?v1)" "unat (fatSector ?v1) = unat (fatSector v) + unat cnt"
      using cnt less.prems(7) dev(3) by (simp_all add: unat_sub_no_wrap unat_add_no_wrap)
    obtain fb' bm1 where fb': "DiskRead env d k (fatSector v) cnt fb 0 = Some (True, fb')" "length fb' = length fb"
      "scan_entries g (of_nat w) (m_SectorsPerCluster s) (TotalSectors P) dbs fb' 0 ?n c bm
         = Some (c + of_nat ?n, bm1)"
      "use_all (use_entry g (of_nat w) (m_SectorsPerCluster s) (TotalSectors P) dbs)
         (table_entries w (sectors_of sec d k (unat (fatSector ?v1)) (unat (tot ?v1)))) (c + of_nat ?n) bm1 = Some bm'"
      by (rule scan_round_rest [OF dev(1,2) cnt(1) room])
        (use w less.prems(9) in \<open>auto simp only: v1 sectors_of_add\<close>)
    have ent: "\<exists>m. entries_read P s (TotalSectors P) cnt ?v1 = Some (m, ?v1) \<and> unat m = ?n"
      using w less.prems(3) cnt lim by (auto simp: entries_read_def unat_word_ariths)
    have "unat (tot ?v1) < 2 ^ 32"
      using v1(1) less.prems(8) by linarith
    then obtain s' where "scan_loop env d g P lim dbs (?v1\<lparr>groupindex := groupindex v + 1\<rparr>) (c + of_nat ?n) bm1
        (s\<lparr>scanbuffer := Some fb'\<rparr>) = Some (bm', s')"
      using less.hyps [of "?v1\<lparr>groupindex := groupindex v + 1\<rparr>" "s\<lparr>scanbuffer := Some fb'\<rparr>" fb'
          "c + of_nat ?n" bm1] v1 cnt less.prems fb'(2,4) by auto
    then show ?thesis
      using ent fb' False less.prems(1-5) w
      by (subst scan_loop.simps) (auto simp: next_read_def cnt_def [symmetric] Let_def)
  qed
qed

section \<open>Marking blocks\<close>

definition saved :: "SIZE_L list \<Rightarrow> nat \<Rightarrow> nat \<Rightarrow> nat \<Rightarrow> bool" where
  "saved unused a n k \<longleftrightarrow> \<not> list_ex (in_unused (of_nat a) (of_nat n)) unused \<and> touches a n k"

text \<open>\<open>marks act T L\<close>: on bitmaps of \<open>L\<close> bytes, \<open>act\<close> returns and sets exactly the blocks of \<open>T\<close>.\<close>

definition marks :: "(buf \<Rightarrow> buf option) \<Rightarrow> (nat \<Rightarrow> bool) \<Rightarrow> nat \<Rightarrow> bool" where
  "marks act T L \<longleftrightarrow> (\<forall>b. length b = L \<longrightarrow> (\<exists>b'. act b = Some b' \<and> length b' = L \<and>
     (\<forall>k < bm_cap b. read_nat k b' = (if T k then Some True else read_nat k b))))"

lemma bm_cap_cong: "length a = length b \<Longrightarrow> bm_cap a = bm_cap b"
  by (simp add: bm_cap_def)

lemma marks_Some: "marks Some (\<lambda>k. False) L"
  by (simp add: marks_def)

lemma marks_bind:
  assumes f: "marks f T L" and g: "marks g U L"
  shows "marks (\<lambda>b. Option.bind (f b) g) (\<lambda>k. T k \<or> U k) L"
  unfolding marks_def
proof (intro allI impI)
  fix b :: buf assume "length b = L"
  with f obtain b1 where b1: "f b = Some b1" "length b1 = L"
    "\<forall>k < bm_cap b. read_nat k b1 = (if T k then Some True else read_nat k b)"
    unfolding marks_def by blast
  with g obtain b2 where b2: "g b1 = Some b2" "length b2 = L"
    "\<forall>k < bm_cap b1. read_nat k b2 = (if U k then Some True else read_nat k b1)"
    unfolding marks_def by blast
  have "bm_cap b1 = bm_cap b"
    using \<open>length b = L\<close> b1(2) by (simp add: bm_cap_def)
  with b1 b2 show "\<exists>b'. Option.bind (f b) g = Some b' \<and> length b' = L \<and>
      (\<forall>k < bm_cap b. read_nat k b' = (if T k \<or> U k then Some True else read_nat k b))"
    by auto
qed

lemma marks_cong: "marks f T L \<Longrightarrow> (\<And>k. T k = U k) \<Longrightarrow> marks f U L"
  by (simp add: marks_def)

lemma marks_GetDataToBitmap:
  assumes "0 < n" "a + n \<le> 64 * min (8 * L) (2 ^ 64)" "a + n < 2 ^ 64"
  shows "marks (GetDataToBitmap unused (of_nat a) (of_nat n)) (saved unused a n) L"
proof -
  have u: "unat (of_nat a :: u64) = a" "unat (of_nat n :: u64) = n"
    using assms(3) by (simp_all add: unat_of_nat take_bit_nat_eq_self)
  show ?thesis
    unfolding marks_def saved_def
  proof (intro allI impI)
    fix b :: buf assume len: "length b = L"
    then have fit: "a + n \<le> 64 * bm_cap b"
      using assms(2) by (simp add: bm_cap_def)
    show "\<exists>b'. GetDataToBitmap unused (of_nat a) (of_nat n) b = Some b' \<and> length b' = L \<and>
        (\<forall>k < bm_cap b. read_nat k b' = (if \<not> list_ex (in_unused (of_nat a) (of_nat n)) unused \<and> touches a n k
           then Some True else read_nat k b))"
      using GetDataToBitmap_effect [of "of_nat n" "of_nat a" b unused, unfolded u, OF assms(1) fit assms(3)] len
      by (simp only:)
  qed
qed

lemma use_all_marks:
  assumes "\<And>i. \<lbrakk>i < length us; us ! i\<rbrakk> \<Longrightarrow> marks (act (c + of_nat i)) (T i) L"
  shows "marks (use_all act us c) (\<lambda>k. \<exists>i < length us. us ! i \<and> T i k) L"
  using assms
proof (induction us arbitrary: c T)
  case (Cons u us)
  have hd: "marks (if u then act c else Some) (\<lambda>k. u \<and> T 0 k) L"
    using Cons.prems [of 0] by (cases u) (simp_all add: marks_Some)
  have tl: "marks (use_all act us (c + 1)) (\<lambda>k. \<exists>i < length us. us ! i \<and> T (Suc i) k) L"
    using Cons.prems [of "Suc _"] by (intro Cons.IH) (simp add: algebra_simps)
  have eq: "use_all act (u # us) c = (\<lambda>b. Option.bind ((if u then act c else Some) b) (use_all act us (c + 1)))"
    by (rule ext) simp
  show ?case
    unfolding eq by (rule marks_cong [OF marks_bind [OF hd tl]]) (auto simp: less_Suc_eq_0_disj)
qed (simp add: marks_def)

lemma marks_use_entry_fat:
  assumes w: "w = 2 \<or> w = 4" and i: "i < 2 ^ 41"
    and spc: "0 < unat spc" and fit: "2 \<le> i \<longrightarrow> unat dbs + (i - 1) * unat spc \<le> unat ts"
    and ts: "unat ts \<le> 64 * min (8 * L) (2 ^ 64)"
  shows "marks (use_entry (GetDataToBitmap unused) (of_nat w) spc ts dbs (of_nat i))
    (\<lambda>k. 2 \<le> i \<and> saved unused (unat dbs + (i - 2) * unat spc) (unat spc) k) L"
proof (cases "2 \<le> i")
  case True
  let ?a = "unat dbs + (i - 2) * unat spc"
  have i1: "(i - 1) * unat spc = (i - 2) * unat spc + unat spc"
  proof -
    obtain j where "i = Suc (Suc j)"
      using True by (metis add_2_eq_Suc le_Suc_ex)
    then show ?thesis by simp
  qed
  then have fits: "?a + unat spc \<le> unat ts"
    using True fit by simp
  then have lt: "?a + unat spc < 2 ^ 64"
    using unsigned_less [of ts, where 'a = nat] by (simp add: less_le_trans)
  have ui: "unat (of_nat i :: u64) = i"
    using i by (simp add: unat_of_nat take_bit_nat_eq_self)
  then have ge: "(2 :: u64) \<le> of_nat i"
    using True by (simp add: word_le_nat_alt)
  have w1: "(of_nat w :: u32) \<noteq> 1"
    using w by auto
  have sub: "of_nat i - 2 = (of_nat (i - 2) :: u64)"
    using True by (simp add: of_nat_diff)
  have mul: "(of_nat i - 2) * ucast spc = (of_nat ((i - 2) * unat spc) :: u64)"
    unfolding sub by simp
  have "unat (of_nat ((i - 2) * unat spc) :: u64) = (i - 2) * unat spc"
    using lt by (subst unat_of_nat) (simp add: take_bit_nat_eq_self)
  then have le: "(of_nat i - 2) * ucast spc \<le> ts"
    unfolding mul word_le_nat_alt using fits by simp
  have beg: "dbs + (of_nat i - 2) * ucast spc = of_nat ?a"
    unfolding mul by simp
  have num: "(ucast spc :: u64) = of_nat (unat spc)"
    by simp
  have "marks (GetDataToBitmap unused (of_nat ?a) (of_nat (unat spc))) (saved unused ?a (unat spc)) L"
    using fits ts lt spc by (intro marks_GetDataToBitmap) auto
  moreover have "use_entry (GetDataToBitmap unused) (of_nat w) spc ts dbs (of_nat i)
      = GetDataToBitmap unused (of_nat ?a) (of_nat (unat spc))"
    using w1 ge le by (intro ext) (simp only: use_entry_def beg if_False simp_thms if_True, simp only: num)
  ultimately show ?thesis
    using True by simp
next
  case False
  have "i < 2 ^ 64" using i by simp
  then have "\<not> (2 :: u64) \<le> of_nat i"
    using False by (simp add: word_le_nat_alt unat_of_nat take_bit_nat_eq_self)
  then show ?thesis
    using w False by (auto simp: use_entry_def marks_Some marks_def)
qed

text \<open>The sectors a scan of a FAT volume hands to the callback, as blocks: the area before the first
  data cluster and the clusters \<open>c\<close> with a non-zero entry.\<close>

definition fat_clusters_saved :: "SIZE_L list \<Rightarrow> nat \<Rightarrow> nat \<Rightarrow> bool list \<Rightarrow> nat \<Rightarrow> bool" where
  "fat_clusters_saved unused dbs spc E k \<longleftrightarrow>
     (\<exists>c < length E. E ! c \<and> 2 \<le> c \<and> saved unused (dbs + (c - 2) * spc) spc k)"

text \<open>A table is well-formed for a volume when no cluster in use ends after the volume.\<close>

definition fat_wf :: "bool list \<Rightarrow> nat \<Rightarrow> nat \<Rightarrow> nat \<Rightarrow> bool" where
  "fat_wf E dbs spc ts \<longleftrightarrow> (\<forall>c < length E. E ! c \<and> 2 \<le> c \<longrightarrow> dbs + (c - 1) * spc \<le> ts)"

lemma scan_fat_tables:
  assumes dev: "reads_sectors env sec k totd" "k < g_disknum env" "totd < 2 ^ 64"
    and w: "w = 2 \<or> w = 4"
    and s: "m_PartitionType s \<noteq> NTFS" "m_PartitionType s \<noteq> PARTITION_LINUX" "m_FatSize s = of_nat w"
      "k = ucast (m_DiskNumber s)" "scanbuffer s = Some fb" "65536 \<le> length fb"
    and v: "unat (fatSector v) + unat (tot v) \<le> totd" "unat (tot v) < 2 ^ 32"
    and E: "E = table_entries w (sectors_of sec d k (unat (fatSector v)) (unat (tot v)))"
    and wf: "fat_wf E (unat dbs) (unat (m_SectorsPerCluster s)) (unat (TotalSectors P))"
    and spc: "0 < unat (m_SectorsPerCluster s)"
    and ts: "unat (TotalSectors P) \<le> 64 * bm_cap bm"
  shows "\<exists>bm' s'. scan_loop env d (GetDataToBitmap unused) P 128 dbs v 0 bm s = Some (bm', s') \<and>
    length bm' = length bm \<and> (\<forall>k < bm_cap bm. read_nat k bm' =
       (if fat_clusters_saved unused (unat dbs) (unat (m_SectorsPerCluster s)) E k
        then Some True else read_nat k bm))"
proof -
  let ?act = "use_entry (GetDataToBitmap unused) (of_nat w) (m_SectorsPerCluster s) (TotalSectors P) dbs"
  let ?T = "\<lambda>i k. 2 \<le> i \<and> saved unused (unat dbs + (i - 2) * unat (m_SectorsPerCluster s))
    (unat (m_SectorsPerCluster s)) k"
  have "length E \<le> 512 * unat (tot v)"
    unfolding E using length_sectors_of [OF dev(1), of d "unat (fatSector v)" "unat (tot v)"] w by auto
  then have small: "i < 2 ^ 41" if "i < length E" for i
    using that v(2) by simp
  have "marks (use_all ?act E 0) (\<lambda>k. \<exists>i < length E. E ! i \<and> ?T i k) (length bm)"
    using w small wf spc ts unfolding fat_wf_def bm_cap_def
    by (intro use_all_marks) (simp, intro marks_use_entry_fat, auto)
  then obtain bm' where bm': "use_all ?act E 0 bm = Some bm'" "length bm' = length bm"
    "\<forall>k < bm_cap bm. read_nat k bm' = (if \<exists>i < length E. E ! i \<and> ?T i k then Some True else read_nat k bm)"
    unfolding marks_def by blast
  have "\<exists>s'. scan_loop env d (GetDataToBitmap unused) P 128 dbs v 0 bm s = Some (bm', s')"
    using scan_loop_fat [OF dev w, of 128 s fb v "GetDataToBitmap unused" P dbs d 0 bm bm']
      s v bm'(1) unfolding E by simp
  with bm'(2,3) show ?thesis
    unfolding fat_clusters_saved_def by auto
qed

section \<open>FAT volumes\<close>

text \<open>What the scan of a partition needs of the state: a partition on a disk that reads back its
  sectors, a scan buffer of the size the program allocates, and a bitmap that covers the volume.\<close>

definition scan_ready ::
  "'d disk_env \<Rightarrow> ('d \<Rightarrow> u16 \<Rightarrow> nat \<Rightarrow> buf) \<Rightarrow> nat \<Rightarrow> u16 \<Rightarrow> WIN32_PARTITIONINFO \<Rightarrow> part_state \<Rightarrow> bool" where
  "scan_ready env sec totd p P s \<longleftrightarrow>
     unat p < length (g_Partitions s) \<and> g_Partitions s ! unat p = P \<and>
     reads_sectors env sec (ucast (DiskNumber P)) totd \<and> totd < 2 ^ 64 \<and>
     ucast (DiskNumber P) < g_disknum env \<and>
     (\<exists>fb. scanbuffer s = Some fb \<and> 65536 \<le> length fb) \<and> 0 < unat (SectorsPerClr P)"

abbreviation fat_start :: "WIN32_PARTITIONINFO \<Rightarrow> nat" where
  "fat_start P \<equiv> unat (BootBegin P) + unat (FirstFatSector P)"

lemma scan_loop_lim: "(if (0 :: u32) < SCANBUFFER_SIZE then SCANBUFFER_SIZE else 0) div 512 = 128"
  by (simp add: SCANBUFFER_SIZE_def)

lemma fat_supported:
  "t \<in> {FAT32, FAT32_E, FAT16, FAT16_E, NTFS, PARTITION_LINUX} \<Longrightarrow> IsUnSupportedPartition (ucast t) = 0"
  by (auto simp: IsUnSupportedPartition_def ptype_defs)

text \<open>
  C3. ScanPartitionData on a FAT32 volume with a well-formed table returns 0 and sets exactly
  the bitmap blocks that the reserved area, the two FAT copies or a cluster with a non-zero
  table entry touch and that the list of unused files does not contain; all other blocks keep
  their value.
\<close>

theorem ScanPartitionData_FAT32:
  assumes ready: "scan_ready env sec totd p P s"
    and type: "PartitionType P = FAT32 \<or> PartitionType P = FAT32_E"
    and area: "0 < unat (FirstFatSector P)" "0 < unat (SectorsPerFAT P)"
      "dbs = unat (FirstFatSector P) + 2 * unat (SectorsPerFAT P)" "dbs < 2 ^ 32"
    and disk: "fat_start P + unat (SectorsPerFAT P) \<le> totd"
    and E: "E = table_entries 4 (sectors_of sec d (ucast (DiskNumber P)) (fat_start P) (unat (SectorsPerFAT P)))"
    and wf: "fat_wf E dbs (unat (SectorsPerClr P)) (unat (TotalSectors P))"
    and ts: "dbs \<le> unat (TotalSectors P)" "unat (TotalSectors P) \<le> 64 * bm_cap bm"
  shows "\<exists>bm' s'. ScanPartitionData env d p (GetDataToBitmap unused) bm s = Some (0, bm', s') \<and>
    length bm' = length bm \<and> (\<forall>k < bm_cap bm. read_nat k bm' =
       (if saved unused 0 (unat (FirstFatSector P)) k
         \<or> saved unused (unat (FirstFatSector P)) (2 * unat (SectorsPerFAT P)) k
         \<or> fat_clusters_saved unused dbs (unat (SectorsPerClr P)) E k
        then Some True else read_nat k bm))"
proof -
  let ?F = "unat (FirstFatSector P)" and ?n = "unat (SectorsPerFAT P)"
  let ?g = "GetDataToBitmap unused"
  let ?st = "scan_begin p P s"
  let ?s = "?st\<lparr>m_FatSize := 4\<rparr>"
  let ?v = "scan_vars0\<lparr>tot := ucast (SectorsPerFAT P), fatSector := ucast (FirstFatSector P) + BootBegin P\<rparr>"
  have ready': "unat p < length (g_Partitions s)" "g_Partitions s ! unat p = P"
    "reads_sectors env sec (ucast (DiskNumber P)) totd" "totd < 2 ^ 64" "ucast (DiskNumber P) < g_disknum env"
    "0 < unat (SectorsPerClr P)"
    using ready by (auto simp: scan_ready_def)
  obtain fb where fb: "scanbuffer s = Some fb" "65536 \<le> length fb"
    using ready by (auto simp: scan_ready_def)
  have "unat (SectorsPerFAT P * 2) = 2 * ?n" "unat (FirstFatSector P + SectorsPerFAT P * 2) = dbs"
    using area(3,4) by (auto simp: unat_word_ariths)
  then have w1: "(ucast (SectorsPerFAT P * 2) :: u64) = of_nat (2 * ?n)"
    and w2: "(ucast (FirstFatSector P + SectorsPerFAT P * 2) :: u64) = of_nat dbs"
    by - (rule ucast_unat_eq, assumption)+
  have "marks (\<lambda>b. Option.bind (?g (of_nat 0) (of_nat ?F) b) (?g (of_nat ?F) (of_nat (2 * ?n))))
      (\<lambda>k. saved unused 0 ?F k \<or> saved unused ?F (2 * ?n) k) (length bm)"
    using area ts by (intro marks_bind marks_GetDataToBitmap) (auto simp: bm_cap_def)
  then obtain bm2 where bm2: "Option.bind (?g (of_nat 0) (of_nat ?F) bm) (?g (of_nat ?F) (of_nat (2 * ?n))) = Some bm2"
    "length bm2 = length bm"
    "\<forall>k < bm_cap bm. read_nat k bm2 = (if saved unused 0 ?F k \<or> saved unused ?F (2 * ?n) k
       then Some True else read_nat k bm)"
    unfolding marks_def by blast
  have cap: "bm_cap bm2 = bm_cap bm"
    using bm2(2) by (rule bm_cap_cong)
  have prep: "scan_prepare env d ?g P bm ?st = Some (Loop ?v 0 (of_nat dbs) bm2 ?s)"
    using type bm2(1) w1 w2 by (auto simp: scan_prepare_def scan_begin_def Let_def ptype_defs option_simps)
  have fs: "unat (fatSector ?v) = fat_start P" "unat (tot ?v) = ?n"
    using disk ready'(4) by (simp_all add: unat_add_no_wrap)
  have dbs: "unat (of_nat dbs :: u64) = dbs"
    using area(4) by (simp add: unat_of_nat take_bit_nat_eq_self)
  obtain bm' s' where "scan_loop env d ?g P 128 (of_nat dbs) ?v 0 bm2 ?s = Some (bm', s')"
    "length bm' = length bm2" "\<forall>k < bm_cap bm2. read_nat k bm' =
       (if fat_clusters_saved unused dbs (unat (SectorsPerClr P)) E k then Some True else read_nat k bm2)"
    using scan_fat_tables [OF ready'(3,5,4), of 4 ?s fb ?v E d "of_nat dbs" P bm2 unused]
      type fb fs E disk wf ready'(6) ts(2) cap dbs unsigned_less [of "SectorsPerFAT P", where 'a = nat]
    by (auto simp: ptype_defs scan_begin_def)
  then show ?thesis
    using prep ready'(1,2) bm2(2,3) cap type fat_supported [of "PartitionType P"]
    by (auto simp: ScanPartitionData_def scan_loop_lim)
qed


text \<open>A small FAT32 volume: one reserved sector, tables of one sector, cluster 2 in use.\<close>

definition tiny_volume :: "byte \<Rightarrow> WIN32_PARTITIONINFO" where
  "tiny_volume t = empty_partition\<lparr>PartitionType := t, FirstFatSector := 1, SectorsPerFAT := 1,
     SectorsPerClr := 1, TotalSectors := 64\<rparr>"

definition tiny_disk :: "nat \<Rightarrow> buf" where
  "tiny_disk i = (if i = 1 then replicate 8 0 @ [0xff, 0xff, 0xff, 0x0f] else [])"

definition tiny_state :: "byte \<Rightarrow> part_state" where
  "tiny_state t = \<lparr>m_group_desc = False, m_BootBegin = 0, m_SectorsPerCluster = 0, m_PartitionType = 0,
     m_PartitionIndex = 0, m_DiskNumber = 0, m_bLBAMode = False, m_BitmapSectorList = [],
     m_FatBuffer = None, m_dwFatBufferSize = 0, m_FatSize = 0, m_RecursiveTimes = 0,
     g_dwTotalPartitions = 1, g_Partitions = [tiny_volume t], g_disklist = [],
     groupdesc = None, groupdescsize = 0, scanbuffer = Some (replicate 65536 0), oempartition = 0\<rparr>"

lemma nonzero_entry_padding:
  assumes "nonzero_entry w (xs @ replicate n 0) c"
  shows "c * w < length xs"
proof (rule ccontr)
  assume "\<not> c * w < length xs"
  then have "drop (c * w) (xs @ replicate n 0) = replicate (n - (c * w - length xs)) 0"
    by simp
  then show False
    using assms by (auto simp: nonzero_entry_def)
qed

lemma tiny_wf:
  assumes "0 < w" "dbs + 11 \<le> 64"
  shows "fat_wf (table_entries w (sectors_of ram_sec tiny_disk 0 1 1)) dbs 1 64"
proof -
  have sec: "sectors_of ram_sec tiny_disk 0 1 1 = (replicate 8 0 @ [0xff, 0xff, 0xff, 0x0f]) @ replicate 500 0"
    by (simp add: ram_sec_def tiny_disk_def)
  have "c < 12" if "nonzero_entry w ((replicate 8 0 @ [0xff, 0xff, 0xff, 0x0f]) @ replicate 500 0) c" for c
  proof -
    have "c * w < 12"
      using nonzero_entry_padding [OF that] by simp
    moreover have "c \<le> c * w"
      using assms(1) by simp
    ultimately show ?thesis by linarith
  qed
  then show ?thesis
    using assms(2) unfolding fat_wf_def sec table_entries_def by fastforce
qed

lemma tiny_ready: "scan_ready (ram_env 1) ram_sec 64 0 (tiny_volume t) (tiny_state t)"
proof -
  have "g_disknum (ram_env 1) = 1" by (simp add: ram_env_def)
  then show ?thesis
    using ram_reads_sectors [of 1 0 64]
    by (simp add: scan_ready_def tiny_state_def tiny_volume_def empty_partition_def)
qed

lemmas tiny_defs = tiny_volume_def empty_partition_def

theorem ScanPartitionData_FAT32_witness:
  "\<exists>bm' s'. ScanPartitionData (ram_env 1) tiny_disk 0 (GetDataToBitmap []) [0] (tiny_state FAT32)
      = Some (0, bm', s') \<and> length bm' = length [0 :: byte] \<and>
    (\<forall>k < bm_cap [0]. read_nat k bm' =
       (if saved [] 0 (unat (FirstFatSector (tiny_volume FAT32))) k
         \<or> saved [] (unat (FirstFatSector (tiny_volume FAT32))) (2 * unat (SectorsPerFAT (tiny_volume FAT32))) k
         \<or> fat_clusters_saved [] 3 (unat (SectorsPerClr (tiny_volume FAT32)))
             (table_entries 4 (sectors_of ram_sec tiny_disk 0 1 1)) k
        then Some True else read_nat k [0]))"
  by (rule ScanPartitionData_FAT32 [OF tiny_ready])
    (use tiny_wf [of 4 3] in \<open>simp_all add: tiny_defs bm_cap_def\<close>)


section \<open>NTFS volumes\<close>

text \<open>The sectors the loop reads from a fragmented bitmap: the start of the current run when the
  expected number of sectors ends inside it, else the whole run and all further runs up to the
  first empty one.\<close>

definition run_plan :: "nat \<Rightarrow> nat \<times> nat \<Rightarrow> (nat \<times> nat) list \<Rightarrow> (nat \<times> nat) list" where
  "run_plan t r rest =
     (if t = 0 then [] else if t < snd r then [(fst r, t)] else r # takeWhile (\<lambda>x. snd x \<noteq> 0) rest)"

definition abs_runs :: "u64 \<Rightarrow> SIZE_L list \<Rightarrow> (nat \<times> nat) list" where
  "abs_runs boot rs = map (\<lambda>r. (unat (Begin r + boot), unat (Number r))) rs"

definition plan_bytes :: "('d \<Rightarrow> u16 \<Rightarrow> nat \<Rightarrow> buf) \<Rightarrow> 'd \<Rightarrow> u16 \<Rightarrow> (nat \<times> nat) list \<Rightarrow> buf" where
  "plan_bytes sec d k plan = concat (map (\<lambda>(a, n). sectors_of sec d k a n) plan)"

lemma table_entries_1: "table_entries (Suc 0) b = map (\<lambda>x. x \<noteq> 0) b"
  by (rule nth_equalityI) (auto simp: table_entries_def nonzero_entry_def take_Suc_conv_app_nth)

lemma run_plan_step:
  assumes "0 < c" "c \<le> t" "c \<le> n"
  shows "plan_bytes sec d k (run_plan t (a, n) rest) = sectors_of sec d k a c @
    (if c = n then plan_bytes sec d k (takeWhile (\<lambda>x. snd x \<noteq> 0) rest)
     else plan_bytes sec d k (run_plan (t - c) (a + c, n - c) rest))"
proof -
  have n_split: "sectors_of sec d k a n = sectors_of sec d k a c @ sectors_of sec d k (a + c) (n - c)"
    using assms(3) sectors_of_add [of sec d k a c "n - c"] by simp
  have t_split: "sectors_of sec d k a t = sectors_of sec d k a c @ sectors_of sec d k (a + c) (t - c)"
    using assms(2) sectors_of_add [of sec d k a c "t - c"] by simp
  consider "t < n" | "n \<le> t" "c = n" | "n \<le> t" "c < n"
    using assms(3) by linarith
  then show ?thesis
  proof cases
    case 1
    then show ?thesis
      using assms by (simp add: run_plan_def plan_bytes_def) (use t_split in simp)
  next
    case 2
    then show ?thesis
      using assms by (simp add: run_plan_def plan_bytes_def)
  next
    case 3
    then show ?thesis
      using assms by (simp add: run_plan_def plan_bytes_def) (use n_split in simp)
  qed
qed

lemma run_plan_next: "run_plan n (a, n) rest = takeWhile (\<lambda>x. snd x \<noteq> 0) ((a, n) # rest)"
  by (simp add: run_plan_def)

text \<open>Where the loop stands in the plan: \<open>rst\<close> is what the list of runs holds after the current one,
  every run is on the device, and either the expected sectors end inside the current run or an empty
  run ends the list.\<close>

definition plan_at :: "nat \<Rightarrow> part_state \<Rightarrow> scan_vars \<Rightarrow> (nat \<times> nat) list \<Rightarrow> bool" where
  "plan_at totd s v rst \<longleftrightarrow>
     rst = abs_runs (m_BootBegin s) (drop (runindex v) (m_BitmapSectorList s)) \<and>
     unat (tot v) < 2 ^ 32 \<and> (tot v \<noteq> 0 \<longrightarrow> remainSectors v \<noteq> 0) \<and>
     unat (fatSector v) + unat (remainSectors v) \<le> totd \<and> (\<forall>(a, n) \<in> set rst. a + n \<le> totd) \<and>
     (tot v = 0 \<or> unat (tot v) < unat (remainSectors v) \<or> (\<exists>r \<in> set rst. snd r = 0))"

abbreviation plan_of :: "scan_vars \<Rightarrow> (nat \<times> nat) list \<Rightarrow> (nat \<times> nat) list" where
  "plan_of v rst \<equiv> run_plan (unat (tot v)) (unat (fatSector v), unat (remainSectors v)) rst"

lemma plan_next_run:
  assumes s: "m_PartitionType s = NTFS" "m_FatSize s = 1" and at: "plan_at totd s v rst"
    and nz: "tot v \<noteq> 0" and cnt: "cnt = remainSectors v" "unat cnt \<le> unat (tot v)"
  obtains v2 rst' where
    "entries_read P s ts cnt (v\<lparr>tot := tot v - ucast cnt, fatSector := fatSector v + ucast cnt\<rparr>) = Some (cnt * 512, v2)"
    "plan_at totd s v2 rst'" "plan_of v2 rst' = takeWhile (\<lambda>x. snd x \<noteq> 0) rst"
    "unat (tot v2) + sum_list (map snd rst') = sum_list (map snd rst)"
proof -
  let ?L = "m_BitmapSectorList s"
  define r where "r = ?L ! runindex v"
  define rst' where "rst' = abs_runs (m_BootBegin s) (drop (Suc (runindex v)) ?L)"
  let ?v2 = "v\<lparr>tot := ucast (Number r), fatSector := Begin r + m_BootBegin s, remainSectors := Number r,
    runindex := Suc (runindex v)\<rparr>"
  have ex: "\<exists>r \<in> set rst. snd r = 0"
    using at nz cnt unfolding plan_at_def by auto
  then have idx: "runindex v < length ?L"
    using at by (cases "runindex v < length ?L") (auto simp: abs_runs_def plan_at_def)
  have rst: "rst = (unat (Begin r + m_BootBegin s), unat (Number r)) # rst'"
    using at idx by (simp add: abs_runs_def plan_at_def r_def rst'_def Cons_nth_drop_Suc [symmetric])
  have "(ucast (Number r) :: u64) = 0" if "unat (Number r) = 0"
    using that by (simp add: ucast_unat_eq)
  then have nz': "(ucast (Number r) :: u64) = 0 \<or> (\<exists>x \<in> set rst'. snd x = 0)"
    using ex unfolding rst by auto
  have "\<forall>(a, n) \<in> set rst. a + n \<le> totd"
    using at by (simp add: plan_at_def)
  moreover have "unat (Number r) < 2 ^ 32"
    using unsigned_less [of "Number r", where 'a = nat] by simp
  ultimately have "plan_at totd s ?v2 rst'"
    using nz' unfolding rst by (auto simp: plan_at_def rst'_def)
  moreover have "entries_read P s ts cnt (v\<lparr>tot := tot v - ucast cnt, fatSector := fatSector v + ucast cnt\<rparr>)
      = Some (cnt * 512, ?v2)"
    using s cnt(1) idx by (simp add: entries_read_def Let_def r_def)
  ultimately show thesis
    using that [of ?v2 rst'] rst by (simp add: run_plan_next)
qed

lemma plan_same_run:
  assumes s: "m_PartitionType s = NTFS" "m_FatSize s = 1" and at: "plan_at totd s v rst" and dev: "totd < 2 ^ 64"
    and nz: "tot v \<noteq> 0" and cnt: "0 < unat cnt" "unat cnt \<le> unat (tot v)" "unat cnt < unat (remainSectors v)"
  obtains v2 where
    "entries_read P s ts cnt (v\<lparr>tot := tot v - ucast cnt, fatSector := fatSector v + ucast cnt\<rparr>) = Some (cnt * 512, v2)"
    "plan_at totd s v2 rst"
    "unat (tot v2) = unat (tot v) - unat cnt" "unat (fatSector v2) = unat (fatSector v) + unat cnt"
    "unat (remainSectors v2) = unat (remainSectors v) - unat cnt"
proof -
  let ?v2 = "v\<lparr>tot := tot v - ucast cnt, fatSector := fatSector v + ucast cnt, remainSectors := remainSectors v - cnt\<rparr>"
  have u: "unat (tot ?v2) = unat (tot v) - unat cnt" "unat (fatSector ?v2) = unat (fatSector v) + unat cnt"
    "unat (remainSectors ?v2) = unat (remainSectors v) - unat cnt"
    using cnt at dev by (simp_all add: plan_at_def unat_sub_no_wrap unat_add_no_wrap)
  have "plan_at totd s ?v2 rst"
    unfolding plan_at_def u using at cnt nz u(3) by (auto simp: plan_at_def)
  moreover have "entries_read P s ts cnt (v\<lparr>tot := tot v - ucast cnt, fatSector := fatSector v + ucast cnt\<rparr>)
      = Some (cnt * 512, ?v2)"
    using s cnt(3) by (auto simp: entries_read_def Let_def)
  ultimately show thesis
    using that [of ?v2] u by blast
qed

lemma plan_step:
  assumes s: "m_PartitionType s = NTFS" "m_FatSize s = 1" and at: "plan_at totd s v rst" and dev: "totd < 2 ^ 64"
    and nz: "tot v \<noteq> 0" and cnt: "0 < unat cnt" "unat cnt \<le> unat (tot v)" "unat cnt \<le> unat (remainSectors v)"
  obtains v2 rst' where
    "entries_read P s ts cnt (v\<lparr>tot := tot v - ucast cnt, fatSector := fatSector v + ucast cnt\<rparr>) = Some (cnt * 512, v2)"
    "plan_at totd s v2 rst'"
    "plan_bytes sec d k (plan_of v rst) = sectors_of sec d k (unat (fatSector v)) (unat cnt) @ plan_bytes sec d k (plan_of v2 rst')"
    "unat (tot v2) + sum_list (map snd rst') < unat (tot v) + sum_list (map snd rst)"
proof (cases "cnt = remainSectors v")
  case True
  then obtain v2 rst' where
    "entries_read P s ts cnt (v\<lparr>tot := tot v - ucast cnt, fatSector := fatSector v + ucast cnt\<rparr>) = Some (cnt * 512, v2)"
    "plan_at totd s v2 rst'"
    and v2: "plan_of v2 rst' = takeWhile (\<lambda>x. snd x \<noteq> 0) rst"
      "unat (tot v2) + sum_list (map snd rst') = sum_list (map snd rst)"
    by (rule plan_next_run [OF s at nz _ cnt(2)])
  from this(1,2) show thesis
    by (rule that) (unfold v2, use run_plan_step [OF cnt, of sec d k "unat (fatSector v)" rst] True cnt(1,2) in simp_all)
next
  case False
  then have lt: "unat cnt < unat (remainSectors v)"
    using cnt(3) by (metis le_neq_implies_less word_unat_eq_iff)
  then obtain v2 where
    "entries_read P s ts cnt (v\<lparr>tot := tot v - ucast cnt, fatSector := fatSector v + ucast cnt\<rparr>) = Some (cnt * 512, v2)"
    "plan_at totd s v2 rst"
    and v2: "unat (tot v2) = unat (tot v) - unat cnt" "unat (fatSector v2) = unat (fatSector v) + unat cnt"
      "unat (remainSectors v2) = unat (remainSectors v) - unat cnt"
    by (rule plan_same_run [OF s at dev nz cnt(1,2)])
  from this(1,2) show thesis
    by (rule that) (use run_plan_step [OF cnt, of sec d k "unat (fatSector v)" rst] lt cnt(1,2) in \<open>simp_all add: v2\<close>)
qed

lemma scan_loop_ntfs:
  assumes dev: "reads_sectors env sec k totd" "k < g_disknum env" "totd < 2 ^ 64"
    and lim: "0 < unat lim" "unat lim \<le> 2048"
  shows "\<lbrakk>m_PartitionType s = NTFS; m_FatSize s = 1; k = ucast (m_DiskNumber s); scanbuffer s = Some fb;
     512 * unat lim \<le> length fb; plan_at totd s v rst;
     use_all (use_entry g 1 (m_SectorsPerCluster s) (TotalSectors P) dbs)
       (table_entries 1 (plan_bytes sec d k (plan_of v rst))) c bm = Some bm'\<rbrakk>
   \<Longrightarrow> \<exists>s'. scan_loop env d g P lim dbs v c bm s = Some (bm', s')"
proof (induction "unat (tot v) + sum_list (map snd rst)" arbitrary: v c bm s fb rst rule: less_induct)
  case less
  let ?act = "use_entry g 1 (m_SectorsPerCluster s) (TotalSectors P) dbs"
  show ?case
  proof (cases "tot v = 0")
    case True
    then show ?thesis
      using less.prems by (subst scan_loop.simps) (simp add: table_entries_def run_plan_def plan_bytes_def)
  next
    case False
    define cnt0 where "cnt0 = (if tot v > ucast lim then lim else ucast (tot v) :: u32)"
    define cnt where "cnt = (if cnt0 > remainSectors v then remainSectors v else cnt0)"
    have at: "unat (tot v) < 2 ^ 32" "0 < unat (remainSectors v)"
        "unat (fatSector v) + unat (remainSectors v) \<le> totd"
      using less.prems(6) False by (auto simp: plan_at_def unat_gt_0)
    have cnt: "0 < unat cnt" "unat cnt \<le> unat (tot v)" "unat cnt \<le> unat lim"
        "unat cnt \<le> unat (remainSectors v)"
      using chunk_bounds [OF False at(1) lim(1) cnt0_def] at(2) unfolding cnt_def
      by (auto simp: word_less_nat_alt simp del: unat_gt_0)
    have room: "unat cnt \<le> 2048" "unat (fatSector v) + unat cnt \<le> totd" "512 * unat cnt \<le> length fb"
      using cnt less.prems(5) at(3) lim by linarith+
    obtain v2 rst' where v2:
      "entries_read P s (TotalSectors P) cnt (v\<lparr>tot := tot v - ucast cnt, fatSector := fatSector v + ucast cnt\<rparr>)
        = Some (cnt * 512, v2)" "plan_at totd s v2 rst'"
      "plan_bytes sec d k (plan_of v rst) = sectors_of sec d k (unat (fatSector v)) (unat cnt) @ plan_bytes sec d k (plan_of v2 rst')"
      "unat (tot v2) + sum_list (map snd rst') < unat (tot v) + sum_list (map snd rst)"
      by (rule plan_step [OF less.prems(1,2,6) dev(3) False cnt(1,2,4)])
    obtain fb' bm1 where fb': "DiskRead env d k (fatSector v) cnt fb 0 = Some (True, fb')" "length fb' = length fb"
      "scan_entries g 1 (m_SectorsPerCluster s) (TotalSectors P) dbs fb' 0 (512 * unat cnt) c bm
         = Some (c + of_nat (512 * unat cnt), bm1)"
      "use_all ?act (table_entries 1 (plan_bytes sec d k (plan_of v2 rst'))) (c + of_nat (512 * unat cnt)) bm1 = Some bm'"
      by (rule scan_round_rest [OF dev(1,2) cnt(1) room, of 1 g "m_SectorsPerCluster s" "TotalSectors P" dbs d
            "plan_bytes sec d k (plan_of v2 rst')" c bm bm', unfolded of_nat_1 div_by_1])
        (use less.prems(7) v2(3) in simp_all)
    have "unat (cnt * 512) = 512 * unat cnt"
      using room(1) by (simp add: unat_word_ariths)
    moreover obtain s' where "scan_loop env d g P lim dbs (v2\<lparr>groupindex := groupindex v2 + 1\<rparr>) (c + of_nat (512 * unat cnt))
        bm1 (s\<lparr>scanbuffer := Some fb'\<rparr>) = Some (bm', s')"
      using less.hyps [of "v2\<lparr>groupindex := groupindex v2 + 1\<rparr>" rst' "s\<lparr>scanbuffer := Some fb'\<rparr>" fb'
          "c + of_nat (512 * unat cnt)" bm1] less.prems(1-5) fb'(2,4) v2(2,4) by (auto simp: plan_at_def)
    ultimately show ?thesis
      using v2(1) fb' False less.prems(1-4)
      by (subst scan_loop.simps)
        (auto simp: next_read_def cnt0_def [symmetric] cnt_def [symmetric] Let_def)
  qed
qed

lemma GetBitmapFileRecordSector_length:
  "GetBitmapFileRecordSector env d P mem s = Some (r, mem') \<Longrightarrow> length mem' = length mem"
  by (auto simp: GetBitmapFileRecordSector_def Let_def option_simps
      dest!: DiskRead_length FixupInode_length split: if_splits option.splits)

lemma InitNTFS_frame:
  assumes "InitNTFS env d P s = Some (True, s')" "scanbuffer s = Some fb"
  shows "m_PartitionType s' = m_PartitionType s" "m_SectorsPerCluster s' = m_SectorsPerCluster s"
    "m_FatSize s' = 1" "m_DiskNumber s' = DiskNumber P" "m_BootBegin s' = BootBegin P"
    "\<exists>fb'. scanbuffer s' = Some fb' \<and> length fb' = length fb"
  using assms
  by (auto simp: InitNTFS_def Let_def option_simps
      dest!: DiskRead_length FixupInode_length GetBitmapFileRecordSector_length split: if_splits option.splits)

lemma marks_use_entry_ntfs:
  assumes i: "i * 8 * unat spc + 8 * unat spc < 2 ^ 64" and s8: "8 * unat spc < 2 ^ 32"
    and spc: "0 < unat spc"
    and ts: "unat ts + 8 * unat spc \<le> 64 * min (8 * L) (2 ^ 64)"
  shows "marks (use_entry (GetDataToBitmap unused) 1 spc ts dbs (of_nat i))
    (\<lambda>k. i * 8 * unat spc < unat ts \<and> saved unused (i * 8 * unat spc) (8 * unat spc) k) L"
proof -
  let ?a = "i * 8 * unat spc"
  have a: "of_nat i * 8 * ucast spc = (of_nat ?a :: u64)"
    by simp
  have ua: "unat (of_nat ?a :: u64) = ?a"
    using i by (subst unat_of_nat) (simp add: take_bit_nat_eq_self)
  have "unat (spc * 8) = 8 * unat spc"
    using s8 by (simp add: unat_word_ariths)
  then have n: "(ucast (spc * 8) :: u64) = of_nat (8 * unat spc)"
    by (rule ucast_unat_eq)
  have lt: "(of_nat ?a :: u64) < ts \<longleftrightarrow> ?a < unat ts"
    unfolding word_less_nat_alt ua ..
  have eq: "use_entry (GetDataToBitmap unused) 1 spc ts dbs (of_nat i) =
      (if ?a < unat ts then GetDataToBitmap unused (of_nat ?a) (of_nat (8 * unat spc)) else Some)"
    by (rule ext) (simp only: use_entry_def a n lt if_True simp_thms if_distribR)
  show ?thesis
  proof (cases "?a < unat ts")
    case True
    have "marks (GetDataToBitmap unused (of_nat ?a) (of_nat (8 * unat spc))) (saved unused ?a (8 * unat spc)) L"
      using True ts i spc by (intro marks_GetDataToBitmap) auto
    then show ?thesis
      unfolding eq using True by simp
  next
    case False
    then show ?thesis
      unfolding eq by (simp add: marks_Some)
  qed
qed

text \<open>The number of bitmap sectors the program expects: one more than the whole ones.\<close>

definition bitmap_sectors :: "WIN32_PARTITIONINFO \<Rightarrow> nat" where
  "bitmap_sectors P = unat (TotalSectors P) div unat (SectorsPerClr P) div 4096 + 1"

definition ntfs_saved :: "SIZE_L list \<Rightarrow> WIN32_PARTITIONINFO \<Rightarrow> bool list \<Rightarrow> nat \<Rightarrow> bool" where
  "ntfs_saved unused P E k \<longleftrightarrow> (\<exists>i < length E. E ! i \<and> i * 8 * unat (SectorsPerClr P) < unat (TotalSectors P) \<and>
     saved unused (i * 8 * unat (SectorsPerClr P)) (8 * unat (SectorsPerClr P)) k)"

text \<open>
  C4. ScanPartitionData on an NTFS volume whose $Bitmap runs InitNTFS has found reads the bitmap
  through its fragments in order and sets exactly the blocks touched by a group of eight
  clusters with a non-zero bitmap byte that begins inside the volume, except sectors in the list of
  unused files.
\<close>

theorem ScanPartitionData_NTFS:
  assumes ready: "scan_ready env sec totd p P s" and type: "PartitionType P = NTFS"
    and init: "InitNTFS env d P (scan_begin p P s) = Some (True, s1)"
    and runs: "abs_runs (BootBegin P) (m_BitmapSectorList s1) = r # rest" "0 < snd r"
      "\<forall>(a, n) \<in> set (r # rest). a + n \<le> totd"
    and num: "bitmap_sectors P < 2 ^ 32" "bitmap_sectors P < snd r \<or> (\<exists>x \<in> set rest. snd x = 0)"
    and E: "E = table_entries 1 (plan_bytes sec d (ucast (DiskNumber P)) (run_plan (bitmap_sectors P) r rest))"
    and ts: "unat (TotalSectors P) + 8 * unat (SectorsPerClr P) \<le> 64 * bm_cap bm"
      "\<forall>i < length E. i * 8 * unat (SectorsPerClr P) + 8 * unat (SectorsPerClr P) < 2 ^ 64"
  shows "\<exists>bm' s'. ScanPartitionData env d p (GetDataToBitmap unused) bm s = Some (0, bm', s') \<and>
    length bm' = length bm \<and>
    (\<forall>k < bm_cap bm. read_nat k bm' = (if ntfs_saved unused P E k then Some True else read_nat k bm))"
proof -
  let ?g = "GetDataToBitmap unused"
  obtain fb where fb: "scanbuffer s = Some fb" "65536 \<le> length fb"
    using ready by (auto simp: scan_ready_def)
  have ready': "unat p < length (g_Partitions s)" "g_Partitions s ! unat p = P"
    "reads_sectors env sec (ucast (DiskNumber P)) totd" "totd < 2 ^ 64" "ucast (DiskNumber P) < g_disknum env"
    "0 < unat (SectorsPerClr P)"
    using ready by (auto simp: scan_ready_def)
  note frame = InitNTFS_frame [OF init, of fb]
  have s1: "m_PartitionType s1 = NTFS" "m_SectorsPerCluster s1 = ucast (SectorsPerClr P)" "m_FatSize s1 = 1"
    "m_DiskNumber s1 = DiskNumber P" "m_BootBegin s1 = BootBegin P"
    using frame fb(1) type by (auto simp: scan_begin_def)
  obtain fb' where fb': "scanbuffer s1 = Some fb'" "65536 \<le> length fb'"
    using frame(6) fb by (auto simp: scan_begin_def)
  obtain r0 rs where L: "m_BitmapSectorList s1 = r0 # rs" "r = (unat (Begin r0 + BootBegin P), unat (Number r0))"
      "rest = abs_runs (BootBegin P) rs"
    using runs(1) by (cases "m_BitmapSectorList s1") (auto simp: abs_runs_def)
  let ?tot = "ucast (ucast (TotalSectors P div ucast (m_SectorsPerCluster s1) div 4096 + 1) :: u32) :: u64"
  let ?v = "scan_vars0\<lparr>tot := ?tot, fatSector := Begin r0 + m_BootBegin s1, remainSectors := Number r0, runindex := 1\<rparr>"
  let ?q = "TotalSectors P div ucast (m_SectorsPerCluster s1) div 4096 :: u64"
  have "unat ?q = bitmap_sectors P - 1"
    using s1(2) by (simp add: unat_div_distrib bitmap_sectors_def)
  then have "unat (?q + 1) = bitmap_sectors P"
    using num(1) by (subst unat_add_no_wrap) (auto simp: bitmap_sectors_def)
  then have "unat (ucast (?q + 1) :: u32) = bitmap_sectors P"
    using num(1) by (simp add: unsigned_ucast_eq take_bit_nat_eq_self)
  then have tot: "unat ?tot = bitmap_sectors P"
    by (subst unat_ucast_up) (simp, assumption)
  have spc8: "unat (SectorsPerClr P) < 256"
    using unsigned_less [of "SectorsPerClr P", where 'a = nat] by simp
  have "marks (use_all (use_entry ?g 1 (m_SectorsPerCluster s1) (TotalSectors P) 0) E 0)
      (ntfs_saved unused P E) (length bm)"
    unfolding ntfs_saved_def
    using ts ready'(6) spc8 s1(2) marks_use_entry_ntfs [of _ "ucast (SectorsPerClr P)"]
    by (intro use_all_marks) (simp add: bm_cap_def)
  then obtain bm' where bm': "use_all (use_entry ?g 1 (m_SectorsPerCluster s1) (TotalSectors P) 0) E 0 bm = Some bm'"
    "length bm' = length bm" "\<forall>k < bm_cap bm. read_nat k bm' = (if ntfs_saved unused P E k then Some True else read_nat k bm)"
    unfolding marks_def by blast
  have "Number r0 \<noteq> 0"
    using runs(2) L(2) by auto
  then have "\<exists>s'. scan_loop env d ?g P 128 0 ?v 0 bm s1 = Some (bm', s')"
    using scan_loop_ntfs [OF ready'(3,5,4), of 128 s1 fb' ?v rest ?g P 0 d 0 bm bm']
      s1 fb' L tot num runs bm'(1) E by (auto simp: plan_at_def)
  then obtain s' where loop: "scan_loop env d ?g P 128 0 ?v 0 bm s1 = Some (bm', s')"
    by blast
  have "unat (m_SectorsPerCluster s1) = unat (SectorsPerClr P)"
    using s1(2) by simp
  then have nz: "m_SectorsPerCluster s1 \<noteq> 0"
    using ready'(6) by auto
  have "scan_prepare env d ?g P bm (scan_begin p P s) = Some (Loop ?v 0 0 bm s1)"
    using type init nz L(1) by (simp add: scan_prepare_def scan_begin_def ptype_defs Let_def)
  then show ?thesis
    using loop bm'(2,3) ready'(1,2) type fat_supported [of NTFS]
    by (auto simp: ScanPartitionData_def scan_loop_lim scan_begin_def)
qed

lemma bitmap_record_loop_append:
  "bitmap_record_loop rec a spc i off vcn lcn cnt = Some r
    \<Longrightarrow> bitmap_record_loop (rec @ t) a spc i off vcn lcn cnt = Some r"
proof (induction i arbitrary: off vcn lcn cnt)
  case (Suc i)
  obtain f where f: "FindRun rec a vcn lcn cnt = Some f"
    using Suc.prems by (auto elim!: bind_SomeE)
  then show ?case
    using Suc FindRun_append [OF f, of t] by (auto split: if_splits prod.splits)
qed simp

lemma bitmap_runs_append:
  "bitmap_runs rec a spc i vcn lcn cnt = Some r \<Longrightarrow> bitmap_runs (rec @ t) a spc i vcn lcn cnt = Some r"
proof (induction i arbitrary: vcn lcn cnt r)
  case (Suc i)
  obtain f where f: "FindRun rec a vcn lcn cnt = Some f"
    using Suc.prems by (auto elim!: bind_SomeE)
  then show ?case
    using Suc FindRun_append [OF f, of t] by (auto elim!: bind_SomeE split: if_splits prod.splits)
qed simp

definition ntfs_record :: "byte \<Rightarrow> buf \<Rightarrow> buf" where
  "ntfs_record high run =
     [0x46,0x49,0x4c,0x45, 48,0, 1,0, 0,0,0,0,0,0,0,0, 0,0,0,0, 56,0, 0,0] @ replicate 32 0 @
     [0x80,0,0,0, 72,0,0,0, 1,0,0,0, 0,0,0,0, 0,0,0,0,0,0,0,0, high,0,0,0,0,0,0,0, 64,0] @ replicate 30 0 @
     run @ replicate (8 - length run) 0 @ [0xff,0xff,0xff,0xff]"

definition ntfs_disk :: "nat \<Rightarrow> buf" where
  "ntfs_disk i = (if i = 4 then ntfs_record 31 [0x11, 32, 4] else if i = 16 then ntfs_record 1 [0x11, 2, 32]
     else if i = 32 then [0xff, 0, 0x01] else [])"

definition ntfs_volume :: WIN32_PARTITIONINFO where
  "ntfs_volume = set_SectorsPerFileRecord 2 (set_MftBeginSector 4
     (empty_partition\<lparr>PartitionType := NTFS, SectorsPerClr := 1, TotalSectors := 64\<rparr>))"

definition ntfs_image :: "nat \<Rightarrow> buf" where
  "ntfs_image a = concat (map (ram_sec ntfs_disk 0) [a..<a + 2])"

lemma ntfs_record_facts:
  "FixupInode (ntfs_record 31 [0x11, 32, 4]) 1024 = Some (True, ntfs_record 31 [0x11, 32, 4])"
  "FindAttribute (ntfs_record 31 [0x11, 32, 4]) AttributeData = Some (Some 56)"
  "bitmap_record_loop (ntfs_record 31 [0x11, 32, 4]) 56 1 3 12 0 0 0 = Some 16"
  "FixupInode (ntfs_record 1 [0x11, 2, 32]) 2 = Some (True, ntfs_record 1 [0x11, 2, 32])"
  "FindAttribute (ntfs_record 1 [0x11, 2, 32]) AttributeData = Some (Some 56)"
  "bitmap_runs (ntfs_record 1 [0x11, 2, 32]) 56 1 MAX_BITMAP_RUNS 0 0 0 = Some [\<lparr>Begin = 32, Number = 2\<rparr>]"
  by code_simp+

lemma ntfs_image_record:
  "\<exists>t. ntfs_image 4 = ntfs_record 31 [0x11, 32, 4] @ t"
  "\<exists>t. ntfs_image 16 = ntfs_record 1 [0x11, 2, 32] @ t"
proof -
  have "length (ntfs_record h [x, y, z]) = 132" for h x y z
    by (simp add: ntfs_record_def)
  then show "\<exists>t. ntfs_image 4 = ntfs_record 31 [0x11, 32, 4] @ t"
    "\<exists>t. ntfs_image 16 = ntfs_record 1 [0x11, 2, 32] @ t"
    by (simp_all add: ntfs_image_def ram_sec_def ntfs_disk_def upt_rec)
qed

lemma ntfs_image_facts:
  "FixupInode (ntfs_image 4 @ t) 1024 = Some (True, ntfs_image 4 @ t)"
  "FindAttribute (ntfs_image 4 @ t) AttributeData = Some (Some 56)"
  "bitmap_record_loop (ntfs_image 4 @ t) 56 1 3 12 0 0 0 = Some 16"
  "FixupInode (ntfs_image 16 @ t) 2 = Some (True, ntfs_image 16 @ t)"
  "FindAttribute (ntfs_image 16 @ t) AttributeData = Some (Some 56)"
  "bitmap_runs (ntfs_image 16 @ t) 56 1 MAX_BITMAP_RUNS 0 0 0 = Some [\<lparr>Begin = 32, Number = 2\<rparr>]"
  using ntfs_image_record ntfs_record_facts
  by (auto intro: FixupInode_append FindAttribute_append bitmap_record_loop_append bitmap_runs_append)

definition ntfs_state :: part_state where
  "ntfs_state = (tiny_state NTFS)\<lparr>g_Partitions := [ntfs_volume]\<rparr>"

lemma ntfs_volume_fields:
  "PartitionType ntfs_volume = NTFS" "DiskNumber ntfs_volume = 0" "BootBegin ntfs_volume = 0"
  "SectorsPerClr ntfs_volume = 1" "TotalSectors ntfs_volume = 64"
  "MftBeginSector ntfs_volume = 4" "SectorsPerFileRecord ntfs_volume = 2"
  by (simp_all add: ntfs_volume_def set_SectorsPerFileRecord_def set_MftBeginSector_def empty_partition_def
      MftBeginSector_def SectorsPerFileRecord_def)

lemma ntfs_ready: "scan_ready (ram_env 1) ram_sec 64 0 ntfs_volume ntfs_state"
proof -
  have "g_disknum (ram_env 1) = 1" by (simp add: ram_env_def)
  then show ?thesis
    using ram_reads_sectors [of 1 0 64]
    by (simp add: scan_ready_def ntfs_state_def tiny_state_def ntfs_volume_fields)
qed

lemma ntfs_read:
  assumes "length fb = 65536" "unat a \<le> 62"
  shows "DiskRead (ram_env 1) ntfs_disk 0 a 2 fb 0 = Some (True, ntfs_image (unat a) @ drop 1024 fb)"
  using DiskRead_sectors [OF ram_reads_sectors, of 0 1 2 a 64 fb ntfs_disk] assms
  by (simp add: ram_env_def ntfs_image_def)

lemma ntfs_InitNTFS:
  "\<exists>s1. InitNTFS (ram_env 1) ntfs_disk ntfs_volume (scan_begin 0 ntfs_volume ntfs_state) = Some (True, s1) \<and>
    m_BitmapSectorList s1 = \<lparr>Begin = 32, Number = 2\<rparr> # replicate 15 no_run"
proof -
  let ?s = "scan_begin 0 ntfs_volume ntfs_state"
  let ?z = "replicate 65536 0 :: buf"
  have sb: "scanbuffer ?s = Some ?z"
    by (simp add: scan_begin_def ntfs_state_def tiny_state_def)
  have len: "length (ntfs_image 4) = 1024"
    unfolding ntfs_image_def using length_sectors_of [OF ram_reads_sectors, of ntfs_disk 0 4 2] by simp
  have "GetBitmapFileRecordSector (ram_env 1) ntfs_disk ntfs_volume ?z s = Some (16, ntfs_image 4 @ drop 1024 ?z)"
    if "m_DiskNumber s = 0" for s
    using ntfs_read [of ?z 4] that
    by (simp add: ntfs_image_facts GetBitmapFileRecordSector_def ntfs_volume_fields INODE_BITMAP_def)
  moreover have "DiskRead (ram_env 1) ntfs_disk 0 16 2 (ntfs_image 4 @ drop 1024 ?z) 0
      = Some (True, ntfs_image 16 @ drop 1024 ?z)"
    using ntfs_read [of "ntfs_image 4 @ drop 1024 ?z" 16] len by simp
  ultimately show ?thesis
    using sb ntfs_image_facts(6) [unfolded MAX_BITMAP_RUNS_def]
    by (simp add: ntfs_image_facts InitNTFS_def ntfs_volume_fields MAX_BITMAP_RUNS_def)
qed


theorem ScanPartitionData_NTFS_witness:
  "\<exists>bm' s'. ScanPartitionData (ram_env 1) ntfs_disk 0 (GetDataToBitmap []) [0] ntfs_state = Some (0, bm', s') \<and>
    length bm' = length [0 :: byte] \<and>
    (\<forall>k < bm_cap [0]. read_nat k bm' =
      (if ntfs_saved [] ntfs_volume (table_entries 1 (plan_bytes ram_sec ntfs_disk 0 [(32, 1)])) k
       then Some True else read_nat k [0]))"
proof -
  obtain s1 where s1: "InitNTFS (ram_env 1) ntfs_disk ntfs_volume (scan_begin 0 ntfs_volume ntfs_state) = Some (True, s1)"
    "m_BitmapSectorList s1 = \<lparr>Begin = 32, Number = 2\<rparr> # replicate 15 no_run"
    using ntfs_InitNTFS by blast
  have len: "length (plan_bytes ram_sec ntfs_disk 0 [(32, 1)]) = 512"
    unfolding plan_bytes_def using length_sectors_of [OF ram_reads_sectors, of ntfs_disk 0 32 1] by simp
  have n: "bitmap_sectors ntfs_volume = 1"
    by (simp add: bitmap_sectors_def ntfs_volume_fields)
  show ?thesis
    by (rule ScanPartitionData_NTFS [OF ntfs_ready _ s1(1),
          where r = "(32, 2)" and rest = "replicate 15 (0, 0)"])
      (use len in \<open>simp_all add: ntfs_volume_fields s1(2) abs_runs_def no_run_def n run_plan_def bm_cap_def\<close>)
qed

end
