(* ===== verification/Okr_Table.thy ===== *)
theory Okr_Table
  imports Okr_Volume
begin

text \<open>
  The partition tables of \<^verbatim>\<open>src/OkrPkg/okrefi/partition.c\<close>: MBR with extended partitions, GPT, the
  global list \<open>g_Partitions\<close> they fill, its order, and volume names.

  The functions share one work buffer; a pointer into it is an offset. A partition table entry
  is the offset of its 16 bytes. Writing behind the 64 elements of \<open>g_Partitions\<close> or behind
  \<open>g_disklist\<close> is undefined in C and \<open>None\<close> here. The calls that look up firmware handles for the
  partitions found (\<open>CheckPartitionHandle\<close>, \<open>CheckFatPartitionHandle\<close>) and the log are left out.
\<close>

definition set_partition :: "nat \<Rightarrow> (WIN32_PARTITIONINFO \<Rightarrow> WIN32_PARTITIONINFO) \<Rightarrow> part_state \<Rightarrow> part_state option" where
  "set_partition i f s =
     (if i < length (g_Partitions s)
      then Some (s\<lparr>g_Partitions := (g_Partitions s)[i := f (g_Partitions s ! i)]\<rparr>) else None)"

definition set_disk :: "u16 \<Rightarrow> (DISKINFO \<Rightarrow> DISKINFO) \<Rightarrow> part_state \<Rightarrow> part_state option" where
  "set_disk k f s =
     (if unat k < length (g_disklist s)
      then Some (s\<lparr>g_disklist := (g_disklist s)[unat k := f (g_disklist s ! unat k)]\<rparr>) else None)"

definition VerifyPartition :: "buf \<Rightarrow> nat \<Rightarrow> u64 \<Rightarrow> u16 \<Rightarrow> part_state \<Rightarrow> bool option" where
  "VerifyPartition mem e BeginSector dsk s =
     do {
       pid \<leftarrow> rd8 mem (e + 4);
       if pid = 0 then Some False
       else if length (g_disklist s) \<le> unat dsk then None
       else if BeginSector \<ge> totalsector (g_disklist s ! unat dsk) then Some False
       else if IsUnSupportedPartition (ucast pid) = 2
       then do {
         beginhead \<leftarrow> rd8 mem (e + 1);
         cs \<leftarrow> rd16 mem (e + 2);
         Some ((beginhead = 0 \<or> beginhead = 1) \<and> cs AND 0x3f = 1) }
       else Some True }"

text \<open>The fields of a new element, with and without a table entry.\<close>

definition entry_partition ::
  "buf \<Rightarrow> nat option \<Rightarrow> u64 \<Rightarrow> u64 \<Rightarrow> u16 \<Rightarrow> WIN32_PARTITIONINFO \<Rightarrow> WIN32_PARTITIONINFO option" where
  "entry_partition mem entry BeginSector totsec dsk P =
     (case entry of
        None \<Rightarrow> Some (P\<lparr>DiskNumber := ucast dsk, PartitionTableBegin := 0, BootBegin := BeginSector,
          PartitionType := UNKNOWN_PARTITION, PartitionId := UNKNOWN_PARTITION, TotalSectors := totsec\<rparr>)
      | Some e \<Rightarrow> do {
          boot \<leftarrow> rd8 mem e;
          pid \<leftarrow> rd8 mem (e + 4);
          front \<leftarrow> rd32 mem (e + 8);
          num \<leftarrow> rd32 mem (e + 12);
          Some (P\<lparr>DiskNumber := ucast dsk, PartitionTableBegin := ucast BeginSector,
            BootBegin := BeginSector + ucast front, PartitionType := pid, PartitionId := pid,
            TotalSectors := ucast num, bBootPartition := (if boot = 0x80 then 1 else 0)\<rparr>) })"

definition ParseMasterPartition ::
  "'d disk_env \<Rightarrow> 'd \<Rightarrow> nat option \<Rightarrow> u32 \<Rightarrow> u64 \<Rightarrow> u64 \<Rightarrow> u16 \<Rightarrow> nat \<Rightarrow> buf \<Rightarrow> part_state
   \<Rightarrow> (bool \<times> buf \<times> part_state) option" where
  "ParseMasterPartition env d entry PartitionIndex BeginSector totsec dsk off mem s =
     do {
       (bRet, mem1) \<leftarrow> (case entry of
          None \<Rightarrow> Some (True, mem)
        | Some e \<Rightarrow> do {
            ok \<leftarrow> VerifyPartition mem e BeginSector dsk s;
            if ok then Some (True, mem)
            else do {
              front \<leftarrow> rd32 mem (e + 8);
              (r, mem') \<leftarrow> DiskRead env d dsk (BeginSector + ucast front) 1 mem off;
              if r then do { mark \<leftarrow> rd16 mem' (off + 0x1fe); Some (mark = 0xaa55, mem') }
              else Some (False, mem') } });
       if \<not> bRet then Some (False, mem1, s)
       else if length (g_Partitions s) \<le> unat PartitionIndex then None
       else do {
         P \<leftarrow> entry_partition mem1 entry BeginSector totsec dsk (g_Partitions s ! unat PartitionIndex);
         (_, mem2) \<leftarrow> DiskRead env d dsk (BootBegin P) 4 mem1 off;
         (ok, P2, s2) \<leftarrow> CheckPartitionType env d mem2 off True P s;
         let s3 = (if ok then s2 else s2\<lparr>m_PartitionType := UNKNOWN_PARTITION\<rparr>);
         s4 \<leftarrow> set_partition (unat PartitionIndex) (\<lambda>_. P2) s3;
         if m_PartitionType s4 = PARTITION_UNUSED then Some (False, mem2, s4)
         else do { s5 \<leftarrow> set_disk dsk (\<lambda>k. k\<lparr>formatted := True\<rparr>) s4; Some (True, mem2, s5) } } }"

section \<open>Extended partitions\<close>

text \<open>The start of \<open>ParseExtendPartition\<close>: the first sector of the table (a double word) and the
  base of the chain, or an early return of 0.\<close>

definition ext_enter ::
  "'d disk_env \<Rightarrow> 'd \<Rightarrow> nat \<Rightarrow> u64 \<Rightarrow> u16 \<Rightarrow> nat \<Rightarrow> buf \<Rightarrow> part_state
   \<Rightarrow> ((u32 \<times> u64) option \<times> buf \<times> part_state) option" where
  "ext_enter env d e BeginSector dsk off mem s0 =
     (let s = s0\<lparr>m_RecursiveTimes := m_RecursiveTimes s0 + 1\<rparr> in
      if m_RecursiveTimes s \<ge> 32 then Some (None, mem, s)
      else do {
        front \<leftarrow> rd32 mem (e + 8);
        let nextsec = (ucast (ucast front + BeginSector) :: u32);
        let base = (if BeginSector = 0 then ucast nextsec else BeginSector);
        (ok, mem1) \<leftarrow> DiskRead env d dsk (ucast nextsec) 1 mem off;
        if \<not> ok then Some (None, mem1, s)
        else do {
          mark \<leftarrow> rd16 mem1 (off + 0x1fe);
          Some (if mark \<noteq> 0xaa55 then None else Some (nextsec, base), mem1, s) } })"

text \<open>The loop over the four entries at \<open>off + 0x1be\<close>, with the recursive call on a link in place.
  The next table goes to \<open>off + 512\<close>.\<close>

partial_function (option) ext_loop ::
  "'d disk_env \<Rightarrow> 'd \<Rightarrow> u16 \<Rightarrow> nat \<Rightarrow> nat \<Rightarrow> u32 \<Rightarrow> u64 \<Rightarrow> u32 \<Rightarrow> u32 \<Rightarrow> buf \<Rightarrow> part_state
   \<Rightarrow> (u32 \<times> buf \<times> part_state) option" where
  "ext_loop env d dsk i off PartitionIndex BeginSector nextsec partitionNumber mem s =
     (if i \<ge> 4 then Some (partitionNumber, mem, s)
      else do {
        let e = off + 0x1be + 16 * i;
        pid \<leftarrow> rd8 mem (e + 4);
        (idx, num, mem1, s1) \<leftarrow>
          (if pid = EXTEND_PARTITION \<or> pid = BIG_EXTEND_PARTITION
           then do {
             (enter, mem', s') \<leftarrow> ext_enter env d e BeginSector dsk (off + 512) mem s;
             (cnt, mem'', s'') \<leftarrow> (case enter of
                None \<Rightarrow> Some (0, mem', s')
              | Some (nextsec', base') \<Rightarrow>
                  ext_loop env d dsk 0 (off + 512) PartitionIndex base' nextsec' 0 mem' s');
             Some (PartitionIndex + (partitionNumber + cnt), partitionNumber + cnt, mem'', s'') }
           else if pid \<noteq> 0
           then do {
             tots \<leftarrow> rd32 mem (e + 12);
             (ok, mem', s') \<leftarrow> ParseMasterPartition env d (Some e) PartitionIndex (ucast nextsec)
               (ucast tots) dsk (off + 512) mem s;
             Some (if ok then (PartitionIndex + 1, partitionNumber + 1, mem', s')
                   else (PartitionIndex, partitionNumber, mem', s')) }
           else Some (PartitionIndex, partitionNumber, mem, s));
        if idx \<ge> 32 then Some (num, mem1, s1)
        else ext_loop env d dsk (Suc i) off idx BeginSector nextsec num mem1 s1 })"

declare ext_loop.simps [code]

definition ParseExtendPartition ::
  "'d disk_env \<Rightarrow> 'd \<Rightarrow> nat \<Rightarrow> u32 \<Rightarrow> u64 \<Rightarrow> u16 \<Rightarrow> nat \<Rightarrow> buf \<Rightarrow> part_state \<Rightarrow> (u32 \<times> buf \<times> part_state) option" where
  "ParseExtendPartition env d e PartitionIndex BeginSector dsk off mem s =
     do {
       (enter, mem1, s1) \<leftarrow> ext_enter env d e BeginSector dsk off mem s;
       (case enter of
          None \<Rightarrow> Some (0, mem1, s1)
        | Some (nextsec, base) \<Rightarrow> ext_loop env d dsk 0 off PartitionIndex base nextsec 0 mem1 s1) }"

section \<open>Order of the list\<close>

text \<open>\<open>SortPartitionInfo\<close>: compare every pair \<open>i < j\<close> and swap when they are on one disk and out of
  order; the loop variables are words, the list has at most 64 elements.\<close>

definition swap_if :: "nat \<Rightarrow> nat \<Rightarrow> WIN32_PARTITIONINFO list \<Rightarrow> WIN32_PARTITIONINFO list" where
  "swap_if i j ps =
     (if BootBegin (ps ! i) > BootBegin (ps ! j) \<and> DiskNumber (ps ! i) = DiskNumber (ps ! j)
      then ps[i := ps ! j, j := ps ! i] else ps)"

definition sort_row :: "nat \<Rightarrow> nat \<Rightarrow> WIN32_PARTITIONINFO list \<Rightarrow> WIN32_PARTITIONINFO list" where
  "sort_row n i ps = fold (swap_if i) [Suc i..<n] ps"

definition sort_partitions :: "nat \<Rightarrow> WIN32_PARTITIONINFO list \<Rightarrow> WIN32_PARTITIONINFO list" where
  "sort_partitions n ps = fold (sort_row n) [0..<n] ps"

definition SortPartitionInfo :: "part_state \<Rightarrow> part_state option" where
  "SortPartitionInfo s =
     (if length (g_Partitions s) < unat (g_dwTotalPartitions s) then None
      else Some (s\<lparr>g_Partitions := sort_partitions (unat (g_dwTotalPartitions s)) (g_Partitions s)\<rparr>))"

section \<open>GPT\<close>

definition is_gpt_pid :: "byte \<Rightarrow> bool" where
  "is_gpt_pid pid \<longleftrightarrow> pid = GPT_PROTECTIVE_PARTITION \<or> pid = GPT_SYSTEM_PARTITION"

definition IsGPT :: "'d disk_env \<Rightarrow> 'd \<Rightarrow> u16 \<Rightarrow> part_state \<Rightarrow> (bool \<times> part_state) option" where
  "IsGPT env d dsk s =
     (case AllocatePool env d 4096 of
        None \<Rightarrow> Some (False, s)
      | Some mem \<Rightarrow> do {
          (ok, mem1) \<leftarrow> DiskRead env d dsk 0 1 mem 0;
          mark \<leftarrow> rd16 mem1 0x1fe;
          p0 \<leftarrow> rd8 mem1 (0x1be + 4);
          p1 \<leftarrow> rd8 mem1 (0x1be + 16 + 4);
          p2 \<leftarrow> rd8 mem1 (0x1be + 32 + 4);
          p3 \<leftarrow> rd8 mem1 (0x1be + 48 + 4);
          let gpt = (ok \<and> mark = 0xaa55 \<and> list_ex is_gpt_pid [p0, p1, p2, p3]);
          if gpt then Some (True, s)
          else do {
            sig \<leftarrow> slice mem1 0x1b8 4;
            s' \<leftarrow> set_disk dsk (\<lambda>k. k\<lparr>disk_guid := replicate 12 0 @ sig\<rparr>) s;
            Some (False, s') } })"

text \<open>The loop of \<open>ParseGPTInfo\<close> over the entries; the entry size is read again in every round, and
  the boot sector of each partition goes to the second half of the buffer.\<close>

definition gpt_entry ::
  "'d disk_env \<Rightarrow> 'd \<Rightarrow> u16 \<Rightarrow> nat \<Rightarrow> buf \<Rightarrow> part_state \<Rightarrow> (buf \<times> part_state) option" where
  "gpt_entry env d dsk entry mem s =
     do {
       d1 \<leftarrow> rd32 mem entry;
       d2 \<leftarrow> rd16 mem (entry + 4);
       d3 \<leftarrow> rd16 mem (entry + 6);
       startlba \<leftarrow> rd64 mem (entry + 32);
       endlba \<leftarrow> rd64 mem (entry + 40);
       if (d1 = 0 \<and> d2 = 0 \<and> d3 = 0) \<or> startlba = 0 \<or> endlba = 0 then Some (mem, s)
       else do {
         (ok, mem1, s1) \<leftarrow> ParseMasterPartition env d None (g_dwTotalPartitions s) startlba
           (endlba - startlba + 1) dsk 0x8000 mem s;
         if \<not> ok then Some (mem1, s1)
         else do {
           tg \<leftarrow> slice mem1 entry 16;
           ug \<leftarrow> slice mem1 (entry + 16) 16;
           s2 \<leftarrow> set_partition (unat (g_dwTotalPartitions s1))
             (\<lambda>P. P\<lparr>TypeGuid := tg, UniGuid := ug, bGpt := 1\<rparr>) s1;
           Some (mem1, s2\<lparr>g_dwTotalPartitions := g_dwTotalPartitions s2 + 1\<rparr>) } } }"

fun gpt_loop ::
  "'d disk_env \<Rightarrow> 'd \<Rightarrow> u16 \<Rightarrow> nat \<Rightarrow> nat \<Rightarrow> buf \<Rightarrow> part_state \<Rightarrow> (buf \<times> part_state) option" where
  "gpt_loop env d dsk 0 entry mem s = Some (mem, s)"
| "gpt_loop env d dsk (Suc k) entry mem s =
     do {
       (mem2, s2) \<leftarrow> gpt_entry env d dsk entry mem s;
       esize \<leftarrow> rd32 mem2 (512 + 0x54);
       gpt_loop env d dsk k (entry + unat esize) mem2 s2 }"

definition ParseGPTInfo ::
  "'d disk_env \<Rightarrow> 'd \<Rightarrow> u16 \<Rightarrow> buf \<Rightarrow> part_state \<Rightarrow> (u32 \<times> buf \<times> part_state) option" where
  "ParseGPTInfo env d dsk mem s =
     do {
       (_, mem1) \<leftarrow> DiskRead env d dsk 0 64 mem 0;
       sig \<leftarrow> has_text mem1 512 ''EFI PART'';
       if \<not> sig then Some (0, mem1, s)
       else do {
         guid \<leftarrow> slice mem1 (512 + 0x38) 16;
         s1 \<leftarrow> set_disk dsk (\<lambda>k. k\<lparr>disk_guid := guid\<rparr>) s;
         num \<leftarrow> rd32 mem1 (512 + 0x50);
         elba \<leftarrow> rd64 mem1 (512 + 0x48);
         mylba \<leftarrow> rd64 mem1 (512 + 0x18);
         (mem2, s2) \<leftarrow> gpt_loop env d dsk (unat (if num > 128 then 128 else num))
           (512 + unat ((elba - mylba) * 512)) mem1 s1;
         Some (g_dwTotalPartitions s2, mem2, s2) } }"

section \<open>Volume names\<close>

text \<open>A label of 11 bytes goes through \<open>Ascii2Unicode\<close> from a cleared buffer of 64 bytes into the
  cleared 33 characters of \<open>Label\<close>.\<close>

definition fat_label :: "buf \<Rightarrow> u16 list option" where
  "fat_label bytes =
     do { u \<leftarrow> Ascii2Unicode (bytes @ replicate (64 - length bytes) 0);
          Some (u @ replicate (33 - length u) 0) }"

definition ntfs_label :: "buf \<Rightarrow> u16 list" where
  "ntfs_label bytes = word_pairs (bytes @ replicate (66 - length bytes) 0)"

definition find_label_entry :: "buf \<Rightarrow> nat" where
  "find_label_entry b = (case find (\<lambda>i. b ! (0xb + i) = 8) (map (\<lambda>k. 32 * k) [0..<16]) of
     Some i \<Rightarrow> i | None \<Rightarrow> 0)"

definition fat32_label :: "'d disk_env \<Rightarrow> 'd \<Rightarrow> WIN32_PARTITIONINFO \<Rightarrow> u16 list option" where
  "fat32_label env d P =
     do {
       let k = (ucast (DiskNumber P) :: u16);
       let beginsec = BootBegin P + ucast (SectorsPerFAT P * 2 + FirstFatSector P);
       let none = Some (replicate 33 0);
       (ok, b) \<leftarrow> DiskRead env d k beginsec 1 (replicate 512 0) 0;
       if \<not> ok then none
       else do {
         res \<leftarrow> rd16 b 0xe;
         spc \<leftarrow> rd8 b 0xd;
         nf \<leftarrow> rd8 b 0x10;
         fsize \<leftarrow> rd32 b 0x24;
         root \<leftarrow> rd32 b 0x2c;
         let rootsec = (ucast res + ucast nf * fsize + (root - 2) * ucast spc :: u32);
         (ok2, b2) \<leftarrow> DiskRead env d k (beginsec + ucast rootsec) 1 b 0;
         if \<not> ok2 then none
         else do { l \<leftarrow> slice b2 (find_label_entry b2) 11; fat_label l } } }"

definition ntfs_volume_label :: "'d disk_env \<Rightarrow> 'd \<Rightarrow> WIN32_PARTITIONINFO \<Rightarrow> u16 list option" where
  "ntfs_volume_label env d P =
     do {
       let recordsize = (ucast (SectorsPerFileRecord P) :: u32);
       let none = Some (replicate 33 0);
       (case AllocatePool env d (unat (recordsize * 512)) of
          None \<Rightarrow> none
        | Some mem \<Rightarrow> do {
            (_, mem1) \<leftarrow> DiskRead env d (ucast (DiskNumber P))
              (BootBegin P + MftBeginSector P + ucast (INODE_VOLUME * recordsize)) recordsize mem 0;
            (ok, mem2) \<leftarrow> FixupInode mem1 recordsize;
            if \<not> ok then none
            else do {
              attr \<leftarrow> FindAttribute mem2 AttributeVolumeName;
              (case attr of
                 None \<Rightarrow> none
               | Some a \<Rightarrow> do {
                   len \<leftarrow> rd32 mem2 (a + 16);
                   bytes \<leftarrow> slice mem2 (a + 24) (unat (if len > 64 then 64 else len));
                   Some (ntfs_label bytes) }) } }) }"

definition GetVolumeName :: "'d disk_env \<Rightarrow> 'd \<Rightarrow> u16 \<Rightarrow> part_state \<Rightarrow> part_state option" where
  "GetVolumeName env d partindex s =
     (if length (g_Partitions s) \<le> unat partindex then None
      else do {
        let P = g_Partitions s ! unat partindex;
        let t = PartitionType P;
        l \<leftarrow> (if t = FAT32 \<or> t = FAT32_E then fat32_label env d P
             else if t = NTFS then ntfs_volume_label env d P
             else if t = FAT16 \<or> t = FAT16_E
             then do {
               (ok, b) \<leftarrow> DiskRead env d (ucast (DiskNumber P)) (BootBegin P) 1 (replicate 512 0) 0;
               if \<not> ok then Some (replicate 33 0)
               else do { l \<leftarrow> slice b 43 11; fat_label l } }
             else Some (replicate 33 0));
        set_partition (unat partindex) (\<lambda>P. P\<lparr>Label := l\<rparr>) s })"

section \<open>All disks\<close>

function part_index_from :: "part_state \<Rightarrow> u16 \<Rightarrow> nat \<Rightarrow> nat \<Rightarrow> int option" where
  "part_index_from s dsk index i =
     (if i < unat (g_dwTotalPartitions s)
      then if length (g_Partitions s) \<le> i then None
        else if ucast (DiskNumber (g_Partitions s ! i)) = dsk
        then if index = 0 then Some (int i) else part_index_from s dsk (index - 1) (Suc i)
        else part_index_from s dsk index (Suc i)
      else Some (- 1))"
  by pat_completeness auto
termination
  by (relation "measure (\<lambda>(s, dsk, index, i). unat (g_dwTotalPartitions s) - i)") auto

declare part_index_from.simps [simp del]

definition GetPartitionIndex :: "part_state \<Rightarrow> u16 \<Rightarrow> u32 \<Rightarrow> int option" where
  "GetPartitionIndex s dsk index = part_index_from s dsk (unat index) 0"

text \<open>The four entries of an MBR, at \<open>0x1be\<close> of the buffer; the sectors of the partitions go to 512.\<close>

definition mbr_entry ::
  "'d disk_env \<Rightarrow> 'd \<Rightarrow> u16 \<Rightarrow> nat \<Rightarrow> buf \<Rightarrow> part_state \<Rightarrow> (buf \<times> part_state) option" where
  "mbr_entry env d dsk e mem s =
     do {
       pid \<leftarrow> rd8 mem (e + 4);
       if pid = EXTEND_PARTITION \<or> pid = BIG_EXTEND_PARTITION
       then do {
         (cnt, mem', s') \<leftarrow> ParseExtendPartition env d e (g_dwTotalPartitions s) 0 dsk 512 mem s;
         Some (mem', s'\<lparr>g_dwTotalPartitions := g_dwTotalPartitions s' + cnt, m_bLBAMode := False\<rparr>) }
       else if pid \<noteq> PARTITION_UNUSED
       then do {
         tots \<leftarrow> rd32 mem (e + 12);
         (ok, mem', s') \<leftarrow> ParseMasterPartition env d (Some e) (g_dwTotalPartitions s) 0 (ucast tots) dsk 512 mem s;
         Some (mem', if ok then s'\<lparr>g_dwTotalPartitions := g_dwTotalPartitions s' + 1\<rparr> else s') }
       else Some (mem, s) }"

fun mbr_loop ::
  "'d disk_env \<Rightarrow> 'd \<Rightarrow> u16 \<Rightarrow> nat \<Rightarrow> buf \<Rightarrow> part_state \<Rightarrow> (buf \<times> part_state) option" where
  "mbr_loop env d dsk 0 mem s = Some (mem, s)"
| "mbr_loop env d dsk (Suc k) mem s =
     do {
       (mem1, s1) \<leftarrow> mbr_entry env d dsk (0x1be + 16 * (4 - Suc k)) mem s;
       if unat (g_dwTotalPartitions s1) \<ge> MAX_NUM_PARTITIONS then Some (mem1, s1)
       else mbr_loop env d dsk k mem1 s1 }"

definition scan_disk ::
  "'d disk_env \<Rightarrow> 'd \<Rightarrow> u16 \<Rightarrow> buf \<Rightarrow> part_state \<Rightarrow> (buf \<times> part_state) option" where
  "scan_disk env d i mem s =
     do {
       (gpt, s1) \<leftarrow> IsGPT env d i s;
       if gpt
       then do { (_, mem1, s2) \<leftarrow> ParseGPTInfo env d i mem s1; s3 \<leftarrow> SortPartitionInfo s2; Some (mem1, s3) }
       else do {
         (ok, mem1) \<leftarrow> DiskRead env d i 0 1 mem 0;
         let s2 = s1\<lparr>m_bLBAMode := False\<rparr>;
         if \<not> ok then Some (mem1, s2)
         else do {
           (whole, mem2, s3) \<leftarrow> ParseMasterPartition env d None (g_dwTotalPartitions s2) 0 0 i 0 mem1 s2;
           (mem3, s4) \<leftarrow>
             (if whole then Some (mem2, s3\<lparr>g_dwTotalPartitions := g_dwTotalPartitions s3 + 1\<rparr>)
              else mbr_loop env d i 4 mem2 s3);
           s5 \<leftarrow> SortPartitionInfo s4;
           Some (mem3, s5) } } }"

fun scan_disks :: "'d disk_env \<Rightarrow> 'd \<Rightarrow> u16 list \<Rightarrow> buf \<Rightarrow> part_state \<Rightarrow> part_state option" where
  "scan_disks env d [] mem s = Some s"
| "scan_disks env d (i # is) mem s =
     (if unat (g_dwTotalPartitions s) \<ge> MAX_NUM_PARTITIONS then Some s
      else do { (mem', s') \<leftarrow> scan_disk env d i mem s; scan_disks env d is mem' s' })"

definition Window_Recovery_TypeGuidTemp :: buf where
  "Window_Recovery_TypeGuidTemp =
     [0xa4,0xbb,0x94,0xde,0xd1,0x06,0x40,0x4d,0xa1,0x6a,0xbf,0xd5,0x01,0x79,0xd6,0xac]"

definition lenovo_partition :: "WIN32_PARTITIONINFO \<Rightarrow> bool" where
  "lenovo_partition P \<longleftrightarrow>
     (take 11 (Label P) = map (ucast \<circ> (of_char :: char \<Rightarrow> byte)) ''LENOVO_PART''
      \<and> TypeGuid P = Window_Recovery_TypeGuidTemp) \<or> PartitionId P = LENOVO_PART"

fun name_volumes :: "'d disk_env \<Rightarrow> 'd \<Rightarrow> nat list \<Rightarrow> part_state \<Rightarrow> part_state option" where
  "name_volumes env d [] s = Some s"
| "name_volumes env d (i # is) s =
     do { s1 \<leftarrow> GetVolumeName env d (of_nat i) s;
          name_volumes env d is
            (if lenovo_partition (g_Partitions s1 ! i) then s1\<lparr>oempartition := of_nat i\<rparr> else s1) }"

definition GetPartitionInfo :: "'d disk_env \<Rightarrow> 'd \<Rightarrow> part_state \<Rightarrow> (u32 \<times> part_state) option" where
  "GetPartitionInfo env d s0 =
     do {
       mem \<leftarrow> AllocatePool env d 65536;
       s1 \<leftarrow> scan_disks env d (map of_nat [0..<unat (g_disknum env)]) mem (InitPartition s0);
       s2 \<leftarrow> name_volumes env d [0..<unat (g_dwTotalPartitions s1)] s1;
       let s3 = CleanPartition s2;
       Some (g_dwTotalPartitions s3, s3) }"

end
