(* ===== verification/Okr_TableCorrect.thy ===== *)
theory Okr_TableCorrect
  imports Okr_Table "HOL-Library.Multiset"
begin

text \<open>
  Correctness of the partition tables: the order of the list, the limit of 64 partitions that the scan
  of MBR disks keeps, the look-up by disk and index, the detection of GPT disks, and the two places
  where the parsers stop short (the depth counter of extended partitions) or go too far (GPT
  entries behind the 64th partition).
\<close>

section \<open>Sorting\<close>

definition least_from :: "WIN32_PARTITIONINFO list \<Rightarrow> nat \<Rightarrow> nat \<Rightarrow> bool" where
  "least_from ps i m \<longleftrightarrow> (\<forall>k. i < k \<and> k < m \<and> DiskNumber (ps ! k) = DiskNumber (ps ! i)
     \<longrightarrow> BootBegin (ps ! i) \<le> BootBegin (ps ! k))"

lemma swap_if_basic:
  assumes "i < j" "j < n" "n \<le> length ps"
  shows "length (swap_if i j ps) = length ps" "drop n (swap_if i j ps) = drop n ps"
    "map DiskNumber (swap_if i j ps) = map DiskNumber ps"
    "mset (take n (swap_if i j ps)) = mset (take n ps)"
proof -
  show "map DiskNumber (swap_if i j ps) = map DiskNumber ps"
    using assms by (auto simp: swap_if_def map_update list_update_same_conv nth_list_update intro!: nth_equalityI)
  have "take n (ps[i := ps ! j, j := ps ! i]) = (take n ps)[i := take n ps ! j, j := take n ps ! i]"
    using assms by (simp add: take_update_swap)
  then show "mset (take n (swap_if i j ps)) = mset (take n ps)"
    using assms mset_swap [of j "take n ps" i] by (auto simp: swap_if_def)
qed (use assms in \<open>auto simp: swap_if_def\<close>)

lemma swap_if_nth:
  assumes "i < j" "j < length ps" "k < length ps"
  shows "swap_if i j ps ! k =
    (if BootBegin (ps ! i) > BootBegin (ps ! j) \<and> DiskNumber (ps ! i) = DiskNumber (ps ! j)
     then if k = i then ps ! j else if k = j then ps ! i else ps ! k else ps ! k)"
  using assms by (auto simp: swap_if_def nth_list_update)

lemma swap_if_least:
  assumes "i < j" "j < length ps" "least_from ps i j"
  shows "least_from (swap_if i j ps) i (Suc j)"
  unfolding least_from_def
proof (intro allI impI, elim conjE)
  fix k assume k: "i < k" "k < Suc j" "DiskNumber (swap_if i j ps ! k) = DiskNumber (swap_if i j ps ! i)"
  then have len: "k < length ps" "i < length ps"
    using assms by simp_all
  show "BootBegin (swap_if i j ps ! i) \<le> BootBegin (swap_if i j ps ! k)"
    using k assms(3) unfolding swap_if_nth [OF assms(1,2) len(1)] swap_if_nth [OF assms(1,2) len(2)] least_from_def
    by (auto simp: less_Suc_eq split: if_splits intro: order.trans less_imp_le)
qed

lemma swap_if_keeps_least:
  assumes "i < j" "j < length ps" "a < i" "least_from ps a n" "n \<le> length ps" "j < n"
  shows "least_from (swap_if i j ps) a n"
  unfolding least_from_def
proof (intro allI impI, elim conjE)
  fix k assume k: "a < k" "k < n" "DiskNumber (swap_if i j ps ! k) = DiskNumber (swap_if i j ps ! a)"
  then have len: "k < length ps" "a < length ps"
    using assms by simp_all
  show "BootBegin (swap_if i j ps ! a) \<le> BootBegin (swap_if i j ps ! k)"
    using k assms(1,3,4,6) unfolding swap_if_nth [OF assms(1,2) len(1)] swap_if_nth [OF assms(1,2) len(2)] least_from_def
    by (auto split: if_splits)
qed

lemma sort_row_fold:
  assumes "n \<le> length ps" "i < m" "m \<le> n" "least_from ps i m" "\<forall>a < i. least_from ps a n"
  shows "let qs = fold (swap_if i) [m..<n] ps in
    length qs = length ps \<and> drop n qs = drop n ps \<and> map DiskNumber qs = map DiskNumber ps \<and>
    mset (take n qs) = mset (take n ps) \<and> (\<forall>a < Suc i. least_from qs a n)"
  using assms
proof (induction "n - m" arbitrary: m ps)
  case 0
  then show ?case by (auto simp: less_Suc_eq)
next
  case (Suc x)
  then have m: "m < n" by simp
  let ?ps = "swap_if i m ps"
  note basic = swap_if_basic [OF Suc.prems(2) m Suc.prems(1)]
  have "least_from ?ps i (Suc m)"
    using Suc.prems m by (intro swap_if_least) auto
  moreover have "\<forall>a < i. least_from ?ps a n"
    using Suc.prems m by (auto intro: swap_if_keeps_least)
  ultimately show ?case
    using Suc.hyps(1) [of "Suc m" ?ps] Suc.hyps(2) Suc.prems basic m
    by (simp add: upt_conv_Cons Let_def)
qed

lemma sort_partitions_fold:
  assumes "n \<le> length ps" "i \<le> n"
  shows "let qs = fold (sort_row n) [0..<i] ps in
    length qs = length ps \<and> drop n qs = drop n ps \<and> map DiskNumber qs = map DiskNumber ps \<and>
    mset (take n qs) = mset (take n ps) \<and> (\<forall>a < i. least_from qs a n)"
  using assms(2)
proof (induction i)
  case (Suc i)
  let ?qs = "fold (sort_row n) [0..<i] ps"
  have "least_from ?qs i (Suc i)"
    by (auto simp: least_from_def)
  then show ?case
    using Suc assms(1) sort_row_fold [of n ?qs i "Suc i", folded sort_row_def] by (simp add: Let_def)
qed simp

text \<open>
  C24. SortPartitionInfo permutes the used part of the table so that each disk's partitions
  ascend, keeps the sequence of disk numbers and leaves the rest alone.
\<close>

theorem SortPartitionInfo_sorts:
  assumes "unat (g_dwTotalPartitions s) = n" "n \<le> length (g_Partitions s)"
  shows "\<exists>qs. SortPartitionInfo s = Some (s\<lparr>g_Partitions := qs\<rparr>) \<and>
    mset (take n qs) = mset (take n (g_Partitions s)) \<and> drop n qs = drop n (g_Partitions s) \<and>
    map DiskNumber qs = map DiskNumber (g_Partitions s) \<and>
    (\<forall>i j. i < j \<and> j < n \<and> DiskNumber (qs ! i) = DiskNumber (qs ! j)
       \<longrightarrow> BootBegin (qs ! i) \<le> BootBegin (qs ! j))"
  using sort_partitions_fold [OF assms(2) order_refl] assms
  by (auto simp: SortPartitionInfo_def sort_partitions_def Let_def least_from_def)


section \<open>What the scan leaves alone\<close>

definition same_table :: "part_state \<Rightarrow> part_state \<Rightarrow> bool" where
  "same_table s s' \<longleftrightarrow> g_Partitions s' = g_Partitions s \<and> g_dwTotalPartitions s' = g_dwTotalPartitions s \<and>
     g_disklist s' = g_disklist s \<and> m_RecursiveTimes s' = m_RecursiveTimes s"

lemma same_table_refl [simp]: "same_table s s"
  by (simp add: same_table_def)

lemma same_table_trans [trans]: "same_table a b \<Longrightarrow> same_table b c \<Longrightarrow> same_table a c"
  by (simp add: same_table_def)

lemma GetExt3BitmapSector_table: "GetExt3BitmapSector env d P i s = Some (r, s') \<Longrightarrow> same_table s s'"
  by (auto simp: GetExt3BitmapSector_def same_table_def Let_def elim!: bind_SomeE split: if_splits)

lemma next_read_table: "next_read env d P lim v s = Some (r, s') \<Longrightarrow> same_table s s'"
  by (auto simp: next_read_def Let_def elim!: bind_SomeE dest: GetExt3BitmapSector_table split: if_splits)

lemma total_clr_loop_table:
  assumes "total_clr_loop env d P v acc s = Some r"
  shows "same_table s (snd r)"
  using assms
proof (rule total_clr_loop.raw_induct [rotated])
  fix f :: "'a disk_env \<Rightarrow> 'a \<Rightarrow> WIN32_PARTITIONINFO \<Rightarrow> scan_vars \<Rightarrow> u64 \<Rightarrow> part_state \<Rightarrow> (u64 \<times> part_state) option"
    and env d P v acc s r
  assume IH: "\<And>env d P v acc s r. f env d P v acc s = Some r \<Longrightarrow> same_table s (snd r)"
    and body: "(if tot v = 0 then Some (acc, s)
      else do {
        (sel, s1) \<leftarrow> next_read env d P (m_dwFatBufferSize s div 512) v s;
        (case sel of
           None \<Rightarrow> f env d P
             (v\<lparr>tot := ucast (ucast (tot v) - bitmapsize v), groupindex := groupindex v + 1\<rparr>) acc s1
         | Some (cnt, sec) \<Rightarrow> do {
             fb \<leftarrow> m_FatBuffer s1;
             (_, fb') \<leftarrow> DiskRead env d (ucast (m_DiskNumber s1)) sec cnt fb 0;
             (n, v1) \<leftarrow> entries_read P s1 (TotalSectors P) cnt
               (v\<lparr>tot := ucast (ucast (tot v) - cnt), fatSector := sec + ucast cnt\<rparr>);
             acc \<leftarrow> count_entries (m_FatSize s1) fb' 0 (unat n) acc;
             f env d P (v1\<lparr>groupindex := groupindex v1 + 1\<rparr>) acc
               (s1\<lparr>m_FatBuffer := Some fb'\<rparr>) }) }) = Some r"
  show "same_table s (snd r)"
  proof (cases "tot v = 0")
    case False
    obtain sel s1 where s1: "next_read env d P (m_dwFatBufferSize s div 512) v s = Some (sel, s1)"
      using body False by (auto elim!: bind_SomeE)
    have "same_table s1 (snd r)"
      using body False s1
      by (auto elim!: bind_SomeE dest!: IH simp: same_table_def split: option.splits)
    with next_read_table [OF s1] show ?thesis
      by (rule same_table_trans)
  next
    case True
    with body show ?thesis by auto
  qed
qed

lemma GetPartTotalClr_table: "GetPartTotalClr env d P s = Some (n, s') \<Longrightarrow> same_table s s'"
  by (auto simp: GetPartTotalClr_def Let_def same_table_def elim!: bind_SomeE dest!: total_clr_loop_table
      split: if_splits)

lemma InitNTFS_table: "InitNTFS env d P s = Some (r, s') \<Longrightarrow> same_table s s'"
  by (auto simp: InitNTFS_def Let_def same_table_def elim!: bind_SomeE split: if_splits option.splits)

lemma CalcPartitionSize_table: "CalcPartitionSize env d P s = Some (P', s') \<Longrightarrow> same_table s s'"
  by (auto simp: CalcPartitionSize_def Let_def same_table_def InitPartParamF16_def InitPartParamF32_def
      elim!: bind_SomeE dest!: GetPartTotalClr_table InitNTFS_table split: if_splits)

lemma CheckPartitionType_table: "CheckPartitionType env d mem off b P s = Some (r, P', s') \<Longrightarrow> same_table s s'"
  by (auto simp: CheckPartitionType_def fill_ntfs_def fill_fat32_def fill_fat16_def fill_ext_def Let_def same_table_def
      elim!: bind_SomeE dest!: CalcPartitionSize_table split: if_splits option.splits)

section \<open>The bound on the number of partitions\<close>

text \<open>\<open>kept s s'\<close>: the counter is unchanged, and so are the length of the array and the elements from the
  64th on. The array may be longer than the 64 elements it has in C, so that a write behind them is a
  change there.\<close>

definition tail_kept :: "part_state \<Rightarrow> part_state \<Rightarrow> bool" where
  "tail_kept s s' \<longleftrightarrow> length (g_Partitions s') = length (g_Partitions s) \<and> drop 64 (g_Partitions s') = drop 64 (g_Partitions s)"

definition kept :: "part_state \<Rightarrow> part_state \<Rightarrow> bool" where
  "kept s s' \<longleftrightarrow> tail_kept s s' \<and> g_dwTotalPartitions s' = g_dwTotalPartitions s"

lemma tail_kept_refl [simp]: "tail_kept s s"
  by (simp add: tail_kept_def)

lemma tail_kept_trans: "tail_kept a b \<Longrightarrow> tail_kept b c \<Longrightarrow> tail_kept a c"
  by (simp add: tail_kept_def)

lemma kept_tail: "kept s s' \<Longrightarrow> tail_kept s s'"
  by (simp add: kept_def)

lemma kept_trans: "kept a b \<Longrightarrow> kept b c \<Longrightarrow> kept a c"
  by (auto simp: kept_def tail_kept_def)

lemma set_partition_kept: "set_partition i f s = Some s' \<Longrightarrow> i < 64 \<Longrightarrow> kept s s'"
  by (auto simp: set_partition_def kept_def tail_kept_def split: if_splits)

lemma set_disk_kept: "set_disk i f s = Some s' \<Longrightarrow> kept s s'"
  by (auto simp: set_disk_def kept_def tail_kept_def split: if_splits)

lemma ParseMasterPartition_split:
  assumes "ParseMasterPartition env d entry idx b ts dsk off mem s = Some (ok, mem', s')"
  obtains "s' = s" "\<not> ok" | P2 s2 s4 where "same_table s s2" "set_partition (unat idx) (\<lambda>_. P2) s2 = Some s4"
    "s' = s4 \<or> set_disk dsk (\<lambda>k. k\<lparr>formatted := True\<rparr>) s4 = Some s'"
proof -
  obtain r1 where r1: "(case entry of
          None \<Rightarrow> Some (True, mem)
        | Some e \<Rightarrow> do {
            ok \<leftarrow> VerifyPartition mem e b dsk s;
            if ok then Some (True, mem)
            else do {
              front \<leftarrow> rd32 mem (e + 8);
              (r, mem') \<leftarrow> DiskRead env d dsk (b + ucast front) 1 mem off;
              if r then do { mark \<leftarrow> rd16 mem' (off + 0x1fe); Some (mark = 0xaa55, mem') }
              else Some (False, mem') } }) = Some r1"
    using assms unfolding ParseMasterPartition_def by (rule bind_SomeE)
  show thesis
  proof (cases "fst r1")
    case False
    then have "s' = s \<and> \<not> ok"
      using assms r1 unfolding ParseMasterPartition_def by (cases r1) auto
    then show thesis using that(1) by blast
  next
    case True
    obtain mem2 r P P2 s2 where c: "CheckPartitionType env d mem2 off True P s = Some (r, P2, s2)"
      and rest: "do { s4 \<leftarrow> set_partition (unat idx) (\<lambda>_. P2)
             (if r then s2 else s2\<lparr>m_PartitionType := UNKNOWN_PARTITION\<rparr>);
           if m_PartitionType s4 = PARTITION_UNUSED then Some (False, mem2, s4)
           else do { s5 \<leftarrow> set_disk dsk (\<lambda>k. k\<lparr>formatted := True\<rparr>) s4; Some (True, mem2, s5) } }
           = Some (ok, mem', s')"
      using assms r1 True unfolding ParseMasterPartition_def Let_def
      by (cases r1) (auto elim!: bind_SomeE split: if_splits)
    let ?s = "if r then s2 else s2\<lparr>m_PartitionType := UNKNOWN_PARTITION\<rparr>"
    have "same_table s ?s"
      using CheckPartitionType_table [OF c] by (auto simp: same_table_def)
    moreover obtain s4 where "set_partition (unat idx) (\<lambda>_. P2) ?s = Some s4"
      "s' = s4 \<or> set_disk dsk (\<lambda>k. k\<lparr>formatted := True\<rparr>) s4 = Some s'"
      using rest by (auto elim!: bind_SomeE split: if_splits)
    ultimately show thesis using that(2) by blast
  qed
qed

lemma ParseMasterPartition_kept:
  assumes "ParseMasterPartition env d entry idx b ts dsk off mem s = Some (ok, mem', s')" "unat idx < 64"
  shows "kept s s'"
  using assms(1)
proof (rule ParseMasterPartition_split)
  fix P2 s2 s4 assume "same_table s s2" "set_partition (unat idx) (\<lambda>_. P2) s2 = Some s4"
    "s' = s4 \<or> set_disk dsk (\<lambda>k. k\<lparr>formatted := True\<rparr>) s4 = Some s'"
  moreover from this have "kept s s2" by (simp add: same_table_def kept_def tail_kept_def)
  ultimately show "kept s s'"
    using set_partition_kept [OF _ assms(2)] set_disk_kept kept_trans by metis
qed (simp add: kept_def)

lemma ext_enter_kept: "ext_enter env d e b dsk off mem s = Some (r, mem', s') \<Longrightarrow> kept s s'"
  by (auto simp: ext_enter_def Let_def kept_def tail_kept_def elim!: bind_SomeE split: if_splits)

text \<open>What the loop over the entries of an extended table keeps: started with \<open>num\<close> drives counted and
  \<open>idx\<close> as the next place, it returns a count that stays inside the table.\<close>

definition ext_ok :: "u32 \<Rightarrow> u32 \<Rightarrow> part_state \<Rightarrow> u32 \<times> buf \<times> part_state \<Rightarrow> bool" where
  "ext_ok idx num s r \<longleftrightarrow> (unat idx < 64 \<longrightarrow> (\<forall>k. k + unat num \<le> unat idx \<longrightarrow>
     kept s (snd (snd r)) \<and> k + unat (fst r) \<le> 64))"

lemma ext_nested_kept:
  assumes s: "unat idx < 64" "k + unat num \<le> unat idx" "kept s s'"
    and child: "(case enter of None \<Rightarrow> Some (0, mem', s') | Some (nextsec', base') \<Rightarrow> f base' nextsec' mem' s') = Some (cnt, mem1, s1)"
    and ok: "\<And>base' nextsec' mem' r. f base' nextsec' mem' s' = Some r \<Longrightarrow> ext_ok idx 0 s' r"
  shows "kept s s1 \<and> k + unat (num + cnt) \<le> unat (idx + (num + cnt)) \<and> k + unat (num + cnt) \<le> 64"
proof -
  have n64: "unat num \<le> 64" using s by simp
  have c: "kept s' s1 \<and> unat idx + unat cnt \<le> 64"
  proof (cases enter)
    case None
    then show ?thesis using child s(1) by (auto simp: kept_def)
  next
    case (Some p)
    then obtain n' b' where "f b' n' mem' s' = Some (cnt, mem1, s1)" using child by (cases p) auto
    from ok [OF this] show ?thesis using s by (auto simp: ext_ok_def)
  qed
  then have "unat (num + cnt) = unat num + unat cnt" using n64 by (simp add: unat_word_ariths)
  moreover from this c have "unat (idx + (num + cnt)) = unat idx + (unat num + unat cnt)"
    using n64 s(1) by (simp add: unat_word_ariths)
  ultimately show ?thesis using s c kept_trans by auto
qed

lemma ext_master_kept:
  assumes s: "unat idx < 64" "k + unat num \<le> unat idx"
    and pm: "ParseMasterPartition env d e idx sec tots dsk off mem s = Some (ok, mem1, s1)"
  shows "kept s s1 \<and> k + unat (if ok then num + 1 else num :: u32) \<le> unat (if ok then idx + 1 else idx) \<and>
    k + unat (if ok then num + 1 else num) \<le> 64"
proof -
  have "unat (num + 1) = unat num + 1" "unat (idx + 1) = unat idx + 1"
    using s by (simp_all add: unat_word_ariths)
  then show ?thesis using ParseMasterPartition_kept [OF pm s(1)] s by (auto split: if_splits)
qed

text \<open>The treatment of one entry of a table, the nested call left open.\<close>

abbreviation ext_entry ::
  "('d disk_env \<Rightarrow> 'd \<Rightarrow> u16 \<Rightarrow> nat \<Rightarrow> nat \<Rightarrow> u32 \<Rightarrow> u64 \<Rightarrow> u32 \<Rightarrow> u32 \<Rightarrow> buf \<Rightarrow> part_state
      \<Rightarrow> (u32 \<times> buf \<times> part_state) option)
   \<Rightarrow> 'd disk_env \<Rightarrow> 'd \<Rightarrow> u16 \<Rightarrow> nat \<Rightarrow> u32 \<Rightarrow> u64 \<Rightarrow> u32 \<Rightarrow> u32 \<Rightarrow> buf \<Rightarrow> part_state \<Rightarrow> nat \<Rightarrow> byte
   \<Rightarrow> (u32 \<times> u32 \<times> buf \<times> part_state) option" where
  "ext_entry f env d dsk off idx b nextsec num mem s e pid \<equiv>
     (if pid = EXTEND_PARTITION \<or> pid = BIG_EXTEND_PARTITION
      then Option.bind (ext_enter env d e b dsk (off + 512) mem s) (\<lambda>(enter, mem', s').
        Option.bind (case enter of
           None \<Rightarrow> Some (0, mem', s')
         | Some (nextsec', base') \<Rightarrow> f env d dsk 0 (off + 512) idx base' nextsec' 0 mem' s') (\<lambda>(cnt, mem'', s'').
        Some (idx + (num + cnt), num + cnt, mem'', s'')))
      else if pid \<noteq> 0
      then Option.bind (rd32 mem (e + 12)) (\<lambda>tots.
        Option.bind (ParseMasterPartition env d (Some e) idx (ucast nextsec) (ucast tots) dsk (off + 512) mem s)
          (\<lambda>(ok, mem', s'). Some (if ok then (idx + 1, num + 1, mem', s') else (idx, num, mem', s'))))
      else Some (idx, num, mem, s))"

lemma ext_entry_kept:
  assumes s: "unat idx < 64" "k + unat num \<le> unat idx"
    and step: "ext_entry f env d dsk off idx b nextsec num mem s e pid = Some (idx1, num1, mem1, s1)"
    and IH: "\<And>b n mem' s' r. f env d dsk 0 (off + 512) idx b n 0 mem' s' = Some r \<Longrightarrow> ext_ok idx 0 s' r"
  shows "kept s s1 \<and> k + unat num1 \<le> unat idx1 \<and> k + unat num1 \<le> 64"
proof -
  consider "pid = EXTEND_PARTITION \<or> pid = BIG_EXTEND_PARTITION"
    | "pid \<noteq> EXTEND_PARTITION" "pid \<noteq> BIG_EXTEND_PARTITION" "pid \<noteq> 0" | "pid = 0" by blast
  then show ?thesis
  proof cases
    case 1
    then obtain enter mem' s' cnt where en: "ext_enter env d e b dsk (off + 512) mem s = Some (enter, mem', s')"
      and ch: "(case enter of None \<Rightarrow> Some (0, mem', s')
          | Some (nextsec', base') \<Rightarrow> f env d dsk 0 (off + 512) idx base' nextsec' 0 mem' s') = Some (cnt, mem1, s1)"
      and eq: "idx1 = idx + (num + cnt)" "num1 = num + cnt"
      using step by (auto elim!: bind_SomeE)
    show ?thesis
      unfolding eq
      by (rule ext_nested_kept [where f = "\<lambda>b n. f env d dsk 0 (off + 512) idx b n 0", OF s ext_enter_kept [OF en] ch])
        (rule IH)
  next
    case 2
    then obtain ok tots where pm: "ParseMasterPartition env d (Some e) idx (ucast nextsec)
         (ucast (tots :: u32)) dsk (off + 512) mem s = Some (ok, mem1, s1)"
      and eq: "idx1 = (if ok then idx + 1 else idx)" "num1 = (if ok then num + 1 else num)"
      using step by (auto elim!: bind_SomeE split: if_splits)
    show ?thesis unfolding eq by (rule ext_master_kept [OF s pm])
  next
    case 3
    then show ?thesis using step s by (auto simp: kept_def EXTEND_PARTITION_def BIG_EXTEND_PARTITION_def)
  qed
qed

lemma ext_loop_kept:
  assumes "ext_loop env d dsk i off idx b nextsec num mem s = Some r"
  shows "ext_ok idx num s r"
  using assms
proof (rule ext_loop.raw_induct [rotated])
  fix f :: "'a disk_env \<Rightarrow> 'a \<Rightarrow> u16 \<Rightarrow> nat \<Rightarrow> nat \<Rightarrow> u32 \<Rightarrow> u64 \<Rightarrow> u32 \<Rightarrow> u32 \<Rightarrow> buf \<Rightarrow> part_state
      \<Rightarrow> (u32 \<times> buf \<times> part_state) option"
    and env d dsk i off idx b nextsec num mem s r
  assume IH: "\<And>env d dsk i off idx b nextsec num mem s r.
      f env d dsk i off idx b nextsec num mem s = Some r \<Longrightarrow> ext_ok idx num s r"
    and body: "(if i \<ge> 4 then Some (num, mem, s)
      else do {
        let e = off + 0x1be + 16 * i;
        pid \<leftarrow> rd8 mem (e + 4);
        (idx, num, mem1, s1) \<leftarrow> ext_entry f env d dsk off idx b nextsec num mem s e pid;
        if idx \<ge> 32 then Some (num, mem1, s1)
        else f env d dsk (Suc i) off idx b nextsec num mem1 s1 }) = Some r"
  show "ext_ok idx num s r"
    unfolding ext_ok_def
  proof (intro impI allI)
    fix k assume s: "unat idx < 64" "k + unat num \<le> unat idx"
    show "kept s (snd (snd r)) \<and> k + unat (fst r) \<le> 64"
    proof (cases "4 \<le> i")
      case True
      then show ?thesis using body s by (auto simp: kept_def)
    next
      case False
      then obtain idx1 num1 mem1 s1 pid where
        step: "ext_entry f env d dsk off idx b nextsec num mem s (off + 0x1be + 16 * i) pid = Some (idx1, num1, mem1, s1)"
        and rest: "(if idx1 \<ge> 32 then Some (num1, mem1, s1)
           else f env d dsk (Suc i) off idx1 b nextsec num1 mem1 s1) = Some r"
        using body unfolding Let_def by (auto elim!: bind_SomeE)
      have inv: "kept s s1 \<and> k + unat num1 \<le> unat idx1 \<and> k + unat num1 \<le> 64"
        by (rule ext_entry_kept [where f = f, OF s step]) (rule IH)
      moreover have "unat idx1 < 64" if "\<not> idx1 \<ge> 32"
        using that by (simp add: word_le_nat_alt)
      ultimately show ?thesis
        using rest IH [of env d dsk "Suc i" off idx1 b nextsec num1 mem1 s1 r] kept_trans
        by (auto simp: ext_ok_def split: if_splits)
    qed
  qed
qed

definition in_order :: "nat \<Rightarrow> WIN32_PARTITIONINFO list \<Rightarrow> bool" where
  "in_order n ps \<longleftrightarrow> (\<forall>i j. i < j \<and> j < n \<and> DiskNumber (ps ! i) = DiskNumber (ps ! j)
     \<longrightarrow> BootBegin (ps ! i) \<le> BootBegin (ps ! j))"

lemma add_count:
  assumes "unat (n :: u32) + unat m \<le> 64"
  shows "unat (n + m) = unat n + unat m"
  using assms by (intro unat_add_no_wrap) simp

lemma ParseExtendPartition_kept:
  assumes "ParseExtendPartition env d e (g_dwTotalPartitions s) b dsk off mem s = Some (cnt, mem', s')"
    and n: "unat (g_dwTotalPartitions s) < 64"
  shows "kept s s' \<and> unat (g_dwTotalPartitions s') + unat cnt \<le> 64"
proof -
  obtain enter mem1 s1 where en: "ext_enter env d e b dsk off mem s = Some (enter, mem1, s1)"
    and rest: "(case enter of None \<Rightarrow> Some (0, mem1, s1)
        | Some (nextsec, base) \<Rightarrow> ext_loop env d dsk 0 off (g_dwTotalPartitions s) base nextsec 0 mem1 s1)
       = Some (cnt, mem', s')"
    using assms(1) unfolding ParseExtendPartition_def by (auto elim!: bind_SomeE)
  have k1: "kept s s1" by (rule ext_enter_kept [OF en])
  show ?thesis
  proof (cases enter)
    case None
    then show ?thesis using rest k1 n by (auto simp: kept_def)
  next
    case (Some p)
    then obtain ns bs where "ext_loop env d dsk 0 off (g_dwTotalPartitions s) bs ns 0 mem1 s1 = Some (cnt, mem', s')"
      using rest by (cases p) auto
    from ext_loop_kept [OF this] have "kept s1 s' \<and> unat (g_dwTotalPartitions s) + unat cnt \<le> 64"
      using n by (auto simp: ext_ok_def)
    with k1 show ?thesis by (auto simp: kept_def tail_kept_def)
  qed
qed

text \<open>One more round of a loop: the count stays within 64 and the rest of the array is as before.\<close>

definition within :: "part_state \<Rightarrow> part_state \<Rightarrow> bool" where
  "within s s' \<longleftrightarrow> tail_kept s s' \<and> unat (g_dwTotalPartitions s') \<le> 64"

lemma within_trans: "tail_kept s t \<Longrightarrow> within t s' \<Longrightarrow> within s s'"
  by (auto simp: within_def intro: tail_kept_trans)

lemma within_add:
  assumes "kept s s'" "unat (g_dwTotalPartitions s') + unat n \<le> 64"
  shows "within s (s'\<lparr>g_dwTotalPartitions := g_dwTotalPartitions s' + n, m_bLBAMode := b\<rparr>)"
    "within s (s'\<lparr>g_dwTotalPartitions := g_dwTotalPartitions s' + n\<rparr>)"
  using assms by (simp_all add: within_def kept_def tail_kept_def add_count)

lemma one_more:
  assumes "kept s s'" "unat (g_dwTotalPartitions s) < 64"
  shows "within s (if ok then s'\<lparr>g_dwTotalPartitions := g_dwTotalPartitions s' + 1\<rparr> else s')"
  using assms within_add(2) [OF assms(1), of 1] by (auto simp: kept_def within_def)

lemma mbr_entry_within:
  assumes "mbr_entry env d dsk e mem s = Some (mem', s')" "unat (g_dwTotalPartitions s) < 64"
  shows "within s s'"
proof -
  obtain pid where pid: "rd8 mem (e + 4) = Some pid"
    using assms(1) unfolding mbr_entry_def by (auto elim!: bind_SomeE)
  consider "pid = EXTEND_PARTITION \<or> pid = BIG_EXTEND_PARTITION"
    | "pid \<noteq> EXTEND_PARTITION" "pid \<noteq> BIG_EXTEND_PARTITION" "pid \<noteq> PARTITION_UNUSED"
    | "pid = PARTITION_UNUSED" by blast
  then show ?thesis
  proof cases
    case 1
    then obtain cnt s2 where "ParseExtendPartition env d e (g_dwTotalPartitions s) 0 dsk 512 mem s = Some (cnt, mem', s2)"
      and s': "s' = s2\<lparr>g_dwTotalPartitions := g_dwTotalPartitions s2 + cnt, m_bLBAMode := False\<rparr>"
      using assms(1) pid unfolding mbr_entry_def by (auto elim!: bind_SomeE)
    from ParseExtendPartition_kept [OF this(1) assms(2)] show ?thesis
      unfolding s' by (intro within_add) auto
  next
    case 2
    then obtain tots ok s2 where "ParseMasterPartition env d (Some e) (g_dwTotalPartitions s) 0 (ucast (tots :: u32)) dsk 512 mem s = Some (ok, mem', s2)"
      and s': "s' = (if ok then s2\<lparr>g_dwTotalPartitions := g_dwTotalPartitions s2 + 1\<rparr> else s2)"
      using assms(1) pid unfolding mbr_entry_def by (auto elim!: bind_SomeE)
    from ParseMasterPartition_kept [OF this(1) assms(2)] show ?thesis
      unfolding s' by (rule one_more) (rule assms(2))
  next
    case 3
    then show ?thesis using assms pid
      by (auto simp: mbr_entry_def within_def PARTITION_UNUSED_def EXTEND_PARTITION_def BIG_EXTEND_PARTITION_def)
  qed
qed

lemma mbr_loop_within:
  "\<lbrakk>mbr_loop env d dsk k mem s = Some (mem', s'); unat (g_dwTotalPartitions s) < 64\<rbrakk> \<Longrightarrow> within s s'"
proof (induction k arbitrary: mem s)
  case (Suc k)
  obtain mem1 s1 where e: "mbr_entry env d dsk (0x1be + 16 * (4 - Suc k)) mem s = Some (mem1, s1)"
    and r: "(if unat (g_dwTotalPartitions s1) \<ge> MAX_NUM_PARTITIONS then Some (mem1, s1) else mbr_loop env d dsk k mem1 s1) = Some (mem', s')"
    using Suc.prems(1) by (auto elim!: bind_SomeE)
  have w: "within s s1" by (rule mbr_entry_within [OF e Suc.prems(2)])
  show ?case
  proof (cases "unat (g_dwTotalPartitions s1) \<ge> MAX_NUM_PARTITIONS")
    case True
    then show ?thesis using r w by simp
  next
    case False
    then have "within s1 s'" using Suc.IH [of mem1 s1] r by (simp add: MAX_NUM_PARTITIONS_def)
    with w show ?thesis by (auto simp: within_def intro: tail_kept_trans)
  qed
qed (auto simp: within_def)

text \<open>Every disk is sorted after it was scanned.\<close>

definition sorted_table :: "part_state \<Rightarrow> bool" where
  "sorted_table s \<longleftrightarrow> unat (g_dwTotalPartitions s) \<le> length (g_Partitions s) \<and>
     in_order (unat (g_dwTotalPartitions s)) (g_Partitions s)"

lemma SortPartitionInfo_sorted:
  assumes "SortPartitionInfo s = Some s'"
  shows "sorted_table s'" "length (g_Partitions s') = length (g_Partitions s)"
    "drop (unat (g_dwTotalPartitions s)) (g_Partitions s') = drop (unat (g_dwTotalPartitions s)) (g_Partitions s)"
    "g_dwTotalPartitions s' = g_dwTotalPartitions s" "m_RecursiveTimes s' = m_RecursiveTimes s"
proof -
  have n: "unat (g_dwTotalPartitions s) \<le> length (g_Partitions s)"
    using assms by (simp add: SortPartitionInfo_def split: if_splits)
  then have s': "s' = s\<lparr>g_Partitions := sort_partitions (unat (g_dwTotalPartitions s)) (g_Partitions s)\<rparr>"
    using assms by (simp add: SortPartitionInfo_def)
  show "sorted_table s'" "length (g_Partitions s') = length (g_Partitions s)"
    "drop (unat (g_dwTotalPartitions s)) (g_Partitions s') = drop (unat (g_dwTotalPartitions s)) (g_Partitions s)"
    "g_dwTotalPartitions s' = g_dwTotalPartitions s" "m_RecursiveTimes s' = m_RecursiveTimes s"
    using sort_partitions_fold [OF n order_refl] n unfolding s'
    by (simp_all add: sort_partitions_def Let_def least_from_def in_order_def sorted_table_def)
qed

lemma SortPartitionInfo_within:
  assumes "SortPartitionInfo t = Some s'" "within s t"
  shows "within s s'"
proof -
  have n: "unat (g_dwTotalPartitions t) \<le> 64" using assms(2) by (simp add: within_def)
  then have "drop 64 xs = drop (64 - unat (g_dwTotalPartitions t)) (drop (unat (g_dwTotalPartitions t)) xs)" for xs :: "WIN32_PARTITIONINFO list"
    by simp
  then have "tail_kept t s'" using SortPartitionInfo_sorted(2,3) [OF assms(1)] by (simp only: tail_kept_def)
  then show ?thesis using assms(2) SortPartitionInfo_sorted(4) [OF assms(1)]
    by (auto simp: within_def intro: tail_kept_trans)
qed

lemma IsGPT_same:
  "IsGPT env d dsk s = Some (r, s') \<Longrightarrow> g_dwTotalPartitions s' = g_dwTotalPartitions s \<and>
    g_Partitions s' = g_Partitions s \<and> m_RecursiveTimes s' = m_RecursiveTimes s"
  by (auto simp: IsGPT_def Let_def set_disk_def elim!: bind_SomeE split: if_splits option.splits)

text \<open>The scan of one disk, taken apart.\<close>

lemma scan_disk_cases:
  assumes "scan_disk env d i mem s = Some (mem', s')"
  obtains (gpt) s1 n mem1 s2 where "IsGPT env d i s = Some (True, s1)" "ParseGPTInfo env d i mem s1 = Some (n, mem1, s2)"
      "SortPartitionInfo s2 = Some s'"
    | (unread) s1 where "IsGPT env d i s = Some (False, s1)" "s' = s1\<lparr>m_bLBAMode := False\<rparr>"
    | (mbr) s1 mem1 whole mem2 s3 s4 where "IsGPT env d i s = Some (False, s1)"
      "ParseMasterPartition env d None (g_dwTotalPartitions s1) 0 0 i 0 mem1 (s1\<lparr>m_bLBAMode := False\<rparr>) = Some (whole, mem2, s3)"
      "if whole then s4 = s3\<lparr>g_dwTotalPartitions := g_dwTotalPartitions s3 + 1\<rparr>
       else mbr_loop env d i 4 mem2 s3 = Some (mem', s4)"
      "SortPartitionInfo s4 = Some s'"
proof -
  obtain g s1 where g: "IsGPT env d i s = Some (g, s1)"
    using assms unfolding scan_disk_def by (auto elim!: bind_SomeE)
  show thesis
  proof (cases g)
    case True
    then show thesis using assms g that(1) unfolding scan_disk_def by (auto elim!: bind_SomeE)
  next
    case False
    obtain ok mem1 where r: "DiskRead env d i 0 1 mem 0 = Some (ok, mem1)"
      using assms g False unfolding scan_disk_def by (auto elim!: bind_SomeE)
    show thesis
    proof (cases ok)
      case True
      then obtain whole mem2 s3 s4 where
        "ParseMasterPartition env d None (g_dwTotalPartitions s1) 0 0 i 0 mem1 (s1\<lparr>m_bLBAMode := False\<rparr>) = Some (whole, mem2, s3)"
        "(if whole then Some (mem2, s3\<lparr>g_dwTotalPartitions := g_dwTotalPartitions s3 + 1\<rparr>)
              else mbr_loop env d i 4 mem2 s3) = Some (mem', s4)"
        "SortPartitionInfo s4 = Some s'"
        using assms g r False unfolding scan_disk_def Let_def by (auto elim!: bind_SomeE)
      then show thesis using that(3) g False by (auto split: if_splits)
    next
      case not_ok: False
      then show thesis using assms g r False that(2) unfolding scan_disk_def by auto
    qed
  qed
qed

lemma scan_disk_sorted:
  assumes "scan_disk env d i mem s = Some (mem', s')" "sorted_table s"
  shows "sorted_table s'"
  using assms(1)
proof (cases rule: scan_disk_cases)
  case (unread s1)
  then show ?thesis using IsGPT_same [OF unread(1)] assms(2) by (simp add: sorted_table_def)
qed (rule SortPartitionInfo_sorted(1), assumption)+

lemma scan_disk_within:
  assumes scan: "scan_disk env d i mem s = Some (mem', s')" and n: "unat (g_dwTotalPartitions s) < 64"
    and no: "\<And>s1. IsGPT env d i s \<noteq> Some (True, s1)"
  shows "within s s'"
  using scan
proof (cases rule: scan_disk_cases)
  case (gpt s1)
  then show ?thesis using no by blast
next
  case (unread s1)
  then show ?thesis using IsGPT_same [OF unread(1)] n by (simp add: within_def tail_kept_def)
next
  case (mbr s1 mem1 whole mem2 s3 s4)
  let ?s2 = "s1\<lparr>m_bLBAMode := False\<rparr>"
  have s2: "tail_kept s ?s2" "unat (g_dwTotalPartitions ?s2) < 64"
    using IsGPT_same [OF mbr(1)] n by (simp_all add: tail_kept_def)
  have pm: "ParseMasterPartition env d None (g_dwTotalPartitions ?s2) 0 0 i 0 mem1 ?s2 = Some (whole, mem2, s3)"
    using mbr(2) by simp
  have k: "kept ?s2 s3" by (rule ParseMasterPartition_kept [OF pm s2(2)])
  have "within ?s2 s4"
  proof (cases whole)
    case True
    then show ?thesis using one_more [OF k s2(2), of True] mbr(3) by simp
  next
    case False
    then have "mbr_loop env d i 4 mem2 s3 = Some (mem', s4)" using mbr(3) by simp
    moreover have "unat (g_dwTotalPartitions s3) < 64" using k s2(2) by (simp add: kept_def)
    ultimately show ?thesis by (intro within_trans [OF kept_tail [OF k]] mbr_loop_within)
  qed
  then show ?thesis by (rule within_trans [OF s2(1) SortPartitionInfo_within [OF mbr(4)]])
qed

lemma scan_disks_sorted:
  "\<lbrakk>scan_disks env d is mem s = Some s'; sorted_table s\<rbrakk> \<Longrightarrow> sorted_table s'"
  by (induction "is" arbitrary: mem s) (auto elim!: bind_SomeE dest: scan_disk_sorted split: if_splits)

lemma scan_disks_within:
  assumes "scan_disks env d is mem s = Some s'" "unat (g_dwTotalPartitions s) \<le> 64"
    and "\<And>i s s1. i \<in> set is \<Longrightarrow> IsGPT env d i s \<noteq> Some (True, s1)"
  shows "within s s'"
  using assms
proof (induction "is" arbitrary: mem s)
  case (Cons i "is")
  show ?case
  proof (cases "unat (g_dwTotalPartitions s) \<ge> MAX_NUM_PARTITIONS")
    case True
    then show ?thesis using Cons.prems by (simp add: within_def)
  next
    case False
    then obtain mem1 s1 where o: "scan_disk env d i mem s = Some (mem1, s1)" "scan_disks env d is mem1 s1 = Some s'"
      using Cons.prems(1) by (auto elim!: bind_SomeE)
    have w: "within s s1"
      using scan_disk_within [OF o(1)] False Cons.prems(3) by (simp add: MAX_NUM_PARTITIONS_def)
    then have "within s1 s'" using Cons.IH [OF o(2)] Cons.prems(3) by (simp add: within_def)
    with w show ?thesis by (auto simp: within_def intro: tail_kept_trans)
  qed
qed (auto simp: within_def)

lemma in_order_cong:
  assumes "in_order n ps" "n \<le> length ps" "map DiskNumber qs = map DiskNumber ps" "map BootBegin qs = map BootBegin ps"
  shows "in_order n qs"
proof -
  have "DiskNumber (qs ! i) = DiskNumber (ps ! i)" "BootBegin (qs ! i) = BootBegin (ps ! i)" if "i < n" for i
    using assms that by (metis length_map nth_map order_less_le_trans)+
  then show ?thesis
    using assms(1) unfolding in_order_def by (metis order_less_trans)
qed

lemma GetVolumeName_sorted:
  assumes "GetVolumeName env d i s = Some s'" "sorted_table s"
  shows "sorted_table s'"
proof -
  obtain l where "set_partition (unat i) (\<lambda>P. P\<lparr>Label := l\<rparr>) s = Some s'"
    using assms(1) unfolding GetVolumeName_def Let_def by (auto elim!: bind_SomeE split: if_splits)
  then have s': "s' = s\<lparr>g_Partitions := (g_Partitions s)[unat i := (g_Partitions s ! unat i)\<lparr>Label := l\<rparr>]\<rparr>"
      and i: "unat i < length (g_Partitions s)"
    by (auto simp: set_partition_def split: if_splits)
  have ord: "in_order (unat (g_dwTotalPartitions s)) (g_Partitions s)" "unat (g_dwTotalPartitions s) \<le> length (g_Partitions s)"
    using assms(2) by (simp_all add: sorted_table_def)
  have "in_order (unat (g_dwTotalPartitions s)) ((g_Partitions s)[unat i := (g_Partitions s ! unat i)\<lparr>Label := l\<rparr>])"
    by (rule in_order_cong [OF ord]) (use i in \<open>simp_all add: map_update list_update_same_conv\<close>)
  then show ?thesis
    using assms(2) unfolding s' by (simp add: sorted_table_def)
qed

lemma name_volumes_sorted:
  "\<lbrakk>name_volumes env d is s = Some s'; sorted_table s\<rbrakk> \<Longrightarrow> sorted_table s'"
proof (induction "is" arbitrary: s)
  case (Cons i "is")
  obtain s1 where s1: "GetVolumeName env d (of_nat i) s = Some s1"
    using Cons.prems(1) by (auto elim!: bind_SomeE)
  let ?s = "if lenovo_partition (g_Partitions s1 ! i) then s1\<lparr>oempartition := of_nat i\<rparr> else s1"
  have "sorted_table ?s"
    using GetVolumeName_sorted [OF s1 Cons.prems(2)] by (auto simp: sorted_table_def)
  then show ?case
    using Cons.IH [of ?s] Cons.prems(1) s1 by auto
qed simp

text \<open>On any disks, the partitions of each disk are in ascending order in the end.\<close>

lemma GetPartitionInfo_order:
  assumes "GetPartitionInfo env d s = Some (n, s')"
  shows "g_dwTotalPartitions s' = n \<and> in_order (unat n) (g_Partitions s')"
proof -
  obtain mem s1 s2 where
    s1: "scan_disks env d (map of_nat [0..<unat (g_disknum env)]) mem (InitPartition s) = Some s1"
    and s2: "name_volumes env d [0..<unat (g_dwTotalPartitions s1)] s1 = Some s2"
    and fin: "n = g_dwTotalPartitions (CleanPartition s2)" "s' = CleanPartition s2"
    using assms unfolding GetPartitionInfo_def Let_def by (auto elim!: bind_SomeE)
  have "sorted_table (InitPartition s)"
    by (simp add: InitPartition_def sorted_table_def in_order_def)
  from scan_disks_sorted [OF s1 this] have "sorted_table s2"
    using name_volumes_sorted [OF s2] by blast
  then show ?thesis
    unfolding fin by (simp add: CleanPartition_def sorted_table_def)
qed

text \<open>
  C23. The scan of disks with an MBR keeps to the 64 elements of g_Partitions, whatever their tables and
  extended tables say: had the array more elements, those from the 64th on would be unchanged, the
  count is at most 64, and the partitions of each disk are in ascending order of their first sector.
\<close>

theorem scan_disks_limit:
  assumes "scan_disks env d is mem s = Some s'" "sorted_table s" "unat (g_dwTotalPartitions s) \<le> 64"
    and "\<And>i s s1. i \<in> set is \<Longrightarrow> IsGPT env d i s \<noteq> Some (True, s1)"
  shows "unat (g_dwTotalPartitions s') \<le> 64 \<and> length (g_Partitions s') = length (g_Partitions s) \<and>
    drop 64 (g_Partitions s') = drop 64 (g_Partitions s) \<and>
    (\<forall>i j. i < j \<and> j < unat (g_dwTotalPartitions s') \<and> DiskNumber (g_Partitions s' ! i) = DiskNumber (g_Partitions s' ! j)
       \<longrightarrow> BootBegin (g_Partitions s' ! i) \<le> BootBegin (g_Partitions s' ! j))"
  using scan_disks_within [OF assms(1,3,4)] scan_disks_sorted [OF assms(1,2)]
  unfolding within_def tail_kept_def sorted_table_def in_order_def by blast

text \<open>A machine with one disk that cannot be read.\<close>

definition dead_env :: "unit disk_env" where
  "dead_env = \<lparr>ReadBlocks = (\<lambda>d k lba size. None), WriteBlocks = (\<lambda>d k lba bytes. (d, False)),
     FlushBlocks = (\<lambda>d k. (d, False)), g_disknum = 1, AllocatePool = (\<lambda>d size. Some (replicate size 0))\<rparr>"

definition blank_state :: part_state where
  "blank_state = \<lparr>m_group_desc = False, m_BootBegin = 0, m_SectorsPerCluster = 0, m_PartitionType = 0,
     m_PartitionIndex = 0, m_DiskNumber = 0, m_bLBAMode = False, m_BitmapSectorList = [],
     m_FatBuffer = None, m_dwFatBufferSize = 0, m_FatSize = 0, m_RecursiveTimes = 0,
     g_dwTotalPartitions = 0, g_Partitions = [],
     g_disklist = [\<lparr>totalsector = 0, formatted = False, disk_guid = replicate 16 0,
       removable = False, datadisk = False, curdisktype = 0, isRAIDDisk = 0, raidDisksn = replicate 20 0\<rparr>],
     groupdesc = None, groupdescsize = 0, scanbuffer = None, oempartition = 0\<rparr>"

theorem SortPartitionInfo_sorts_witness:
  "\<exists>qs. SortPartitionInfo (blank_state\<lparr>g_dwTotalPartitions := 2,
        g_Partitions := [empty_partition\<lparr>BootBegin := 9\<rparr>, empty_partition\<lparr>BootBegin := 4\<rparr>]\<rparr>)
      = Some (blank_state\<lparr>g_dwTotalPartitions := 2,
        g_Partitions := [empty_partition\<lparr>BootBegin := 9\<rparr>, empty_partition\<lparr>BootBegin := 4\<rparr>]\<rparr>
          \<lparr>g_Partitions := qs\<rparr>) \<and>
    mset (take 2 qs) = mset (take 2 [empty_partition\<lparr>BootBegin := 9\<rparr>, empty_partition\<lparr>BootBegin := 4\<rparr>]) \<and>
    drop 2 qs = drop 2 [empty_partition\<lparr>BootBegin := 9\<rparr>, empty_partition\<lparr>BootBegin := 4\<rparr>] \<and>
    map DiskNumber qs = map DiskNumber [empty_partition\<lparr>BootBegin := 9\<rparr>, empty_partition\<lparr>BootBegin := 4\<rparr>] \<and>
    (\<forall>i j. i < j \<and> j < 2 \<and> DiskNumber (qs ! i) = DiskNumber (qs ! j)
       \<longrightarrow> BootBegin (qs ! i) \<le> BootBegin (qs ! j))"
  using SortPartitionInfo_sorts [of "blank_state\<lparr>g_dwTotalPartitions := 2,
      g_Partitions := [empty_partition\<lparr>BootBegin := 9\<rparr>, empty_partition\<lparr>BootBegin := 4\<rparr>]\<rparr>" 2]
  by simp

section \<open>Looking up a partition\<close>

lemma part_index_from_filter:
  assumes "unat (g_dwTotalPartitions s) = n" "n \<le> length (g_Partitions s)"
  shows "part_index_from s dsk index i =
    (let hits = filter (\<lambda>k. ucast (DiskNumber (g_Partitions s ! k)) = dsk) [i..<n]
     in Some (if index < length hits then int (hits ! index) else - 1))"
  using assms
proof (induction s dsk index i rule: part_index_from.induct)
  case (1 s dsk index i)
  show ?case
  proof (cases "i < n")
    case True
    then have "[i..<n] = i # [Suc i..<n]"
      by (simp add: upt_conv_Cons)
    then show ?thesis
      using 1 True by (subst part_index_from.simps) (auto simp: Let_def nth_Cons' less_Suc_eq_0_disj)
  next
    case False
    then show ?thesis
      using 1 by (subst part_index_from.simps) simp
  qed
qed

text \<open>
  GetPartitionIndex returns the table index of the n-th partition of a disk, or -1.
\<close>

theorem GetPartitionIndex_nth:
  assumes "unat (g_dwTotalPartitions s) \<le> length (g_Partitions s)"
  shows "GetPartitionIndex s dsk index =
    (let hits = filter (\<lambda>k. ucast (DiskNumber (g_Partitions s ! k)) = dsk) [0..<unat (g_dwTotalPartitions s)]
     in Some (if unat index < length hits then int (hits ! unat index) else - 1))"
  unfolding GetPartitionIndex_def using part_index_from_filter [OF refl assms] .

theorem GetPartitionIndex_nth_witness:
  "GetPartitionIndex (blank_state\<lparr>g_dwTotalPartitions := 2, g_Partitions := [empty_partition, empty_partition]\<rparr>) 0 1 =
    (let hits = filter (\<lambda>k. ucast (DiskNumber ([empty_partition, empty_partition] ! k)) = (0 :: u16)) [0..<unat (2 :: u32)]
     in Some (if unat (1 :: u32) < length hits then int (hits ! unat (1 :: u32)) else - 1))"
  using GetPartitionIndex_nth [of "blank_state\<lparr>g_dwTotalPartitions := 2, g_Partitions := [empty_partition, empty_partition]\<rparr>" 0 1]
  by simp

section \<open>Limits\<close>

lemma extend_at_limit:
  assumes "31 \<le> unat (m_RecursiveTimes s)" "unat (m_RecursiveTimes s) < 2 ^ 32 - 1"
  shows "ParseExtendPartition env d e PartitionIndex BeginSector dsk off mem s
    = Some (0, mem, s\<lparr>m_RecursiveTimes := m_RecursiveTimes s + 1\<rparr>)"
proof -
  have "unat (m_RecursiveTimes s + 1) = unat (m_RecursiveTimes s) + 1"
    using assms(2) by (subst unat_add_no_wrap) auto
  then have "32 \<le> m_RecursiveTimes s + 1"
    using assms(1) by (simp add: word_le_nat_alt)
  then show ?thesis
    by (simp add: ParseExtendPartition_def ext_enter_def)
qed

text \<open>The counter goes up by at most \<open>k\<close>.\<close>

definition counted :: "nat \<Rightarrow> part_state \<Rightarrow> part_state \<Rightarrow> bool" where
  "counted k s s' \<longleftrightarrow> unat (m_RecursiveTimes s) \<le> unat (m_RecursiveTimes s') \<and>
     unat (m_RecursiveTimes s') \<le> unat (m_RecursiveTimes s) + k"

lemma ParseMasterPartition_count:
  "ParseMasterPartition env d entry idx b ts dsk off mem s = Some (ok, mem', s') \<Longrightarrow> m_RecursiveTimes s' = m_RecursiveTimes s"
  by (erule ParseMasterPartition_split) (auto simp: same_table_def set_partition_def set_disk_def split: if_splits)

lemma mbr_entry_count:
  assumes "mbr_entry env d dsk e mem s = Some (mem', s')"
    and "31 \<le> unat (m_RecursiveTimes s)" "unat (m_RecursiveTimes s) < 2 ^ 32 - 1"
  shows "counted 1 s s'"
proof -
  have "unat (m_RecursiveTimes s + 1) = unat (m_RecursiveTimes s) + 1"
    using assms(3) by (subst unat_add_no_wrap) auto
  then show ?thesis
    using assms(1) unfolding mbr_entry_def extend_at_limit [OF assms(2,3)]
    by (auto simp: counted_def elim!: bind_SomeE dest!: ParseMasterPartition_count split: if_splits)
qed

lemma mbr_loop_count:
  "\<lbrakk>mbr_loop env d dsk k mem s = Some (mem', s'); 31 \<le> unat (m_RecursiveTimes s); unat (m_RecursiveTimes s) + k < 2 ^ 32\<rbrakk>
    \<Longrightarrow> counted k s s'"
proof (induction k arbitrary: mem s)
  case (Suc k)
  obtain mem1 s1 where e: "mbr_entry env d dsk (0x1be + 16 * (4 - Suc k)) mem s = Some (mem1, s1)"
    and r: "(if unat (g_dwTotalPartitions s1) \<ge> MAX_NUM_PARTITIONS then Some (mem1, s1) else mbr_loop env d dsk k mem1 s1) = Some (mem', s')"
    using Suc.prems(1) by (auto elim!: bind_SomeE)
  have c: "counted 1 s s1" using mbr_entry_count [OF e Suc.prems(2)] Suc.prems(3) by simp
  show ?case
  proof (cases "unat (g_dwTotalPartitions s1) \<ge> MAX_NUM_PARTITIONS")
    case True
    then show ?thesis using r c by (simp add: counted_def)
  next
    case False
    then have "counted k s1 s'" using Suc.IH [of mem1 s1] r c Suc.prems(2,3) by (simp add: counted_def)
    with c show ?thesis by (simp add: counted_def)
  qed
qed (simp add: counted_def)

lemma gpt_loop_count: "gpt_loop env d dsk k e mem s = Some (mem', s') \<Longrightarrow> m_RecursiveTimes s' = m_RecursiveTimes s"
proof (induction k arbitrary: e mem s)
  case (Suc k)
  have "gpt_entry env d dsk e mem s = Some (mem1, s1) \<Longrightarrow> m_RecursiveTimes s1 = m_RecursiveTimes s" for mem1 s1
    by (auto simp: gpt_entry_def set_partition_def elim!: bind_SomeE dest!: ParseMasterPartition_count split: if_splits)
  then show ?case using Suc.IH Suc.prems by (auto elim!: bind_SomeE)
qed simp

lemma ParseGPTInfo_count: "ParseGPTInfo env d dsk mem s = Some (n, mem', s') \<Longrightarrow> m_RecursiveTimes s' = m_RecursiveTimes s"
  by (auto simp: ParseGPTInfo_def set_disk_def elim!: bind_SomeE dest!: gpt_loop_count split: if_splits)

lemma scan_disk_count:
  assumes "scan_disk env d i mem s = Some (mem', s')" "31 \<le> unat (m_RecursiveTimes s)" "unat (m_RecursiveTimes s) + 4 < 2 ^ 32"
  shows "counted 4 s s'"
  using assms(1)
proof (cases rule: scan_disk_cases)
  case (gpt s1 n mem1 s2)
  then show ?thesis using IsGPT_same [OF gpt(1)] ParseGPTInfo_count [OF gpt(2)] SortPartitionInfo_sorted(5) [OF gpt(3)]
    by (simp add: counted_def)
next
  case (unread s1)
  then show ?thesis using IsGPT_same [OF unread(1)] by (simp add: counted_def)
next
  case (mbr s1 mem1 whole mem2 s3 s4)
  have "m_RecursiveTimes s3 = m_RecursiveTimes s"
    using IsGPT_same [OF mbr(1)] ParseMasterPartition_count [OF mbr(2)] by simp
  then have "counted 4 s s4"
    using mbr(3) mbr_loop_count [of env d i 4 mem2 s3 mem' s4] assms(2,3) by (simp add: counted_def split: if_splits)
  then show ?thesis using SortPartitionInfo_sorted(5) [OF mbr(4)] by (simp add: counted_def)
qed

text \<open>
  C35. Nothing resets m_RecursiveTimes between the disks of a scan: once it has reached 31, then after any
  number of further disks ParseExtendPartition still returns 0 at once, without a look at the disk,
  so that all these disks have no logical drives.
\<close>

theorem ParseExtendPartition_limit:
  assumes "scan_disks env d is mem s = Some s'"
    and "31 \<le> unat (m_RecursiveTimes s)" "unat (m_RecursiveTimes s) + 4 * length is < 2 ^ 32 - 1"
  shows "31 \<le> unat (m_RecursiveTimes s') \<and>
    (\<forall>e PartitionIndex BeginSector dsk off mem. ParseExtendPartition env d e PartitionIndex BeginSector dsk off mem s'
      = Some (0, mem, s'\<lparr>m_RecursiveTimes := m_RecursiveTimes s' + 1\<rparr>))"
proof -
  have "counted (4 * length is) s s'"
    using assms
  proof (induction "is" arbitrary: mem s)
    case (Cons i "is")
    show ?case
    proof (cases "unat (g_dwTotalPartitions s) \<ge> MAX_NUM_PARTITIONS")
      case True
      then show ?thesis using Cons.prems by (simp add: counted_def)
    next
      case False
      then obtain mem1 s1 where o: "scan_disk env d i mem s = Some (mem1, s1)" "scan_disks env d is mem1 s1 = Some s'"
        using Cons.prems(1) by (auto elim!: bind_SomeE)
      have c: "counted 4 s s1" using scan_disk_count [OF o(1) Cons.prems(2)] Cons.prems(3) by simp
      then have "counted (4 * length is) s1 s'" using Cons.IH [OF o(2)] Cons.prems(2,3) by (simp add: counted_def)
      with c show ?thesis by (simp add: counted_def)
    qed
  qed (simp add: counted_def)
  then have "31 \<le> unat (m_RecursiveTimes s')" "unat (m_RecursiveTimes s') < 2 ^ 32 - 1"
    using assms(2,3) by (simp_all add: counted_def)
  then show ?thesis by (intro conjI allI extend_at_limit)
qed

text \<open>
  A disk with one extended and two other partitions, not in order, for a machine whose counter
  already stands at 31 and whose table has one element behind the 64.
\<close>

definition mbr_sector :: buf where
  "mbr_sector = replicate 0x1be 0 @
    [0,0,0,0, 0x05,0,0,0, 100,0,0,0, 50,0,0,0] @ [0,0,0,0, 0xa5,0,0,0, 40,0,0,0, 10,0,0,0] @ [0,0,0,0, 0xa5,0,0,0, 20,0,0,0, 10,0,0,0] @ replicate 16 0 @ [0x55, 0xaa]"
definition mbr_env :: "unit disk_env" where
  "mbr_env = \<lparr>ReadBlocks = (\<lambda>d k lba size. Some (if lba = 0 then mbr_sector @ replicate (unat size - 512) 0 else replicate (unat size) 0)), WriteBlocks = (\<lambda>d k lba bytes. (d, False)),
     FlushBlocks = (\<lambda>d k. (d, False)), g_disknum = 1, AllocatePool = (\<lambda>d size. Some (replicate size 0))\<rparr>"
definition mbr_state :: part_state where
  "mbr_state = blank_state\<lparr>g_Partitions := replicate 65 empty_partition, m_RecursiveTimes := 31, g_disklist := [(g_disklist blank_state ! 0)\<lparr>totalsector := 1000\<rparr>]\<rparr>"

abbreviation mbr_mem :: buf where "mbr_mem \<equiv> mbr_sector @ replicate 2560 0"

lemma mbr_length: "length mbr_sector = 512" by (simp add: mbr_sector_def)

lemma mbr_zeros: "replicate 1536 (0 :: byte) @ replicate 1024 0 = replicate 2560 0"
  by (simp add: replicate_add [symmetric])

lemma mbr_reads: "DiskRead mbr_env () 0 0 1 (replicate 4096 0) 0 = Some (True, mbr_sector @ replicate 3584 0)"
 "DiskRead mbr_env () 0 0 1 (replicate 3072 0) 0 = Some (True, mbr_mem)"
 "DiskRead mbr_env () 0 0 4 mbr_mem 0 = Some (True, mbr_mem)"
  by (simp_all add: DiskRead_def mbr_env_def put_def mbr_length mbr_zeros)

lemma mbr_reads_boot: "lba \<noteq> 0 \<Longrightarrow> DiskRead mbr_env () 0 lba 4 mbr_mem 512 = Some (True, mbr_mem)"
  by (simp add: DiskRead_def mbr_env_def put_def mbr_length replicate_add [symmetric])

lemma nth_mbr: "n < 512 \<Longrightarrow> rd8 (mbr_sector @ t) n = Some (mbr_sector ! n)"
  "n + 2 \<le> 512 \<Longrightarrow> rd16 (mbr_sector @ t) n = rd16 mbr_sector n"
  "n + 4 \<le> 512 \<Longrightarrow> rd32 (mbr_sector @ t) n = rd32 mbr_sector n"
  "n + 4 \<le> 512 \<Longrightarrow> slice (mbr_sector @ t) n 4 = slice mbr_sector n 4"
  by (auto simp: rd8_def rd16_def rd32_def rd_le_def slice_def nth_append mbr_length)

lemma mbr_values: "rd16 mbr_sector 510 = Some 0xaa55" "mbr_sector ! 450 = 5" "mbr_sector ! 466 = 0xa5" "mbr_sector ! 482 = 0xa5" "mbr_sector ! 498 = 0"
   "rd32 mbr_sector 470 = Some 40" "rd32 mbr_sector 474 = Some 10" "rd32 mbr_sector 486 = Some 20" "rd32 mbr_sector 490 = Some 10" "mbr_sector ! 462 = 0" "mbr_sector ! 478 = 0"
   "mbr_sector ! 463 = 0" "mbr_sector ! 479 = 0"
  by (simp_all add: mbr_sector_def rd16_def rd32_def rd8_def rd_le_def nth_append)

lemma zero_text:
  assumes "at < length mem" "mem ! at = 0" "sint (of_char c :: byte) > 0x20" "(of_char c :: byte) \<noteq> 0"
  shows "has_text mem at (c # cs) = Some False"
proof -
  have "drop at mem = 0 # drop (Suc at) mem" using assms(1,2) by (metis Cons_nth_drop_Suc)
  then show ?thesis using assms(3,4) by (simp add: has_text_def c_string_def)
qed

lemma zero_words: "le_word (replicate 2 0) = (0 :: u16)" "le_word (replicate 4 0) = (0 :: u32)"
  by (simp_all add: numeral_eq_Suc)

lemma mbr_boot_zero: "n < 446 \<Longrightarrow> mbr_sector ! n = 0" "n + 2 \<le> 446 \<Longrightarrow> rd16 mbr_sector n = Some 0" "n + 4 \<le> 446 \<Longrightarrow> rd32 mbr_sector n = Some 0"
  using zero_words by (simp_all add: mbr_sector_def nth_append rd16_def rd32_def rd_le_def min_def)

lemma mbr_behind_zero: "512 \<le> n \<Longrightarrow> n + 2 \<le> 3072 \<Longrightarrow> rd16 mbr_mem n = Some 0"
  using zero_words by (simp add: rd16_def rd_le_def mbr_length min_def)

lemma mbr_type_whole: "detect_type mbr_mem 0 UNKNOWN_PARTITION = Some (Some 0)"
    by (simp add: detect_type_def nth_mbr mbr_values signature_type_def zero_text mbr_length nth_append mbr_boot_zero mbr_behind_zero guess_type_def geometry_type_def UNKNOWN_PARTITION_def PARTITION_UNUSED_def Let_def)

lemma mbr_type_entry: "detect_type mbr_mem 512 t = Some None"
  by (simp add: detect_type_def mbr_behind_zero)

lemma mbr_not_gpt: "IsGPT mbr_env () 0 s = map_option (Pair False) (set_disk 0 (\<lambda>k. k\<lparr>disk_guid := replicate 16 0\<rparr>) s)"
proof -
  have "slice mbr_sector 440 4 = Some (replicate 4 0)" by (simp add: slice_def mbr_sector_def)
  moreover have "replicate 12 0 @ replicate 4 0 = replicate 16 (0 :: byte)" by (simp add: replicate_add [symmetric])
  moreover have "AllocatePool mbr_env () 4096 = Some (replicate 4096 0)" by (simp add: mbr_env_def)
  ultimately show ?thesis
  by (cases "set_disk 0 (\<lambda>k. k\<lparr>disk_guid := replicate 16 0\<rparr>) s") (simp_all add: IsGPT_def mbr_reads nth_mbr mbr_values is_gpt_pid_def GPT_PROTECTIVE_PARTITION_def GPT_SYSTEM_PARTITION_def Let_def)
qed

lemma mbr_state_values: "length (g_Partitions mbr_state) = 65" "g_dwTotalPartitions mbr_state = 0" "length (g_disklist mbr_state) = 1" "totalsector (g_disklist mbr_state ! 0) = 1000"
  "m_RecursiveTimes mbr_state = 31"
  by (simp_all add: mbr_state_def blank_state_def)

lemma mbr_whole: 
  assumes "length (g_Partitions s) = 65"
  shows "\<exists>P2. ParseMasterPartition mbr_env () None 0 0 0 0 0 mbr_mem s = Some (False, mbr_mem,
    s\<lparr>m_PartitionType := 0, m_SectorsPerCluster := 0, g_Partitions := (g_Partitions s)[0 := P2]\<rparr>)"
proof -
  have ne: "g_Partitions s \<noteq> []" using assms by auto
  show ?thesis
  by (simp add: ne ParseMasterPartition_def entry_partition_def mbr_reads CheckPartitionType_def mbr_type_whole nth_mbr mbr_boot_zero Let_def set_partition_def
      NTFS_def FAT32_def FAT16_def PARTITION_LINUX_def SHD_BITLOCKER_def SHD_BITLOCKERTOGO_def PARTITION_UNUSED_def) blast
qed

lemma mbr_part:
  assumes "length (g_Partitions s) = 65" "unat idx < 65" "length (g_disklist s) = 1" "totalsector (g_disklist s ! 0) = 1000"
    and "e = 462 \<or> e = 478"
  shows "\<exists>P2 D. totalsector D = 1000 \<and> ParseMasterPartition mbr_env () (Some e) idx 0 (ucast (10 :: u32)) 0 512 mbr_mem s = Some (True, mbr_mem,
    s\<lparr>m_PartitionType := UNKNOWN_PARTITION, g_Partitions := (g_Partitions s)[unat idx := P2], g_disklist := [D]\<rparr>)"
proof -
  obtain D where D: "g_disklist s = [D]" using assms(3) by (auto simp: length_Suc_conv)
  have v: "VerifyPartition mbr_mem e 0 0 s = Some True"
    using assms(3,4,5) by (auto simp: VerifyPartition_def nth_mbr mbr_values IsUnSupportedPartition_def)
  have "\<exists>P. entry_partition mbr_mem (Some e) 0 (ucast (10 :: u32)) 0 Q = Some P \<and> BootBegin P \<noteq> 0" for Q
    using assms(5) by (auto simp: entry_partition_def nth_mbr mbr_values)
  then obtain P where P: "entry_partition mbr_mem (Some e) 0 (ucast (10 :: u32)) 0 (g_Partitions s ! unat idx) = Some P" "BootBegin P \<noteq> 0" by blast
  have "totalsector (D\<lparr>formatted := True\<rparr>) = 1000" using assms(4) D by simp
  then show ?thesis
    using P assms(1,2) by (intro exI [of _ P] exI [of _ "D\<lparr>formatted := True\<rparr>"]) (simp add: ParseMasterPartition_def v mbr_reads_boot CheckPartitionType_def mbr_type_entry set_partition_def set_disk_def D UNKNOWN_PARTITION_def PARTITION_UNUSED_def)
qed

definition mbr_ready :: "nat \<Rightarrow> nat \<Rightarrow> part_state \<Rightarrow> bool" where
  "mbr_ready n c s \<longleftrightarrow> length (g_Partitions s) = 65 \<and> length (g_disklist s) = 1 \<and> totalsector (g_disklist s ! 0) = 1000 \<and>
     unat (g_dwTotalPartitions s) = n \<and> unat (m_RecursiveTimes s) = c"

lemma mbr_entry_ext: "mbr_ready n 31 s \<Longrightarrow> \<exists>s'. mbr_entry mbr_env () 0 446 mbr_mem s = Some (mbr_mem, s') \<and> mbr_ready n 32 s'"
  by (simp add: mbr_ready_def mbr_entry_def nth_mbr mbr_values EXTEND_PARTITION_def extend_at_limit unat_add_no_wrap)

lemma mbr_entry_none: "mbr_ready n c s \<Longrightarrow> mbr_entry mbr_env () 0 494 mbr_mem s = Some (mbr_mem, s)"
  by (simp add: mbr_ready_def mbr_entry_def nth_mbr mbr_values EXTEND_PARTITION_def BIG_EXTEND_PARTITION_def PARTITION_UNUSED_def)

lemma mbr_entry_part:
  assumes "mbr_ready n c s" "n < 64" "e = 462 \<or> e = 478"
  shows "\<exists>s'. mbr_entry mbr_env () 0 e mbr_mem s = Some (mbr_mem, s') \<and> mbr_ready (Suc n) c s'"
proof -
  have s: "length (g_Partitions s) = 65" "unat (g_dwTotalPartitions s) < 65" "length (g_disklist s) = 1" "totalsector (g_disklist s ! 0) = 1000"
    using assms(1,2) by (auto simp: mbr_ready_def)
  then have "unat (g_dwTotalPartitions s + 1) = Suc n" using assms(1,2) by (simp add: mbr_ready_def unat_add_no_wrap)
  with s obtain P2 D where
    "ParseMasterPartition mbr_env () (Some e) (g_dwTotalPartitions s) 0 (ucast (10 :: u32)) 0 512 mbr_mem s = Some (True, mbr_mem,
      s\<lparr>m_PartitionType := UNKNOWN_PARTITION, g_Partitions := (g_Partitions s)[unat (g_dwTotalPartitions s) := P2], g_disklist := [D]\<rparr>)"
      "totalsector D = 1000"
    using mbr_part [OF s assms(3)] by blast
  moreover have "rd8 mbr_mem (e + 4) = Some 0xa5" "rd32 mbr_mem (e + 12) = Some 10" using assms(3) by (auto simp: nth_mbr mbr_values)
  ultimately show ?thesis
    using assms(1) \<open>unat (g_dwTotalPartitions s + 1) = Suc n\<close>
    by (simp add: mbr_entry_def EXTEND_PARTITION_def BIG_EXTEND_PARTITION_def PARTITION_UNUSED_def mbr_ready_def)
qed

lemma mbr_four_entries: "mbr_ready 0 31 s \<Longrightarrow> \<exists>s'. mbr_loop mbr_env () 0 4 mbr_mem s = Some (mbr_mem, s') \<and> mbr_ready 2 32 s'"
proof -
  assume "mbr_ready 0 31 s"
  from mbr_entry_ext [OF this] obtain s1 where 1: "mbr_entry mbr_env () 0 446 mbr_mem s = Some (mbr_mem, s1)" "mbr_ready 0 32 s1" by blast
  from mbr_entry_part [OF 1(2), of 462] obtain s2 where 2: "mbr_entry mbr_env () 0 462 mbr_mem s1 = Some (mbr_mem, s2)" "mbr_ready 1 32 s2" by auto
  from mbr_entry_part [OF 2(2), of 478] obtain s3 where 3: "mbr_entry mbr_env () 0 478 mbr_mem s2 = Some (mbr_mem, s3)" "mbr_ready 2 32 s3" by (auto simp: numeral_2_eq_2)
  have "mbr_loop mbr_env () 0 (Suc (Suc (Suc (Suc 0)))) mbr_mem s = Some (mbr_mem, s3)"
    using 1 2 3 mbr_entry_none [OF 3(2)] by (simp add: MAX_NUM_PARTITIONS_def mbr_ready_def)
  moreover have "Suc (Suc (Suc (Suc 0))) = 4" by simp
  ultimately show ?thesis using 3(2) by metis
qed

lemma mbr_scan: "\<exists>s'. scan_disks mbr_env () [0] (replicate 3072 0) mbr_state = Some s' \<and> g_dwTotalPartitions s' = 2"
proof -
  obtain D where D: "set_disk 0 (\<lambda>k. k\<lparr>disk_guid := replicate 16 0\<rparr>) mbr_state = Some (mbr_state\<lparr>g_disklist := [D]\<rparr>)" "totalsector D = 1000"
    by (auto simp: set_disk_def mbr_state_def blank_state_def)
  define s1 where "s1 = mbr_state\<lparr>g_disklist := [D], m_bLBAMode := False\<rparr>"
  have s1: "mbr_ready 0 31 s1" using mbr_state_values D(2) by (simp add: s1_def mbr_ready_def)
  then obtain P2 where P2: "ParseMasterPartition mbr_env () None 0 0 0 0 0 mbr_mem s1 = Some (False, mbr_mem,
      s1\<lparr>m_PartitionType := 0, m_SectorsPerCluster := 0, g_Partitions := (g_Partitions s1)[0 := P2]\<rparr>)"
    using mbr_whole [of s1] by (auto simp: mbr_ready_def)
  have "mbr_ready 0 31 (s1\<lparr>m_PartitionType := 0, m_SectorsPerCluster := 0, g_Partitions := (g_Partitions s1)[0 := P2]\<rparr>)"
    using s1 by (simp add: mbr_ready_def)
  from mbr_four_entries [OF this] obtain s2 where s2: "mbr_loop mbr_env () 0 4 mbr_mem (s1\<lparr>m_PartitionType := 0, m_SectorsPerCluster := 0, g_Partitions := (g_Partitions s1)[0 := P2]\<rparr>)
      = Some (mbr_mem, s2)" "mbr_ready 2 32 s2" by blast
  then obtain s3 where s3: "SortPartitionInfo s2 = Some s3" "g_dwTotalPartitions s3 = g_dwTotalPartitions s2"
    by (auto simp: SortPartitionInfo_def mbr_ready_def)
  have "g_dwTotalPartitions s1 = 0" using s1 by (simp add: mbr_ready_def unat_eq_0)
  with P2 s2(1) s3(1) have "scan_disk mbr_env () 0 (replicate 3072 0) mbr_state = Some (mbr_mem, s3)"
    by (simp add: scan_disk_def mbr_not_gpt D(1) mbr_reads s1_def Let_def)
  moreover have "g_dwTotalPartitions s3 = 2" using s2(2) s3(2) unfolding mbr_ready_def by (simp add: word_unat_eq_iff)
  ultimately show ?thesis by (simp add: mbr_state_values MAX_NUM_PARTITIONS_def)
qed

theorem scan_disks_limit_witness:
  "\<exists>s'. scan_disks mbr_env () [0] (replicate 3072 0) mbr_state = Some s' \<and> g_dwTotalPartitions s' = 2 \<and>
    unat (g_dwTotalPartitions s') \<le> 64 \<and> length (g_Partitions s') = length (g_Partitions mbr_state) \<and>
    drop 64 (g_Partitions s') = drop 64 (g_Partitions mbr_state) \<and>
    (\<forall>i j. i < j \<and> j < unat (g_dwTotalPartitions s') \<and> DiskNumber (g_Partitions s' ! i) = DiskNumber (g_Partitions s' ! j)
       \<longrightarrow> BootBegin (g_Partitions s' ! i) \<le> BootBegin (g_Partitions s' ! j))"
proof -
  obtain s' where s': "scan_disks mbr_env () [0] (replicate 3072 0) mbr_state = Some s'" "g_dwTotalPartitions s' = 2"
    using mbr_scan by blast
  have "sorted_table mbr_state" by (simp add: sorted_table_def in_order_def mbr_state_values)
  then show ?thesis
    using s' scan_disks_limit [OF s'(1)] by (simp add: mbr_state_values mbr_not_gpt)
qed

theorem ParseExtendPartition_limit_witness:
  "\<exists>s'. scan_disks mbr_env () [0] (replicate 3072 0) mbr_state = Some s' \<and> g_dwTotalPartitions s' = 2 \<and>
    31 \<le> unat (m_RecursiveTimes s') \<and>
    (\<forall>e PartitionIndex BeginSector dsk off mem. ParseExtendPartition mbr_env () e PartitionIndex BeginSector dsk off mem s'
      = Some (0, mem, s'\<lparr>m_RecursiveTimes := m_RecursiveTimes s' + 1\<rparr>))"
proof -
  obtain s' where s': "scan_disks mbr_env () [0] (replicate 3072 0) mbr_state = Some s'" "g_dwTotalPartitions s' = 2"
    using mbr_scan by blast
  then show ?thesis using ParseExtendPartition_limit [OF s'(1)] by (simp add: mbr_state_values)
qed

text \<open>
  C36. With 64 partitions in the table, the next used GPT entry makes the loop of ParseGPTInfo
  write behind the table.
\<close>

theorem ParseGPTInfo_overruns:
  assumes "g_dwTotalPartitions s = 64" "length (g_Partitions s) = 64"
    and "rd32 mem e = Some d1" "rd16 mem (e + 4) = Some d2" "rd16 mem (e + 6) = Some d3"
    and "rd64 mem (e + 32) = Some a" "rd64 mem (e + 40) = Some b"
    and "\<not> (d1 = 0 \<and> d2 = 0 \<and> d3 = 0)" "a \<noteq> 0" "b \<noteq> 0"
  shows "gpt_loop env d dsk (Suc k) e mem s = None"
  using assms by (auto simp: gpt_entry_def ParseMasterPartition_def)

theorem ParseGPTInfo_overruns_witness:
  "gpt_loop dead_env () 0 (Suc 0) 0 (1 # replicate 31 0 @ [1] @ replicate 7 0 @ [1] @ replicate 7 0)
     (blank_state\<lparr>g_dwTotalPartitions := 64, g_Partitions := replicate 64 empty_partition\<rparr>) = None"
proof -
  let ?m = "1 # replicate 31 0 @ [1] @ replicate 7 0 @ [1] @ replicate 7 (0 :: byte)"
  have "rd32 ?m 0 = Some 1" "rd16 ?m (0 + 4) = Some 0" "rd16 ?m (0 + 6) = Some 0"
    "rd64 ?m (0 + 32) = Some 1" "rd64 ?m (0 + 40) = Some 1"
    by code_simp+
  then show ?thesis
    by (intro ParseGPTInfo_overruns [where ?d1.0 = 1 and ?d2.0 = 0 and ?d3.0 = 0 and a = 1 and b = 1]) auto
qed

text \<open>
  IsGPT answers TRUE exactly when the first sector carries the boot mark and one of its
  four entries is a GPT partition id.
\<close>

lemma IsGPT_iff:
  assumes "AllocatePool env d 4096 = Some mem" "length mem = 4096" "unat dsk < length (g_disklist s)"
    and "DiskRead env d dsk 0 1 mem 0 = Some (True, sector @ drop 512 mem)" "length sector = 512"
  shows "\<exists>s'. IsGPT env d dsk s = Some
      (rd16 sector 510 = Some 0xaa55 \<and> (\<exists>i < 4. is_gpt_pid (sector ! (0x1be + 16 * i + 4))), s')"
proof -
  have ex: "(\<exists>i < 4. is_gpt_pid (sector ! (0x1be + 16 * i + 4))) \<longleftrightarrow> is_gpt_pid (sector ! 450) \<or>
      is_gpt_pid (sector ! 466) \<or> is_gpt_pid (sector ! 482) \<or> is_gpt_pid (sector ! 498)"
  proof -
    have "(\<exists>i < 4. Q i) \<longleftrightarrow> Q 0 \<or> Q 1 \<or> Q 2 \<or> Q (3 :: nat)" for Q
      by (auto simp: numeral_eq_Suc less_Suc_eq)
    from this [of "\<lambda>i. is_gpt_pid (sector ! (0x1be + 16 * i + 4))"] show ?thesis
      by simp
  qed
  have rd: "rd16 (sector @ drop 512 mem) 510 = rd16 sector 510" "\<exists>m. rd16 sector 510 = Some m"
    using assms(5) by (simp_all add: rd16_def rd_le_def)
  have r8: "rd8 (sector @ drop 512 mem) i = Some (sector ! i)" if "i < 512" for i
    using that assms(2,5) by (simp add: rd8_def nth_append)
  obtain m where m: "rd16 sector 510 = Some m"
    using rd(2) by blast
  let ?g = "m = 0xaa55 \<and> (is_gpt_pid (sector ! 450) \<or> is_gpt_pid (sector ! 466) \<or>
      is_gpt_pid (sector ! 482) \<or> is_gpt_pid (sector ! 498))"
  obtain sig where sig: "slice (sector @ drop 512 mem) 440 4 = Some sig"
    using assms(2,5) by (simp add: slice_def)
  obtain s1 where s1: "set_disk dsk (\<lambda>k. k\<lparr>disk_guid := replicate 12 0 @ sig\<rparr>) s = Some s1"
    using assms(3) by (simp add: set_disk_def)
  have "IsGPT env d dsk s = Some (?g, if ?g then s else s1)"
    using assms(1,4) rd(1) m sig s1 by (simp add: IsGPT_def r8, blast)
  then show ?thesis
    unfolding ex m by simp
qed

lemma IsGPT_iff_witness:
  "\<exists>s'. IsGPT (ram_env 1) (\<lambda>i. replicate 450 0 @ [0xee] @ replicate 59 0 @ [0x55, 0xaa]) 0 blank_state = Some
      (rd16 (replicate 450 0 @ [0xee] @ replicate 59 0 @ [0x55, 0xaa]) 510 = Some 0xaa55 \<and>
       (\<exists>i < 4. is_gpt_pid ((replicate 450 0 @ [0xee] @ replicate 59 0 @ [0x55, 0xaa]) ! (0x1be + 16 * i + 4))), s')"
proof (rule IsGPT_iff [where mem = "replicate 4096 0"])
  show "DiskRead (ram_env 1) (\<lambda>i. replicate 450 0 @ [0xee] @ replicate 59 0 @ [0x55, 0xaa]) 0 0 1 (replicate 4096 0) 0
      = Some (True, (replicate 450 0 @ [0xee] @ replicate 59 0 @ [0x55, 0xaa]) @ drop 512 (replicate 4096 0))"
    by (simp add: DiskRead_def ram_env_def ram_sec_def put_def)
qed (simp_all add: ram_env_def blank_state_def)

end
