(* ===== verification/Okr_NtfsFile.thy ===== *)
theory Okr_NtfsFile
  imports Okr_Volume
begin

text \<open>
  Files of an NTFS volume, \<^verbatim>\<open>src/OkrPkg/okrefi/getlist.c\<close>: reading the clusters of an attribute, file
  records out of the MFT, looking up a name in the root directory, and the list of sectors of a
  file. \<open>P\<close> is the element of \<open>g_Partitions\<close> that \<open>g_PartitionIndex\<close> selects.

  Attributes are offsets into the record that holds them. A null pointer that the C code follows
  and variables it reads before they are set give \<open>None\<close>. \<open>GetNtfsFileRecord\<close> calls itself through
  the attribute list of the MFT; its first argument bounds the depth of these calls, as the stack
  does.
\<close>

definition INODE_ROOT_DIRECTORY :: u32 where "INODE_ROOT_DIRECTORY = 5"
definition DIRECTORY_ENTRY_SIZE :: nat where "DIRECTORY_ENTRY_SIZE = 84"
definition INDEX_ROOT_SIZE :: nat where "INDEX_ROOT_SIZE = 32"

section \<open>Clusters of an attribute\<close>

definition ReadLCN ::
  "'d disk_env \<Rightarrow> 'd \<Rightarrow> WIN32_PARTITIONINFO \<Rightarrow> u64 \<Rightarrow> u16 \<Rightarrow> buf \<Rightarrow> nat \<Rightarrow> (bool \<times> buf) option" where
  "ReadLCN env d P lcn cnt mem off =
     DiskRead env d (ucast (DiskNumber P)) (lcn * ucast (SectorsPerClr P) + BootBegin P)
       (ucast (cnt * ucast (SectorsPerClr P))) mem off"

text \<open>\<open>ReadExternalAttribute\<close> does not look at the result of \<open>FindRun\<close>; after a failure the
  variables it sets are undefined.\<close>

partial_function (option) ReadExternalAttribute ::
  "'d disk_env \<Rightarrow> 'd \<Rightarrow> WIN32_PARTITIONINFO \<Rightarrow> buf \<Rightarrow> nat \<Rightarrow> u32 \<Rightarrow> u16 \<Rightarrow> bool \<Rightarrow> buf \<Rightarrow> nat \<Rightarrow> (bool \<times> buf) option" where
  "ReadExternalAttribute env d P rec attr Vcn num bRet mem off =
     (if num = 0 then Some (bRet, mem)
      else do {
        (found, lcn, runcount) \<leftarrow> FindRun rec attr (ucast Vcn) 0 0;
        if \<not> found then None
        else do {
          let cnt = (if runcount > ucast num then num else ucast runcount);
          (ok, mem') \<leftarrow> ReadLCN env d P lcn cnt mem off;
          if \<not> ok then Some (False, mem')
          else ReadExternalAttribute env d P rec attr (Vcn + ucast cnt) (num - cnt) ok mem'
                 (off + unat cnt * unat (SectorsPerClr P) * 512) } })"

declare ReadExternalAttribute.simps [code]

definition ReadAttribute ::
  "'d disk_env \<Rightarrow> 'd \<Rightarrow> WIN32_PARTITIONINFO \<Rightarrow> buf \<Rightarrow> nat \<Rightarrow> u32 \<Rightarrow> u32 \<Rightarrow> buf \<Rightarrow> buf option" where
  "ReadAttribute env d P rec attr offset bytes_wanted mem =
     do {
       nonresident \<leftarrow> rd8 rec (attr + 8);
       if nonresident = 0
       then do {
         len \<leftarrow> rd32 rec (attr + 16);
         vo \<leftarrow> rd16 rec (attr + 20);
         bytes \<leftarrow> slice rec (attr + unat vo) (unat len);
         put mem 0 bytes }
       else if SectorsPerClr P = 0 then None
       else do {
         let bpc = (ucast (SectorsPerClr P) * 512 :: u32);
         let cnt = (if bytes_wanted div bpc = 0 then 1 else bytes_wanted div bpc);
         (_, mem') \<leftarrow> ReadExternalAttribute env d P rec attr (offset div bpc) (ucast cnt) False mem 0;
         Some mem' } }"

section \<open>Attribute lists and file records\<close>

text \<open>The first loop of \<open>FindAttributeFromAttributeListEx\<close>: the entry of the type, \<open>Some None\<close> for
  a null result. The offset is advanced by the length of the entry after the one passed.\<close>

function attrlist_first :: "buf \<Rightarrow> u32 \<Rightarrow> u32 \<Rightarrow> nat \<Rightarrow> u32 \<Rightarrow> nat option option" where
  "attrlist_first lst AttrType attrlistlen at offset =
     do {
       ty \<leftarrow> rd32 lst at;
       if ty = AttrType then Some (Some at)
       else do {
         len \<leftarrow> rd16 lst (at + 4);
         if ty = 0 \<or> ty = 0xffffffff \<or> len = 0 then Some None
         else do {
           len2 \<leftarrow> rd16 lst (at + unat len + 4);
           if offset + ucast len2 \<ge> attrlistlen then Some None
           else attrlist_first lst AttrType attrlistlen (at + unat len) (offset + ucast len2) } } }"
  by pat_completeness auto
termination
proof (relation "measure (\<lambda>(lst, ty, n, at, ofs). length lst - at)", goal_cases)
  case (2 lst AttrType n at ofs ty len len2)
  then have "at + 4 \<le> length lst"
    by (auto simp: rd32_def rd_le_def split: if_splits)
  moreover have "0 < unat len"
    using 2 by (simp add: unat_gt_0)
  ultimately show ?case by simp
qed simp

declare attrlist_first.simps [simp del]

text \<open>The second loop: the records the entries of the type refer to are loaded until one has the
  attribute with the cluster asked for. \<open>getrec\<close> is \<open>GetNtfsFileRecord\<close>, its result is ignored.\<close>

partial_function (option) attrlist_scan ::
  "(u32 \<Rightarrow> buf \<Rightarrow> (bool \<times> buf) option) \<Rightarrow> buf \<Rightarrow> u32 \<Rightarrow> u32 \<Rightarrow> nat \<Rightarrow> buf \<Rightarrow> ((nat \<times> nat) option \<times> buf) option" where
  "attrlist_scan getrec lst AttrType Vcn at mem =
     do {
       ty \<leftarrow> rd32 lst at;
       if ty \<noteq> AttrType then Some (None, mem)
       else do {
         ref \<leftarrow> rd64 lst (at + 16);
         (_, mem1) \<leftarrow> getrec (ucast ref) mem;
         attr \<leftarrow> FindAttribute mem1 AttrType;
         inside \<leftarrow> (case attr of None \<Rightarrow> Some False
                   | Some a \<Rightarrow> do { lo \<leftarrow> rd64 mem1 (a + 16); hi \<leftarrow> rd64 mem1 (a + 24);
                                   Some (lo \<le> ucast Vcn \<and> ucast Vcn \<le> hi) });
         if inside then Some (map_option (\<lambda>a. (a, at)) attr, mem1)
         else do { len \<leftarrow> rd16 lst (at + 4);
                   attrlist_scan getrec lst AttrType Vcn (at + unat len) mem1 } } }"

declare attrlist_scan.simps [code]

text \<open>The result holds the offset of the attribute in the record read, and \<open>*AttrOffset\<close>.\<close>

definition FindAttributeFromAttributeListEx ::
  "(u32 \<Rightarrow> buf \<Rightarrow> (bool \<times> buf) option) \<Rightarrow> buf \<Rightarrow> nat \<Rightarrow> bool \<Rightarrow> u32 \<Rightarrow> u32 \<Rightarrow> buf
   \<Rightarrow> ((nat \<times> u16) option \<times> buf) option" where
  "FindAttributeFromAttributeListEx getrec lst AttrList bAttrHeader AttrType Vcn mem =
     do {
       start \<leftarrow> (if \<not> bAttrHeader then Some (Some (AttrList, 1024))
         else do {
           nonresident \<leftarrow> rd8 lst (AttrList + 8);
           if nonresident = 1 then Some None
           else do { len \<leftarrow> rd32 lst (AttrList + 4); vo \<leftarrow> rd16 lst (AttrList + 20);
                     Some (Some (AttrList + unat vo, len)) } });
       (case start of
          None \<Rightarrow> Some (None, mem)
        | Some (at, len) \<Rightarrow> do {
            first \<leftarrow> attrlist_first lst AttrType len at 0;
            (case first of
               None \<Rightarrow> Some (None, mem)
             | Some at1 \<Rightarrow> do {
                 (r, mem1) \<leftarrow> attrlist_scan getrec lst AttrType Vcn at1 mem;
                 Some (map_option (\<lambda>(a, at2). (a, of_nat (at2 - AttrList))) r, mem1) }) }) }"

definition ReadVCN ::
  "'d disk_env \<Rightarrow> 'd \<Rightarrow> WIN32_PARTITIONINFO \<Rightarrow> (u32 \<Rightarrow> buf \<Rightarrow> (bool \<times> buf) option) \<Rightarrow> buf \<Rightarrow> u32 \<Rightarrow> u32 \<Rightarrow> u32 \<Rightarrow> buf
   \<Rightarrow> (bool \<times> buf) option" where
  "ReadVCN env d P getrec rec AttrType Vcn cnt mem =
     do {
       attr \<leftarrow> FindAttribute rec AttrType;
       inside \<leftarrow> (case attr of None \<Rightarrow> Some False
                 | Some a \<Rightarrow> do { lo \<leftarrow> rd64 rec (a + 16); hi \<leftarrow> rd64 rec (a + 24);
                                 Some (lo \<le> ucast Vcn \<and> ucast Vcn \<le> hi) });
       if inside then do { a \<leftarrow> attr; ReadExternalAttribute env d P rec a Vcn (ucast cnt) False mem 0 }
       else do {
         al \<leftarrow> FindAttribute rec AttributeAttributeList;
         b \<leftarrow> myalloc env d (ucast (SectorsPerFileRecord P) * 512);
         attrlist \<leftarrow> al;
         (r, b1) \<leftarrow> FindAttributeFromAttributeListEx getrec rec attrlist True AttrType Vcn b;
         (case r of
            None \<Rightarrow> Some (False, mem)
          | Some (a, _) \<Rightarrow> ReadExternalAttribute env d P b1 a Vcn (ucast cnt) False mem 0) } }"

text \<open>\<open>GetNtfsFileRecord\<close>: the sizes are words. \<open>mft\<close> is the record loaded by \<open>LoadMFT\<close>.\<close>

fun GetNtfsFileRecord ::
  "nat \<Rightarrow> 'd disk_env \<Rightarrow> 'd \<Rightarrow> WIN32_PARTITIONINFO \<Rightarrow> buf \<Rightarrow> u32 \<Rightarrow> buf \<Rightarrow> (bool \<times> buf) option" where
  "GetNtfsFileRecord 0 env d P mft Inode mem = None"
| "GetNtfsFileRecord (Suc depth) env d P mft Inode mem =
     do {
       let spc = (ucast (SectorsPerClr P) :: u16);
       let spf = SectorsPerFileRecord P;
       if spc = 0 \<or> spf = 0 then None
       else do {
         let (buffersize, cnt, offset) =
           (if spc \<le> spf then (spf * 512, spf div spc, 0)
            else (spc * 512, 1, (ucast Inode AND (spc div spf - 1)) * spf * 512));
         (case myalloc env d (ucast buffersize) of
            None \<Rightarrow> Some (False, mem)
          | Some temp \<Rightarrow> do {
              let vcn = (ucast (ucast Inode * ucast spf div ucast spc :: u64) :: u32);
              (ok, temp1) \<leftarrow> ReadVCN env d P (GetNtfsFileRecord depth env d P mft) mft AttributeData vcn
                (ucast cnt) temp;
              if \<not> ok then Some (False, mem)
              else do {
                bytes \<leftarrow> slice temp1 (unat offset) (unat spf * 512);
                mem1 \<leftarrow> put mem 0 bytes;
                (_, mem2) \<leftarrow> FixupInode mem1 (ucast spf);
                Some (True, mem2) } }) } }"

section \<open>Directories\<close>

text \<open>Whether the directory entry at \<open>e\<close> has the name; \<open>name\<close> is a terminated string.\<close>

definition dir_name_matches :: "buf \<Rightarrow> nat \<Rightarrow> u16 list \<Rightarrow> bool option" where
  "dir_name_matches b e name =
     do {
       len \<leftarrow> rd8 b (e + 80);
       n \<leftarrow> StrLength name;
       if unat len \<noteq> n then Some False
       else do { r \<leftarrow> mywcsnicmp name (word_pairs (drop (e + 82) b)) (unat len); Some (r = 0) } }"

partial_function (option) index_root_loop :: "buf \<Rightarrow> nat \<Rightarrow> nat \<Rightarrow> u16 list \<Rightarrow> nat \<Rightarrow> u32 option" where
  "index_root_loop rec attr attrlen name offset =
     (if offset < attrlen
      then if offset + DIRECTORY_ENTRY_SIZE \<ge> attrlen then Some 0
        else do {
          ref \<leftarrow> rd64 rec (attr + offset);
          hit \<leftarrow> (if ref \<noteq> 0 then dir_name_matches rec (attr + offset) name else Some False);
          if hit then Some (ucast ref)
          else do { len \<leftarrow> rd16 rec (attr + offset + 8);
                    index_root_loop rec attr attrlen name (offset + unat len) } }
      else Some 0)"

declare index_root_loop.simps [code]

definition FindIndexRecordInRootAttribute ::
  "nat \<Rightarrow> 'd disk_env \<Rightarrow> 'd \<Rightarrow> WIN32_PARTITIONINFO \<Rightarrow> buf \<Rightarrow> buf \<Rightarrow> u16 list \<Rightarrow> u32 option" where
  "FindIndexRecordInRootAttribute depth env d P mft rec name =
     do {
       attr \<leftarrow> FindAttribute rec AttributeIndexRoot;
       place \<leftarrow> (case attr of
          Some a \<Rightarrow> Some (Some (rec, a))
        | None \<Rightarrow> do {
            al \<leftarrow> FindAttribute rec AttributeAttributeList;
            (case al of
               None \<Rightarrow> Some None
             | Some lst \<Rightarrow>
                 (case myalloc env d (ucast (SectorsPerFileRecord P * 512)) of
                    None \<Rightarrow> Some None
                  | Some b \<Rightarrow> do {
                      (r, b1) \<leftarrow> FindAttributeFromAttributeListEx (GetNtfsFileRecord depth env d P mft)
                        rec lst True AttributeIndexRoot 0 b;
                      Some (map_option (\<lambda>(a, _). (b1, a)) r) })) });
       (case place of
          None \<Rightarrow> Some 0
        | Some (b, a) \<Rightarrow> do {
            len \<leftarrow> rd32 b (a + 4);
            nameoff \<leftarrow> rd16 b (a + 10);
            namelen \<leftarrow> rd8 b (a + 9);
            index_root_loop b a (unat len) name (unat nameoff + 2 * unat namelen + INDEX_ROOT_SIZE) }) }"

function entry_in_buffer :: "buf \<Rightarrow> nat \<Rightarrow> u16 \<Rightarrow> u16 list \<Rightarrow> nat \<Rightarrow> u32 option" where
  "entry_in_buffer b dir len name offset =
     (if offset + DIRECTORY_ENTRY_SIZE < unat len
      then do {
        ref \<leftarrow> rd64 b (dir + offset);
        elen \<leftarrow> rd16 b (dir + offset + 8);
        if elen \<noteq> 0 \<and> ref \<noteq> 0
        then do {
          hit \<leftarrow> (if DIRECTORY_ENTRY_SIZE \<le> unat elen then dir_name_matches b (dir + offset) name else Some False);
          if hit then Some (ucast ref)
          else if offset + unat elen > unat len then Some 0
          else entry_in_buffer b dir len name (offset + unat elen) }
        else Some 0 }
      else Some 0)"
  by pat_completeness auto
termination
  by (relation "measure (\<lambda>(b, dir, len, name, ofs). unat len - ofs)") (auto dest!: unat_gt_0 [THEN iffD2])

declare entry_in_buffer.simps [simp del]

definition FindFileEntryInBuffer :: "buf \<Rightarrow> nat \<Rightarrow> u16 \<Rightarrow> u16 list \<Rightarrow> u32 option" where
  "FindFileEntryInBuffer b dir len name = entry_in_buffer b dir len name 0"

text \<open>The loop over the index blocks of a directory.\<close>

partial_function (option) index_blocks_loop ::
  "'d disk_env \<Rightarrow> 'd \<Rightarrow> WIN32_PARTITIONINFO \<Rightarrow> buf \<Rightarrow> nat \<Rightarrow> u32 \<Rightarrow> u16 \<Rightarrow> u16 list \<Rightarrow> u32 \<Rightarrow> buf \<Rightarrow> u32 option" where
  "index_blocks_loop env d P rec attr attrlen bpi name offset mem =
     (if offset < attrlen
      then do {
        mem1 \<leftarrow> ReadAttribute env d P rec attr offset (ucast bpi) mem;
        (ok, mem2) \<leftarrow> FixupInode mem1 (ucast (SectorsPerIndxBlock P));
        if \<not> ok then Some 0
        else do {
          eo \<leftarrow> rd32 mem2 24;
          inode \<leftarrow> FindFileEntryInBuffer mem2 (24 + unat eo) (bpi - (24 + ucast eo)) name;
          if inode \<noteq> 0 then Some inode
          else index_blocks_loop env d P rec attr attrlen bpi name (offset + ucast bpi) mem2 } }
      else Some 0)"

declare index_blocks_loop.simps [code]

definition FindInodeFromNameInRoot ::
  "nat \<Rightarrow> 'd disk_env \<Rightarrow> 'd \<Rightarrow> WIN32_PARTITIONINFO \<Rightarrow> buf \<Rightarrow> buf \<Rightarrow> buf \<Rightarrow> (u32 \<times> buf) option" where
  "FindInodeFromNameInRoot depth env d P mft FileName mem =
     do {
       (ok, rec) \<leftarrow> GetNtfsFileRecord depth env d P mft INODE_ROOT_DIRECTORY mem;
       if \<not> ok then Some (0, rec)
       else do {
         name \<leftarrow> Ascii2Unicode FileName;
         inode \<leftarrow> FindIndexRecordInRootAttribute depth env d P mft rec name;
         if inode \<noteq> 0 then Some (inode, rec)
         else do {
           attr \<leftarrow> FindAttribute rec AttributeIndexAllocation;
           place \<leftarrow> (case attr of
              Some a \<Rightarrow> Some (Some (rec, a))
            | None \<Rightarrow> do {
                al \<leftarrow> FindAttribute rec AttributeAttributeList;
                (case al of
                   None \<Rightarrow> Some None
                 | Some lst \<Rightarrow>
                     (case myalloc env d (ucast (SectorsPerFileRecord P * 512)) of
                        None \<Rightarrow> Some None
                      | Some b \<Rightarrow> do {
                          (r, b1) \<leftarrow> FindAttributeFromAttributeListEx (GetNtfsFileRecord depth env d P mft)
                            rec lst True AttributeIndexAllocation 0 b;
                          Some (map_option (\<lambda>(a, _). (b1, a)) r) })) });
           (case place of
              None \<Rightarrow> Some (0, rec)
            | Some (b, a) \<Rightarrow> do {
                let bpi = SectorsPerIndxBlock P * 512;
                attrbuffer \<leftarrow> myalloc env d (ucast bpi);
                nonresident \<leftarrow> rd8 b (a + 8);
                attrlen \<leftarrow> (if nonresident \<noteq> 0 then map_option ucast (rd64 b (a + 40)) else rd32 b (a + 16));
                r \<leftarrow> index_blocks_loop env d P b a attrlen bpi name 0 attrbuffer;
                Some (r, rec) }) } } }"

section \<open>The list of sectors of a file\<close>

definition LoadMFT :: "'d disk_env \<Rightarrow> 'd \<Rightarrow> WIN32_PARTITIONINFO \<Rightarrow> (bool \<times> buf option) option" where
  "LoadMFT env d P =
     (case myalloc env d (ucast (SectorsPerFileRecord P * 512)) of
        None \<Rightarrow> Some (False, None)
      | Some m \<Rightarrow> do {
          (ok, m1) \<leftarrow> DiskRead env d (ucast (DiskNumber P)) (BootBegin P + MftBeginSector P)
            (ucast (SectorsPerFileRecord P)) m 0;
          if \<not> ok then Some (False, Some m1)
          else do { (ok2, m2) \<leftarrow> FixupInode m1 (ucast (SectorsPerFileRecord P)); Some (ok2, Some m2) } })"

text \<open>The runs of one attribute from cluster \<open>vcn\<close> on, at most \<open>room\<close> of them; \<open>vcn\<close> is a double word.\<close>

fun vcn_runs :: "buf \<Rightarrow> nat \<Rightarrow> nat \<Rightarrow> u32 \<Rightarrow> (SIZE_L list \<times> u32) option" where
  "vcn_runs rec attr 0 vcn = Some ([], vcn)"
| "vcn_runs rec attr (Suc room) vcn =
     do {
       (found, lcn, cnt) \<leftarrow> FindRun rec attr (ucast vcn) 0 0;
       if \<not> found then Some ([], vcn)
       else do { (rest, vcn') \<leftarrow> vcn_runs rec attr room (vcn + cnt);
                 Some (\<lparr>Begin = lcn, Number = cnt\<rparr> # rest, vcn') } }"

text \<open>The loop over the entries of an attribute list.\<close>

partial_function (option) attrlist_runs ::
  "(u32 \<Rightarrow> buf \<Rightarrow> (bool \<times> buf) option) \<Rightarrow> buf \<Rightarrow> nat \<Rightarrow> bool \<Rightarrow> u32 \<Rightarrow> u16 \<Rightarrow> nat \<Rightarrow> u32 \<Rightarrow> buf \<Rightarrow> SIZE_L list option" where
  "attrlist_runs getrec rec attrlist bAttrHeader attrlistlen offset room vcn b =
     (if ucast offset < attrlistlen
      then do {
        (r, b1) \<leftarrow> FindAttributeFromAttributeListEx getrec rec attrlist bAttrHeader AttributeData vcn b;
        (case r of
           None \<Rightarrow> Some []
         | Some (a, attroffset) \<Rightarrow> do {
             (runs, vcn') \<leftarrow> vcn_runs b1 a room vcn;
             if room \<le> length runs then Some runs
             else do {
               len \<leftarrow> rd16 rec (attrlist + unat attroffset + 4);
               rest \<leftarrow> attrlist_runs getrec rec (attrlist + unat attroffset + unat len) False attrlistlen
                 (offset + attroffset + len) (room - length runs) vcn' b1;
               Some (runs @ rest) } }) }
      else Some [])"

declare attrlist_runs.simps [code]

definition GetInodeVcnList ::
  "nat \<Rightarrow> 'd disk_env \<Rightarrow> 'd \<Rightarrow> WIN32_PARTITIONINFO \<Rightarrow> buf \<Rightarrow> buf \<Rightarrow> nat \<Rightarrow> SIZE_L list option" where
  "GetInodeVcnList depth env d P mft rec MaxListNumber =
     do {
       attr \<leftarrow> FindAttribute rec AttributeData;
       (case attr of
          Some a \<Rightarrow> map_option fst (vcn_runs rec a MaxListNumber 0)
        | None \<Rightarrow> do {
            al \<leftarrow> FindAttribute rec AttributeAttributeList;
            (case al of
               None \<Rightarrow> Some []
             | Some lst \<Rightarrow> do {
                 b \<leftarrow> myalloc env d (ucast (SectorsPerFileRecord P) * 512);
                 len \<leftarrow> rd32 rec (lst + 4);
                 attrlist_runs (GetNtfsFileRecord depth env d P mft) rec lst True len 0 MaxListNumber 0 b }) }) }"

definition to_sectors :: "WIN32_PARTITIONINFO \<Rightarrow> SIZE_L \<Rightarrow> SIZE_L" where
  "to_sectors P r = \<lparr>Begin = Begin r * ucast (SectorsPerClr P), Number = Number r * ucast (SectorsPerClr P)\<rparr>"

definition GetInodeSectorList ::
  "nat \<Rightarrow> 'd disk_env \<Rightarrow> 'd \<Rightarrow> WIN32_PARTITIONINFO \<Rightarrow> buf \<Rightarrow> buf \<Rightarrow> nat \<Rightarrow> SIZE_L list option" where
  "GetInodeSectorList depth env d P mft rec MaxListNumber =
     map_option (map (to_sectors P)) (GetInodeVcnList depth env d P mft rec MaxListNumber)"

definition DumpFileSectorListNtfs ::
  "nat \<Rightarrow> 'd disk_env \<Rightarrow> 'd \<Rightarrow> WIN32_PARTITIONINFO \<Rightarrow> buf \<Rightarrow> nat \<Rightarrow> SIZE_L list option" where
  "DumpFileSectorListNtfs depth env d P FileName MaxListNumber =
     do {
       (ok, m) \<leftarrow> LoadMFT env d P;
       (case m of
          None \<Rightarrow> Some []
        | Some mft \<Rightarrow>
            if \<not> ok then Some []
            else (case myalloc env d (ucast (SectorsPerFileRecord P) * 512) of
              None \<Rightarrow> Some []
            | Some b \<Rightarrow> do {
                (inode, b1) \<leftarrow> FindInodeFromNameInRoot depth env d P mft FileName b;
                if inode = 0 then Some []
                else do {
                  (_, b2) \<leftarrow> GetNtfsFileRecord depth env d P mft inode b1;
                  GetInodeSectorList depth env d P mft b2 MaxListNumber } })) }"

section \<open>The list of an attribute\<close>

definition list_element :: "extent \<Rightarrow> SIZE_L" where
  "list_element e = \<lparr>Begin = (case snd (snd e) of None \<Rightarrow> 0 | Some l \<Rightarrow> l), Number = of_nat (fst (snd e))\<rparr>"

lemma extents_append:
  "extents lcn v (rs @ rs') = extents lcn v rs @ extents (lcn + sum_list (map fst rs)) (v + clusters_of rs) rs'"
  by (induction lcn v rs rule: extents.induct) (auto simp: clusters_of_def add.assoc)

lemma clusters_of_simps [simp]:
  "clusters_of [] = 0" "clusters_of (r # rs) = unat (snd r) + clusters_of rs" "clusters_of (rs @ rs') = clusters_of rs + clusters_of rs'"
  by (simp_all add: clusters_of_def)

lemma find_covers_skip:
  "find (covers (v + clusters_of rs)) (extents lcn v rs @ es) = find (covers (v + clusters_of rs)) es"
proof (induction lcn v rs rule: extents.induct)
  case (2 lcn v delta c rs)
  then show ?case by (simp add: covers_def add.assoc)
qed simp

lemma cluster_unat: "n < 2 ^ 32 \<Longrightarrow> unat (ucast (of_nat n :: u32) :: u64) = n"
  by (simp add: unsigned_ucast_eq unsigned_of_nat take_bit_nat_eq_self)

lemma FindRun_start:
  assumes "rd64 rec (a + 16) = Some 0" "rd64 rec (a + 24) = Some high" "rd16 rec (a + 32) = Some off"
    and rs: "runs_at rec (a + unat off) = Some (rs1 @ (delta, c) # rs2)" "clusters_of (rs1 @ (delta, c) # rs2) = Suc (unat high)"
      "clusters_of (rs1 @ (delta, c) # rs2) < 2 ^ 32" "c \<noteq> 0"
  shows "FindRun rec a (ucast (of_nat (clusters_of rs1) :: u32)) l0 c0 =
    Some (True, if delta = 0 then 0 else sum_list (map fst rs1) + delta, c)"
proof -
  let ?v = "ucast (of_nat (clusters_of rs1) :: u32) :: u64"
  have v: "unat ?v = clusters_of rs1" using rs(3) by (intro cluster_unat) simp
  have "0 < unat c" using rs(4) by (simp add: unat_gt_0)
  then have "?v \<le> high" using rs(2) v by (simp add: word_le_nat_alt)
  then have fr: "FindRun rec a ?v l0 c0 = find_run_from rec ?v (a + unat off) 0 0 c0"
    using assms(1-3) by (auto simp: FindRun_def)
  let ?e = "(clusters_of rs1, unat c, if delta = 0 then None else Some (sum_list (map fst rs1) + delta))"
  have "find (covers (unat ?v)) (extents 0 0 (rs1 @ (delta, c) # rs2)) = Some ?e"
    using find_covers_skip [of 0 rs1 0] \<open>0 < unat c\<close> unfolding v extents_append by (simp add: covers_def)
  then have "find_run_from rec ?v (a + unat off) 0 0 c0 = Some (True, extent_lcn ?v ?e, extent_rest ?v ?e)"
    using find_run_from_extents [OF rs(1), of 0 ?v 0 c0] rs(3) by auto
  moreover have "of_nat (clusters_of rs1) = ?v" using ucast_unat_eq [OF v, where 'b = 64] by simp
  ultimately show ?thesis unfolding fr using v by (simp add: extent_lcn_def extent_rest_def)
qed


lemma vcn_runs_extents:
  assumes a: "rd64 rec (a + 16) = Some 0" "rd64 rec (a + 24) = Some high" "rd16 rec (a + 32) = Some off"
    and rs: "runs_at rec (a + unat off) = Some rs" "clusters_of rs = Suc (unat high)" "clusters_of rs < 2 ^ 32"
      "0 \<notin> snd ` set rs"
  shows "rs = rs1 @ rs2 \<Longrightarrow> length rs2 < room \<Longrightarrow>
    vcn_runs rec a room (of_nat (clusters_of rs1)) =
      Some (map list_element (extents (sum_list (map fst rs1)) (clusters_of rs1) rs2), of_nat (clusters_of rs))"
proof (induction rs2 arbitrary: rs1 room)
  case Nil
  then obtain k where room: "room = Suc k" by (cases room) auto
  let ?v = "ucast (of_nat (clusters_of rs1) :: u32) :: u64"
  have "unat ?v = Suc (unat high)"
    using rs(2,3) Nil cluster_unat [of "clusters_of rs1"] by simp
  then have "high < ?v" by (simp add: word_less_nat_alt)
  then have "FindRun rec a ?v 0 0 = Some (False, 0, 0)" using a by (simp add: FindRun_def)
  then show ?case using Nil room by simp
next
  case (Cons r rs2)
  obtain delta c where r: "r = (delta, c)" by force
  obtain k where room: "room = Suc k" "length rs2 < k" using Cons.prems(2) by (cases room) auto
  have c: "c \<noteq> 0" using rs(4) Cons.prems(1) r by auto
  have f: "FindRun rec a (ucast (of_nat (clusters_of rs1) :: u32)) 0 0 =
      Some (True, if delta = 0 then 0 else sum_list (map fst rs1) + delta, c)"
    by (rule FindRun_start [OF a rs(1-3) [unfolded Cons.prems(1) r] c])
  have "vcn_runs rec a k (of_nat (clusters_of (rs1 @ [r]))) =
      Some (map list_element (extents (sum_list (map fst (rs1 @ [r]))) (clusters_of (rs1 @ [r])) rs2), of_nat (clusters_of rs))"
    by (rule Cons.IH) (use Cons.prems(1) room in simp_all)
  then show ?case using f r room(1) by (simp add: list_element_def add.commute)
qed

text \<open>
  C25. For a file whose data attribute is in its own record, GetInodeVcnList returns one element
  per run, in order, with the first cluster on the volume (0 for a run without an offset) and
  the number of clusters.
\<close>

theorem GetInodeVcnList_extents:
  assumes "FindAttribute rec AttributeData = Some (Some a)"
    and "rd64 rec (a + 16) = Some 0" "rd64 rec (a + 24) = Some high" "rd16 rec (a + 32) = Some off"
    and "runs_at rec (a + unat off) = Some rs" "clusters_of rs = Suc (unat high)" "clusters_of rs < 2 ^ 32"
    and "0 \<notin> snd ` set rs" "length rs < MaxListNumber"
  shows "GetInodeVcnList depth env d P mft rec MaxListNumber = Some (map list_element (extents 0 0 rs))"
  using vcn_runs_extents [OF assms(2-8), of "[]" rs MaxListNumber] assms(1,9) by (simp add: GetInodeVcnList_def)

theorem GetInodeVcnList_extents_witness:
  "GetInodeVcnList 0 (ram_env 1) (\<lambda>_. []) empty_partition [] sample_record 10 =
    Some [\<lparr>Begin = 3, Number = 5\<rparr>, \<lparr>Begin = 0, Number = 2\<rparr>, \<lparr>Begin = 2, Number = 1\<rparr>]"
proof -
  have 1: "FindAttribute sample_record AttributeData = Some (Some 32)" "rd64 sample_record (32 + 16) = Some 0"
      "rd64 sample_record (32 + 24) = Some 7" "rd16 sample_record (32 + 32) = Some 40"
      "runs_at sample_record (32 + unat (40 :: u16)) = Some [(3, 5), (0, 2), (- 1, 1)]"
    by code_simp+
  show ?thesis using GetInodeVcnList_extents [OF 1, of 10 0 "ram_env 1" "\<lambda>_. []" empty_partition "[]"]
    by (simp add: list_element_def)
qed

end
