(* ===== verification/Okr_FatFile.thy ===== *)
theory Okr_FatFile
  imports Okr_NtfsFile
begin

unbundle bit_operations_syntax

text \<open>
  Files of a FAT volume, \<^verbatim>\<open>src/OkrPkg/okrefi/getlist.c\<close>: names in directory form, the search of the root
  directory, the cached allocation table and the list of clusters of a file.

  \<open>ptr\<close> is the size of a pointer, 4 or 8: \<open>FAT_DIRECTORY_ENTRY\<close> has a pointer member, so that its size
  and the places of the cluster number depend on the machine. The buffer \<open>g_FatBuffer\<close> and the two
  variables that say what it holds are the record \<open>fat_cache\<close>.
\<close>

definition FAT32_EOF :: u32 where "FAT32_EOF = 0x0FFFFFFF"

definition DIR_ENTRY_SIZE :: "nat \<Rightarrow> nat" where
  "DIR_ENTRY_SIZE ptr = (if ptr = 4 then 32 else 40)"
definition firstclr_hi_at :: "nat \<Rightarrow> nat" where
  "firstclr_hi_at ptr = (if ptr = 4 then 20 else 28)"
definition firstclr_at :: "nat \<Rightarrow> nat" where
  "firstclr_at ptr = (if ptr = 4 then 26 else 34)"

section \<open>Names\<close>

text \<open>\<open>RevertFileName\<close>: \<open>i\<close> is the counter of the code and \<open>out\<close> what was written to \<open>DosName\<close>, which
  has room for 12 characters.\<close>

definition dos_upper :: "byte \<Rightarrow> byte" where
  "dos_upper c = (if 0x61 \<le> c \<and> c \<le> 0x7a then c - 0x20 else c)"

function revert_loop :: "byte list \<Rightarrow> nat \<Rightarrow> byte list \<Rightarrow> (bool \<times> byte list) option" where
  "revert_loop [] i out = None"
| "revert_loop (c # cs) i out =
     (if 12 < length out then None
      else if c = 0
      then (let out' = out @ replicate (11 - i) 0x20 in if 12 < length out' then None else Some (True, out'))
      else if 11 < i then Some (False, out)
      else if c \<noteq> 0x2e then revert_loop cs (Suc i) (out @ [dos_upper c])
      else if i = 0
      then (case cs of
          [] \<Rightarrow> None
        | c' # cs' \<Rightarrow>
            if c' = 0x2e then revert_loop cs' 11 (out @ [0x2e, c'] @ replicate 9 0x20)
            else if c' = 0 then revert_loop cs 11 (out @ [0x2e] @ replicate 10 0x20)
            else revert_loop cs 8 (out @ replicate 8 0x20))
      else if i < 8 then revert_loop cs 8 (out @ replicate (8 - i) 0x20)
      else if 8 < i then revert_loop cs (Suc i) (out @ [0x2e])
      else revert_loop cs i out)"
  by pat_completeness auto
termination by (relation "measure (\<lambda>(cs, i, out). length cs)") auto

definition RevertFileName :: "byte list \<Rightarrow> (bool \<times> byte list) option" where
  "RevertFileName name = revert_loop name 0 []"

text \<open>\<open>GetDirectoryItem\<close>: the offset of the entry, and \<open>Some None\<close> when it is not found. The size is a
  16-bit word that is only compared with 0.\<close>

partial_function (option) find_item :: "nat \<Rightarrow> byte list \<Rightarrow> buf \<Rightarrow> nat \<Rightarrow> u16 \<Rightarrow> nat option option" where
  "find_item ptr name b at BufferSize =
     (if BufferSize = 0 then Some None
      else do {
        c \<leftarrow> rd8 b at;
        if c = 0 then Some None
        else do {
          r \<leftarrow> strnicmp name (drop at b) 11;
          if r = 0 then Some (Some at)
          else find_item ptr name b (at + DIR_ENTRY_SIZE ptr) (BufferSize - of_nat (DIR_ENTRY_SIZE ptr)) } })"

declare find_item.simps [code]

definition GetDirectoryItem :: "nat \<Rightarrow> byte list \<Rightarrow> buf \<Rightarrow> u16 \<Rightarrow> nat option option" where
  "GetDirectoryItem ptr FileName b BufferSize =
     do { (_, name) \<leftarrow> RevertFileName FileName; find_item ptr (take 11 name @ [0]) b 0 BufferSize }"

section \<open>The allocation table\<close>

record fat_cache =
  g_FatBuffer :: buf
  g_FatLoadedSector :: u64
  g_FatLoadedCount :: u16

text \<open>The result is the offset of the sector in \<open>g_FatBuffer\<close>.\<close>

definition GetFatTable ::
  "'d disk_env \<Rightarrow> 'd \<Rightarrow> WIN32_PARTITIONINFO \<Rightarrow> u64 \<Rightarrow> fat_cache \<Rightarrow> (nat \<times> fat_cache) option" where
  "GetFatTable env d P FatSector c =
     (let offset = (ucast (FatSector - g_FatLoadedSector c) :: u32) in
      if ucast (g_FatLoadedCount c) \<le> offset
      then do {
        (_, mem) \<leftarrow> DiskRead env d (ucast (DiskNumber P)) (FatSector + BootBegin P) 128 (g_FatBuffer c) 0;
        Some (0, \<lparr>g_FatBuffer = mem, g_FatLoadedSector = FatSector, g_FatLoadedCount = 128\<rparr>) }
      else Some (unat offset * SECTOR_SIZE, c))"

definition GetNextClusterNumber ::
  "'d disk_env \<Rightarrow> 'd \<Rightarrow> WIN32_PARTITIONINFO \<Rightarrow> u32 \<Rightarrow> fat_cache \<Rightarrow> (u32 \<times> fat_cache) option" where
  "GetNextClusterNumber env d P Cluster c =
     (if PartitionType P = FAT16
      then do {
        (at, c') \<leftarrow> GetFatTable env d P (ucast (Cluster div 256 + FirstFatSector P)) c;
        x \<leftarrow> rd16 (g_FatBuffer c') (at + 2 * unat (Cluster AND 255));
        Some (ucast x, c') }
      else do {
        (at, c') \<leftarrow> GetFatTable env d P (ucast (Cluster div 128 + FirstFatSector P)) c;
        x \<leftarrow> rd32 (g_FatBuffer c') (at + 4 * unat (Cluster AND 127));
        Some (x, c') })"

section \<open>The list of clusters of a file\<close>

text \<open>The search of one run of sectors, 64 at a time. \<open>buf\<close> has 0x8000 bytes.\<close>

function search_sectors ::
  "'d disk_env \<Rightarrow> 'd \<Rightarrow> nat \<Rightarrow> WIN32_PARTITIONINFO \<Rightarrow> byte list \<Rightarrow> u64 \<Rightarrow> u32 \<Rightarrow> buf \<Rightarrow> (nat option \<times> buf) option" where
  "search_sectors env d ptr P name sector left b =
     (if left = 0 then Some (None, b)
      else do {
        let cnt = (if 64 < left then 64 else left);
        (_, b1) \<leftarrow> DiskRead env d (ucast (DiskNumber P)) sector cnt b 0;
        r \<leftarrow> GetDirectoryItem ptr name b1 (ucast cnt * 512);
        (case r of
           Some at \<Rightarrow> Some (Some at, b1)
         | None \<Rightarrow> search_sectors env d ptr P name (sector + ucast cnt) (left - cnt) b1) })"
  by pat_completeness auto
termination
proof (relation "measure (\<lambda>(env, d, ptr, P, name, sector, left, b). unat left)", goal_cases)
  case (2 env d ptr P name sector left b cnt)
  then have "0 < unat left" "unat cnt \<le> unat left" "0 < unat cnt"
    by (auto simp: unat_gt_0 word_less_nat_alt)
  moreover from this have "unat (left - cnt) = unat left - unat cnt" by (simp add: unat_sub_no_wrap)
  ultimately show ?case by simp
qed simp

declare search_sectors.simps [simp del]

text \<open>The root directory of a FAT32 volume is a chain of clusters.\<close>

partial_function (option) search_root ::
  "'d disk_env \<Rightarrow> 'd \<Rightarrow> nat \<Rightarrow> WIN32_PARTITIONINFO \<Rightarrow> byte list \<Rightarrow> u64 \<Rightarrow> u32 \<Rightarrow> fat_cache \<Rightarrow> buf
   \<Rightarrow> (nat option \<times> fat_cache \<times> buf) option" where
  "search_root env d ptr V name databegin clr c b =
     (if clr = 0 \<or> clr = FAT32_EOF then Some (None, c, b)
      else do {
        (r, b1) \<leftarrow> search_sectors env d ptr V name (databegin + ucast ((clr - 2) * ucast (SectorsPerClr V)))
          (ucast (SectorsPerClr V)) b;
        (case r of
           Some at \<Rightarrow> Some (Some at, c, b1)
         | None \<Rightarrow> do { (next, c1) \<leftarrow> GetNextClusterNumber env d V clr c;
                       search_root env d ptr V name databegin next c1 b1 }) })"

declare search_root.simps [code]

text \<open>The loop that collects the runs. \<open>clr\<close> keeps its value. \<open>lst\<close> are the finished elements of
  \<open>pList\<close> and \<open>beg\<close> is the \<open>Begin\<close> of the one behind them.\<close>

partial_function (option) fat_runs ::
  "'d disk_env \<Rightarrow> 'd \<Rightarrow> WIN32_PARTITIONINFO \<Rightarrow> nat \<Rightarrow> u32 \<Rightarrow> SIZE_L list \<Rightarrow> u64 \<Rightarrow> u32 \<Rightarrow> fat_cache \<Rightarrow> SIZE_L list option" where
  "fat_runs env d V MaxListNumber clr lst beg cnt c =
     (if length lst < MaxListNumber
      then do {
        (nextclr, c') \<leftarrow> GetNextClusterNumber env d V clr c;
        if (if PartitionType V = FAT16 then 0xfff0 else 0x0ffffff0) \<le> clr \<or> nextclr = 0
        then Some (lst @ [\<lparr>Begin = beg, Number = cnt\<rparr>])
        else if nextclr = clr + 1 then fat_runs env d V MaxListNumber clr lst beg (cnt + 1) c'
        else if Suc (length lst) < MaxListNumber
        then fat_runs env d V MaxListNumber clr (lst @ [\<lparr>Begin = beg, Number = cnt\<rparr>]) (ucast clr) 1 c'
        else None }
      else None)"

declare fat_runs.simps [code]

definition DumpFileSectorListFAT ::
  "nat \<Rightarrow> 'd disk_env \<Rightarrow> 'd \<Rightarrow> WIN32_PARTITIONINFO \<Rightarrow> byte list \<Rightarrow> nat \<Rightarrow> SIZE_L list option" where
  "DumpFileSectorListFAT ptr env d P FileName MaxListNumber =
     (case myalloc env d 0x10000 of
        None \<Rightarrow> Some []
      | Some fatbuffer \<Rightarrow>
          let c = \<lparr>g_FatBuffer = fatbuffer, g_FatLoadedSector = 0, g_FatLoadedCount = 0\<rparr> in
          (case myalloc env d 0x8000 of
             None \<Rightarrow> Some []
           | Some b \<Rightarrow> do {
               let databegin = BootBegin P + ucast (FirstFatSector P + SectorsPerFAT P * ucast (FatCopies P));
               (r, c1, b1) \<leftarrow>
                 (if PartitionType P = FAT16
                  then do { (r, b1) \<leftarrow> search_sectors env d ptr P FileName databegin (RootSectors P) b; Some (r, c, b1) }
                  else search_root env d ptr P FileName databegin (RootDirClr P) c b);
               (case r of
                  None \<Rightarrow> Some []
                | Some at \<Rightarrow> do {
                    lo \<leftarrow> rd16 b1 (at + firstclr_at ptr);
                    hi \<leftarrow> (if PartitionType P = FAT16 then Some 0 else rd16 b1 (at + firstclr_hi_at ptr));
                    let clr = (push_bit 16 (ucast hi) + ucast lo :: u32);
                    runs \<leftarrow> fat_runs env d P MaxListNumber clr [] (ucast clr) 1 c1;
                    Some (map (to_sectors P) runs) }) }))"


section \<open>Names in directory form\<close>

definition padded :: "nat \<Rightarrow> byte list \<Rightarrow> byte list" where
  "padded n s = map dos_upper s @ replicate (n - length s) 0x20"

definition plain_name :: "byte list \<Rightarrow> bool" where
  "plain_name s \<longleftrightarrow> 0 \<notin> set s \<and> 0x2e \<notin> set s"

lemma revert_loop_plain:
  assumes "plain_name s" "i + length s \<le> 11" "length out = i"
  shows "revert_loop (s @ rest) i out = revert_loop rest (i + length s) (out @ map dos_upper s)"
  using assms
proof (induction s arbitrary: i out)
  case (Cons c s)
  then have "revert_loop (c # s @ rest) i out = revert_loop (s @ rest) (Suc i) (out @ [dos_upper c])"
    by (auto simp: plain_name_def)
  also have "\<dots> = revert_loop rest (Suc i + length s) ((out @ [dos_upper c]) @ map dos_upper s)"
    by (rule Cons.IH) (use Cons.prems in \<open>auto simp: plain_name_def\<close>)
  finally show ?case by simp
qed simp

text \<open>
  RevertFileName turns a name of one to eight characters with an extension of at most three
  into the eleven characters of a directory entry: upper case, each part padded with blanks.
\<close>

lemma RevertFileName_8_3:
  assumes base: "plain_name b" "0 < length b" "length b \<le> 8" and ext: "plain_name e" "length e \<le> 3"
  shows "RevertFileName (b @ 0x2e # e @ 0 # rest) = Some (True, padded 8 b @ padded 3 e)"
proof -
  have "RevertFileName (b @ 0x2e # e @ 0 # rest) = revert_loop (0x2e # e @ 0 # rest) (length b) (map dos_upper b)"
    unfolding RevertFileName_def using revert_loop_plain [OF base(1), of 0 "[]"] base by simp
  also have "\<dots> = revert_loop (e @ 0 # rest) 8 (padded 8 b)"
    using base by (auto simp: padded_def)
  also have "\<dots> = revert_loop (0 # rest) (8 + length e) (padded 8 b @ map dos_upper e)"
    by (rule revert_loop_plain) (use ext base in \<open>auto simp: padded_def\<close>)
  also have "\<dots> = Some (True, padded 8 b @ padded 3 e)"
    using ext base by (simp add: padded_def Let_def)
  finally show ?thesis .
qed

lemma RevertFileName_8_3_witness:
  "RevertFileName ([0x68, 0x69] @ 0x2e # [0x73] @ 0 # []) =
    Some (True, padded 8 [0x68, 0x69] @ padded 3 [0x73])"
  by (rule RevertFileName_8_3) (simp_all add: plain_name_def)

section \<open>The cached table\<close>

text \<open>The entry of a cluster as the disk has it; \<open>G\<close> gives the sectors.\<close>

definition fat_sector :: "WIN32_PARTITIONINFO \<Rightarrow> u32 \<Rightarrow> u32" where
  "fat_sector P cl = (if PartitionType P = FAT16 then cl div 256 else cl div 128) + FirstFatSector P"

definition fat_entry :: "(nat \<Rightarrow> buf) \<Rightarrow> WIN32_PARTITIONINFO \<Rightarrow> u32 \<Rightarrow> u32 option" where
  "fat_entry G P cl =
     (let sector = G (unat (fat_sector P cl) + unat (BootBegin P)) in
      if PartitionType P = FAT16 then map_option ucast (rd16 sector (2 * unat (cl AND 255)))
      else rd32 sector (4 * unat (cl AND 127)))"

definition cache_ok :: "(nat \<Rightarrow> buf) \<Rightarrow> WIN32_PARTITIONINFO \<Rightarrow> fat_cache \<Rightarrow> bool" where
  "cache_ok G P c \<longleftrightarrow> 65536 \<le> length (g_FatBuffer c) \<and>
     (g_FatLoadedCount c = 0 \<or>
      g_FatLoadedCount c = 128 \<and> unat (g_FatLoadedSector c) + 128 \<le> 2 ^ 32 \<and>
      (\<forall>i < 128. take 512 (drop (i * 512) (g_FatBuffer c)) = G (unat (g_FatLoadedSector c) + unat (BootBegin P) + i)))"

definition fat_inside :: "nat \<Rightarrow> WIN32_PARTITIONINFO \<Rightarrow> u32 \<Rightarrow> bool" where
  "fat_inside secs P cl \<longleftrightarrow> unat (fat_sector P cl) + 128 \<le> 2 ^ 32 \<and>
     unat (fat_sector P cl) + unat (BootBegin P) + 128 \<le> secs \<and> secs < 2 ^ 64"

lemma word_distance:
  fixes F :: u32 and L :: u64
  assumes "unat F + 128 \<le> 2 ^ 32" "unat L + 128 \<le> 2 ^ 32" "unat (ucast (ucast F - L) :: u32) < 128"
  shows "unat F = unat L + unat (ucast (ucast F - L) :: u32)"
proof -
  have u: "unat (ucast (ucast F - L) :: u32) = unat (ucast F - L) mod 2 ^ 32"
    by (simp add: unsigned_ucast_eq take_bit_eq_mod)
  show ?thesis
  proof (cases "unat L \<le> unat F")
    case True
    then have "unat (ucast F - L) = unat F - unat L" by (simp add: unat_sub_if')
    then show ?thesis using u True assms(1) by simp
  next
    case False
    then have "unat (ucast F - L) = 2 ^ 64 - (unat L - unat F)" by (simp add: unat_sub_if')
    also have "\<dots> = (2 ^ 32 - (unat L - unat F)) + (2 ^ 32 - 1) * 2 ^ 32" using assms(2) by simp
    finally have "unat (ucast (ucast F - L) :: u32) = (2 ^ 32 - (unat L - unat F)) mod 2 ^ 32"
      unfolding u by (simp only: mod_mult_self1)
    moreover have "2 ^ 32 - (unat L - unat F) < 2 ^ 32" "128 \<le> 2 ^ 32 - (unat L - unat F)" using False assms(2) by auto
    ultimately show ?thesis using assms(3) by simp
  qed
qed

lemma length_sectors: "(\<And>i. length (G i) = 512) \<Longrightarrow> length (concat (map G [s..<s + n])) = n * 512"
  by (induction n) (simp_all add: add.commute)

lemma fat_sector_at:
  assumes "\<And>i. length (G i) = 512" "i < n"
  shows "take 512 (drop (i * 512) (concat (map G [s..<s + n]) @ rest)) = G (s + i)"
proof -
  note len = length_sectors [where G = G, OF assms(1)]
  have "[s..<s + n] = [s..<s + i] @ (s + i) # [Suc (s + i)..<s + n]"
    using assms(2) upt_add_eq_append [of s "s + i" "n - i"] upt_conv_Cons [of "s + i" "s + n"] by simp
  then have "concat (map G [s..<s + n]) = concat (map G [s..<s + i]) @ G (s + i) @ concat (map G [Suc (s + i)..<s + n])"
    by simp
  then show ?thesis using len [of s i] assms(1) by simp
qed

lemma GetFatTable_sector:
  assumes dev: "reads_sectors env sec (ucast (DiskNumber P)) secs" "ucast (DiskNumber P) < g_disknum env"
    and ok: "cache_ok (sec d (ucast (DiskNumber P))) P c" and cl: "fat_inside secs P cl"
  shows "\<exists>at c'. GetFatTable env d P (ucast (fat_sector P cl)) c = Some (at, c') \<and>
    cache_ok (sec d (ucast (DiskNumber P))) P c' \<and> at + 512 \<le> length (g_FatBuffer c') \<and>
    take 512 (drop at (g_FatBuffer c')) = sec d (ucast (DiskNumber P)) (unat (fat_sector P cl) + unat (BootBegin P))"
proof -
  let ?k = "ucast (DiskNumber P) :: u16" and ?F = "fat_sector P cl"
  let ?G = "sec d ?k"
  define off where "off = (ucast (ucast ?F - g_FatLoadedSector c) :: u32)"
  have G: "length (?G i) = 512" for i using dev(1) by (simp add: reads_sectors_def)
  have rd: "ReadBlocks env d ?k lba (512 * n) = Some (concat (map ?G [unat lba..<unat lba + unat n]))"
    if "0 < unat n" "unat n \<le> 2048" "unat lba + unat n \<le> secs" for n lba
    using dev(1) that by (simp add: reads_sectors_def)
  show ?thesis
  proof (cases "ucast (g_FatLoadedCount c) \<le> off")
    case True
    have "unat (ucast ?F + BootBegin P) = unat ?F + unat (BootBegin P)"
      using cl by (subst unat_add_no_wrap) (simp_all add: fat_inside_def)
    then have rb: "ReadBlocks env d ?k (ucast ?F + BootBegin P) (512 * 128) =
        Some (concat (map ?G [unat ?F + unat (BootBegin P)..<unat ?F + unat (BootBegin P) + 128]))" (is "_ = Some ?bytes")
      using rd [of 128 "ucast ?F + BootBegin P"] cl by (simp add: fat_inside_def)
    have lb: "length ?bytes = 65536" by (simp add: length_sectors G)
    define mem where "mem = ?bytes @ drop 65536 (g_FatBuffer c)"
    have "put (g_FatBuffer c) 0 ?bytes = Some mem"
      using ok lb by (simp add: put_def mem_def cache_ok_def)
    then have "GetFatTable env d P (ucast ?F) c = Some (0, \<lparr>g_FatBuffer = mem, g_FatLoadedSector = ucast ?F, g_FatLoadedCount = 128\<rparr>)"
      using True rb dev(2) unfolding GetFatTable_def Let_def off_def by (simp add: DiskRead_def not_le [symmetric])
    moreover have "take 512 (drop (i * 512) mem) = ?G (unat ?F + unat (BootBegin P) + i)" if "i < 128" for i
      unfolding mem_def by (rule fat_sector_at [OF G that])
    moreover from this [of 0] have "take 512 mem = ?G (unat ?F + unat (BootBegin P))" by simp
    moreover have "65536 \<le> length mem" using lb ok by (simp add: mem_def)
    ultimately show ?thesis using cl by (auto simp: cache_ok_def fat_inside_def)
  next
    case False
    then have cnt: "g_FatLoadedCount c = 128" "unat (g_FatLoadedSector c) + 128 \<le> 2 ^ 32" "65536 \<le> length (g_FatBuffer c)"
        "\<And>i. i < 128 \<Longrightarrow> take 512 (drop (i * 512) (g_FatBuffer c)) = ?G (unat (g_FatLoadedSector c) + unat (BootBegin P) + i)"
      using ok by (auto simp: cache_ok_def)
    then have off: "unat off < 128" using False by (simp add: word_less_nat_alt not_le)
    have F: "unat ?F = unat (g_FatLoadedSector c) + unat off"
      by (rule word_distance [OF _ cnt(2) off [unfolded off_def], folded off_def]) (use cl in \<open>simp add: fat_inside_def\<close>)
    have "GetFatTable env d P (ucast ?F) c = Some (unat off * 512, c)"
      using False unfolding GetFatTable_def Let_def off_def by (simp add: SECTOR_SIZE_def)
    moreover have "unat off * 512 + 512 \<le> length (g_FatBuffer c)" using off cnt(3) by simp
    ultimately show ?thesis using ok cnt(4) [OF off] F by (simp add: add.commute add.left_commute)
  qed
qed


lemma rd_le_sector:
  assumes "take 512 (drop at b) = x" "at + 512 \<le> length b" "i + n \<le> 512"
  shows "rd_le n b (at + i) = rd_le n x i"
  using assms by (auto simp: rd_le_def drop_take add.commute)

text \<open>
  C27. GetNextClusterNumber returns the entry of the cluster in the allocation table on disk,
  whatever part of the table is in the buffer, and leaves the buffer in agreement with the disk.
\<close>

theorem GetNextClusterNumber_direct:
  assumes dev: "reads_sectors env sec (ucast (DiskNumber P)) secs" "ucast (DiskNumber P) < g_disknum env"
    and ok: "cache_ok (sec d (ucast (DiskNumber P))) P c" and cl: "fat_inside secs P cl"
  shows "\<exists>n c'. GetNextClusterNumber env d P cl c = Some (n, c') \<and>
    fat_entry (sec d (ucast (DiskNumber P))) P cl = Some n \<and> cache_ok (sec d (ucast (DiskNumber P))) P c'"
proof -
  let ?G = "sec d (ucast (DiskNumber P))"
  obtain at c' where t: "GetFatTable env d P (ucast (fat_sector P cl)) c = Some (at, c')" "cache_ok ?G P c'"
      "at + 512 \<le> length (g_FatBuffer c')"
      "take 512 (drop at (g_FatBuffer c')) = ?G (unat (fat_sector P cl) + unat (BootBegin P))" (is "_ = ?s")
    using GetFatTable_sector [OF assms] by blast
  have len: "length ?s = 512" using dev(1) by (simp add: reads_sectors_def)
  have i: "unat (cl AND 255) < 256" "unat (cl AND 127) < 128"
    using word_and_le1 [of cl 255] word_and_le1 [of cl 127] by (simp_all add: word_le_nat_alt and.commute)
  show ?thesis
  proof (cases "PartitionType P = FAT16")
    case True
    have "rd16 (g_FatBuffer c') (at + 2 * unat (cl AND 255)) = rd16 ?s (2 * unat (cl AND 255))"
      unfolding rd16_def by (rule rd_le_sector [OF t(4,3)]) (use i in simp)
    moreover obtain x where "rd16 ?s (2 * unat (cl AND 255)) = Some x"
      using len i by (simp add: rd16_def rd_le_def slice_def)
    ultimately show ?thesis
      using t(1,2) True unfolding GetNextClusterNumber_def fat_entry_def Let_def fat_sector_def by auto
  next
    case False
    have "rd32 (g_FatBuffer c') (at + 4 * unat (cl AND 127)) = rd32 ?s (4 * unat (cl AND 127))"
      unfolding rd32_def by (rule rd_le_sector [OF t(4,3)]) (use i in simp)
    moreover obtain x where "rd32 ?s (4 * unat (cl AND 127)) = Some x"
      using len i by (simp add: rd32_def rd_le_def slice_def)
    ultimately show ?thesis
      using t(1,2) False unfolding GetNextClusterNumber_def fat_entry_def Let_def fat_sector_def by auto
  qed
qed


lemma fat_runs_no_result:
  assumes dev: "reads_sectors env sec (ucast (DiskNumber P)) secs" "ucast (DiskNumber P) < g_disknum env"
    and cl: "fat_inside secs P clr" "clr < (if PartitionType P = FAT16 then 0xfff0 else 0x0ffffff0)"
    and nz: "fat_entry (sec d (ucast (DiskNumber P))) P clr \<noteq> Some 0"
    and ret: "fat_runs env d P m clr lst beg cnt c = Some r"
  shows "\<not> cache_ok (sec d (ucast (DiskNumber P))) P c"
proof -
  let ?G = "sec d (ucast (DiskNumber P))"
  let ?Q = "\<lambda>e d' P' clr' c. e = env \<longrightarrow> d' = d \<longrightarrow> P' = P \<longrightarrow> clr' = clr \<longrightarrow> \<not> cache_ok ?G P c"
  have "?Q e d' P' clr' c" if "fat_runs e d' P' m clr' lst beg cnt c = Some r" for e d' P' m clr' lst beg cnt c r
  proof (rule fat_runs.raw_induct [where P = "\<lambda>e d' P' m clr' lst beg cnt c r. ?Q e d' P' clr' c", OF _ that], intro impI notI, goal_cases)
    case (1 f e d' P' m clr' lst beg cnt c r)
    obtain n c' where n: "GetNextClusterNumber env d P clr c = Some (n, c')" "n \<noteq> 0" "cache_ok ?G P c'"
      using GetNextClusterNumber_direct [OF dev 1(7) cl(1)] nz by auto
    have low: "\<not> (if PartitionType P = FAT16 then 0xfff0 else 0x0ffffff0) \<le> clr" using cl(2) by simp
    have "\<exists>m lst beg cnt. f env d P m clr lst beg cnt c' = Some r"
      using 1(2) n(1,2) low unfolding 1(3-6) by (auto split: if_splits simp del: if_cancel)
    then show ?case using 1(1) n(3) by blast
  qed
  from this [OF ret] show ?thesis by simp
qed

text \<open>
  C34. The loop of DumpFileSectorListFAT does not return for any file: unless the table has 0
  for its first cluster, the loop, which never moves to the next cluster, runs for ever or
  writes behind the list.
\<close>

theorem fat_runs_never_returns:
  assumes "reads_sectors env sec (ucast (DiskNumber P)) secs" "ucast (DiskNumber P) < g_disknum env"
    and "fat_inside secs P clr" "clr < (if PartitionType P = FAT16 then 0xfff0 else 0x0ffffff0)"
    and "fat_entry (sec d (ucast (DiskNumber P))) P clr \<noteq> Some 0" "cache_ok (sec d (ucast (DiskNumber P))) P c"
  shows "fat_runs env d P MaxListNumber clr [] (ucast clr) 1 c = None"
  using fat_runs_no_result [OF assms(1-5)] assms(6) by (cases "fat_runs env d P MaxListNumber clr [] (ucast clr) 1 c") blast+

text \<open>A FAT32 volume at sector 8 with its table in sector 2: cluster 3 is the only one of a file.\<close>

definition one_cluster_volume :: WIN32_PARTITIONINFO where
  "one_cluster_volume = empty_partition\<lparr>PartitionType := FAT32, BootBegin := 8, FirstFatSector := 2\<rparr>"

definition one_cluster_disk :: "nat \<Rightarrow> buf" where
  "one_cluster_disk i = (if i = 10 then replicate 12 0 @ [0xff, 0xff, 0xff, 0x0f] else [])"

definition empty_cache :: fat_cache where
  "empty_cache = \<lparr>g_FatBuffer = replicate 65536 0, g_FatLoadedSector = 0, g_FatLoadedCount = 0\<rparr>"

lemma one_cluster_facts:
  "fat_inside 1000 one_cluster_volume 3" "ucast (DiskNumber one_cluster_volume) < g_disknum (ram_env 1)"
  "cache_ok (ram_sec one_cluster_disk (ucast (DiskNumber one_cluster_volume))) one_cluster_volume empty_cache"
  "fat_entry (ram_sec one_cluster_disk (ucast (DiskNumber one_cluster_volume))) one_cluster_volume 3 = Some FAT32_EOF"
proof -
  have "take 512 (replicate 12 0 @ [0xff, 0xff, 0xff, 0x0f] @ replicate 512 0) =
      replicate 12 0 @ [0xff, 0xff, 0xff, 0x0f] @ replicate 496 (0 :: byte)" by simp
  then show "fat_entry (ram_sec one_cluster_disk (ucast (DiskNumber one_cluster_volume))) one_cluster_volume 3 = Some FAT32_EOF"
    by (simp add: fat_entry_def fat_sector_def one_cluster_volume_def empty_partition_def FAT32_def FAT16_def ram_sec_def
        one_cluster_disk_def rd32_def rd_le_def FAT32_EOF_def Let_def)
qed (simp_all add: fat_inside_def fat_sector_def one_cluster_volume_def empty_partition_def FAT32_def FAT16_def ram_env_def cache_ok_def empty_cache_def)

theorem GetNextClusterNumber_direct_witness:
  "\<exists>c'. GetNextClusterNumber (ram_env 1) one_cluster_disk one_cluster_volume 3 empty_cache = Some (FAT32_EOF, c')"
  using GetNextClusterNumber_direct [where sec = ram_sec and d = one_cluster_disk, OF ram_reads_sectors one_cluster_facts(2,3,1)] one_cluster_facts(4) by auto

theorem fat_runs_never_returns_witness:
  "fat_runs (ram_env 1) one_cluster_disk one_cluster_volume 5461 3 [] (ucast (3 :: u32)) 1 empty_cache = None"
  by (rule fat_runs_never_returns [where sec = ram_sec, OF ram_reads_sectors one_cluster_facts(2,1)])
    (use one_cluster_facts(3,4) in \<open>simp_all add: FAT32_EOF_def\<close>)

end
