(* ===== verification/Okr_Unused.thy ===== *)
theory Okr_Unused
  imports Okr_FatFile
begin

unbundle bit_operations_syntax

text \<open>
  The files that a backup leaves out, \<^verbatim>\<open>src/OkrPkg/okrefi/getlist.c\<close>: \<open>RecordList\<close>, \<open>GetUnusedDataList\<close>,
  \<open>GetAllUnusedDataSize\<close> and \<open>ReleaseUnusedDataList\<close> with the global variables they share.

  The descriptors point into the array \<open>g_UnusedList\<close>, which \<open>RecordList\<close> moves when it grows. Memory
  is therefore explicit: \<open>u_heap\<close> has the arrays that are allocated, by number, and a pointer is the
  number of an array and an index. An element that was never written is \<open>None\<close>. Following a pointer
  into a freed array, or a null pointer, gives \<open>None\<close>.
\<close>

type_synonym list_pointer = "nat \<times> nat"

record UNUSED_FILE_DESC =
  ud_PartitionIndex :: byte
  ud_ListCount :: u16
  ud_TotalSize :: u32
  ud_pList :: "list_pointer option"

record unused_state =
  u_heap :: "nat \<Rightarrow> SIZE_L option list option"
  u_next :: nat
  g_UnusedListInit :: bool
  g_UnusedList :: "nat option"
  g_dwMaxUnusedListCount :: u32
  g_dwUnusedListCount :: u32
  g_UnusedFile :: "UNUSED_FILE_DESC list"
  g_CurrentUnusedList :: "list_pointer option"
  g_dwCurrentUnusedListCount :: u32

definition MAX_UNUSED_FILES :: nat where "MAX_UNUSED_FILES = 8"
definition SIZE_L_BYTES :: u32 where "SIZE_L_BYTES = 12"

definition empty_desc :: UNUSED_FILE_DESC where
  "empty_desc = \<lparr>ud_PartitionIndex = 0, ud_ListCount = 0, ud_TotalSize = 0, ud_pList = None\<rparr>"

section \<open>Recording a list\<close>

text \<open>The array is allocated or replaced by a larger one. The result of \<open>myalloc\<close> is not looked at.\<close>

definition grow_list :: "'d disk_env \<Rightarrow> 'd \<Rightarrow> u32 \<Rightarrow> unused_state \<Rightarrow> unused_state option" where
  "grow_list env d ListNumber s =
     (let s1 = (if g_UnusedList s = None then s\<lparr>g_dwMaxUnusedListCount := 0, g_dwUnusedListCount := 0\<rparr> else s);
          newListCount = g_dwMaxUnusedListCount s1 + ((ListNumber + 0x1fff) AND NOT 0x1fff)
      in do {
        mem \<leftarrow> myalloc env d (newListCount * SIZE_L_BYTES);
        let cells = replicate (length mem div unat SIZE_L_BYTES) None;
        (heap, cells') \<leftarrow>
          (if g_dwUnusedListCount s1 \<noteq> 0
           then do {
             a \<leftarrow> g_UnusedList s1;
             old \<leftarrow> u_heap s1 a;
             let n = unat (g_dwUnusedListCount s1);
             if length old < n \<or> length cells < n then None
             else Some ((u_heap s1)(a := None), take n old @ drop n cells) }
           else Some (u_heap s1, cells));
        Some (s1\<lparr>u_heap := heap(u_next s1 \<mapsto> cells'), u_next := Suc (u_next s1), g_UnusedList := Some (u_next s1),
                g_dwMaxUnusedListCount := newListCount\<rparr>) })"

text \<open>The loop over the descriptors: the first that belongs to the partition or is free.\<close>

fun record_desc :: "byte \<Rightarrow> u32 \<Rightarrow> u32 \<Rightarrow> list_pointer \<Rightarrow> UNUSED_FILE_DESC list \<Rightarrow> UNUSED_FILE_DESC list" where
  "record_desc p n tsize new [] = []"
| "record_desc p n tsize new (D # Ds) =
     (if ud_PartitionIndex D = p \<or> ud_ListCount D = 0
      then (let D1 = (if ud_ListCount D = 0 then D\<lparr>ud_PartitionIndex := p, ud_pList := Some new\<rparr> else D)
            in D1\<lparr>ud_ListCount := ud_ListCount D1 + ucast n, ud_TotalSize := ud_TotalSize D1 + tsize\<rparr>) # Ds
      else D # record_desc p n tsize new Ds)"

definition list_size :: "SIZE_L list \<Rightarrow> u32" where
  "list_size lst = sum_list (map Number lst)"

definition RecordList :: "'d disk_env \<Rightarrow> 'd \<Rightarrow> byte \<Rightarrow> SIZE_L list \<Rightarrow> unused_state \<Rightarrow> unused_state option" where
  "RecordList env d p lst s =
     (let n = (of_nat (length lst) :: u32) in do {
        s1 \<leftarrow> (if g_UnusedList s = None \<or> g_dwMaxUnusedListCount s < n + g_dwUnusedListCount s
              then grow_list env d n s else Some s);
        a \<leftarrow> g_UnusedList s1;
        cells \<leftarrow> u_heap s1 a;
        let at = unat (g_dwUnusedListCount s1);
        if length cells < at + length lst then None
        else Some (s1\<lparr>
          u_heap := (u_heap s1)(a \<mapsto> take at cells @ map Some lst @ drop (at + length lst) cells),
          g_dwUnusedListCount := g_dwUnusedListCount s1 + n,
          g_UnusedFile := record_desc p n (list_size lst) (a, at) (g_UnusedFile s1)\<rparr>) })"

section \<open>The lists of a partition\<close>

text \<open>\<open>hiberfil.sys\<close>, \<open>pagefile.sys\<close> and \<open>swapfile.sys\<close>, terminated.\<close>

definition unused_names :: "byte list list" where
  "unused_names =
     [[0x68, 0x69, 0x62, 0x65, 0x72, 0x66, 0x69, 0x6c, 0x2e, 0x73, 0x79, 0x73, 0],
      [0x70, 0x61, 0x67, 0x65, 0x66, 0x69, 0x6c, 0x65, 0x2e, 0x73, 0x79, 0x73, 0],
      [0x73, 0x77, 0x61, 0x70, 0x66, 0x69, 0x6c, 0x65, 0x2e, 0x73, 0x79, 0x73, 0]]"

text \<open>\<open>listSize / sizeof(SIZE_L)\<close> elements fit into \<open>pList\<close>.\<close>

definition file_sectors :: "nat \<Rightarrow> nat \<Rightarrow> 'd disk_env \<Rightarrow> 'd \<Rightarrow> WIN32_PARTITIONINFO \<Rightarrow> byte list \<Rightarrow> SIZE_L list option" where
  "file_sectors ptr depth env d P name =
     (if PartitionType P = NTFS then DumpFileSectorListNtfs depth env d P name 5461
      else if PartitionType P = FAT32 \<or> PartitionType P = FAT16 then DumpFileSectorListFAT ptr env d P name 5461
      else Some [])"

fun record_files ::
  "'d disk_env \<Rightarrow> 'd \<Rightarrow> byte \<Rightarrow> (byte list \<Rightarrow> SIZE_L list option) \<Rightarrow> byte list list \<Rightarrow> unused_state \<Rightarrow> unused_state option" where
  "record_files env d p dump [] s = Some s"
| "record_files env d p dump (name # names) s =
     do { lst \<leftarrow> dump name;
          s1 \<leftarrow> (if lst = [] then Some s else RecordList env d p lst s);
          record_files env d p dump names s1 }"

fun find_desc :: "byte \<Rightarrow> UNUSED_FILE_DESC list \<Rightarrow> UNUSED_FILE_DESC option" where
  "find_desc p [] = None"
| "find_desc p (D # Ds) = (if ud_PartitionIndex D = p then Some D else find_desc p Ds)"

text \<open>\<open>dump\<close> is the choice of \<open>file_sectors\<close>, with the environment it works on.\<close>

type_synonym dump = "WIN32_PARTITIONINFO \<Rightarrow> byte list \<Rightarrow> SIZE_L list option"

definition GetUnusedDataList ::
  "dump \<Rightarrow> 'd disk_env \<Rightarrow> 'd \<Rightarrow> WIN32_PARTITIONINFO list \<Rightarrow> byte \<Rightarrow> unused_state \<Rightarrow> (u32 \<times> unused_state) option" where
  "GetUnusedDataList dump env d Ps p s =
     (let s0 = s\<lparr>g_dwCurrentUnusedListCount := 0, g_CurrentUnusedList := None\<rparr> in do {
        s1 \<leftarrow> (if g_UnusedListInit s0 then Some s0
              else case myalloc env d 0x10000 of
                None \<Rightarrow> Some s0
              | Some _ \<Rightarrow>
                  if length Ps \<le> unat p then None
                  else record_files env d p (dump (Ps ! unat p)) unused_names s0);
        Some (case find_desc p (g_UnusedFile s1) of
            None \<Rightarrow> (0, s1)
          | Some D \<Rightarrow> (ud_TotalSize D, s1\<lparr>g_dwCurrentUnusedListCount := ucast (ud_ListCount D),
                                       g_CurrentUnusedList := ud_pList D\<rparr>)) })"

text \<open>What the loop of \<open>GetDataToBitmap\<close> sees: the elements from \<open>g_CurrentUnusedList\<close> on.\<close>

definition current_unused :: "unused_state \<Rightarrow> SIZE_L list option" where
  "current_unused s =
     (if g_dwCurrentUnusedListCount s = 0 then Some []
      else do {
        (a, i) \<leftarrow> g_CurrentUnusedList s;
        cells \<leftarrow> u_heap s a;
        let n = unat (g_dwCurrentUnusedListCount s);
        if length cells < i + n then None
        else those (take n (drop i cells)) })"

fun get_all :: "dump \<Rightarrow> 'd disk_env \<Rightarrow> 'd \<Rightarrow> WIN32_PARTITIONINFO list \<Rightarrow> nat list \<Rightarrow> unused_state \<Rightarrow> unused_state option" where
  "get_all dump env d Ps [] s = Some s"
| "get_all dump env d Ps (i # is) s =
     (if length Ps \<le> i then None
      else if bIfBackup (Ps ! i) \<noteq> 1 then get_all dump env d Ps is s
      else do { (_, s1) \<leftarrow> GetUnusedDataList dump env d Ps (of_nat i) s; get_all dump env d Ps is s1 })"

definition GetAllUnusedDataSize ::
  "dump \<Rightarrow> 'd disk_env \<Rightarrow> 'd \<Rightarrow> WIN32_PARTITIONINFO list \<Rightarrow> nat \<Rightarrow> unused_state \<Rightarrow> (u32 \<times> unused_state) option" where
  "GetAllUnusedDataSize dump env d Ps dwTotalPartitions s =
     do {
       s1 \<leftarrow> (if g_UnusedListInit s then Some s
             else get_all dump env d Ps [0..<dwTotalPartitions]
               (s\<lparr>g_dwUnusedListCount := 0, g_dwMaxUnusedListCount := 0, g_UnusedList := None,
                  g_UnusedFile := replicate MAX_UNUSED_FILES empty_desc\<rparr>));
       Some (sum_list (map ud_TotalSize (g_UnusedFile s1)), s1\<lparr>g_UnusedListInit := True\<rparr>) }"

definition ReleaseUnusedDataList :: "unused_state \<Rightarrow> unused_state" where
  "ReleaseUnusedDataList s =
     (if g_UnusedListInit s
      then s\<lparr>u_heap := (case g_UnusedList s of None \<Rightarrow> u_heap s | Some a \<Rightarrow> (u_heap s)(a := None)),
             g_UnusedList := None, g_UnusedListInit := False\<rparr>
      else s)"


section \<open>The lists as a log\<close>

text \<open>
  The abstract state is the list of the partitions that have such files, in the order of recording,
  each with its sectors. The array holds these lists one behind the other.
\<close>

type_synonym unused_log = "(byte \<times> SIZE_L list) list"

fun descs :: "nat \<Rightarrow> nat \<Rightarrow> unused_log \<Rightarrow> UNUSED_FILE_DESC list" where
  "descs a off [] = []"
| "descs a off ((p, l) # log) =
     \<lparr>ud_PartitionIndex = p, ud_ListCount = of_nat (length l), ud_TotalSize = list_size l, ud_pList = Some (a, off)\<rparr> #
     descs a (off + length l) log"

abbreviation logged :: "unused_log \<Rightarrow> SIZE_L list" where
  "logged log \<equiv> concat (map snd log)"

definition log_ok :: "unused_log \<Rightarrow> bool" where
  "log_ok log \<longleftrightarrow> distinct (map fst log) \<and> [] \<notin> snd ` set log \<and> length log \<le> MAX_UNUSED_FILES \<and> length (logged log) \<le> 8192"

definition array_holds :: "unused_log \<Rightarrow> unused_state \<Rightarrow> bool" where
  "array_holds log s \<longleftrightarrow> (\<exists>a cells. g_UnusedList s = Some a \<and> u_heap s a = Some cells \<and> length cells = 8192 \<and>
     g_dwMaxUnusedListCount s = 8192 \<and> g_dwUnusedListCount s = of_nat (length (logged log)) \<and>
     take (length (logged log)) cells = map Some (logged log) \<and>
     g_UnusedFile s = descs a 0 log @ replicate (MAX_UNUSED_FILES - length log) empty_desc)"

definition represents :: "unused_log \<Rightarrow> unused_state \<Rightarrow> bool" where
  "represents log s \<longleftrightarrow> log_ok log \<and>
     (if log = [] then g_UnusedList s = None \<and> g_UnusedFile s = replicate MAX_UNUSED_FILES empty_desc
      else array_holds log s)"

text \<open>Another list of the partition that was recorded last, or the first of a new partition.\<close>

definition add_list :: "byte \<Rightarrow> SIZE_L list \<Rightarrow> unused_log \<Rightarrow> unused_log" where
  "add_list p l log =
     (if log \<noteq> [] \<and> fst (last log) = p then butlast log @ [(p, snd (last log) @ l)] else log @ [(p, l)])"

lemma length_descs [simp]: "length (descs a off log) = length log"
  by (induction a off log rule: descs.induct) auto

lemma descs_append: "descs a off (log @ log') = descs a off log @ descs a (off + length (logged log)) log'"
  by (induction a off log rule: descs.induct) (auto simp: add.assoc)

lemma list_size_append [simp]: "list_size (xs @ ys) = list_size xs + list_size ys"
  by (simp add: list_size_def)

lemma list_size_Nil [simp]: "list_size [] = 0"
  by (simp add: list_size_def)

lemma small_count: "0 < n \<Longrightarrow> n \<le> 8192 \<Longrightarrow> (of_nat n :: u16) \<noteq> 0"
  by (simp add: word_unat_eq_iff unsigned_of_nat take_bit_nat_eq_self)

lemma count_unat: "n \<le> 8192 \<Longrightarrow> unat (ucast (of_nat n :: u16) :: u32) = n"
  by (simp add: unsigned_ucast_eq unsigned_of_nat take_bit_nat_eq_self)

text \<open>A descriptor of another partition is passed over.\<close>

lemma record_desc_skip:
  assumes "p \<notin> fst ` set log" "[] \<notin> snd ` set log" "length (logged log) \<le> 8192"
  shows "record_desc p n t new (descs a off log @ Ds) = descs a off log @ record_desc p n t new Ds"
  using assms
proof (induction a off log rule: descs.induct)
  case (2 a off q l log)
  have "(of_nat (length l) :: u16) \<noteq> 0" by (rule small_count) (use "2.prems" in auto)
  then show ?case using 2 by auto
qed simp

lemma find_desc_skip: "p \<notin> fst ` set log \<Longrightarrow> find_desc p (descs a off log @ Ds) = find_desc p Ds"
  by (induction a off log rule: descs.induct) auto

lemma round_8192:
  assumes "0 < n" "n \<le> 8192"
  shows "(of_nat n + 0x1fff) AND NOT 0x1fff = (8192 :: u32)"
proof -
  have "of_nat n + 0x1fff = (of_nat (n - 1 + 8192) :: u32)" using assms by (simp add: of_nat_diff)
  moreover have "(of_nat (n - 1 + 8192) :: u32) AND NOT (mask 13) = 8192"
  proof (rule bit_word_eqI)
    fix i :: nat
    have q: "(n - 1 + 8192) div 8192 = 1" using assms by (intro div_nat_eqI) simp_all
    have "bit (n - 1 + 8192) i \<longleftrightarrow> i = 13" if "13 \<le> i"
    proof (cases "i = 13")
      case False
      have "(2 :: nat) ^ 14 \<le> 2 ^ i" using that False by (intro power_increasing) auto
      then show ?thesis using False assms by (simp add: bit_iff_odd)
    qed (use q in \<open>simp add: bit_iff_odd\<close>)
    moreover have "bit (8192 :: u32) i \<longleftrightarrow> i = 13" using bit_exp_iff [of 13 i, where 'a = u32] by auto
    moreover have "bit (mask 13 :: u32) i \<longleftrightarrow> i < 13" if "i < 32" using that by (simp add: Bit_Operations.bit_mask_iff)
    ultimately show "bit ((of_nat (n - 1 + 8192) :: u32) AND NOT (mask 13)) i \<longleftrightarrow> bit (8192 :: u32) i" if "i < LENGTH(32)"
      using that by (auto simp: bit_and_iff bit_not_iff bit_of_nat_iff simp del: of_nat_add of_nat_diff)
  qed
  ultimately show ?thesis by (simp add: mask_numeral add.commute)
qed

lemma grow_empty:
  assumes "allocates env" "g_UnusedList s = None" "0 < n" "n \<le> 8192" "g_UnusedFile s = replicate MAX_UNUSED_FILES empty_desc"
  shows "\<exists>s1. grow_list env d (of_nat n) s = Some s1 \<and> array_holds [] s1 \<and> g_UnusedListInit s1 = g_UnusedListInit s"
proof -
  obtain mem where "AllocatePool env d 98304 = Some mem" "length mem = 98304"
    using assms(1) unfolding allocates_def by blast
  then show ?thesis
    using assms(2,5) round_8192 [OF assms(3,4)]
    by (simp add: grow_list_def Let_def SIZE_L_BYTES_def myalloc_def array_holds_def)
qed

lemma logged_add: "logged (add_list p l log) = logged log @ l"
  by (cases log rule: rev_cases) (auto simp: add_list_def)

lemma record_desc_add:
  assumes "log_ok (add_list p l log)" "l \<noteq> []" "log_ok log"
  shows "record_desc p (of_nat (length l)) (list_size l) (a, length (logged log))
      (descs a 0 log @ replicate (MAX_UNUSED_FILES - length log) empty_desc) =
    descs a 0 (add_list p l log) @ replicate (MAX_UNUSED_FILES - length (add_list p l log)) empty_desc"
proof -
  have "length l \<le> 8192" using assms(1) by (simp add: log_ok_def logged_add)
  then have len: "ucast (of_nat (length l) :: u32) = (of_nat (length l) :: u16)"
    by (simp add: unsigned_of_nat take_bit_nat_eq_self)
  show ?thesis
proof (cases "log \<noteq> [] \<and> fst (last log) = p")
  case True
  then obtain log0 l0 where log: "log = log0 @ [(p, l0)]" by (cases log rule: rev_cases) auto
  have add: "add_list p l (log0 @ [(p, l0)]) = log0 @ [(p, l0 @ l)]" by (simp add: add_list_def)
  have ok: "p \<notin> fst ` set log0" "[] \<notin> snd ` set log0" "length (logged log0) \<le> 8192"
    using assms(3) log by (auto simp: log_ok_def)
  have "(of_nat (length l0) :: u16) \<noteq> 0"
    by (rule small_count) (use assms(3) log in \<open>auto simp: log_ok_def\<close>)
  then show ?thesis
    unfolding log add descs_append using record_desc_skip [OF ok, of _ _ _ a 0] len by (simp add: Let_def)
next
  case False
  then have add: "add_list p l log = log @ [(p, l)]" by (auto simp: add_list_def)
  then have ok: "p \<notin> fst ` set log" "[] \<notin> snd ` set log" "length (logged log) \<le> 8192" "length log < MAX_UNUSED_FILES"
    using assms(1) by (auto simp: log_ok_def)
  then obtain k where k: "MAX_UNUSED_FILES - length log = Suc k" by (metis Suc_diff_Suc)
  then have "MAX_UNUSED_FILES - length (log @ [(p, l)]) = k" by simp
  then show ?thesis
    unfolding add descs_append k using record_desc_skip [OF ok(1-3), of _ _ _ a 0] len by (simp add: Let_def empty_desc_def)
qed
qed

lemma RecordList_adds:
  assumes "represents log s" "allocates env" "l \<noteq> []" "log_ok (add_list p l log)"
  shows "\<exists>s'. RecordList env d p l s = Some s' \<and> represents (add_list p l log) s' \<and> g_UnusedListInit s' = g_UnusedListInit s"
proof -
  let ?k = "length (logged log)"
  have small: "?k + length l \<le> 8192" using assms(4) by (simp add: log_ok_def logged_add)
  have lok: "log_ok log" using assms(1) by (simp add: represents_def)
  have "\<exists>s1. (if g_UnusedList s = None \<or> g_dwMaxUnusedListCount s < of_nat (length l) + g_dwUnusedListCount s
      then grow_list env d (of_nat (length l)) s else Some s) = Some s1 \<and> array_holds log s1 \<and> g_UnusedListInit s1 = g_UnusedListInit s"
  proof (cases "log = []")
    case True
    then show ?thesis
      using grow_empty [OF assms(2), of s "length l" d] assms(1,3) small by (auto simp: represents_def)
  next
    case False
    then have h: "array_holds log s" using assms(1) by (simp add: represents_def)
    have u8192: "unat (8192 :: u32) = 8192" by simp
    have "of_nat (length l) + of_nat ?k = (of_nat (length l + ?k) :: u32)" by simp
    then have "\<not> (8192 :: u32) < of_nat (length l) + of_nat ?k"
      using small unat_of_nat_u32 [of "length l + ?k"] u8192 unfolding word_less_nat_alt by simp
    then show ?thesis using h by (auto simp: array_holds_def)
  qed
  then obtain s1 where s1: "(if g_UnusedList s = None \<or> g_dwMaxUnusedListCount s < of_nat (length l) + g_dwUnusedListCount s
      then grow_list env d (of_nat (length l)) s else Some s) = Some s1" "array_holds log s1" "g_UnusedListInit s1 = g_UnusedListInit s"
    by blast
  obtain a cells where h: "g_UnusedList s1 = Some a" "u_heap s1 a = Some cells" "length cells = 8192"
      "g_dwMaxUnusedListCount s1 = 8192" "g_dwUnusedListCount s1 = of_nat ?k" "take ?k cells = map Some (logged log)"
      "g_UnusedFile s1 = descs a 0 log @ replicate (MAX_UNUSED_FILES - length log) empty_desc"
    using s1(2) by (auto simp: array_holds_def)
  have k: "unat (of_nat ?k :: u32) = ?k" using small by (intro unat_of_nat_u32) simp
  let ?cells = "take ?k cells @ map Some l @ drop (?k + length l) cells"
  define s' where "s' = s1\<lparr>u_heap := (u_heap s1)(a \<mapsto> ?cells), g_dwUnusedListCount := of_nat ?k + of_nat (length l),
      g_UnusedFile := record_desc p (of_nat (length l)) (list_size l) (a, ?k) (g_UnusedFile s1)\<rparr>"
  have "RecordList env d p l s = Some s'"
    unfolding RecordList_def Let_def using s1(1) h small k by (simp add: s'_def)
  moreover have "array_holds (add_list p l log) s'"
    unfolding array_holds_def logged_add
    by (intro exI [of _ a] exI [of _ ?cells])
      (use h small record_desc_add [OF assms(4,3) lok, of a] in \<open>simp add: s'_def add.commute\<close>)
  moreover have "add_list p l log \<noteq> []" by (simp add: add_list_def)
  ultimately show ?thesis using assms(4) s1(3) by (auto simp: represents_def s'_def)
qed


definition with_list :: "byte \<Rightarrow> SIZE_L list \<Rightarrow> unused_log \<Rightarrow> unused_log" where
  "with_list p l log = log @ (if l = [] then [] else [(p, l)])"

lemma add_with_list:
  assumes "p \<notin> fst ` set log" "l \<noteq> []"
  shows "add_list p l (with_list p l0 log) = with_list p (l0 @ l) log"
  using assms by (cases log rule: rev_cases) (auto simp: add_list_def with_list_def butlast_append)

lemma logged_with_list [simp]: "logged (with_list p l log) = logged log @ l"
  by (simp add: with_list_def)

lemma log_ok_prefix: "log_ok (with_list p (l @ l') log) \<Longrightarrow> log_ok (with_list p l log)"
  by (auto simp: log_ok_def with_list_def split: if_splits)

lemma record_files_adds:
  assumes "allocates env" "p \<notin> fst ` set log"
  shows "\<lbrakk>represents (with_list p l0 log) s; map dump names = map Some ls; log_ok (with_list p (l0 @ concat ls) log)\<rbrakk> \<Longrightarrow>
    \<exists>s'. record_files env d p dump names s = Some s' \<and> represents (with_list p (l0 @ concat ls) log) s' \<and>
      g_UnusedListInit s' = g_UnusedListInit s"
proof (induction names arbitrary: l0 ls s)
  case (Cons name names)
  then obtain l ls' where ls: "ls = l # ls'" "dump name = Some l" "map dump names = map Some ls'" by (cases ls) auto
  have ok: "log_ok (with_list p ((l0 @ l) @ concat ls') log)" using Cons.prems(3) ls by simp
  have "\<exists>s1. (if l = [] then Some s else RecordList env d p l s) = Some s1 \<and> represents (with_list p (l0 @ l) log) s1 \<and>
      g_UnusedListInit s1 = g_UnusedListInit s"
  proof (cases "l = []")
    case False
    have "log_ok (add_list p l (with_list p l0 log))"
      using log_ok_prefix [OF ok] by (simp add: add_with_list [OF assms(2) False])
    from RecordList_adds [OF Cons.prems(1) assms(1) False this] show ?thesis
      using False by (simp add: add_with_list [OF assms(2) False])
  qed (use Cons.prems(1) in simp)
  then obtain s1 where s1: "(if l = [] then Some s else RecordList env d p l s) = Some s1"
      "represents (with_list p (l0 @ l) log) s1" "g_UnusedListInit s1 = g_UnusedListInit s" by blast
  from Cons.IH [OF s1(2) ls(3) ok] show ?case using ls s1 by auto
qed simp

lemma represents_current [simp]:
  "represents log (s\<lparr>g_dwCurrentUnusedListCount := n, g_CurrentUnusedList := q\<rparr>) = represents log s"
  by (simp add: represents_def array_holds_def)

lemma GetUnusedDataList_adds:
  assumes env: "allocates env" and p: "p \<notin> fst ` set log" "unat p < length Ps"
    and s: "represents log s" "\<not> g_UnusedListInit s" "map (dump (Ps ! unat p)) unused_names = map Some ls"
    and ok: "log_ok (with_list p (concat ls) log)"
  shows "\<exists>x s'. GetUnusedDataList dump env d Ps p s = Some (x, s') \<and> represents (with_list p (concat ls) log) s' \<and> \<not> g_UnusedListInit s'"
proof -
  let ?s0 = "s\<lparr>g_dwCurrentUnusedListCount := 0, g_CurrentUnusedList := None\<rparr>"
  have "represents (with_list p [] log) ?s0" using s(1) by (simp add: with_list_def)
  then obtain s1 where s1: "record_files env d p (dump (Ps ! unat p)) unused_names ?s0 = Some s1"
      "represents (with_list p (concat ls) log) s1" "\<not> g_UnusedListInit s1"
    using record_files_adds [OF env p(1), of "[]" ?s0 "dump (Ps ! unat p)" unused_names ls d] s ok by auto
  obtain mem where "myalloc env d 0x10000 = Some mem" using myalloc_enough [OF env, of d "0x10000"] by blast
  then show ?thesis
    unfolding GetUnusedDataList_def Let_def using s1 s(2) p(2) by (auto split: option.splits)
qed

text \<open>The partitions that are backed up and the files found on them.\<close>

definition log_of :: "WIN32_PARTITIONINFO list \<Rightarrow> (nat \<Rightarrow> SIZE_L list) \<Rightarrow> nat list \<Rightarrow> unused_log" where
  "log_of Ps F is = map (\<lambda>i. (of_nat i, F i)) (filter (\<lambda>i. bIfBackup (Ps ! i) = 1 \<and> F i \<noteq> []) is)"

lemma log_of_snoc:
  "log_of Ps F (is @ [i]) = (if bIfBackup (Ps ! i) = 1 then with_list (of_nat i) (F i) (log_of Ps F is) else log_of Ps F is)"
  by (simp add: log_of_def with_list_def)

lemma log_ok_append: "log_ok (log @ log') \<Longrightarrow> log_ok log"
  by (auto simp: log_ok_def)

lemma get_all_snoc:
  "get_all dump env d Ps (is @ [i]) s = do { s1 \<leftarrow> get_all dump env d Ps is s; get_all dump env d Ps [i] s1 }"
  by (induction "is" arbitrary: s) (auto split: option.splits simp: Option.bind_assoc split_def intro!: Option.bind_cong)

lemma get_all_logs:
  assumes env: "allocates env" and len: "n \<le> length Ps" "n \<le> 256"
    and F: "\<And>i. i < n \<Longrightarrow> bIfBackup (Ps ! i) = 1 \<Longrightarrow> \<exists>ls. map (dump (Ps ! i)) unused_names = map Some ls \<and> F i = concat ls"
    and ok: "log_ok (log_of Ps F [0..<n])" and s: "represents [] s" "\<not> g_UnusedListInit s"
  shows "\<exists>s'. get_all dump env d Ps [0..<n] s = Some s' \<and> represents (log_of Ps F [0..<n]) s' \<and> \<not> g_UnusedListInit s'"
  using len F ok
proof (induction n)
  case 0
  then show ?case using s by (simp add: log_of_def)
next
  case (Suc n)
  have lo: "log_of Ps F [0..<Suc n] = (if bIfBackup (Ps ! n) = 1 then with_list (of_nat n) (F n) (log_of Ps F [0..<n]) else log_of Ps F [0..<n])"
    using log_of_snoc [of Ps F "[0..<n]" n] by simp
  then have "log_ok (log_of Ps F [0..<n])" using Suc.prems(4) log_ok_append [of "log_of Ps F [0..<n]"]
    by (cases "bIfBackup (Ps ! n) = 1"; cases "F n = []") (simp_all add: with_list_def del: upt_Suc)
  with Suc obtain s1 where s1: "get_all dump env d Ps [0..<n] s = Some s1" "represents (log_of Ps F [0..<n]) s1" "\<not> g_UnusedListInit s1"
    by auto
  have all: "get_all dump env d Ps [0..<Suc n] s = get_all dump env d Ps [n] s1"
    using get_all_snoc [of dump env d Ps "[0..<n]" n s] s1(1) by simp
  show ?case
  proof (cases "bIfBackup (Ps ! n) = 1")
    case True
    obtain ls where ls: "map (dump (Ps ! n)) unused_names = map Some ls" "F n = concat ls" using Suc.prems(3) True by blast
    have un: "unat (of_nat n :: byte) = n" using Suc.prems(2) by (simp add: unsigned_of_nat take_bit_nat_eq_self)
    have inj: "(of_nat n :: byte) \<notin> fst ` set (log_of Ps F [0..<n])"
    proof
      assume "(of_nat n :: byte) \<in> fst ` set (log_of Ps F [0..<n])"
      then obtain i where "i < n" "(of_nat n :: byte) = of_nat i" by (auto simp: log_of_def)
      then have "unat (of_nat n :: byte) = unat (of_nat i :: byte)" "i < 256" using Suc.prems(2) by simp_all
      then show False using un \<open>i < n\<close> by (simp add: unsigned_of_nat take_bit_nat_eq_self)
    qed
    have ok': "log_ok (with_list (of_nat n) (concat ls) (log_of Ps F [0..<n]))" using Suc.prems(4) lo True ls(2) by simp
    have "unat (of_nat n :: byte) < length Ps" "map (dump (Ps ! unat (of_nat n :: byte))) unused_names = map Some ls"
      using un Suc.prems(1) ls(1) by simp_all
    from GetUnusedDataList_adds [where dump = dump, OF env inj this(1) s1(2,3) this(2) ok', of d] obtain x s2 where
      s2: "GetUnusedDataList dump env d Ps (of_nat n) s1 = Some (x, s2)"
        "represents (with_list (of_nat n) (concat ls) (log_of Ps F [0..<n])) s2" "\<not> g_UnusedListInit s2" by blast
    then have "get_all dump env d Ps [n] s1 = Some s2" using True Suc.prems(1) by simp
    with s2(2,3) show ?thesis unfolding all lo using True ls(2) by simp
  next
    case False
    then show ?thesis unfolding all lo using s1 Suc.prems(1) by simp
  qed
qed


lemma those_map_Some [simp]: "those (map Some xs) = Some xs"
  by (induction xs) auto

lemma find_desc_logged:
  assumes "distinct (map fst log)" "(p, l) \<in> set log"
  shows "\<exists>log1 log2. log = log1 @ (p, l) # log2 \<and> find_desc p (descs a 0 log @ Ds) =
    Some \<lparr>ud_PartitionIndex = p, ud_ListCount = of_nat (length l), ud_TotalSize = list_size l,
      ud_pList = Some (a, length (logged log1))\<rparr>"
proof -
  obtain log1 log2 where log: "log = log1 @ (p, l) # log2" using assms(2) by (meson split_list)
  have "p \<notin> fst ` set log1" using assms(1) log by auto
  then show ?thesis using log find_desc_skip by (auto simp: descs_append)
qed

lemma find_desc_empty: "find_desc p (replicate n empty_desc) = None \<or> find_desc p (replicate n empty_desc) = Some empty_desc"
  by (induction n) auto

text \<open>Once the lists are there, \<open>GetUnusedDataList\<close> selects the one of the partition.\<close>

lemma GetUnusedDataList_logged:
  assumes rep: "represents log s" and init: "g_UnusedListInit s"
  shows "\<exists>s'. GetUnusedDataList dump env d Ps p s = Some (case map_of log p of None \<Rightarrow> 0 | Some l \<Rightarrow> list_size l, s') \<and>
    current_unused s' = Some (case map_of log p of None \<Rightarrow> [] | Some l \<Rightarrow> l)"
proof (cases "map_of log p")
  case None
  then have "p \<notin> fst ` set log" by (simp add: map_of_eq_None_iff)
  then obtain n where "find_desc p (g_UnusedFile s) = find_desc p (replicate n empty_desc)"
    using rep find_desc_skip by (auto simp: represents_def array_holds_def split: if_splits)
  then show ?thesis using None init find_desc_empty [of p n]
    by (auto simp: GetUnusedDataList_def Let_def empty_desc_def current_unused_def)
next
  case (Some l)
  then have mem: "(p, l) \<in> set log" by (rule map_of_SomeD)
  then have "log \<noteq> []" by auto
  then obtain a cells where h: "u_heap s a = Some cells" "length cells = 8192" "take (length (logged log)) cells = map Some (logged log)"
      "g_UnusedFile s = descs a 0 log @ replicate (MAX_UNUSED_FILES - length log) empty_desc"
    using rep by (auto simp: represents_def array_holds_def)
  have ok: "log_ok log" using rep by (simp add: represents_def)
  obtain log1 log2 where f: "log = log1 @ (p, l) # log2" "find_desc p (g_UnusedFile s) =
      Some \<lparr>ud_PartitionIndex = p, ud_ListCount = of_nat (length l), ud_TotalSize = list_size l, ud_pList = Some (a, length (logged log1))\<rparr>"
    unfolding h(4) using find_desc_logged [OF _ mem, of a "replicate (MAX_UNUSED_FILES - length log) empty_desc"] ok
    unfolding log_ok_def by blast
  have len: "length (logged log1) + length l \<le> length (logged log)" "length (logged log) \<le> 8192"
    using f(1) ok by (simp_all add: log_ok_def)
  have "take (length l) (drop (length (logged log1)) cells) =
      take (length l) (drop (length (logged log1)) (take (length (logged log)) cells))"
    using len(1) by (simp add: drop_take)
  also have "\<dots> = map Some l" unfolding h(3) using f(1) by (simp add: drop_map take_map)
  finally have tk: "take (length l) (drop (length (logged log1)) cells) = map Some l" .
  have un: "unat (ucast (of_nat (length l) :: u16) :: u32) = length l"
    using len by (intro count_unat) simp
  have "l \<noteq> []" using ok f(1) by (auto simp: log_ok_def)
  have nz: "(ucast (of_nat (length l) :: u16) :: u32) \<noteq> 0"
    using un \<open>l \<noteq> []\<close> by (metis length_0_conv unat_0)
  show ?thesis
    using Some init f(2) h(1,2) tk un nz len by (simp add: GetUnusedDataList_def Let_def current_unused_def)
qed

lemma sum_descs: "sum_list (map ud_TotalSize (descs a off log)) = list_size (logged log)"
  by (induction a off log rule: descs.induct) auto

lemma represents_total:
  assumes "represents log s"
  shows "sum_list (map ud_TotalSize (g_UnusedFile s)) = list_size (logged log)"
  using assms
  by (auto simp: represents_def array_holds_def sum_descs empty_desc_def map_replicate_const sum_list_replicate split: if_splits)

lemma represents_init [simp]: "represents log (s\<lparr>g_UnusedListInit := b\<rparr>) = represents log s"
  by (simp add: represents_def array_holds_def)

lemma map_of_log_of:
  assumes "i < n" "n \<le> 256"
  shows "map_of (log_of Ps F [0..<n]) (of_nat i) = (if bIfBackup (Ps ! i) = 1 \<and> F i \<noteq> [] then Some (F i) else None)"
proof -
  have inj: "(of_nat j :: byte) = of_nat i \<longleftrightarrow> j = i" if "j < n" for j
    using that assms by (auto simp: word_unat_eq_iff unsigned_of_nat take_bit_nat_eq_self)
  show ?thesis
  proof (cases "bIfBackup (Ps ! i) = 1 \<and> F i \<noteq> []")
    case True
    have d: "distinct (map fst (log_of Ps F [0..<n]))"
      using assms(2) by (auto simp: log_of_def distinct_map inj_on_def word_unat_eq_iff unsigned_of_nat take_bit_nat_eq_self)
    moreover have "(of_nat i, F i) \<in> set (log_of Ps F [0..<n])" using True assms(1) by (auto simp: log_of_def)
    ultimately show ?thesis using True by (simp add: map_of_eq_Some_iff [OF d])
  next
    case False
    have "(of_nat i :: byte) \<notin> fst ` set (log_of Ps F [0..<n])"
    proof
      assume "(of_nat i :: byte) \<in> fst ` set (log_of Ps F [0..<n])"
      then obtain j where j: "j < n" "(of_nat i :: byte) = of_nat j" "bIfBackup (Ps ! j) = 1" "F j \<noteq> []"
        unfolding log_of_def by auto
      then have "j = i" using inj [of j] by simp
      then show False using False j by simp
    qed
    then have "map_of (log_of Ps F [0..<n]) (of_nat i) = None" by (simp add: map_of_eq_None_iff)
    then show ?thesis using False by (simp only: if_False)
  qed
qed

text \<open>
  C20. After GetAllUnusedDataSize, GetUnusedDataList selects for every partition that is backed
  up exactly the sectors of its files, and the sizes are their sums, as long as the lists have
  at most 8192 elements and belong to at most eight partitions.
\<close>

theorem unused_lists_exact:
  assumes env: "allocates env" and init: "\<not> g_UnusedListInit s" and len: "n \<le> length Ps" "n \<le> 256"
    and F: "\<And>i. i < n \<Longrightarrow> bIfBackup (Ps ! i) = 1 \<Longrightarrow> map (dump (Ps ! i)) unused_names = map Some (files i)"
    and few: "length (filter (\<lambda>i. bIfBackup (Ps ! i) = 1 \<and> concat (files i) \<noteq> []) [0..<n]) \<le> MAX_UNUSED_FILES"
      "sum_list (map (\<lambda>i. length (concat (files i))) (filter (\<lambda>i. bIfBackup (Ps ! i) = 1) [0..<n])) \<le> 8192"
    and i: "i < n" "bIfBackup (Ps ! i) = 1"
  shows "\<exists>s1 s2. GetAllUnusedDataSize dump env d Ps n s =
      Some (list_size (concat (map (\<lambda>i. concat (files i)) (filter (\<lambda>i. bIfBackup (Ps ! i) = 1) [0..<n]))), s1) \<and>
    GetUnusedDataList dump env d Ps (of_nat i) s1 = Some (list_size (concat (files i)), s2) \<and>
    current_unused s2 = Some (concat (files i))"
proof -
  let ?F = "\<lambda>i. concat (files i)" and ?log = "log_of Ps (\<lambda>i. concat (files i)) [0..<n]"
  let ?s0 = "s\<lparr>g_dwUnusedListCount := 0, g_dwMaxUnusedListCount := 0, g_UnusedList := None,
    g_UnusedFile := replicate MAX_UNUSED_FILES empty_desc\<rparr>"
  have lg: "logged (log_of Ps ?F is) = concat (map ?F (filter (\<lambda>i. bIfBackup (Ps ! i) = 1) is))" for "is"
    by (induction "is") (auto simp: log_of_def)
  have ok: "log_ok ?log"
    using few len(2) unfolding log_ok_def lg
    by (auto simp: log_of_def distinct_map inj_on_def word_unat_eq_iff unsigned_of_nat take_bit_nat_eq_self length_concat o_def)
  have "represents [] ?s0" by (simp add: represents_def log_ok_def)
  then obtain s1 where s1: "get_all dump env d Ps [0..<n] ?s0 = Some s1" "represents ?log s1"
    using get_all_logs [OF env len _ ok, of dump ?s0 d] F init by fastforce
  let ?s1 = "s1\<lparr>g_UnusedListInit := True\<rparr>"
  have all: "GetAllUnusedDataSize dump env d Ps n s = Some (list_size (logged ?log), ?s1)"
    unfolding GetAllUnusedDataSize_def using init s1(1) represents_total [OF s1(2)] by simp
  have "represents ?log ?s1" using s1(2) by simp
  from GetUnusedDataList_logged [OF this, of dump env d Ps "of_nat i"] map_of_log_of [OF i(1) len(2), of Ps ?F] i(2)
  have "\<exists>s2. GetUnusedDataList dump env d Ps (of_nat i) ?s1 = Some (list_size (concat (files i)), s2) \<and>
      current_unused s2 = Some (concat (files i))"
    by (cases "concat (files i)") (simp_all del: concat_eq_Nil_conv)
  then show ?thesis unfolding all lg by blast
qed


section \<open>Growth\<close>

lemma find_desc_record:
  "find_desc q Ds = Some D \<Longrightarrow> ud_ListCount D \<noteq> 0 \<Longrightarrow> p \<noteq> q \<Longrightarrow> find_desc q (record_desc p n t new Ds) = Some D"
  by (induction Ds) (auto simp: Let_def split: if_splits)

lemma RecordList_moves:
  assumes rep: "represents log s" "log \<noteq> []" and env: "allocates env" and fresh: "g_UnusedList s = Some a" "a \<noteq> u_next s"
    and big: "8192 < length (logged log) + length lst" "length lst \<le> 5461"
  shows "\<exists>s'. RecordList env d p lst s = Some s' \<and> u_heap s' a = None \<and>
    (\<exists>new. g_UnusedFile s' = record_desc p (of_nat (length lst)) (list_size lst) new (g_UnusedFile s))"
proof -
  let ?k = "length (logged log)"
  obtain cells where h: "u_heap s a = Some cells" "length cells = 8192" "g_dwMaxUnusedListCount s = 8192" "g_dwUnusedListCount s = of_nat ?k"
    using rep fresh(1) by (auto simp: represents_def array_holds_def)
  have "log_ok log" using rep(1) by (simp add: represents_def)
  then have ok: "?k \<le> 8192" "0 < ?k" using rep(2) by (cases log; force simp: log_ok_def)+
  have n: "0 < length lst" using big(1) ok(1) by linarith
  have k: "unat (of_nat ?k :: u32) = ?k" using ok by (intro unat_of_nat_u32) simp
  then have k0: "(of_nat ?k :: u32) \<noteq> 0" using ok(2) by (metis not_less_zero unat_0)
  have "(8192 :: u32) < of_nat (length lst + ?k)"
    using unat_of_nat_u32 [of "length lst + ?k"] ok big unfolding word_less_nat_alt by simp
  then have grow: "g_dwMaxUnusedListCount s < of_nat (length lst) + g_dwUnusedListCount s" by (simp add: h)
  obtain mem where mem: "AllocatePool env d 196608 = Some mem" "length mem = 196608" using env unfolding allocates_def by blast
  let ?new = "take ?k cells @ replicate (16384 - ?k) None"
  have gl: "grow_list env d (of_nat (length lst)) s = Some (s\<lparr>u_heap := ((u_heap s)(a := None))(u_next s \<mapsto> ?new), u_next := Suc (u_next s),
      g_UnusedList := Some (u_next s), g_dwMaxUnusedListCount := 16384\<rparr>)"
    using fresh(1) h k k0 ok mem round_8192 [OF n] big(2)
    by (simp add: grow_list_def Let_def SIZE_L_BYTES_def myalloc_def)
  then show ?thesis
    unfolding RecordList_def Let_def using grow h k ok big(2) fresh(2) by auto
qed

text \<open>
  C30. When RecordList has to move the lists to a larger array, the lists recorded before for
  other partitions can no longer be read: their descriptors still point into the array it has
  freed.
\<close>

theorem RecordList_growth_dangles:
  assumes rep: "represents log s" and env: "allocates env" and fresh: "g_UnusedList s = Some a" "a \<noteq> u_next s"
    and big: "8192 < length (logged log) + length lst" "length lst \<le> 5461" and q: "q \<in> fst ` set log" "q \<noteq> p"
  shows "\<exists>s1 x s2. RecordList env d p lst s = Some s1 \<and>
    GetUnusedDataList dump env d Ps q (s1\<lparr>g_UnusedListInit := True\<rparr>) = Some (x, s2) \<and> current_unused s2 = None"
proof -
  obtain l where mem: "(q, l) \<in> set log" using q by auto
  then have ne: "log \<noteq> []" by auto
  obtain s1 new where s1: "RecordList env d p lst s = Some s1" "u_heap s1 a = None"
      "g_UnusedFile s1 = record_desc p (of_nat (length lst)) (list_size lst) new (g_UnusedFile s)"
    using RecordList_moves [OF rep ne env fresh big, of d p] by blast
  have ok: "log_ok log" using rep by (simp add: represents_def)
  have gf: "g_UnusedFile s = descs a 0 log @ replicate (MAX_UNUSED_FILES - length log) empty_desc"
    using rep ne fresh(1) by (auto simp: represents_def array_holds_def)
  obtain log1 log2 where f: "log = log1 @ (q, l) # log2" "find_desc q (g_UnusedFile s) =
      Some \<lparr>ud_PartitionIndex = q, ud_ListCount = of_nat (length l), ud_TotalSize = list_size l, ud_pList = Some (a, length (logged log1))\<rparr>"
    unfolding gf using find_desc_logged [OF _ mem, of a "replicate (MAX_UNUSED_FILES - length log) empty_desc"] ok
    unfolding log_ok_def by blast
  have l: "l \<noteq> []" "length l \<le> 8192" using ok f(1) by (auto simp: log_ok_def)
  then have nz: "(of_nat (length l) :: u16) \<noteq> 0" by (intro small_count) auto
  then have nz2: "(ucast (of_nat (length l) :: u16) :: u32) \<noteq> 0" using l count_unat [OF l(2)] by (metis length_0_conv unat_0)
  have "find_desc q (g_UnusedFile s1) = find_desc q (g_UnusedFile s)"
    unfolding s1(3) f(2) by (rule find_desc_record [OF f(2)]) (use nz q in auto)
  then show ?thesis
    using s1(1,2) f(2) nz2 by (simp add: GetUnusedDataList_def Let_def current_unused_def)
qed

section \<open>An example\<close>

definition two_parts :: "WIN32_PARTITIONINFO list" where
  "two_parts = [empty_partition, empty_partition\<lparr>bIfBackup := 1\<rparr>]"

definition one_run :: dump where
  "one_run P name = Some [\<lparr>Begin = 100, Number = 7\<rparr>]"

definition no_lists :: unused_state where
  "no_lists = \<lparr>u_heap = (\<lambda>_. None), u_next = 0, g_UnusedListInit = False, g_UnusedList = None, g_dwMaxUnusedListCount = 0,
     g_dwUnusedListCount = 0, g_UnusedFile = replicate MAX_UNUSED_FILES empty_desc, g_CurrentUnusedList = None,
     g_dwCurrentUnusedListCount = 0\<rparr>"

theorem unused_lists_exact_witness:
  "\<exists>s1 s2. GetAllUnusedDataSize one_run (ram_env 1) (\<lambda>_. []) two_parts 2 no_lists = Some (21, s1) \<and>
    GetUnusedDataList one_run (ram_env 1) (\<lambda>_. []) two_parts 1 s1 = Some (21, s2) \<and>
    current_unused s2 = Some (replicate 3 \<lparr>Begin = 100, Number = 7\<rparr>)"
proof -
  have r: "[0..<2] = [0, 1]" by (simp add: upt_rec)
  show ?thesis
    using unused_lists_exact [of "ram_env 1" no_lists 2 two_parts one_run "\<lambda>_. [[\<lparr>Begin = 100, Number = 7\<rparr>], [\<lparr>Begin = 100, Number = 7\<rparr>], [\<lparr>Begin = 100, Number = 7\<rparr>]]" 1 "\<lambda>_. []"]
    by (simp add: r two_parts_def empty_partition_def one_run_def no_lists_def unused_names_def MAX_UNUSED_FILES_def
        allocates_def ram_env_def list_size_def less_2_cases_iff numeral_3_eq_3)
qed

theorem RecordList_growth_dangles_witness:
  "\<exists>s s1 x s2. RecordList (ram_env 1) (\<lambda>_. []) 0 (replicate 5000 \<lparr>Begin = 100, Number = 7\<rparr>) no_lists = Some s \<and>
    RecordList (ram_env 1) (\<lambda>_. []) 1 (replicate 5000 \<lparr>Begin = 200, Number = 7\<rparr>) s = Some s1 \<and>
    GetUnusedDataList one_run (ram_env 1) (\<lambda>_. []) two_parts 0 (s1\<lparr>g_UnusedListInit := True\<rparr>) = Some (x, s2) \<and>
    current_unused s2 = None"
proof -
  let ?l = "replicate 5000 \<lparr>Begin = 100, Number = 7\<rparr>"
  have al: "allocates (ram_env 1)" by (simp add: allocates_def ram_env_def)
  have "represents [] no_lists" by (simp add: represents_def log_ok_def no_lists_def)
  moreover have "add_list 0 ?l [] = [(0, ?l)]" by (simp add: add_list_def)
  moreover have "log_ok [(0, ?l)]" by (simp add: log_ok_def MAX_UNUSED_FILES_def)
  ultimately obtain s where s: "RecordList (ram_env 1) (\<lambda>_. []) 0 ?l no_lists = Some s" "represents [(0, ?l)] s"
    using RecordList_adds [OF _ al, of "[]" no_lists ?l 0 "\<lambda>_. []"] by auto
  have "g_UnusedList s = Some 0 \<and> u_next s = 1"
    using s(1) by (auto simp: RecordList_def grow_list_def no_lists_def Let_def elim!: bind_SomeE split: if_splits)
  then show ?thesis
    using s RecordList_growth_dangles [OF s(2) al, of 0 "replicate 5000 \<lparr>Begin = 200, Number = 7\<rparr>" 0 1] by auto
qed

end
