(* ===== verification/Okr_BufferArray.thy ===== *)
theory Okr_BufferArray
  imports Okr_Volume
begin

text \<open>
  The ring of buffers between the two threads of a backup or a restore, utils.c from
  \<open>Init_BufferArray\<close> to \<open>Destroy_BufferArray\<close>.

  The field \<open>pointer\<close> holds the memory that the pointer may use: the bytes from its address up to
  the next buffer of the array. \<open>ring_cfg\<close> are the fields of \<open>g_data\<close> that \<open>Init_BufferArray\<close> reads.
  \<open>GetProducter\<close> and \<open>GetConsumer\<close> first advance an index and then poll the buffer, and the
  other thread moves between any two polls. So each is split: \<open>GetProducter_next\<close> and
  \<open>GetProducter_undo\<close> are the code before the loop and on the way out of it, and the loop itself
  consists of the rules of \<open>ring_step\<close>, which reads \<open>datavalid\<close> and \<open>bCompleted\<close> in separate steps.
\<close>

record BUFFER_INFO =
  pointer :: buf
  totalsize :: u32
  usedsize :: u32
  srcsize :: u32
  datavalid :: bool
  partitionindex :: byte
  ifcompressed :: bool
  sequence :: u32

record BUFFERARRAY =
  number :: u32
  consumer :: u16
  producer :: u16
  buffer :: "BUFFER_INFO list"

record ring_cfg =
  MemoryPagesNumber :: u32
  bMultiThread :: bool
  bAsyncIO :: bool
  cfgRecover :: bool
  CompressBlockSize :: u32

definition MAX_BUFFER_COUNT :: nat where "MAX_BUFFER_COUNT = 4"
definition MAX_COMPRESS_BLOCK_SIZE :: u32 where "MAX_COMPRESS_BLOCK_SIZE = 500 * 1024 * 1024"
definition MIN_COMPRESS_BLOCK_SIZE :: u32 where "MIN_COMPRESS_BLOCK_SIZE = 100 * 1024 * 1024"

definition empty_buffer :: BUFFER_INFO where
  "empty_buffer = \<lparr>pointer = [], totalsize = 0, usedsize = 0, srcsize = 0, datavalid = False,
     partitionindex = 0, ifcompressed = False, sequence = 0\<rparr>"

section \<open>Allocation\<close>

text \<open>The loop that lowers the size, or in a restore the number of buffers, until they fit.\<close>

fun init_loop ::
  "'d disk_env \<Rightarrow> 'd \<Rightarrow> ring_cfg \<Rightarrow> nat \<Rightarrow> u32 \<Rightarrow> u32 \<Rightarrow> (buf \<times> u32 \<times> u32) option" where
  "init_loop env d cfg 0 sz num = None"
| "init_loop env d cfg (Suc k) sz num =
     (case (if sz * (num + 1) div 4096 < MemoryPagesNumber cfg \<or> MemoryPagesNumber cfg = 0
            then myalloc env d (sz * num + num * ucast ALGIN_SIZE_BYTE) else None) of
        Some pool \<Rightarrow> Some (pool, sz, num)
      | None \<Rightarrow>
          if cfgRecover cfg
          then (if num div 2 = 0 then None else init_loop env d cfg k sz (num div 2))
          else (if sz - MIN_COMPRESS_BLOCK_SIZE < MIN_COMPRESS_BLOCK_SIZE then None
                else init_loop env d cfg k (sz - MIN_COMPRESS_BLOCK_SIZE) num))"

definition first_size :: "ring_cfg \<Rightarrow> u32" where
  "first_size cfg =
     (if cfgRecover cfg then CompressBlockSize cfg
      else if bMultiThread cfg \<and> bAsyncIO cfg then MAX_COMPRESS_BLOCK_SIZE div 2
      else if MemoryPagesNumber cfg = 0 then MIN_COMPRESS_BLOCK_SIZE
      else MAX_COMPRESS_BLOCK_SIZE)"

definition first_number :: "ring_cfg \<Rightarrow> u32" where
  "first_number cfg = (if bMultiThread cfg then (if bAsyncIO cfg then 4 else 2) else 1)"

definition slot_at :: "buf \<Rightarrow> u32 \<Rightarrow> nat \<Rightarrow> buf" where
  "slot_at pool sz i =
     take (unat sz + unat ALGIN_SIZE_BYTE)
       (drop (unat (sz * of_nat i) + unat ALGIN_SIZE_BYTE * i) pool)"

definition Init_BufferArray ::
  "'d disk_env \<Rightarrow> 'd \<Rightarrow> ring_cfg \<Rightarrow> (BUFFERARRAY \<times> ring_cfg) option" where
  "Init_BufferArray env d cfg =
     do { (pool, sz, num) \<leftarrow> init_loop env d cfg 256 (first_size cfg) (first_number cfg);
          Some (\<lparr>number = num, consumer = 0, producer = 0,
                  buffer = map (\<lambda>i. if i < unat num
                     then empty_buffer\<lparr>pointer := slot_at pool sz i, totalsize := sz\<rparr>
                     else empty_buffer) [0..<MAX_BUFFER_COUNT]\<rparr>,
                cfg\<lparr>CompressBlockSize := sz, bMultiThread := bMultiThread cfg \<and> num \<noteq> 1\<rparr>) }"

definition Clean_BufferArray :: "BUFFERARRAY \<Rightarrow> BUFFERARRAY" where
  "Clean_BufferArray A = A\<lparr>buffer := map (\<lambda>b. b\<lparr>datavalid := False, usedsize := 0, sequence := 0\<rparr>) (buffer A),
     producer := 0, consumer := 0\<rparr>"

definition Destroy_BufferArray :: "BUFFERARRAY \<Rightarrow> BUFFERARRAY" where
  "Destroy_BufferArray A = \<lparr>number = 0, consumer = 0, producer = 0,
     buffer = replicate MAX_BUFFER_COUNT empty_buffer\<rparr>"

section \<open>Taking a buffer\<close>

definition ring_next :: "u32 \<Rightarrow> u16 \<Rightarrow> u16" where
  "ring_next n i = (if n \<le> ucast (i + 1) then 0 else i + 1)"

definition ring_prev :: "u32 \<Rightarrow> u16 \<Rightarrow> u16" where
  "ring_prev n i = (if i = 0 then ucast (n - 1) else i - 1)"

definition GetProducter_next :: "bool \<Rightarrow> BUFFERARRAY \<Rightarrow> nat \<times> BUFFERARRAY" where
  "GetProducter_next multi A =
     (if multi then (unat (producer A), A\<lparr>producer := ring_next (number A) (producer A)\<rparr>) else (0, A))"

definition GetProducter_undo :: "BUFFERARRAY \<Rightarrow> BUFFERARRAY" where
  "GetProducter_undo A = A\<lparr>producer := ring_prev (number A) (producer A)\<rparr>"

definition GetConsumer_next :: "bool \<Rightarrow> BUFFERARRAY \<Rightarrow> nat \<times> BUFFERARRAY" where
  "GetConsumer_next multi A =
     (if multi then (unat (consumer A), A\<lparr>consumer := ring_next (number A) (consumer A)\<rparr>) else (0, A))"

definition GetConsumer_undo :: "BUFFERARRAY \<Rightarrow> BUFFERARRAY" where
  "GetConsumer_undo A = A\<lparr>consumer := ring_prev (number A) (consumer A)\<rparr>"

definition GetConsumerAnyway :: "bool \<Rightarrow> BUFFERARRAY \<Rightarrow> (nat \<times> BUFFERARRAY) option" where
  "GetConsumerAnyway multi A =
     (if \<not> multi then Some (0, A)
      else if length (buffer A) \<le> unat (consumer A) then None
      else Some (unat (consumer A),
        if datavalid (buffer A ! unat (consumer A))
        then A\<lparr>consumer := ring_next (number A) (consumer A)\<rparr> else A))"

section \<open>The two threads\<close>

text \<open>
  What the producer does with the buffers it gets is a list of functions on buffers, one for each
  buffer it fills; the consumer looks at the buffer and clears \<open>datavalid\<close>. \<open>posted\<close> and \<open>got\<close>
  record what was put into the ring and what was taken out. With \<open>p_fail\<close> and \<open>c_quit\<close> a thread ends
  early: on an error outside the ring, or with a buffer in hand whose data could not be compressed,
  read or written.
\<close>

datatype prod_pc = PIdle | PWait nat | PSaw nat | PFill nat | PDone
datatype cons_pc = CIdle | CWait nat | CSaw nat | CUse nat | CDone

record ring =
  arr :: BUFFERARRAY
  bCompleted :: bool
  ppc :: prod_pc
  cpc :: cons_pc
  todo :: "(BUFFER_INFO \<Rightarrow> BUFFER_INFO) list"
  posted :: "BUFFER_INFO list"
  got :: "BUFFER_INFO list"

definition set_slot :: "nat \<Rightarrow> BUFFER_INFO \<Rightarrow> BUFFERARRAY \<Rightarrow> BUFFERARRAY" where
  "set_slot i b A = A\<lparr>buffer := (buffer A)[i := b]\<rparr>"

inductive ring_step :: "ring \<Rightarrow> ring \<Rightarrow> bool" where
  p_begin: "\<lbrakk>ppc s = PIdle; todo s \<noteq> []; GetProducter_next True (arr s) = (i, A)\<rbrakk>
    \<Longrightarrow> ring_step s (s\<lparr>ppc := PWait i, arr := A\<rparr>)"
| p_free: "\<lbrakk>ppc s = PWait i; \<not> datavalid (buffer (arr s) ! i)\<rbrakk> \<Longrightarrow> ring_step s (s\<lparr>ppc := PFill i\<rparr>)"
| p_full: "\<lbrakk>ppc s = PWait i; datavalid (buffer (arr s) ! i)\<rbrakk> \<Longrightarrow> ring_step s (s\<lparr>ppc := PSaw i\<rparr>)"
| p_again: "\<lbrakk>ppc s = PSaw i; \<not> bCompleted s\<rbrakk> \<Longrightarrow> ring_step s (s\<lparr>ppc := PWait i\<rparr>)"
| p_null: "\<lbrakk>ppc s = PSaw i; bCompleted s\<rbrakk>
    \<Longrightarrow> ring_step s (s\<lparr>ppc := PDone, arr := GetProducter_undo (arr s)\<rparr>)"
| p_post: "\<lbrakk>ppc s = PFill i; todo s = g # gs; b = (g (buffer (arr s) ! i))\<lparr>datavalid := True\<rparr>\<rbrakk>
    \<Longrightarrow> ring_step s (s\<lparr>ppc := PIdle, arr := set_slot i b (arr s), todo := gs, posted := posted s @ [b]\<rparr>)"
| p_end: "\<lbrakk>ppc s = PIdle; todo s = []\<rbrakk> \<Longrightarrow> ring_step s (s\<lparr>ppc := PDone, bCompleted := True\<rparr>)"
| p_fail: "ppc s = PIdle \<or> ppc s = PFill i \<Longrightarrow> ring_step s (s\<lparr>ppc := PDone, bCompleted := True\<rparr>)"
| c_begin: "\<lbrakk>cpc s = CIdle; GetConsumer_next True (arr s) = (i, A)\<rbrakk>
    \<Longrightarrow> ring_step s (s\<lparr>cpc := CWait i, arr := A\<rparr>)"
| c_ready: "\<lbrakk>cpc s = CWait i; datavalid (buffer (arr s) ! i)\<rbrakk> \<Longrightarrow> ring_step s (s\<lparr>cpc := CUse i\<rparr>)"
| c_empty: "\<lbrakk>cpc s = CWait i; \<not> datavalid (buffer (arr s) ! i)\<rbrakk> \<Longrightarrow> ring_step s (s\<lparr>cpc := CSaw i\<rparr>)"
| c_again: "\<lbrakk>cpc s = CSaw i; \<not> bCompleted s\<rbrakk> \<Longrightarrow> ring_step s (s\<lparr>cpc := CWait i\<rparr>)"
| c_null: "\<lbrakk>cpc s = CSaw i; bCompleted s\<rbrakk>
    \<Longrightarrow> ring_step s (s\<lparr>cpc := CDone, arr := GetConsumer_undo (arr s)\<rparr>)"
| c_used: "\<lbrakk>cpc s = CUse i; b = buffer (arr s) ! i\<rbrakk>
    \<Longrightarrow> ring_step s (s\<lparr>cpc := CIdle, arr := set_slot i (b\<lparr>datavalid := False\<rparr>) (arr s), got := got s @ [b]\<rparr>)"
| c_quit: "cpc s = CIdle \<or> cpc s = CUse i \<Longrightarrow> ring_step s (s\<lparr>cpc := CDone, bCompleted := True\<rparr>)"

definition ring_start :: "BUFFERARRAY \<Rightarrow> (BUFFER_INFO \<Rightarrow> BUFFER_INFO) list \<Rightarrow> ring" where
  "ring_start A gs = \<lparr>arr = Clean_BufferArray A, bCompleted = False, ppc = PIdle, cpc = CIdle,
     todo = gs, posted = [], got = []\<rparr>"

inductive ring_reach :: "BUFFERARRAY \<Rightarrow> (BUFFER_INFO \<Rightarrow> BUFFER_INFO) list \<Rightarrow> ring \<Rightarrow> bool" for A gs where
  reach_start: "ring_reach A gs (ring_start A gs)"
| reach_step: "ring_reach A gs s \<Longrightarrow> ring_step s s' \<Longrightarrow> ring_reach A gs s'"

text \<open>What the producer posts when it runs alone, with the buffers always free in time.\<close>

fun posts :: "nat \<Rightarrow> nat \<Rightarrow> BUFFER_INFO list \<Rightarrow> (BUFFER_INFO \<Rightarrow> BUFFER_INFO) list \<Rightarrow> BUFFER_INFO list" where
  "posts n p bs [] = []"
| "posts n p bs (g # gs) =
     (let b = (g ((bs ! (p mod n))\<lparr>datavalid := False\<rparr>))\<lparr>datavalid := True\<rparr>
      in b # posts n (p + 1) (bs[p mod n := b]) gs)"

end
