(* ===== verification/Okr_Ring.thy ===== *)
theory Okr_Ring
  imports Okr_BufferArray
begin

text \<open>
  What the ring of buffers guarantees to its two threads, for every interleaving of their steps:
  the invariant of the ring (the buffers with data are a window of the sequence of posts), in-order
  delivery, exclusive use of a buffer, absence of a mutual wait, and that delivery stays possible.
  It also shows the one way in which a posted buffer is lost, and how \<open>Init_BufferArray\<close> divides
  its memory.
\<close>

section \<open>Ring arithmetic\<close>

lemma mod_window:
  fixes m c n :: nat
  assumes "c \<le> m" "m < c + n" "m mod n = c mod n"
  shows "m = c"
proof -
  have "n dvd m - c"
    using assms by (metis mod_eq_dvd_iff_nat)
  with assms show ?thesis
    by (auto dest: dvd_imp_le)
qed

definition ring_size :: "BUFFERARRAY \<Rightarrow> nat \<Rightarrow> bool" where
  "ring_size A n \<longleftrightarrow> unat (number A) = n \<and> 0 < n \<and> n \<le> MAX_BUFFER_COUNT \<and> length (buffer A) = MAX_BUFFER_COUNT"

lemma ring_next_mod:
  assumes "unat n = N" "0 < N" "N \<le> MAX_BUFFER_COUNT" "unat i = k mod N"
  shows "unat (ring_next n i) = Suc k mod N"
proof -
  have lt: "k mod N < N" using assms by simp
  then have "unat i < 4" using assms(3,4) unfolding MAX_BUFFER_COUNT_def by (simp only: order_less_le_trans [OF lt])
  then have s: "unat (i + 1) = Suc (k mod N)"
    using assms(4) by (subst unat_add_no_wrap) auto
  then have "n \<le> ucast (i + 1) \<longleftrightarrow> N \<le> Suc (k mod N)"
    using assms(1) by (simp add: word_le_nat_alt)
  with s lt show ?thesis
    by (auto simp: ring_next_def mod_Suc)
qed

definition same_but_valid :: "BUFFER_INFO list \<Rightarrow> BUFFER_INFO list \<Rightarrow> bool" where
  "same_but_valid bs bs' \<longleftrightarrow> map (\<lambda>b. b\<lparr>datavalid := False\<rparr>) bs = map (\<lambda>b. b\<lparr>datavalid := False\<rparr>) bs'"

lemma same_but_valid_nth:
  "same_but_valid bs bs' \<Longrightarrow> length bs' = length bs \<and> (i < length bs \<longrightarrow> (bs ! i)\<lparr>datavalid := False\<rparr> = (bs' ! i)\<lparr>datavalid := False\<rparr>)"
  unfolding same_but_valid_def by (metis length_map nth_map)

lemma posts_cong:
  assumes "0 < n"
  shows "same_but_valid bs bs' \<Longrightarrow> n \<le> length bs \<Longrightarrow> posts n p bs gs = posts n p bs' gs"
proof (induction gs arbitrary: p bs bs')
  case (Cons g gs)
  have k: "p mod n < length bs" using assms Cons.prems(2) by (meson mod_less_divisor order_less_le_trans)
  let ?b = "(g ((bs ! (p mod n))\<lparr>datavalid := False\<rparr>))\<lparr>datavalid := True\<rparr>"
  have eq: "(bs ! (p mod n))\<lparr>datavalid := False\<rparr> = (bs' ! (p mod n))\<lparr>datavalid := False\<rparr>" "length bs' = length bs"
    using same_but_valid_nth [OF Cons.prems(1)] k by auto
  have "same_but_valid (bs[p mod n := ?b]) (bs'[p mod n := ?b])"
    using Cons.prems(1) by (simp add: same_but_valid_def map_update)
  from Cons.IH [OF this] Cons.prems(2) eq show ?case
    by (simp add: Let_def)
qed simp

section \<open>The invariant\<close>

definition window :: "nat \<Rightarrow> nat \<Rightarrow> nat \<Rightarrow> BUFFER_INFO list \<Rightarrow> BUFFER_INFO list \<Rightarrow> bool" where
  "window n c p bs ps \<longleftrightarrow> c \<le> p \<and> p \<le> c + n \<and>
     (\<forall>k < n. datavalid (bs ! k) \<longleftrightarrow> (\<exists>m. c \<le> m \<and> m < p \<and> m mod n = k)) \<and>
     (\<forall>m. c \<le> m \<and> m < p \<longrightarrow> bs ! (m mod n) = ps ! m)"

lemma window_free:
  assumes "window n c p bs ps" "0 < n" "\<not> datavalid (bs ! (p mod n))"
  shows "p < c + n"
proof (rule ccontr)
  assume "\<not> p < c + n"
  then have "p = c + n"
    using assms(1) by (auto simp: window_def)
  then have "c \<le> c \<and> c < p \<and> c mod n = p mod n"
    using assms(2) by simp
  then have "datavalid (bs ! (p mod n))"
    using assms(1,2) unfolding window_def by (meson mod_less_divisor)
  with assms(3) show False ..
qed

lemma window_busy:
  assumes "window n c p bs ps" "0 < n" "datavalid (bs ! (c mod n))"
  shows "c < p"
proof -
  obtain m where "c \<le> m" "m < p"
    using assms unfolding window_def by (meson mod_less_divisor)
  then show ?thesis by simp
qed

lemma window_post:
  assumes w: "window n c (length ps) bs ps" and n: "0 < n" "n \<le> length bs"
    and free: "\<not> datavalid (bs ! (length ps mod n))" and b: "datavalid b"
  shows "window n c (Suc (length ps)) (bs[length ps mod n := b]) (ps @ [b])"
proof -
  let ?p = "length ps" and ?bs = "bs[length ps mod n := b]"
  have lt: "?p < c + n" using window_free [OF w n(1) free] .
  have cp: "c \<le> ?p" and valid: "\<And>k. k < n \<Longrightarrow> datavalid (bs ! k) \<longleftrightarrow> (\<exists>m. c \<le> m \<and> m < ?p \<and> m mod n = k)"
    and cont: "\<And>m. c \<le> m \<Longrightarrow> m < ?p \<Longrightarrow> bs ! (m mod n) = ps ! m"
    using w by (auto simp: window_def)
  have pm: "?p mod n < length bs" using n by (meson mod_less_divisor order_less_le_trans)
  have other: "m mod n \<noteq> ?p mod n" if "c \<le> m" "m < ?p" for m
    using that free valid [of "m mod n"] n(1) by auto
  have "datavalid (?bs ! k) \<longleftrightarrow> (\<exists>m. c \<le> m \<and> m < Suc ?p \<and> m mod n = k)" if "k < n" for k
    using that valid [OF that] pm b cp by (cases "k = ?p mod n") (auto simp: less_Suc_eq)
  moreover have "?bs ! (m mod n) = (ps @ [b]) ! m" if "c \<le> m" "m < Suc ?p" for m
    using that cont [of m] other [of m] pm by (cases "m = ?p") (auto simp: nth_append)
  ultimately show ?thesis
    using lt cp by (auto simp: window_def)
qed

lemma window_use:
  assumes w: "window n c p bs ps" and n: "0 < n" "n \<le> length bs"
    and busy: "datavalid (bs ! (c mod n))" and b: "\<not> datavalid b"
  shows "window n (Suc c) p (bs[c mod n := b]) ps"
proof -
  let ?bs = "bs[c mod n := b]"
  have lt: "c < p" using window_busy [OF w n(1) busy] .
  have pn: "p \<le> c + n" and valid: "\<And>k. k < n \<Longrightarrow> datavalid (bs ! k) \<longleftrightarrow> (\<exists>m. c \<le> m \<and> m < p \<and> m mod n = k)"
    and cont: "\<And>m. c \<le> m \<Longrightarrow> m < p \<Longrightarrow> bs ! (m mod n) = ps ! m"
    using w by (auto simp: window_def)
  have cm: "c mod n < length bs" using n by (meson mod_less_divisor order_less_le_trans)
  have other: "m mod n \<noteq> c mod n" if "Suc c \<le> m" "m < p" for m
    using mod_window [of c m n] that pn by auto
  have "datavalid (?bs ! k) \<longleftrightarrow> (\<exists>m. Suc c \<le> m \<and> m < p \<and> m mod n = k)" if "k < n" for k
  proof (cases "k = c mod n")
    case True then show ?thesis using cm b other by auto
  next
    case False
    then have "Suc c \<le> m \<longleftrightarrow> c \<le> m" if "m mod n = k" for m
      using that by (metis Suc_leD le_antisym not_less_eq_eq)
    with False show ?thesis
      using valid [OF that] by auto
  qed
  moreover have "?bs ! (m mod n) = ps ! m" if "Suc c \<le> m" "m < p" for m
    using that cont [of m] other [of m] by auto
  ultimately show ?thesis
    using lt pn by (auto simp: window_def)
qed


fun prod_ok :: "nat \<Rightarrow> nat \<Rightarrow> BUFFERARRAY \<Rightarrow> prod_pc \<Rightarrow> bool" where
  "prod_ok n p A PIdle \<longleftrightarrow> unat (producer A) = p mod n"
| "prod_ok n p A (PWait i) \<longleftrightarrow> i = p mod n \<and> unat (producer A) = Suc p mod n"
| "prod_ok n p A (PSaw i) \<longleftrightarrow> i = p mod n \<and> unat (producer A) = Suc p mod n"
| "prod_ok n p A (PFill i) \<longleftrightarrow> i = p mod n \<and> unat (producer A) = Suc p mod n \<and> \<not> datavalid (buffer A ! i)"
| "prod_ok n p A PDone \<longleftrightarrow> True"

fun cons_ok :: "nat \<Rightarrow> nat \<Rightarrow> BUFFERARRAY \<Rightarrow> cons_pc \<Rightarrow> bool" where
  "cons_ok n c A CIdle \<longleftrightarrow> unat (consumer A) = c mod n"
| "cons_ok n c A (CWait i) \<longleftrightarrow> i = c mod n \<and> unat (consumer A) = Suc c mod n"
| "cons_ok n c A (CSaw i) \<longleftrightarrow> i = c mod n \<and> unat (consumer A) = Suc c mod n"
| "cons_ok n c A (CUse i) \<longleftrightarrow> i = c mod n \<and> unat (consumer A) = Suc c mod n \<and> datavalid (buffer A ! i)"
| "cons_ok n c A CDone \<longleftrightarrow> True"

definition ring_inv :: "nat \<Rightarrow> BUFFER_INFO list \<Rightarrow> ring \<Rightarrow> bool" where
  "ring_inv n sent s \<longleftrightarrow> ring_size (arr s) n \<and>
     window n (length (got s)) (length (posted s)) (buffer (arr s)) (posted s) \<and>
     got s = take (length (got s)) (posted s) \<and>
     posted s @ posts n (length (posted s)) (buffer (arr s)) (todo s) = sent \<and>
     prod_ok n (length (posted s)) (arr s) (ppc s) \<and>
     cons_ok n (length (got s)) (arr s) (cpc s)"

lemma prod_ok_cong:
  "prod_ok n p A pc \<Longrightarrow> producer A' = producer A \<Longrightarrow>
    (\<And>i. pc = PFill i \<Longrightarrow> \<not> datavalid (buffer A ! i) \<Longrightarrow> \<not> datavalid (buffer A' ! i)) \<Longrightarrow> prod_ok n p A' pc"
  by (cases pc) auto

lemma cons_ok_cong:
  "cons_ok n c A pc \<Longrightarrow> consumer A' = consumer A \<Longrightarrow>
    (\<And>i. pc = CUse i \<Longrightarrow> datavalid (buffer A ! i) \<Longrightarrow> datavalid (buffer A' ! i)) \<Longrightarrow> cons_ok n c A' pc"
  by (cases pc) auto

lemma ring_size_mod: "ring_size A n \<Longrightarrow> k mod n < length (buffer A)"
  unfolding ring_size_def by (metis mod_less_divisor order_less_le_trans)

lemmas ring_next_mod' = ring_next_mod [of "number A" n for A n]

lemma inv_post:
  assumes inv: "ring_inv n sent s" and fill: "ppc s = PFill i" and td: "todo s = g # gs"
    and b: "b = (g (buffer (arr s) ! i))\<lparr>datavalid := True\<rparr>"
  shows "ring_inv n sent (s\<lparr>ppc := PIdle, arr := set_slot i b (arr s), todo := gs, posted := posted s @ [b]\<rparr>)"
proof -
  let ?p = "length (posted s)" and ?bs = "buffer (arr s)"
  have i: "i = ?p mod n" "\<not> datavalid (?bs ! i)" "unat (producer (arr s)) = Suc ?p mod n"
    using inv fill by (auto simp: ring_inv_def)
  have sz: "ring_size (arr s) n" and n: "0 < n" "n \<le> length ?bs"
    using inv by (auto simp: ring_inv_def ring_size_def)
  have w: "window n (length (got s)) (Suc ?p) (?bs[i := b]) (posted s @ [b])"
    using window_post [of n "length (got s)" "posted s" ?bs b] inv n i b by (simp add: ring_inv_def)
  have "(?bs ! i)\<lparr>datavalid := False\<rparr> = ?bs ! i"
    using i(2) by (cases "?bs ! i") simp
  then have "posts n ?p ?bs (todo s) = b # posts n (Suc ?p) (?bs[i := b]) gs"
    by (simp add: td b i(1) Let_def)
  then have sent: "sent = (posted s @ [b]) @ posts n (Suc ?p) (?bs[i := b]) gs"
    using inv by (simp add: ring_inv_def)
  have "cons_ok n (length (got s)) (set_slot i b (arr s)) (cpc s)"
    by (rule cons_ok_cong [of _ _ "arr s"])
      (use inv b ring_size_mod [OF sz, of ?p] i in \<open>auto simp: ring_inv_def set_slot_def nth_list_update\<close>)
  moreover have "length (got s) \<le> ?p"
    using inv by (auto simp: ring_inv_def window_def)
  ultimately show ?thesis
    using inv w sent i sz by (simp add: ring_inv_def set_slot_def ring_size_def)
qed

lemma inv_used:
  assumes inv: "ring_inv n sent s" and use: "cpc s = CUse i" and b: "b = buffer (arr s) ! i"
  shows "ring_inv n sent (s\<lparr>cpc := CIdle, arr := set_slot i (b\<lparr>datavalid := False\<rparr>) (arr s), got := got s @ [b]\<rparr>)"
proof -
  let ?c = "length (got s)" and ?p = "length (posted s)" and ?bs = "buffer (arr s)"
  let ?bs' = "?bs[i := b\<lparr>datavalid := False\<rparr>]"
  have i: "i = ?c mod n" "datavalid (?bs ! i)" "unat (consumer (arr s)) = Suc ?c mod n"
    using inv use by (auto simp: ring_inv_def)
  have sz: "ring_size (arr s) n" and n: "0 < n" "n \<le> length ?bs"
    using inv by (auto simp: ring_inv_def ring_size_def)
  have w0: "window n ?c ?p ?bs (posted s)" and g: "got s = take ?c (posted s)"
    using inv by (auto simp: ring_inv_def)
  have c: "?c < ?p" using window_busy [OF w0 n(1)] i by simp
  then have bc: "b = posted s ! ?c"
    using w0 b i(1) by (auto simp: window_def)
  have w: "window n (Suc ?c) ?p ?bs' (posted s)"
    using window_use [OF w0 n, of "b\<lparr>datavalid := False\<rparr>"] i by simp
  have "same_but_valid ?bs' ?bs"
    using ring_size_mod [OF sz, of ?c] i(1) b
    by (simp add: same_but_valid_def map_update) (metis list_update_id map_update)
  then have "posts n ?p ?bs' (todo s) = posts n ?p ?bs (todo s)"
    using posts_cong [OF n(1)] n(2) by simp
  moreover have "prod_ok n ?p (set_slot i (b\<lparr>datavalid := False\<rparr>) (arr s)) (ppc s)"
    by (rule prod_ok_cong [of _ _ "arr s"])
      (use inv ring_size_mod [OF sz, of ?c] i in \<open>auto simp: ring_inv_def set_slot_def nth_list_update\<close>)
  moreover have "got s @ [b] = take (Suc ?c) (posted s)"
    using c bc g by (metis take_Suc_conv_app_nth)
  moreover have "min ?p (Suc ?c) = Suc ?c"
    using c by simp
  ultimately show ?thesis
    using inv w i sz by (simp add: ring_inv_def set_slot_def ring_size_def)
qed

lemma inv_step: "ring_step s s' \<Longrightarrow> ring_inv n sent s \<Longrightarrow> ring_inv n sent s'"
proof (induction rule: ring_step.induct)
  case (p_begin s i A)
  then have "unat (ring_next (number (arr s)) (producer (arr s))) = Suc (length (posted s)) mod n"
    by (intro ring_next_mod) (auto simp: ring_inv_def ring_size_def)
  moreover have "cons_ok n (length (got s)) A (cpc s)"
    by (rule cons_ok_cong [of _ _ "arr s"]) (use p_begin in \<open>auto simp: ring_inv_def GetProducter_next_def\<close>)
  ultimately show ?case
    using p_begin by (auto simp: ring_inv_def GetProducter_next_def ring_size_def)
next
  case (p_null s i)
  have "cons_ok n (length (got s)) (GetProducter_undo (arr s)) (cpc s)"
    by (rule cons_ok_cong [of _ _ "arr s"]) (use p_null in \<open>auto simp: ring_inv_def GetProducter_undo_def\<close>)
  then show ?case
    using p_null by (auto simp: ring_inv_def GetProducter_undo_def ring_size_def)
next
  case (p_post s i g gs b)
  then show ?case using inv_post by blast
next
  case (c_begin s i A)
  then have "unat (ring_next (number (arr s)) (consumer (arr s))) = Suc (length (got s)) mod n"
    by (intro ring_next_mod) (auto simp: ring_inv_def ring_size_def)
  moreover have "prod_ok n (length (posted s)) A (ppc s)"
    by (rule prod_ok_cong [of _ _ "arr s"]) (use c_begin in \<open>auto simp: ring_inv_def GetConsumer_next_def\<close>)
  ultimately show ?case
    using c_begin by (auto simp: ring_inv_def GetConsumer_next_def ring_size_def)
next
  case (c_null s i)
  have "prod_ok n (length (posted s)) (GetConsumer_undo (arr s)) (ppc s)"
    by (rule prod_ok_cong [of _ _ "arr s"]) (use c_null in \<open>auto simp: ring_inv_def GetConsumer_undo_def\<close>)
  then show ?case
    using c_null by (auto simp: ring_inv_def GetConsumer_undo_def ring_size_def)
next
  case (c_used s i b)
  then show ?case using inv_used by blast
qed (auto simp: ring_inv_def)

definition ring_sent :: "BUFFERARRAY \<Rightarrow> (BUFFER_INFO \<Rightarrow> BUFFER_INFO) list \<Rightarrow> BUFFER_INFO list" where
  "ring_sent A gs = posts (unat (number A)) 0 (buffer (Clean_BufferArray A)) gs"

lemma inv_start:
  assumes "ring_size A n"
  shows "ring_inv n (ring_sent A gs) (ring_start A gs)"
proof -
  have "\<not> datavalid (buffer (Clean_BufferArray A) ! k)" if "k < n" for k
    using that assms by (simp add: Clean_BufferArray_def ring_size_def)
  then show ?thesis
    using assms by (simp add: ring_inv_def ring_start_def ring_sent_def window_def ring_size_def Clean_BufferArray_def)
qed

lemma ring_invariant: "ring_reach A gs s \<Longrightarrow> ring_size A n \<Longrightarrow> ring_inv n (ring_sent A gs) s"
  by (induction rule: ring_reach.induct) (auto intro: inv_start inv_step)


section \<open>What the two threads can rely on\<close>

lemma ring_inv_got: "ring_inv n sent s \<Longrightarrow> \<exists>rest. posted s = got s @ rest"
  unfolding ring_inv_def by (metis append_take_drop_id)

text \<open>
  C17. In every state that the two threads can reach through the ring of buffers, what was
  posted is a prefix of what the producer has to send, and what was taken a prefix of what was
  posted, with at most as many buffers in between as the ring has.
\<close>

theorem ring_in_order:
  assumes "ring_size A n" "ring_reach A gs s"
  shows "(\<exists>rest. ring_sent A gs = posted s @ rest) \<and> (\<exists>pending. posted s = got s @ pending \<and> length pending \<le> n)"
proof -
  have inv: "ring_inv n (ring_sent A gs) s"
    using ring_invariant assms by blast
  then obtain pending where "posted s = got s @ pending"
    using ring_inv_got by blast
  moreover have "\<exists>rest. ring_sent A gs = posted s @ rest"
    using inv unfolding ring_inv_def by metis
  ultimately show ?thesis
    using inv by (auto simp: ring_inv_def window_def)
qed

text \<open>
  C18. The producer never fills the buffer that the consumer is using.
\<close>

theorem ring_exclusive:
  assumes "ring_size A n" "ring_reach A gs s" "ppc s = PFill i" "cpc s = CUse j"
  shows "i < n \<and> j < n \<and> i \<noteq> j"
  using ring_invariant [OF assms(2,1)] assms(3,4) by (auto simp: ring_inv_def ring_size_def)

text \<open>When both threads poll, one of the two finds what it waits for.\<close>

lemma ring_not_stuck:
  assumes "ring_size A n" "ring_reach A gs s" "ppc s = PWait i" "cpc s = CWait j"
  shows "\<not> datavalid (buffer (arr s) ! i) \<or> datavalid (buffer (arr s) ! j)"
proof -
  let ?c = "length (got s)" and ?p = "length (posted s)"
  have w: "window n ?c ?p (buffer (arr s)) (posted s)" "i = ?p mod n" "j = ?c mod n" "0 < n"
    using ring_invariant [OF assms(2,1)] assms(3,4) by (auto simp: ring_inv_def ring_size_def)
  show ?thesis
  proof (cases "?c = ?p")
    case True
    then show ?thesis using w by auto
  next
    case False
    then have "datavalid (buffer (arr s) ! (?c mod n))"
      using w(1,4) unfolding window_def by (metis le_eq_less_or_eq mod_less_divisor)
    with w show ?thesis by simp
  qed
qed

text \<open>
  C21. When the producer has nothing left and the consumer finds its next buffer empty, the
  consumer has had everything.
\<close>

theorem ring_drained:
  assumes "ring_size A n" "ring_reach A gs s" "todo s = []" "cpc s = CWait i" "\<not> datavalid (buffer (arr s) ! i)"
  shows "got s = ring_sent A gs"
proof -
  let ?c = "length (got s)" and ?p = "length (posted s)"
  have inv: "ring_inv n (ring_sent A gs) s"
    using ring_invariant assms by blast
  then have w: "window n ?c ?p (buffer (arr s)) (posted s)" "i = ?c mod n" "0 < n"
    using assms(4) by (auto simp: ring_inv_def ring_size_def)
  have "?c = ?p"
    using w assms(5) unfolding window_def by (metis le_neq_implies_less mod_less_divisor order_refl)
  then have "got s = posted s"
    using inv by (simp add: ring_inv_def)
  then show ?thesis
    using inv assms(3) by (simp add: ring_inv_def)
qed

lemma ring_reach_steps: "ring_step\<^sup>*\<^sup>* s s' \<Longrightarrow> ring_reach A gs s \<Longrightarrow> ring_reach A gs s'"
  by (induction rule: rtranclp_induct) (auto intro: reach_step)

text \<open>When the producer is done and the consumer has seen an empty buffer, nothing more is taken.\<close>

lemma given_up_step:
  "\<lbrakk>ring_step s s'; ppc s = PDone; bCompleted s; cpc s = CDone \<or> (\<exists>i. cpc s = CSaw i)\<rbrakk>
    \<Longrightarrow> ppc s' = PDone \<and> bCompleted s' \<and> cpc s' = CDone \<and> got s' = got s"
  by (induction rule: ring_step.induct) auto

lemma given_up:
  assumes "ring_step\<^sup>*\<^sup>* s s'" "ppc s = PDone" "bCompleted s" "cpc s = CDone \<or> (\<exists>i. cpc s = CSaw i)"
  shows "got s' = got s"
proof -
  have "ppc s' = PDone \<and> bCompleted s' \<and> (cpc s' = CDone \<or> (\<exists>i. cpc s' = CSaw i)) \<and> got s' = got s"
    using assms(1)
  proof (induction rule: rtranclp_induct)
    case (step t t')
    then show ?case using given_up_step [OF step.hyps(2)] by auto
  qed (use assms in auto)
  then show ?thesis by blast
qed

text \<open>
  C29. GetConsumer tests datavalid and then bCompleted. Between the two tests the producer can post its
  last buffer and finish: the consumer, which saw an empty buffer before anything was posted, then
  sees bCompleted and gives up, and on no continuation is the buffer taken, although it lies there
  with datavalid set.
\<close>

theorem GetConsumer_misses_last:
  assumes "ring_size A n"
  shows "\<exists>s1 s2. ring_reach A [g] s1 \<and> cpc s1 = CSaw 0 \<and> \<not> bCompleted s1 \<and> posted s1 = [] \<and>
    ring_step\<^sup>*\<^sup>* s1 s2 \<and> cpc s2 = CSaw 0 \<and> todo s2 = [] \<and> posted s2 = ring_sent A [g] \<and>
    bCompleted s2 \<and> datavalid (buffer (arr s2) ! 0) \<and>
    (\<exists>s'. ring_step s2 s' \<and> cpc s' = CDone) \<and> (\<forall>s'. ring_step\<^sup>*\<^sup>* s2 s' \<longrightarrow> got s' = [])"
proof -
  let ?A0 = "Clean_BufferArray A"
  let ?s0 = "ring_start A [g]"
  have free: "\<not> datavalid (buffer ?A0 ! 0)" "0 < length (buffer ?A0)"
    using assms by (auto simp: Clean_BufferArray_def ring_size_def MAX_BUFFER_COUNT_def)
  define A1 where "A1 = ?A0\<lparr>consumer := ring_next (number A) 0\<rparr>"
  define A2 where "A2 = A1\<lparr>producer := ring_next (number A) 0\<rparr>"
  define b where "b = (g (buffer A2 ! 0))\<lparr>datavalid := True\<rparr>"
  define A3 where "A3 = set_slot 0 b A2"
  have eq: "GetConsumer_next True ?A0 = (0, A1)" "GetProducter_next True A1 = (0, A2)"
    "buffer A1 = buffer ?A0" "buffer A2 = buffer ?A0"
    by (simp_all add: A1_def A2_def GetConsumer_next_def GetProducter_next_def Clean_BufferArray_def)
  have r1: "ring_reach A [g] (?s0\<lparr>cpc := CWait 0, arr := A1\<rparr>)" (is "ring_reach _ _ ?s1")
    by (rule reach_step [OF reach_start], rule c_begin) (simp_all add: ring_start_def eq)
  have r2: "ring_reach A [g] (?s1\<lparr>cpc := CSaw 0\<rparr>)" (is "ring_reach _ _ ?s2")
    by (rule reach_step [OF r1], rule c_empty) (simp_all add: eq free)
  have "ring_step ?s2 (?s2\<lparr>ppc := PWait 0, arr := A2\<rparr>)" (is "ring_step _ ?s3")
    by (rule p_begin) (simp_all add: ring_start_def eq)
  moreover have "ring_step ?s3 (?s3\<lparr>ppc := PFill 0\<rparr>)" (is "ring_step _ ?s4")
    by (rule p_free) (simp_all add: eq free)
  moreover have "ring_step ?s4 (?s4\<lparr>ppc := PIdle, arr := A3, todo := [], posted := [b]\<rparr>)" (is "ring_step _ ?s5")
    using p_post [of ?s4 0 g "[]" b] by (simp add: ring_start_def b_def A3_def)
  moreover have "ring_step ?s5 (?s5\<lparr>ppc := PDone, bCompleted := True\<rparr>)" (is "ring_step _ ?s6")
    by (rule p_end) simp_all
  ultimately have steps: "ring_step\<^sup>*\<^sup>* ?s2 ?s6"
    by (meson converse_rtranclp_into_rtranclp rtranclp.rtrancl_refl)
  have "ring_inv n (ring_sent A [g]) ?s6"
    using ring_invariant [OF ring_reach_steps [OF steps r2] assms] .
  then have "posted ?s6 = ring_sent A [g]" by (simp add: ring_inv_def)
  moreover have "ring_step ?s6 (?s6\<lparr>cpc := CDone, arr := GetConsumer_undo (arr ?s6)\<rparr>)"
    by (rule c_null) simp_all
  then have "\<exists>s'. ring_step ?s6 s' \<and> cpc s' = CDone" by (intro exI conjI, assumption) simp
  moreover have "got s' = []" if "ring_step\<^sup>*\<^sup>* ?s6 s'" for s'
    using given_up [OF that] by (simp add: ring_start_def)
  moreover have "datavalid (buffer (arr ?s6) ! 0)"
    using free eq by (simp add: A3_def set_slot_def b_def)
  moreover have "cpc ?s2 = CSaw 0 \<and> \<not> bCompleted ?s2 \<and> posted ?s2 = []" "cpc ?s6 = CSaw 0 \<and> todo ?s6 = [] \<and> bCompleted ?s6"
    by (simp_all add: ring_start_def)
  ultimately show ?thesis
    using r2 steps by blast
qed

section \<open>Progress\<close>

definition running :: "ring \<Rightarrow> bool" where
  "running s \<longleftrightarrow> \<not> bCompleted s \<and> ppc s \<noteq> PDone \<and> cpc s \<noteq> CDone"

definition advances :: "ring \<Rightarrow> ring \<Rightarrow> nat \<Rightarrow> nat \<Rightarrow> bool" where
  "advances s s' dp dg \<longleftrightarrow> ring_step\<^sup>*\<^sup>* s s' \<and> running s' \<and>
     length (posted s') = length (posted s) + dp \<and> length (got s') = length (got s) + dg"

lemma advances_step:
  "ring_step s t \<Longrightarrow> posted t = posted s \<Longrightarrow> got t = got s \<Longrightarrow> \<exists>s'. advances t s' dp dg \<Longrightarrow> \<exists>s'. advances s s' dp dg"
  unfolding advances_def by (metis converse_rtranclp_into_rtranclp)

lemma advances_trans:
  "advances s t a b \<Longrightarrow> advances t u c d \<Longrightarrow> advances s u (a + c) (b + d)"
  unfolding advances_def by auto

lemma consumer_use:
  assumes "running s" "cpc s = CUse i"
  shows "\<exists>s'. advances s s' 0 (Suc 0)"
  unfolding advances_def
  by (intro exI conjI, rule r_into_rtranclp, rule c_used [OF assms(2) refl])
    (use assms in \<open>auto simp: running_def\<close>)

lemma consumer_wait:
  "running s \<Longrightarrow> cpc s = CWait i \<Longrightarrow> datavalid (buffer (arr s) ! i) \<Longrightarrow> \<exists>s'. advances s s' 0 (Suc 0)"
  by (rule advances_step [OF c_ready [of s i]]) (auto intro!: consumer_use simp: running_def)

lemma consumer_takes:
  assumes inv: "ring_inv n sent s" and run: "running s"
    and valid: "datavalid (buffer (arr s) ! (length (got s) mod n))"
  shows "\<exists>s'. advances s s' 0 (Suc 0)"
proof (cases "cpc s")
  case CIdle
  then have c: "unat (consumer (arr s)) = length (got s) mod n"
    using inv by (simp add: ring_inv_def)
  show ?thesis
    by (rule advances_step [OF c_begin [OF CIdle, of "length (got s) mod n"
          "(arr s)\<lparr>consumer := ring_next (number (arr s)) (consumer (arr s))\<rparr>"]])
      (use c run valid in \<open>auto simp: GetConsumer_next_def running_def intro!: consumer_wait\<close>)
next
  case (CWait i)
  then show ?thesis using inv run valid by (auto simp: ring_inv_def intro: consumer_wait)
next
  case (CSaw i)
  then show ?thesis
    using inv run valid
    by (intro advances_step [OF c_again [of s i]]) (auto simp: ring_inv_def running_def intro!: consumer_wait)
next
  case (CUse i)
  then show ?thesis using run by (rule consumer_use [rotated])
qed (use run in \<open>simp add: running_def\<close>)

lemma producer_fill:
  assumes "running s" "ppc s = PFill i" "todo s = g # gs"
  shows "\<exists>s'. advances s s' (Suc 0) 0"
proof -
  let ?b = "(g (buffer (arr s) ! i))\<lparr>datavalid := True\<rparr>"
  show ?thesis
    unfolding advances_def
    by (intro exI conjI, rule r_into_rtranclp, rule p_post [OF assms(2,3) refl])
      (use assms in \<open>auto simp: running_def\<close>)
qed

lemma producer_wait:
  "running s \<Longrightarrow> ppc s = PWait i \<Longrightarrow> \<not> datavalid (buffer (arr s) ! i) \<Longrightarrow> todo s = g # gs \<Longrightarrow> \<exists>s'. advances s s' (Suc 0) 0"
  by (rule advances_step [OF p_free [of s i]]) (auto intro!: producer_fill simp: running_def)

lemma producer_posts:
  assumes inv: "ring_inv n sent s" and run: "running s"
    and free: "\<not> datavalid (buffer (arr s) ! (length (posted s) mod n))" and td: "todo s = g # gs"
  shows "\<exists>s'. advances s s' (Suc 0) 0"
proof (cases "ppc s")
  case PIdle
  then have p: "unat (producer (arr s)) = length (posted s) mod n"
    using inv by (simp add: ring_inv_def)
  show ?thesis
    by (rule advances_step [OF p_begin [OF PIdle, of "length (posted s) mod n"
          "(arr s)\<lparr>producer := ring_next (number (arr s)) (producer (arr s))\<rparr>"]])
      (use p run free td in \<open>auto simp: GetProducter_next_def running_def intro!: producer_wait\<close>)
next
  case (PWait i)
  then show ?thesis using inv run free td by (auto simp: ring_inv_def intro: producer_wait)
next
  case (PSaw i)
  then show ?thesis
    using inv run free td
    by (intro advances_step [OF p_again [of s i]]) (auto simp: ring_inv_def running_def intro!: producer_wait)
next
  case (PFill i)
  then show ?thesis using run td by (intro producer_fill)
qed (use run in \<open>simp add: running_def\<close>)

lemma inv_steps: "ring_step\<^sup>*\<^sup>* s s' \<Longrightarrow> ring_inv n sent s \<Longrightarrow> ring_inv n sent s'"
  by (induction rule: rtranclp_induct) (auto intro: inv_step)

lemma window_front_valid:
  "window n c p bs ps \<Longrightarrow> 0 < n \<Longrightarrow> c < p \<Longrightarrow> datavalid (bs ! (c mod n))"
  unfolding window_def by (metis mod_less_divisor order_refl)

lemma deliver_one:
  assumes inv: "ring_inv n sent s" and run: "running s" and more: "length (got s) < length sent"
  shows "\<exists>s' dp. advances s s' dp (Suc 0)"
proof -
  let ?c = "length (got s)" and ?p = "length (posted s)"
  have w: "window n ?c ?p (buffer (arr s)) (posted s)" "0 < n"
    using inv by (auto simp: ring_inv_def ring_size_def)
  show ?thesis
  proof (cases "?c < ?p")
    case True
    then show ?thesis
      using consumer_takes [OF inv run] window_front_valid [OF w] by blast
  next
    case False
    then have p: "?p = ?c" using w(1) by (simp add: window_def)
    have len: "sent = posted s @ posts n ?p (buffer (arr s)) (todo s)"
      using inv by (simp add: ring_inv_def)
    then have "posts n ?p (buffer (arr s)) (todo s) \<noteq> []"
      using more p by auto
    then obtain g gs where td: "todo s = g # gs"
      by (cases "todo s") auto
    have "\<not> datavalid (buffer (arr s) ! (?p mod n))"
      using w p unfolding window_def by (metis leD mod_less_divisor)
    then obtain t where t: "advances s t (Suc 0) 0"
      using producer_posts [OF inv run] td by blast
    then have inv': "ring_inv n sent t" and t': "running t" "length (got t) < length (posted t)"
      using inv_steps [OF _ inv] p by (auto simp: advances_def)
    have "window n (length (got t)) (length (posted t)) (buffer (arr t)) (posted t)"
      using inv' by (simp add: ring_inv_def)
    then obtain u where "advances t u 0 (Suc 0)"
      using consumer_takes [OF inv' t'(1)] window_front_valid w(2) t'(2) by blast
    then show ?thesis
      using advances_trans [OF t] by fastforce
  qed
qed

lemma deliver_all:
  "ring_inv n sent s \<Longrightarrow> running s \<Longrightarrow> \<exists>s'. ring_step\<^sup>*\<^sup>* s s' \<and> running s' \<and> got s' = sent"
proof (induction "length sent - length (got s)" arbitrary: s rule: less_induct)
  case less
  have pre: "\<exists>rest. sent = got s @ rest"
    using ring_inv_got [OF less.prems(1)] less.prems(1) by (auto simp: ring_inv_def)
  show ?case
  proof (cases "length (got s) < length sent")
    case True
    from deliver_one [OF less.prems True] obtain t dp where t: "advances s t dp (Suc 0)" by blast
    then have st: "ring_step\<^sup>*\<^sup>* s t" "running t" "length (got t) = Suc (length (got s))"
      by (auto simp: advances_def)
    have "length sent - length (got t) < length sent - length (got s)"
      using True st(3) by linarith
    from less.hyps [OF this inv_steps [OF st(1) less.prems(1)] st(2)]
    obtain u where "ring_step\<^sup>*\<^sup>* t u" "running u" "got u = sent" by blast
    with rtranclp_trans [OF st(1)] show ?thesis by blast
  next
    case False
    then have "got s = sent" using pre by auto
    with less.prems show ?thesis by blast
  qed
qed

text \<open>
  C19. From every reachable state in which neither thread has stopped, the two can go on to a
  state in which the consumer has had everything.
\<close>

theorem ring_can_deliver:
  assumes "ring_size A n" "ring_reach A gs s" "running s"
  shows "\<exists>s'. ring_step\<^sup>*\<^sup>* s s' \<and> running s' \<and> got s' = ring_sent A gs"
  using deliver_all [OF ring_invariant [OF assms(2,1)] assms(3)] .

section \<open>The layout of the buffers\<close>

lemma init_loop_bounds:
  assumes "init_loop env d cfg k sz num = Some (pool, sz', num')"
    and "MIN_COMPRESS_BLOCK_SIZE \<le> sz \<or> cfgRecover cfg" "sz \<le> MAX_COMPRESS_BLOCK_SIZE" "0 < num" "num \<le> 4"
  shows "sz' \<le> MAX_COMPRESS_BLOCK_SIZE \<and> 0 < num' \<and> num' \<le> 4 \<and>
    myalloc env d (sz' * num' + num' * ucast ALGIN_SIZE_BYTE) = Some pool"
  using assms
proof (induction k arbitrary: sz num)
  case (Suc k)
  let ?alloc = "if sz * (num + 1) div 4096 < MemoryPagesNumber cfg \<or> MemoryPagesNumber cfg = 0
            then myalloc env d (sz * num + num * ucast ALGIN_SIZE_BYTE) else None"
  show ?case
  proof (cases ?alloc)
    case (Some p)
    then have "p = pool" "sz' = sz" "num' = num"
      using Suc.prems(1) by (simp_all only: init_loop.simps option.case option.inject prod.inject)
    with Some Suc.prems show ?thesis
      by (auto split: if_splits)
  next
    case None
    note step = Suc.prems(1) [unfolded init_loop.simps None option.case]
    show ?thesis
    proof (cases "cfgRecover cfg")
      case True
      have "num div 2 \<le> num"
        by (simp add: word_le_nat_alt unat_div_distrib)
      with True step Suc.prems show ?thesis
        by (intro Suc.IH [of sz "num div 2"]) (auto simp: word_gt_0 split: if_splits)
    next
      case False
      then have "MIN_COMPRESS_BLOCK_SIZE \<le> sz" using Suc.prems(2) by simp
      then have "sz - MIN_COMPRESS_BLOCK_SIZE \<le> sz"
        by (simp add: word_le_nat_alt unat_sub_no_wrap)
      with False step Suc.prems show ?thesis
        by (intro Suc.IH [of "sz - MIN_COMPRESS_BLOCK_SIZE" num]) (auto simp: not_less split: if_splits)
    qed
  qed
qed simp

lemma concat_slots:
  assumes "length pool = n * w"
  shows "concat (map (\<lambda>i. take w (drop (w * i) pool)) [0..<n]) = pool"
  using assms
proof (induction n arbitrary: pool)
  case (Suc n)
  have "concat (map (\<lambda>i. take w (drop (w * i) pool)) [0..<n])
      = concat (map (\<lambda>i. take w (drop (w * i) (take (n * w) pool))) [0..<n])"
  proof (intro arg_cong [where f = concat] map_cong refl)
    fix i assume "i \<in> set [0..<n]"
    then have "Suc i \<le> n" by simp
    then have "w * i + w \<le> n * w"
      by (metis mult.commute mult_Suc_right mult_le_mono2 add.commute)
    then show "take w (drop (w * i) pool) = take w (drop (w * i) (take (n * w) pool))"
      by (simp add: drop_take min_def)
  qed
  also have "\<dots> = take (n * w) pool"
    using Suc.prems by (intro Suc.IH) simp
  finally show ?case
    using Suc.prems by (simp add: mult.commute [of w n])
qed simp

lemma slot_offset:
  assumes "unat sz \<le> 524288000" "i \<le> 4"
  shows "unat (sz * of_nat i :: u32) = unat sz * i"
proof -
  have "unat sz * i \<le> 524288000 * 4" using mult_le_mono [OF assms] .
  then show ?thesis
    using assms(2) by (subst unat_mult_no_wrap) (simp_all add: unat_of_nat take_bit_nat_eq_self)
qed

lemma pool_length:
  assumes "unat sz \<le> 524288000" "unat num \<le> 4"
  shows "unat (sz * num + num * ucast ALGIN_SIZE_BYTE :: u32) = unat num * (unat sz + 4096)"
proof -
  have m1: "unat (sz * num) = unat sz * unat num" using slot_offset [OF assms] by simp
  have m2: "unat (num * ucast ALGIN_SIZE_BYTE) = unat num * 4096"
    using assms(2) by (subst unat_mult_no_wrap) (simp_all add: ALGIN_SIZE_BYTE_def)
  have "unat sz * unat num \<le> 524288000 * 4" using mult_le_mono [OF assms] .
  then have "unat (sz * num) + unat (num * ucast ALGIN_SIZE_BYTE) < 2 ^ LENGTH(32)"
    using assms(2) unfolding m1 m2 by simp
  from unat_add_no_wrap [OF this] show ?thesis
    unfolding m1 m2 by (simp only: add_mult_distrib2 mult.commute [of "unat sz"])
qed

lemma slot_at_take:
  assumes "unat sz \<le> 524288000" "i \<le> 4"
  shows "slot_at pool sz i = take (unat sz + 4096) (drop ((unat sz + 4096) * i) pool)"
proof -
  have a: "unat ALGIN_SIZE_BYTE = 4096" by (simp add: ALGIN_SIZE_BYTE_def)
  have "unat sz * i + 4096 * i = (unat sz + 4096) * i" by (simp add: add_mult_distrib)
  then show ?thesis using slot_offset [OF assms] unfolding slot_at_def a by simp
qed

text \<open>
  C22. In a backup, and in a restore of an image whose CompressBlockSize is at most
  MAX_COMPRESS_BLOCK_SIZE, a successful Init_BufferArray gives every buffer of the ring room for a
  compressed block and 4096 bytes of padding; the buffers lie one behind the other and fill the
  allocated memory exactly. For larger sizes the product of size and number can wrap.
\<close>

theorem Init_BufferArray_layout:
  assumes init: "Init_BufferArray env d cfg = Some (A, cfg')"
    and alloc: "\<And>n m. AllocatePool env d n = Some m \<Longrightarrow> length m = n"
    and size: "cfgRecover cfg \<longrightarrow> CompressBlockSize cfg \<le> MAX_COMPRESS_BLOCK_SIZE"
  shows "ring_size A (unat (number A)) \<and>
    (\<forall>i < unat (number A). totalsize (buffer A ! i) = CompressBlockSize cfg' \<and>
       length (pointer (buffer A ! i)) = unat (CompressBlockSize cfg') + 4096) \<and>
    (\<exists>pool. AllocatePool env d (unat (number A) * (unat (CompressBlockSize cfg') + 4096)) = Some pool \<and>
       concat (map pointer (take (unat (number A)) (buffer A))) = pool)"
proof -
  obtain pool sz num where loop: "init_loop env d cfg 256 (first_size cfg) (first_number cfg) = Some (pool, sz, num)"
    and A: "number A = num" "buffer A = map (\<lambda>i. if i < unat num
                     then empty_buffer\<lparr>pointer := slot_at pool sz i, totalsize := sz\<rparr>
                     else empty_buffer) [0..<MAX_BUFFER_COUNT]"
    and cfg': "CompressBlockSize cfg' = sz"
    using init by (auto simp: Init_BufferArray_def elim!: bind_SomeE)
  define n where "n = unat num"
  define z where "z = unat sz"
  have "sz \<le> MAX_COMPRESS_BLOCK_SIZE \<and> 0 < num \<and> num \<le> 4 \<and>
      myalloc env d (sz * num + num * ucast ALGIN_SIZE_BYTE) = Some pool"
    by (rule init_loop_bounds [OF loop])
      (use size in \<open>auto simp: first_size_def first_number_def MIN_COMPRESS_BLOCK_SIZE_def MAX_COMPRESS_BLOCK_SIZE_def\<close>)
  then have n: "0 < n" "n \<le> 4" and z: "z \<le> 524288000"
    and al: "myalloc env d (sz * num + num * ucast ALGIN_SIZE_BYTE) = Some pool"
    by (simp_all add: n_def z_def word_le_nat_alt word_less_nat_alt MAX_COMPRESS_BLOCK_SIZE_def)
  have len: "unat (sz * num + num * ucast ALGIN_SIZE_BYTE) = n * (z + 4096)"
    unfolding n_def z_def by (rule pool_length) (use n z in \<open>simp_all add: n_def z_def\<close>)
  have "4096 \<le> n * (z + 4096)"
    using n by (metis One_nat_def Suc_leI le_add2 mult_le_mono nat_mult_1)
  then have pool: "AllocatePool env d (n * (z + 4096)) = Some pool"
    using al len by (auto simp: myalloc_def word_less_nat_alt split: if_splits)
  then have lp: "length pool = n * (z + 4096)" using alloc by blast
  have slot: "slot_at pool sz i = take (z + 4096) (drop ((z + 4096) * i) pool)" if "i < n" for i
    unfolding z_def by (rule slot_at_take) (use that n z in \<open>simp_all add: z_def\<close>)
  have ptr: "map pointer (take n (buffer A)) = map (\<lambda>i. take (z + 4096) (drop ((z + 4096) * i) pool)) [0..<n]"
    using n slot by (auto simp: A take_map MAX_BUFFER_COUNT_def n_def [symmetric])
  have "length (take (z + 4096) (drop ((z + 4096) * i) pool)) = z + 4096" if "i < n" for i
  proof -
    have "(z + 4096) * Suc i \<le> (z + 4096) * n" using that by (intro mult_le_mono2) simp
    then show ?thesis using lp by (simp add: mult.commute)
  qed
  then have "\<forall>i < n. totalsize (buffer A ! i) = sz \<and> length (pointer (buffer A ! i)) = z + 4096"
    using n slot by (auto simp: A MAX_BUFFER_COUNT_def n_def [symmetric])
  moreover have "ring_size A n"
    using n by (simp add: ring_size_def A n_def MAX_BUFFER_COUNT_def)
  ultimately show ?thesis
    using pool ptr concat_slots [OF lp] by (auto simp: A(1) cfg' n_def [symmetric] z_def [symmetric])
qed


section \<open>The ring as a channel\<close>

text \<open>
  What the threads rely on: whatever was taken out is the beginning of what the producer, on its
  own, puts in. A consumer that folds a function over the buffers it gets has therefore computed
  the fold over the beginning of the sequence, and the whole fold once it has taken all of them.
\<close>

locale fifo_channel =
  fixes reach :: "'s \<Rightarrow> bool" and taken :: "'s \<Rightarrow> 'a list" and sent :: "'a list"
  assumes in_order: "reach s \<Longrightarrow> \<exists>rest. sent = taken s @ rest"
begin

lemma fold_prefix: "reach s \<Longrightarrow> \<exists>rest. fold f sent z = fold f rest (fold f (taken s) z)"
  using in_order [of s] by auto

lemma output_prefix: "reach s \<Longrightarrow> \<exists>rest. concat (map f sent) = concat (map f (taken s)) @ rest"
  using in_order [of s] by auto

lemma all_taken: "reach s \<Longrightarrow> length sent \<le> length (taken s) \<Longrightarrow> taken s = sent"
  using in_order [of s] by auto

end

interpretation ring: fifo_channel "\<lambda>s. ring_size A n \<and> ring_reach A gs s" got "ring_sent A gs"
  for A n gs
proof
  fix s assume "ring_size A n \<and> ring_reach A gs s"
  then have "ring_inv n (ring_sent A gs) s"
    using ring_invariant by blast
  then show "\<exists>rest. ring_sent A gs = got s @ rest"
    using ring_inv_got [of n "ring_sent A gs" s] unfolding ring_inv_def by (metis append.assoc)
qed

section \<open>Sample runs\<close>

definition small_ring :: BUFFERARRAY where
  "small_ring = \<lparr>number = 2, consumer = 0, producer = 0, buffer = replicate MAX_BUFFER_COUNT empty_buffer\<rparr>"

lemma small_ring_size: "ring_size small_ring 2"
  by (simp add: ring_size_def small_ring_def MAX_BUFFER_COUNT_def)

definition ring_slots :: "bool \<Rightarrow> bool \<Rightarrow> u16 \<Rightarrow> u16 \<Rightarrow> BUFFERARRAY" where
  "ring_slots v w c p = \<lparr>number = 2, consumer = c, producer = p,
     buffer = [empty_buffer\<lparr>datavalid := v\<rparr>, empty_buffer\<lparr>datavalid := w\<rparr>, empty_buffer, empty_buffer]\<rparr>"

definition full_buffer :: BUFFER_INFO where "full_buffer = empty_buffer\<lparr>datavalid := True\<rparr>"

definition ring_at :: "BUFFERARRAY \<Rightarrow> prod_pc \<Rightarrow> cons_pc \<Rightarrow> nat \<Rightarrow> nat \<Rightarrow> nat \<Rightarrow> ring" where
  "ring_at A p c t m k = \<lparr>arr = A, bCompleted = False, ppc = p, cpc = c, todo = replicate t id,
     posted = replicate m full_buffer, got = replicate k full_buffer\<rparr>"

lemma ring_next_small: "ring_next 2 0 = 1" "ring_next 2 1 = 0"
  by code_simp+

lemmas sample_simps = ring_at_def ring_slots_def full_buffer_def set_slot_def empty_buffer_def ring_next_small
  GetProducter_next_def GetConsumer_next_def

lemma sample_begin: "ring_step (ring_at (ring_slots v w c 0) PIdle q (Suc t) m k) (ring_at (ring_slots v w c 1) (PWait 0) q (Suc t) m k)"
  using p_begin [of "ring_at (ring_slots v w c 0) PIdle q (Suc t) m k" 0 "ring_slots v w c 1"] by (simp add: sample_simps)

lemma sample_post: "ring_step (ring_at (ring_slots False w c p) (PFill 0) q (Suc t) m k) (ring_at (ring_slots True w c p) PIdle q t (Suc m) k)"
  using p_post [of "ring_at (ring_slots False w c p) (PFill 0) q (Suc t) m k" 0 id "replicate t id" full_buffer]
  by (simp add: sample_simps replicate_append_same)

lemma sample_free: "ring_step (ring_at (ring_slots False w c p) (PWait 0) q t m k) (ring_at (ring_slots False w c p) (PFill 0) q t m k)"
  using p_free [of "ring_at (ring_slots False w c p) (PWait 0) q t m k" 0] by (simp add: sample_simps)

lemma sample_take: "ring_step (ring_at (ring_slots v w 0 p) q CIdle t m k) (ring_at (ring_slots v w 1 p) q (CWait 0) t m k)"
  using c_begin [of "ring_at (ring_slots v w 0 p) q CIdle t m k" 0 "ring_slots v w 1 p"] by (simp add: sample_simps)

lemma sample_ready: "ring_step (ring_at (ring_slots True w c p) q (CWait 0) t m k) (ring_at (ring_slots True w c p) q (CUse 0) t m k)"
  using c_ready [of "ring_at (ring_slots True w c p) q (CWait 0) t m k" 0] by (simp add: sample_simps)

lemma sample_used: "ring_step (ring_at (ring_slots True w c p) q (CUse 0) t m k) (ring_at (ring_slots False w c p) q CIdle t m (Suc k))"
  using c_used [of "ring_at (ring_slots True w c p) q (CUse 0) t m k" 0 full_buffer] by (simp add: sample_simps replicate_append_same)

lemma sample_second:
  "ring_step (ring_at (ring_slots v False c 1) PIdle q (Suc t) m k) (ring_at (ring_slots v False c 0) (PWait 1) q (Suc t) m k)"
  "ring_step (ring_at (ring_slots v False c 0) (PWait 1) q t m k) (ring_at (ring_slots v False c 0) (PFill 1) q t m k)"
  using p_begin [of "ring_at (ring_slots v False c 1) PIdle q (Suc t) m k" 1 "ring_slots v False c 0"]
    p_free [of "ring_at (ring_slots v False c 0) (PWait 1) q t m k" 1] by (simp_all add: sample_simps)

lemma sample_next: "ring_step (ring_at (ring_slots v False 1 p) q CIdle t m k) (ring_at (ring_slots v False 0 p) q (CWait 1) t m k)"
  using c_begin [of "ring_at (ring_slots v False 1 p) q CIdle t m k" 1 "ring_slots v False 0 p"] by (simp add: sample_simps)

lemma sample_start: "ring_reach small_ring (replicate t id) (ring_at (ring_slots False False 0 0) PIdle CIdle t 0 0)"
  using reach_start [of small_ring "replicate t id"]
  by (simp add: ring_start_def small_ring_def Clean_BufferArray_def MAX_BUFFER_COUNT_def numeral_eq_Suc sample_simps)

lemma sample_waiting: "ring_reach small_ring (replicate (Suc t) id) (ring_at (ring_slots False False 1 1) (PWait 0) (CWait 0) (Suc t) 0 0)"
  by (rule reach_step [OF reach_step [OF sample_start sample_begin] sample_take])

lemma sample_using: "ring_reach small_ring (replicate (Suc t) id) (ring_at (ring_slots True False 1 1) PIdle (CUse 0) t 1 0)"
  using reach_step [OF reach_step [OF reach_step [OF sample_waiting sample_free] sample_post] sample_ready] by simp


theorem ring_in_order_witness:
  "(\<exists>rest. ring_sent small_ring [id, id] = [full_buffer] @ rest) \<and>
    (\<exists>pending. [full_buffer] = ([] :: BUFFER_INFO list) @ pending \<and> length pending \<le> 2)"
  using ring_in_order [OF small_ring_size sample_using [of 1]] by (simp add: ring_at_def)

theorem ring_exclusive_witness:
  "\<exists>s. ring_reach small_ring [id, id] s \<and> ppc s = PFill 1 \<and> cpc s = CUse 0 \<and> (1 :: nat) < 2 \<and> (0 :: nat) < 2 \<and> (1 :: nat) \<noteq> 0"
proof -
  have r: "ring_reach small_ring (replicate 2 id) (ring_at (ring_slots True False 1 0) (PFill 1) (CUse 0) 1 1 0)"
    using reach_step [OF reach_step [OF sample_using [of "Suc 0"] sample_second(1)] sample_second(2)]
    by (simp add: numeral_2_eq_2)
  have "(1 :: nat) < 2 \<and> (0 :: nat) < 2 \<and> (1 :: nat) \<noteq> 0"
    by (rule ring_exclusive [OF small_ring_size r]) (simp_all add: ring_at_def)
  with r show ?thesis
    by (intro exI [of _ "ring_at (ring_slots True False 1 0) (PFill 1) (CUse 0) 1 1 0"]) (simp add: ring_at_def numeral_2_eq_2)
qed

lemma ring_not_stuck_witness:
  "\<exists>s. ring_reach small_ring [id] s \<and> ppc s = PWait 0 \<and> cpc s = CWait 0 \<and>
    (\<not> datavalid (buffer (arr s) ! 0) \<or> datavalid (buffer (arr s) ! 0))"
proof -
  let ?s = "ring_at (ring_slots False False 1 1) (PWait 0) (CWait 0) 1 0 0"
  have r: "ring_reach small_ring [id] ?s"
    using sample_waiting [of 0] by simp
  have "\<not> datavalid (buffer (arr ?s) ! 0) \<or> datavalid (buffer (arr ?s) ! 0)"
    by (rule ring_not_stuck [OF small_ring_size r]) (simp_all add: ring_at_def)
  with r show ?thesis
    by (intro exI [of _ ?s]) (simp add: ring_at_def)
qed

theorem ring_drained_witness: "[full_buffer] = ring_sent small_ring [id]"
proof -
  have r: "ring_reach small_ring [id] (ring_at (ring_slots False False 0 1) PIdle (CWait 1) 0 1 1)"
    using reach_step [OF reach_step [OF sample_using [of 0] sample_used] sample_next] by simp
  show ?thesis
    using ring_drained [OF small_ring_size r, of 1] by (simp add: ring_at_def ring_slots_def empty_buffer_def)
qed

theorem GetConsumer_misses_last_witness:
  "\<exists>s1 s2. ring_reach small_ring [id] s1 \<and> cpc s1 = CSaw 0 \<and> \<not> bCompleted s1 \<and> posted s1 = [] \<and>
    ring_step\<^sup>*\<^sup>* s1 s2 \<and> cpc s2 = CSaw 0 \<and> todo s2 = [] \<and> posted s2 = ring_sent small_ring [id] \<and>
    bCompleted s2 \<and> datavalid (buffer (arr s2) ! 0) \<and>
    (\<exists>s'. ring_step s2 s' \<and> cpc s' = CDone) \<and> (\<forall>s'. ring_step\<^sup>*\<^sup>* s2 s' \<longrightarrow> got s' = [])"
  by (rule GetConsumer_misses_last [OF small_ring_size])

theorem ring_can_deliver_witness:
  "\<exists>s'. ring_step\<^sup>*\<^sup>* (ring_at (ring_slots False False 0 0) PIdle CIdle 2 0 0) s' \<and> running s' \<and> got s' = ring_sent small_ring (replicate 2 id)"
  by (rule ring_can_deliver [OF small_ring_size sample_start]) (simp add: running_def ring_at_def)

definition small_cfg :: ring_cfg where
  "small_cfg = \<lparr>MemoryPagesNumber = 0, bMultiThread = True, bAsyncIO = True, cfgRecover = True, CompressBlockSize = 16\<rparr>"

theorem Init_BufferArray_layout_witness:
  "\<exists>A cfg'. Init_BufferArray (ram_env 1) (\<lambda>_. []) small_cfg = Some (A, cfg') \<and>
    ring_size A (unat (number A)) \<and>
    (\<forall>i < unat (number A). totalsize (buffer A ! i) = CompressBlockSize cfg' \<and>
       length (pointer (buffer A ! i)) = unat (CompressBlockSize cfg') + 4096) \<and>
    (\<exists>pool. AllocatePool (ram_env 1) (\<lambda>_. []) (unat (number A) * (unat (CompressBlockSize cfg') + 4096)) = Some pool \<and>
       concat (map pointer (take (unat (number A)) (buffer A))) = pool)"
proof -
  have loop: "init_loop (ram_env 1) (\<lambda>_. []) small_cfg (Suc 255) 16 4 = Some (replicate 16448 0, 16, 4)"
    unfolding init_loop.simps by (simp add: small_cfg_def myalloc_def ram_env_def ALGIN_SIZE_BYTE_def)
  have "first_size small_cfg = 16" "first_number small_cfg = 4" "(256 :: nat) = Suc 255"
    by (simp_all add: small_cfg_def first_size_def first_number_def)
  then obtain A cfg' where init: "Init_BufferArray (ram_env 1) (\<lambda>_. []) small_cfg = Some (A, cfg')"
    unfolding Init_BufferArray_def using loop by (metis (no_types, lifting) bind.bind_lunit case_prod_conv)
  have "\<And>n m. AllocatePool (ram_env 1) (\<lambda>_. []) n = Some m \<Longrightarrow> length m = n"
    by (auto simp: ram_env_def)
  from Init_BufferArray_layout [OF init this] init show ?thesis
    by (intro exI [of _ A] exI [of _ cfg']) (simp add: small_cfg_def MAX_COMPRESS_BLOCK_SIZE_def)
qed

end
