(* ===== verification/Okr_FileIo.thy ===== *)
theory Okr_FileIo
  imports Okr_Strings
begin

unbundle bit_operations_syntax

text \<open>
  The file layer of \<^verbatim>\<open>src/OkrPkg/okrefi/utils.c\<close> that the image files go through: \<open>SegFileRead\<close> and
  \<open>SegFileWrite\<close> (transfers in pieces of 20 MB), \<open>_FileRead\<close> and \<open>_FileWrite\<close> with the read and
  write cache that NTFS files have, and \<open>FileRead\<close>, \<open>FileWrite\<close>, \<open>FileClose\<close> and \<open>FileSetPos\<close>, which
  split an image into numbered files.

  The firmware's file protocol and the calls of the NTFS library are the fields of \<open>fs_env\<close>, over
  an abstract state \<open>'w\<close> of the file systems. \<open>None\<close> stands for an error status. A read gives the
  bytes it stores in the caller's buffer; \<open>*size\<close> is their number. The memory of the cache is the
  field \<open>cache\<close>. Directories (\<open>ifdir\<close>) are not modelled, and \<open>FileRead\<close> is given only the bytes
  that were read, not what the caller's buffer held behind them.
\<close>

type_synonym fname = "u16 list"

record 'w fs_env =
  efiRead :: "'w \<Rightarrow> nat \<Rightarrow> nat \<Rightarrow> (buf \<times> 'w) option"
  efiWrite :: "'w \<Rightarrow> nat \<Rightarrow> buf \<Rightarrow> (nat \<times> 'w) option"
  efiOpen :: "'w \<Rightarrow> fname \<Rightarrow> u64 \<Rightarrow> (nat \<times> 'w) option"
  efiClose :: "'w \<Rightarrow> nat \<Rightarrow> 'w"
  efiSetPosition :: "'w \<Rightarrow> nat \<Rightarrow> u64 \<Rightarrow> 'w option"
  n_readfile :: "'w \<Rightarrow> nat \<Rightarrow> u64 \<Rightarrow> u64 \<Rightarrow> buf option"
  n_writefile :: "'w \<Rightarrow> nat \<Rightarrow> u64 \<Rightarrow> buf \<Rightarrow> (u64 \<times> 'w) option"
  n_openfile :: "'w \<Rightarrow> buf \<Rightarrow> (nat \<times> 'w) option"
  n_createfile :: "'w \<Rightarrow> buf \<Rightarrow> (nat \<times> 'w) option"
  n_missing :: "'w \<Rightarrow> buf \<Rightarrow> bool"
  n_closefile :: "'w \<Rightarrow> nat \<Rightarrow> 'w"

record FILE_HANDLE_INFO =
  ifntfs :: bool
  filehandle :: "nat option"
  filepos :: u64
  filename :: fname
  currentfileseg :: u32
  currentfilesize :: u64
  ifneedseg :: bool
  ifeof :: bool
  cachedirty :: bool
  cachesize :: u32
  cachedatasize :: u32
  cachedatapos :: u64
  cache :: buf

definition MY_DEFINE_BUFFER_SIZE :: nat where "MY_DEFINE_BUFFER_SIZE = 20 * 1024 * 1024"
definition DEFAULT_FILE_CACHE_SIZE :: u32 where "DEFAULT_FILE_CACHE_SIZE = 0x100000"
definition SPLIT_SIZE :: u64 where "SPLIT_SIZE = 1510612736"
definition MAX_NTFS_TRANSFER :: u64 where "MAX_NTFS_TRANSFER = 16 * 1024 * 1024"
definition EFI_FILE_MODE_READ :: u64 where "EFI_FILE_MODE_READ = 1"
definition EFI_FILE_MODE_WRITE :: u64 where "EFI_FILE_MODE_WRITE = 2"
definition EFI_FILE_MODE_CREATE :: u64 where "EFI_FILE_MODE_CREATE = 0x8000000000000000"
definition OKR_IMAGE_MAGIC :: u32 where "OKR_IMAGE_MAGIC = 0x39726B6F"
definition OKR_VERSION :: u32 where "OKR_VERSION = 0x09000811"

section \<open>Transfers in pieces\<close>

text \<open>The loops of \<open>SegFileRead\<close> and \<open>SegFileWrite\<close>. Both advance by what the firmware reports, and
  \<open>SegFileRead\<close> goes round again after an empty read.\<close>

partial_function (option) seg_read ::
  "'w fs_env \<Rightarrow> nat \<Rightarrow> nat \<Rightarrow> 'w \<Rightarrow> buf \<Rightarrow> (bool \<times> buf \<times> 'w) option" where
  "seg_read env h want w out =
     (if want \<le> length out then Some (True, out, w)
      else case efiRead env w h (min MY_DEFINE_BUFFER_SIZE (want - length out)) of
        None \<Rightarrow> Some (False, out, w)
      | Some (bytes, w') \<Rightarrow> seg_read env h want w' (out @ bytes))"

declare seg_read.simps [code]

definition SegFileRead ::
  "'w fs_env \<Rightarrow> nat \<Rightarrow> 'w \<Rightarrow> nat \<Rightarrow> (bool \<times> buf \<times> 'w) option" where
  "SegFileRead env h w want =
     (if want < MY_DEFINE_BUFFER_SIZE
      then (case efiRead env w h want of
              None \<Rightarrow> Some (False, [], w)
            | Some (bytes, w') \<Rightarrow> Some (True, bytes, w'))
      else seg_read env h want w [])"

partial_function (option) seg_write ::
  "'w fs_env \<Rightarrow> nat \<Rightarrow> buf \<Rightarrow> nat \<Rightarrow> 'w \<Rightarrow> (bool \<times> nat \<times> 'w) option" where
  "seg_write env h bytes index w =
     (if length bytes \<le> index then Some (True, length bytes, w)
      else case efiWrite env w h (take (min MY_DEFINE_BUFFER_SIZE (length bytes - index)) (drop index bytes)) of
        None \<Rightarrow> Some (False, index, w)
      | Some (n, w') \<Rightarrow> seg_write env h bytes (index + n) w')"

declare seg_write.simps [code]

definition SegFileWrite ::
  "'w fs_env \<Rightarrow> nat \<Rightarrow> 'w \<Rightarrow> buf \<Rightarrow> (bool \<times> nat \<times> 'w) option" where
  "SegFileWrite env h w bytes =
     (if length bytes < MY_DEFINE_BUFFER_SIZE
      then (case efiWrite env w h bytes of
              None \<Rightarrow> Some (False, length bytes, w)
            | Some (n, w') \<Rightarrow> Some (True, n, w'))
      else seg_write env h bytes 0 w)"

section \<open>The cache of an NTFS file\<close>

text \<open>The mask is computed in 32 bits and then widened.\<close>

definition cache_multiple :: "FILE_HANDLE_INFO \<Rightarrow> u64 \<Rightarrow> u64" where
  "cache_multiple H n = n AND ucast (NOT (cachesize H - 1))"

partial_function (option) read_direct ::
  "'w fs_env \<Rightarrow> 'w \<Rightarrow> nat \<Rightarrow> u64 \<Rightarrow> u64 \<Rightarrow> u64 \<Rightarrow> buf \<Rightarrow> (bool \<times> u64 \<times> u64 \<times> buf) option" where
  "read_direct env w h readsize pos left out =
     (if readsize = 0 then Some (True, pos, left, out)
      else case n_readfile env w h pos (if MAX_NTFS_TRANSFER < readsize then MAX_NTFS_TRANSFER else readsize) of
        None \<Rightarrow> Some (False, pos, left, out)
      | Some bytes \<Rightarrow>
          if bytes = [] then Some (True, pos, 0, out)
          else let n = of_nat (length bytes)
               in read_direct env w h (readsize - n) (pos + n) (left - n) (out @ bytes))"

declare read_direct.simps [code]

text \<open>Filling the cache from \<open>pos\<close>; the first component tells whether the read worked.\<close>

definition fill_cache ::
  "'w fs_env \<Rightarrow> 'w \<Rightarrow> nat \<Rightarrow> u64 \<Rightarrow> FILE_HANDLE_INFO \<Rightarrow> bool \<times> FILE_HANDLE_INFO" where
  "fill_cache env w h pos H =
     (case n_readfile env w h pos (ucast (cachesize H)) of
        None \<Rightarrow> (False, H)
      | Some bytes \<Rightarrow> (True, H\<lparr>cachedatasize := of_nat (length bytes),
          cache := bytes @ drop (length bytes) (cache H)\<rparr>))"

definition in_cache :: "FILE_HANDLE_INFO \<Rightarrow> bool" where
  "in_cache H \<longleftrightarrow> cachedatapos H \<le> filepos H \<and> filepos H < cachedatapos H + ucast (cachedatasize H)"

definition copy_cached :: "FILE_HANDLE_INFO \<Rightarrow> u64 \<Rightarrow> buf \<Rightarrow> FILE_HANDLE_INFO \<times> u64 \<times> buf" where
  "copy_cached H left out =
     (if in_cache H
      then let ofs = filepos H - cachedatapos H;
               avail = ucast (cachedatasize H) - ofs;
               n = (if avail < left then avail else left)
           in (H\<lparr>filepos := filepos H + n\<rparr>, left - n, out @ take (unat n) (drop (unat ofs) (cache H)))
      else (H, left, out))"

text \<open>The last part of the loop body: whole multiples of the cache size directly, then the cache.
  The flag \<open>go\<close> tells whether the loop goes on; \<open>None\<close> inside stands for the return of \<open>FALSE\<close>.\<close>

definition read_on ::
  "'w fs_env \<Rightarrow> 'w \<Rightarrow> nat \<Rightarrow> FILE_HANDLE_INFO \<Rightarrow> u64 \<Rightarrow> buf \<Rightarrow> (bool \<times> bool \<times> FILE_HANDLE_INFO \<times> u64 \<times> buf) option" where
  "read_on env w h H left out =
     do { (ok, pos, left', out') \<leftarrow> read_direct env w h (cache_multiple H left) (filepos H) left out;
          let H1 = H\<lparr>filepos := pos\<rparr>;
          if \<not> ok then Some (False, False, H1, left', out')
          else if left' = 0 then Some (True, True, H1, left', out')
          else (case fill_cache env w h pos H1 of
              (False, H2) \<Rightarrow> Some (False, False, H2, left', out')
            | (True, H2) \<Rightarrow> Some (True, cachedatasize H2 \<noteq> 0, H2\<lparr>cachedatapos := pos\<rparr>, left', out')) }"

partial_function (option) cached_read ::
  "'w fs_env \<Rightarrow> 'w \<Rightarrow> nat \<Rightarrow> FILE_HANDLE_INFO \<Rightarrow> u64 \<Rightarrow> buf \<Rightarrow> (bool \<times> FILE_HANDLE_INFO \<times> buf) option" where
  "cached_read env w h H left out =
     (if left = 0 then Some (True, H, out)
      else
        let miss = (filepos H AND 511 \<noteq> 0 \<and>
              (filepos H < cachedatapos H \<or> cachedatapos H + ucast (cachedatasize H) < filepos H));
            (ok, H1) = (if miss then fill_cache env w h (filepos H AND NOT 0xfff)
                          (H\<lparr>cachedatapos := filepos H AND NOT 0xfff\<rparr>) else (True, H))
        in if \<not> ok then Some (False, H1, out)
           else if miss \<and> cachedatasize H1 = 0 then Some (True, H1, out)
           else case copy_cached H1 left out of (H2, left2, out2) \<Rightarrow>
             if left2 = 0 then Some (True, H2, out2)
             else do {
               (ok3, go, H3, left3, out3) \<leftarrow> read_on env w h H2 left2 out2;
               if \<not> ok3 then Some (False, H3, out3)
               else if \<not> go then Some (True, H3, out3)
               else cached_read env w h H3 left3 out3 })"

declare cached_read.simps [code]

definition raw_FileRead ::
  "'w fs_env \<Rightarrow> FILE_HANDLE_INFO \<Rightarrow> 'w \<Rightarrow> nat \<Rightarrow> (bool \<times> buf \<times> FILE_HANDLE_INFO \<times> 'w) option" where
  "raw_FileRead env H w want =
     do { h \<leftarrow> filehandle H;
          if ifntfs H
          then do { (ok, H', out) \<leftarrow> cached_read env w h H (of_nat want) []; Some (ok, out, H', w) }
          else do { (ok, out, w') \<leftarrow> SegFileRead env h w want; Some (ok, out, H, w') } }"

partial_function (option) write_direct ::
  "'w fs_env \<Rightarrow> nat \<Rightarrow> u64 \<Rightarrow> u64 \<Rightarrow> buf \<Rightarrow> 'w \<Rightarrow> (bool \<times> u64 \<times> buf \<times> 'w) option" where
  "write_direct env h writesize pos bytes w =
     (if writesize = 0 then Some (True, pos, bytes, w)
      else case n_writefile env w h pos
          (take (unat (if MAX_NTFS_TRANSFER < writesize then MAX_NTFS_TRANSFER else writesize)) bytes) of
        None \<Rightarrow> Some (False, pos, bytes, w)
      | Some (n, w') \<Rightarrow> write_direct env h (writesize - n) (pos + n) (drop (unat n) bytes) w')"

declare write_direct.simps [code]

text \<open>The part of \<open>_FileWrite\<close> for a cache that already holds data: the flag is \<open>False\<close> after an
  error, and the bytes are those that did not go through the cache; \<open>None\<close> in their place means
  that the call is over.\<close>

definition cache_write ::
  "'w fs_env \<Rightarrow> nat \<Rightarrow> FILE_HANDLE_INFO \<Rightarrow> 'w \<Rightarrow> buf \<Rightarrow> (bool \<times> buf option \<times> FILE_HANDLE_INFO \<times> 'w) option" where
  "cache_write env h H w bytes =
     do {
       (ok, H1, w1) \<leftarrow>
         (if filepos H \<noteq> cachedatapos H + ucast (cachedatasize H)
          then do {
            old \<leftarrow> slice (cache H) 0 (unat (cachedatasize H));
            (case n_writefile env w h (cachedatapos H) old of
               None \<Rightarrow> Some (False, H, w)
             | Some (_, w') \<Rightarrow> Some (True, H\<lparr>cachedatasize := 0, cachedatapos := filepos H\<rparr>, w')) }
          else Some (True, H, w));
       if \<not> ok then Some (False, None, H1, w1)
       else do {
         let room = unat (cachesize H1 - cachedatasize H1);
         let n = min (length bytes) room;
         mem \<leftarrow> put (cache H1) (unat (cachedatasize H1)) (take n bytes);
         let H2 = H1\<lparr>cache := mem, cachedatasize := cachedatasize H1 + of_nat n\<rparr>;
         if cachedatasize H2 = cachesize H2
         then do {
           all \<leftarrow> slice mem 0 (unat (cachedatasize H2));
           (case n_writefile env w1 h (cachedatapos H2) all of
              None \<Rightarrow> Some (False, None, H2, w1)
            | Some (_, w2) \<Rightarrow> Some (True, Some (drop n bytes),
                H2\<lparr>cachedatapos := cachedatapos H2 + ucast (cachedatasize H2),
                   filepos := cachedatapos H2 + ucast (cachedatasize H2),
                   cachedatasize := 0, cachedirty := False\<rparr>, w2)) }
         else Some (True, None, H2\<lparr>cachedirty := True, filepos := filepos H2 + of_nat n\<rparr>, w1) } }"

definition cached_write ::
  "'w fs_env \<Rightarrow> nat \<Rightarrow> FILE_HANDLE_INFO \<Rightarrow> 'w \<Rightarrow> buf \<Rightarrow> (bool \<times> FILE_HANDLE_INFO \<times> 'w) option" where
  "cached_write env h H w bytes =
     do {
       (ok, rest, H1, w1) \<leftarrow> (if cachedatasize H \<noteq> 0 then cache_write env h H w bytes
                              else Some (True, Some bytes, H, w));
       (case rest of
          None \<Rightarrow> Some (ok, H1, w1)
        | Some rst \<Rightarrow> do {
            (ok2, pos, tail, w2) \<leftarrow> write_direct env h (cache_multiple H1 (of_nat (length rst))) (filepos H1) rst w1;
            let H2 = H1\<lparr>filepos := pos\<rparr>;
            if \<not> ok2 then Some (False, H2, w2)
            else if tail = [] then Some (True, H2, w2)
            else do {
              mem \<leftarrow> put (cache H2) 0 tail;
              Some (True, H2\<lparr>cache := mem, cachedatasize := of_nat (length tail), cachedatapos := pos,
                       filepos := pos + of_nat (length tail), cachedirty := True\<rparr>, w2) } }) }"

text \<open>Without an error the NTFS part reports the whole size as written.\<close>

definition raw_FileWrite ::
  "'w fs_env \<Rightarrow> FILE_HANDLE_INFO \<Rightarrow> 'w \<Rightarrow> buf \<Rightarrow> (bool \<times> nat \<times> FILE_HANDLE_INFO \<times> 'w) option" where
  "raw_FileWrite env H w bytes =
     do { h \<leftarrow> filehandle H;
          if ifntfs H
          then do { (ok, H', w') \<leftarrow> cached_write env h H w bytes; Some (ok, length bytes, H', w') }
          else do { (ok, n, w') \<leftarrow> SegFileWrite env h w bytes; Some (ok, n, H, w') } }"

section \<open>Opening and closing\<close>

text \<open>\<open>_FileOpen\<close> for a regular file. The result of \<open>n_createfile\<close> is not looked at: the handle
  then stays null and the call still succeeds. The allocation of the cache is not looked at either
  and is taken to succeed here; without memory the code goes on with a null pointer.\<close>

definition raw_FileOpen ::
  "'w fs_env \<Rightarrow> FILE_HANDLE_INFO \<Rightarrow> 'w \<Rightarrow> fname \<Rightarrow> u64 \<Rightarrow> (bool \<times> FILE_HANDLE_INFO \<times> 'w) option" where
  "raw_FileOpen env H w name mode =
     (if ifntfs H
      then do {
        ascii \<leftarrow> Unicode2Ascii name;
        let H1 = H\<lparr>cachesize := DEFAULT_FILE_CACHE_SIZE, cachedatasize := 0, cachedatapos := 0,
                   cachedirty := False, cache := replicate (unat DEFAULT_FILE_CACHE_SIZE) 0\<rparr>;
        (case n_openfile env w ascii of
           Some (h, w') \<Rightarrow> Some (True, H1\<lparr>filehandle := Some h\<rparr>, w')
         | None \<Rightarrow>
             if n_missing env w ascii \<and> mode AND EFI_FILE_MODE_CREATE \<noteq> 0
             then (case n_createfile env w ascii of
                     Some (h, w') \<Rightarrow> Some (True, H1\<lparr>filehandle := Some h\<rparr>, w')
                   | None \<Rightarrow> Some (True, H1, w))
             else Some (False, H1, w)) }
      else (case efiOpen env w name mode of
          Some (h, w') \<Rightarrow> Some (True, H\<lparr>filehandle := Some h\<rparr>, w')
        | None \<Rightarrow> Some (False, H, w)))"

definition FileOpen ::
  "'w fs_env \<Rightarrow> bool \<Rightarrow> 'w \<Rightarrow> fname \<Rightarrow> u64 \<Rightarrow> bool \<Rightarrow> (bool \<times> FILE_HANDLE_INFO \<times> 'w) option" where
  "FileOpen env ntfs w name mode needseg =
     raw_FileOpen env \<lparr>ifntfs = ntfs, filehandle = None, filepos = 0, filename = take 64 name,
         currentfileseg = 0, currentfilesize = 0, ifneedseg = needseg \<and> \<not> ntfs, ifeof = False,
         cachedirty = False, cachesize = 0, cachedatasize = 0, cachedatapos = 0, cache = []\<rparr> w name mode"

definition FileClose ::
  "'w fs_env \<Rightarrow> FILE_HANDLE_INFO \<Rightarrow> 'w \<Rightarrow> (FILE_HANDLE_INFO \<times> 'w) option" where
  "FileClose env H w =
     (if ifntfs H
      then do {
        (H1, w1) \<leftarrow> (case filehandle H of
            None \<Rightarrow> Some (H, w)
          | Some h \<Rightarrow> do {
              w' \<leftarrow> (if cachedirty H \<and> cachedatasize H \<noteq> 0
                     then do {
                       old \<leftarrow> slice (cache H) 0 (unat (cachedatasize H));
                       Some (case n_writefile env w h (cachedatapos H) old of None \<Rightarrow> w | Some (_, w2) \<Rightarrow> w2) }
                     else Some w);
              Some (H\<lparr>cachedirty := False, filehandle := None\<rparr>, n_closefile env w' h) });
        Some (H1\<lparr>cachesize := 0, cachedatasize := 0, cache := [], filepos := 0\<rparr>, w1) }
      else (case filehandle H of
          None \<Rightarrow> Some (H, w)
        | Some h \<Rightarrow> Some (H\<lparr>filehandle := None\<rparr>, efiClose env w h)))"

definition FileSetPos ::
  "'w fs_env \<Rightarrow> FILE_HANDLE_INFO \<Rightarrow> 'w \<Rightarrow> u64 \<Rightarrow> (bool \<times> FILE_HANDLE_INFO \<times> 'w) option" where
  "FileSetPos env H w pos =
     (let H1 = H\<lparr>ifeof := False\<rparr> in
      if ifntfs H then Some (True, H1\<lparr>filepos := pos\<rparr>, w)
      else do { h \<leftarrow> filehandle H;
                Some (case efiSetPosition env w h pos of
                        None \<Rightarrow> (False, H1, w) | Some w' \<Rightarrow> (True, H1, w')) })"

section \<open>Numbered files\<close>

fun decimal :: "nat \<Rightarrow> u16 list" where
  "decimal n = (if n < 10 then [48 + of_nat n] else decimal (n div 10) @ [48 + of_nat (n mod 10)])"

declare decimal.simps [simp del]

text \<open>The name is taken to end at its terminator or after its 64 characters; the code reads on into the next
  field when a name of 64 characters has no terminator.\<close>

definition segment_name :: "fname \<Rightarrow> u32 \<Rightarrow> fname" where
  "segment_name name k = takeWhile (\<lambda>c. c \<noteq> 0) name @ [46] @ decimal (unat k) @ [0]"

text \<open>Images of the version before the current one have a shorter header. \<open>FileRead\<close> looks for its
  mark at the start of whatever it has read and replaces what it has read by a header of the
  current form. The fields are given by their offsets in \<open>OKR_HEADER_810\<close> and \<open>OKR_HEADER\<close>
  (\<^verbatim>\<open>src/include/format.h\<close>) and their lengths.\<close>

definition old_header :: "buf \<Rightarrow> bool" where
  "old_header b \<longleftrightarrow> rd32 b 0 = Some OKR_IMAGE_MAGIC \<and> rd32 b 4 = Some 0x09000810"

definition PARTITIONINFO_SIZE :: nat where "PARTITIONINFO_SIZE = 176"
definition OLD_PARTITION_OFFSET :: nat where "OLD_PARTITION_OFFSET = 0x200"
definition PARTITION_OFFSET :: nat where "PARTITION_OFFSET = 0x1E20"
definition OKR_HEADER_MAX_SIZE :: nat where "OKR_HEADER_MAX_SIZE = 19456"

definition header_fields :: "(nat \<times> nat \<times> nat) list" where
  "header_fields = [(0, 0, 4), (0xC, 0xC, 4), (0x10, 0x10, 240), (0x100, 0x100, 1), (0x101, 0x101, 3),
     (0x104, 0x104, 4), (0x108, 0x108, 8), (0x110, 0x110, 8), (0x118, 0x538, 2), (0x11A, 0x53A, 2),
     (0x11C, 0x53C, 4), (0x120, 0x540, 1), (0x121, 0x541, 1), (0x122, 0x542, 1), (0x123, 0x543, 1),
     (0x124, 0x544, 4), (0x128, 0x548, 8), (0x130, 0x550, 4), (0x134, 0x554, 4), (0x138, 0x558, 8),
     (0x140, 0x560, 0x40), (0x180, 0x5A0, 0x80)]"

fun copy_fields :: "buf \<Rightarrow> (nat \<times> nat \<times> nat) list \<Rightarrow> buf \<Rightarrow> buf option" where
  "copy_fields old [] new = Some new"
| "copy_fields old ((a, b, n) # fs) new =
     do { bytes \<leftarrow> slice old a n; new' \<leftarrow> put new b bytes; copy_fields old fs new' }"

definition convert_header :: "buf \<Rightarrow> buf option" where
  "convert_header old =
     do {
       cnt \<leftarrow> rd16 old 0x11A;
       let sz = (PARTITION_OFFSET + unat cnt * PARTITIONINFO_SIZE + 511) div 512 * 512;
       new1 \<leftarrow> copy_fields old header_fields (replicate OKR_HEADER_MAX_SIZE 0);
       new2 \<leftarrow> put new1 4 (le_bytes 4 OKR_VERSION);
       new3 \<leftarrow> put new2 8 (le_bytes 4 (of_nat sz :: u32));
       new4 \<leftarrow> copy_fields old (map (\<lambda>i. (OLD_PARTITION_OFFSET + PARTITIONINFO_SIZE * i,
                 PARTITION_OFFSET + PARTITIONINFO_SIZE * i, PARTITIONINFO_SIZE)) [0..<unat cnt]) new3;
       slice new4 0 (length old) }"

definition after_read :: "buf \<Rightarrow> buf option" where
  "after_read b = (if old_header b then convert_header b else Some b)"

definition FileRead ::
  "'w fs_env \<Rightarrow> FILE_HANDLE_INFO \<Rightarrow> 'w \<Rightarrow> nat \<Rightarrow> (bool \<times> buf \<times> FILE_HANDLE_INFO \<times> 'w) option" where
  "FileRead env H w want =
     (if ifeof H then Some (True, [], H, w)
      else do {
        (ok, out, H1, w1) \<leftarrow> raw_FileRead env H w want;
        if \<not> ok then Some (False, out, H1, w1)
        else if ifneedseg H1 \<and> out = []
        then do {
          let H2 = H1\<lparr>currentfileseg := currentfileseg H1 + 1\<rparr>;
          let name = segment_name (filename H2) (currentfileseg H2);
          (H3, w3) \<leftarrow> FileClose env H2 w1;
          (opened, H4, w4) \<leftarrow> raw_FileOpen env H3 w3 name EFI_FILE_MODE_READ;
          if \<not> opened then Some (True, [], H4\<lparr>ifeof := True\<rparr>, w4)
          else do {
            (ok5, out5, H5, w5) \<leftarrow> raw_FileRead env H4 w4 want;
            if \<not> ok5 then Some (False, out5, H5, w5)
            else do { res \<leftarrow> after_read out5; Some (True, res, H5, w5) } } }
        else do { res \<leftarrow> after_read out; Some (True, res, H1, w1) } })"

definition FileWrite ::
  "'w fs_env \<Rightarrow> FILE_HANDLE_INFO \<Rightarrow> 'w \<Rightarrow> buf \<Rightarrow> (bool \<times> FILE_HANDLE_INFO \<times> 'w) option" where
  "FileWrite env H w bytes =
     do {
       (ok, n, H1, w1) \<leftarrow> raw_FileWrite env H w bytes;
       if \<not> ok \<or> n \<noteq> length bytes then Some (False, H1, w1)
       else do {
         let H2 = H1\<lparr>currentfilesize := currentfilesize H1 + of_nat n\<rparr>;
         if ifneedseg H2 \<and> SPLIT_SIZE < currentfilesize H2
         then do {
           (H3, w3) \<leftarrow> FileClose env H2 w1;
           let H4 = H3\<lparr>currentfilesize := 0, currentfileseg := currentfileseg H3 + 1\<rparr>;
           raw_FileOpen env H4 w3 (segment_name (filename H4) (currentfileseg H4))
             (EFI_FILE_MODE_CREATE OR EFI_FILE_MODE_WRITE OR EFI_FILE_MODE_READ) }
         else Some (True, H2, w1) } }"

end
