(* ===== verification/Okr_FileIoCorrect.thy ===== *)
theory Okr_FileIoCorrect
  imports Okr_FileIo
begin

unbundle bit_operations_syntax

text \<open>
  The split image files of \<^verbatim>\<open>utils.c\<close> read back what was written: what the firmware's file protocol
  promises (\<open>efi_ok\<close>), the transfers in pieces, \<open>FileWrite\<close> and \<open>FileRead\<close> across the numbered files,
  the interface \<open>image_file\<close> that the archive code relies on, and its instance.
\<close>

section \<open>What the file protocol promises\<close>

definition overlay :: "nat \<Rightarrow> buf \<Rightarrow> buf \<Rightarrow> buf" where
  "overlay p bs c = take p c @ bs @ drop (p + length bs) c"

lemma overlay_end [simp]: "overlay (length c) bs c = c @ bs"
  by (simp add: overlay_def)

definition creates :: "u64 \<Rightarrow> bool" where
  "creates mode \<longleftrightarrow> mode AND EFI_FILE_MODE_CREATE \<noteq> 0"

definition efi_reads :: "'w fs_env \<Rightarrow> ('w \<Rightarrow> fname \<Rightarrow> buf option) \<Rightarrow> ('w \<Rightarrow> nat \<Rightarrow> (fname \<times> nat) option) \<Rightarrow> bool" where
  "efi_reads env fl opn \<longleftrightarrow> (\<forall>w h n p c k. opn w h = Some (n, p) \<and> fl w n = Some c \<longrightarrow>
     (\<exists>w'. efiRead env w h k = Some (take k (drop p c), w') \<and> fl w' = fl w \<and>
        opn w' = (opn w)(h \<mapsto> (n, p + length (take k (drop p c))))))"

definition efi_writes :: "'w fs_env \<Rightarrow> ('w \<Rightarrow> fname \<Rightarrow> buf option) \<Rightarrow> ('w \<Rightarrow> nat \<Rightarrow> (fname \<times> nat) option) \<Rightarrow> bool" where
  "efi_writes env fl opn \<longleftrightarrow> (\<forall>w h n p c bs. opn w h = Some (n, p) \<and> fl w n = Some c \<longrightarrow>
     (\<exists>w'. efiWrite env w h bs = Some (length bs, w') \<and> fl w' = (fl w)(n \<mapsto> overlay p bs c) \<and>
        opn w' = (opn w)(h \<mapsto> (n, p + length bs))))"

definition efi_opens :: "'w fs_env \<Rightarrow> ('w \<Rightarrow> fname \<Rightarrow> buf option) \<Rightarrow> ('w \<Rightarrow> nat \<Rightarrow> (fname \<times> nat) option) \<Rightarrow> bool" where
  "efi_opens env fl opn \<longleftrightarrow>
     (\<forall>w n m. fl w n \<noteq> None \<longrightarrow> (\<exists>h w'. efiOpen env w n m = Some (h, w') \<and> fl w' = fl w \<and> opn w' = (opn w)(h \<mapsto> (n, 0)))) \<and>
     (\<forall>w n m. fl w n = None \<and> \<not> creates m \<longrightarrow> efiOpen env w n m = None) \<and>
     (\<forall>w n m. fl w n = None \<and> creates m \<longrightarrow>
        (\<exists>h w'. efiOpen env w n m = Some (h, w') \<and> fl w' = (fl w)(n \<mapsto> []) \<and> opn w' = (opn w)(h \<mapsto> (n, 0)))) \<and>
     (\<forall>w h. fl (efiClose env w h) = fl w)"

definition efi_ok :: "'w fs_env \<Rightarrow> ('w \<Rightarrow> fname \<Rightarrow> buf option) \<Rightarrow> ('w \<Rightarrow> nat \<Rightarrow> (fname \<times> nat) option) \<Rightarrow> bool" where
  "efi_ok env fl opn \<longleftrightarrow> efi_reads env fl opn \<and> efi_writes env fl opn \<and> efi_opens env fl opn"

section \<open>Transfers in pieces\<close>

lemma MY_DEFINE_BUFFER_SIZE_pos: "0 < MY_DEFINE_BUFFER_SIZE"
  by (simp add: MY_DEFINE_BUFFER_SIZE_def)

lemma seg_read_correct:
  assumes "efi_reads env fl opn"
  shows "\<lbrakk>opn w h = Some (n, p); fl w n = Some c; want - length out \<le> length c - p\<rbrakk> \<Longrightarrow>
    \<exists>w'. seg_read env h want w out = Some (True, out @ take (want - length out) (drop p c), w') \<and>
      fl w' = fl w \<and> opn w' = (opn w)(h \<mapsto> (n, p + (want - length out)))"
proof (induction "want - length out" arbitrary: w p out rule: less_induct)
  case less
  show ?case
  proof (cases "want \<le> length out")
    case True
    then show ?thesis
      using less.prems by (subst seg_read.simps) (auto simp: fun_upd_idem)
  next
    case False
    define k where "k = min MY_DEFINE_BUFFER_SIZE (want - length out)"
    define b where "b = take k (drop p c)"
    have k: "0 < k" "k \<le> want - length out" using False MY_DEFINE_BUFFER_SIZE_pos by (auto simp: k_def)
    have lb: "length b = k" using less.prems(3) k(2) by (simp add: b_def)
    obtain w1 where w1: "efiRead env w h k = Some (b, w1)" "fl w1 = fl w" "opn w1 = (opn w)(h \<mapsto> (n, p + k))"
      using assms less.prems(1,2) lb unfolding efi_reads_def b_def by metis
    have eq: "want - length (out @ b) = want - length out - k" using lb by simp
    have "want - length (out @ b) < want - length out" "opn w1 h = Some (n, p + k)" "fl w1 n = Some c"
        "want - length (out @ b) \<le> length c - (p + k)"
      using k w1 less.prems(2,3) False unfolding eq by auto
    from less.hyps [OF this]
    obtain w2 where w2: "seg_read env h want w1 (out @ b) =
        Some (True, (out @ b) @ take (want - length out - k) (drop (p + k) c), w2)"
      "fl w2 = fl w1" "opn w2 = (opn w1)(h \<mapsto> (n, p + k + (want - length out - k)))"
      unfolding eq by blast
    have "b @ take (want - length out - k) (drop (p + k) c) = take (k + (want - length out - k)) (drop p c)"
      by (simp add: b_def take_add add.commute)
    then have "b @ take (want - length out - k) (drop (p + k) c) = take (want - length out) (drop p c)"
      using k(2) by (simp only: le_add_diff_inverse)
    moreover have "p + k + (want - length out - k) = p + (want - length out)"
      using k(2) by simp
    ultimately show ?thesis
      using False w1 w2 by (subst seg_read.simps) (simp add: k_def [symmetric])
  qed
qed

lemma SegFileRead_correct:
  assumes "efi_reads env fl opn" "opn w h = Some (n, p)" "fl w n = Some c"
    and "want < MY_DEFINE_BUFFER_SIZE \<or> p + want \<le> length c"
  shows "\<exists>w'. SegFileRead env h w want = Some (True, take want (drop p c), w') \<and>
    fl w' = fl w \<and> opn w' = (opn w)(h \<mapsto> (n, p + length (take want (drop p c))))"
proof (cases "want < MY_DEFINE_BUFFER_SIZE")
  case True
  obtain w' where "efiRead env w h want = Some (take want (drop p c), w')" "fl w' = fl w"
    "opn w' = (opn w)(h \<mapsto> (n, p + length (take want (drop p c))))"
    using assms(1-3) unfolding efi_reads_def by blast
  with True show ?thesis by (simp add: SegFileRead_def)
next
  case False
  then have "p + want \<le> length c" using assms(4) by simp
  with seg_read_correct [OF assms(1-3), of want "[]"] False show ?thesis
    by (auto simp: SegFileRead_def)
qed

lemma overlay_split:
  "p \<le> length c \<Longrightarrow> overlay (p + length a) b (overlay p a c) = overlay p (a @ b) c"
  by (simp add: overlay_def ac_simps)

lemma seg_write_correct:
  assumes "efi_writes env fl opn"
  shows "\<lbrakk>opn w h = Some (n, p); fl w n = Some c; p \<le> length c; index \<le> length bytes\<rbrakk> \<Longrightarrow>
    \<exists>w'. seg_write env h bytes index w = Some (True, length bytes, w') \<and>
      fl w' = (fl w)(n \<mapsto> overlay p (drop index bytes) c) \<and>
      opn w' = (opn w)(h \<mapsto> (n, p + (length bytes - index)))"
proof (induction "length bytes - index" arbitrary: w p c index rule: less_induct)
  case less
  show ?case
  proof (cases "length bytes \<le> index")
    case True
    then show ?thesis
      using less.prems by (subst seg_write.simps) (auto simp: fun_upd_idem overlay_def)
  next
    case False
    define k where "k = min MY_DEFINE_BUFFER_SIZE (length bytes - index)"
    define b where "b = take k (drop index bytes)"
    have k: "0 < k" "k \<le> length bytes - index"
      using False MY_DEFINE_BUFFER_SIZE_pos by (auto simp: k_def)
    have lb: "length b = k" using k(2) by (simp add: b_def)
    obtain w1 where w1: "efiWrite env w h b = Some (k, w1)" "fl w1 = (fl w)(n \<mapsto> overlay p b c)"
        "opn w1 = (opn w)(h \<mapsto> (n, p + k))"
      using assms less.prems(1,2) lb unfolding efi_writes_def by metis
    have "length bytes - (index + k) < length bytes - index" "opn w1 h = Some (n, p + k)"
        "fl w1 n = Some (overlay p b c)" "p + k \<le> length (overlay p b c)" "index + k \<le> length bytes"
      using k lb less.prems(3) False w1 by (auto simp: overlay_def)
    from less.hyps [OF this]
    obtain w2 where w2: "seg_write env h bytes (index + k) w1 = Some (True, length bytes, w2)"
      "fl w2 = (fl w1)(n \<mapsto> overlay (p + k) (drop (index + k) bytes) (overlay p b c))"
      "opn w2 = (opn w1)(h \<mapsto> (n, p + k + (length bytes - (index + k))))"
      by blast
    have "drop index bytes = b @ drop (index + k) bytes"
      unfolding b_def by (metis add.commute append_take_drop_id drop_drop)
    then have "overlay (p + k) (drop (index + k) bytes) (overlay p b c) = overlay p (drop index bytes) c"
      using overlay_split [OF less.prems(3), of b "drop (index + k) bytes"] lb by simp
    moreover have "p + k + (length bytes - (index + k)) = p + (length bytes - index)"
      using k by linarith
    ultimately show ?thesis
      using False w1 w2 by (subst seg_write.simps) (simp add: k_def [symmetric] b_def [symmetric])
  qed
qed

lemma SegFileWrite_correct:
  assumes "efi_writes env fl opn" "opn w h = Some (n, p)" "fl w n = Some c" "p \<le> length c"
  shows "\<exists>w'. SegFileWrite env h w bytes = Some (True, length bytes, w') \<and>
    fl w' = (fl w)(n \<mapsto> overlay p bytes c) \<and> opn w' = (opn w)(h \<mapsto> (n, p + length bytes))"
proof (cases "length bytes < MY_DEFINE_BUFFER_SIZE")
  case True
  obtain w' where "efiWrite env w h bytes = Some (length bytes, w')" "fl w' = (fl w)(n \<mapsto> overlay p bytes c)"
    "opn w' = (opn w)(h \<mapsto> (n, p + length bytes))"
    using assms(1-3) unfolding efi_writes_def by blast
  with True show ?thesis by (simp add: SegFileWrite_def)
next
  case False
  then show ?thesis
    using seg_write_correct [OF assms, of 0 bytes] by (auto simp: SegFileWrite_def)
qed

section \<open>Names of the numbered files\<close>

definition digits_value :: "u16 list \<Rightarrow> nat" where
  "digits_value ds = foldl (\<lambda>a d. 10 * a + unat (d - 48)) 0 ds"

lemma decimal_value: "digits_value (decimal n) = n"
proof (induction n rule: decimal.induct)
  case (1 n)
  have d: "unat ((48 :: u16) + of_nat k - 48) = k" if "k < 10" for k
    using that by (simp add: unat_of_nat take_bit_nat_eq_self)
  show ?case
  proof (cases "n < 10")
    case True
    then show ?thesis using d [of n] by (subst decimal.simps) (simp add: digits_value_def)
  next
    case False
    then have "digits_value (decimal (n div 10)) = n div 10" using 1 by blast
    with False d [of "n mod 10"] show ?thesis
      by (subst decimal.simps) (simp add: digits_value_def)
  qed
qed

lemma decimal_inject: "decimal m = decimal n \<longleftrightarrow> m = n"
  by (metis decimal_value)

definition seg :: "fname \<Rightarrow> nat \<Rightarrow> fname" where
  "seg fn k = (if k = 0 then fn else segment_name fn (of_nat k))"

lemma segment_name_distinct: "segment_name fn k \<noteq> fn"
proof
  assume eq: "segment_name fn k = fn"
  let ?t = "takeWhile (\<lambda>c. c \<noteq> 0) fn"
  have "takeWhile (\<lambda>c. c \<noteq> 0) (?t @ 46 # decimal (unat k) @ [0]) = ?t @ takeWhile (\<lambda>c. c \<noteq> 0) (46 # decimal (unat k) @ [0])"
    by (rule takeWhile_append2) (auto dest: set_takeWhileD)
  then have "length (takeWhile (\<lambda>c. c \<noteq> 0) (segment_name fn k)) > length ?t"
    by (simp add: segment_name_def)
  then show False using eq by simp
qed

lemma seg_inject:
  assumes "i < 2 ^ 32" "j < 2 ^ 32" "seg fn i = seg fn j"
  shows "i = j"
proof -
  have u: "unat (of_nat k :: u32) = k" if "k < 2 ^ 32" for k
    using that by (simp add: unat_of_nat take_bit_nat_eq_self)
  show ?thesis
    using assms(3) u [OF assms(1)] u [OF assms(2)] segment_name_distinct
    by (auto simp: seg_def segment_name_def decimal_inject split: if_splits) (metis segment_name_def append_Cons append_Nil)+
qed

section \<open>The image as a sequence of records\<close>

text \<open>The first \<open>k\<close> numbered files hold the records in the groups \<open>gs\<close>, one group per file.\<close>

definition holds :: "(fname \<Rightarrow> buf option) \<Rightarrow> fname \<Rightarrow> nat \<Rightarrow> buf list list \<Rightarrow> bool" where
  "holds files fn k gs \<longleftrightarrow> (\<forall>i < length gs. files (seg fn (k + i)) = Some (concat (gs ! i)))"

lemma holds_Nil [simp]: "holds files fn k []"
  by (simp add: holds_def)

lemma holds_Cons: "holds files fn k (g # gs) \<longleftrightarrow> files (seg fn k) = Some (concat g) \<and> holds files fn (Suc k) gs"
  by (auto simp: holds_def nth_Cons split: nat.splits)

lemma holds_append: "holds files fn k (gs @ hs) \<longleftrightarrow> holds files fn k gs \<and> holds files fn (k + length gs) hs"
  by (induction gs arbitrary: k) (auto simp: holds_Cons)

lemma holds_upd:
  "holds files fn k gs \<Longrightarrow> k + length gs \<le> j \<Longrightarrow> j < 2 ^ 32 \<Longrightarrow> holds (files(seg fn j \<mapsto> c)) fn k gs"
  by (auto simp: holds_def dest!: seg_inject [rotated 2])

definition writing ::
  "('w \<Rightarrow> fname \<Rightarrow> buf option) \<Rightarrow> ('w \<Rightarrow> nat \<Rightarrow> (fname \<times> nat) option) \<Rightarrow> fname \<Rightarrow> FILE_HANDLE_INFO \<times> 'w \<Rightarrow> buf list \<Rightarrow> bool" where
  "writing fl opn fn f rs \<longleftrightarrow> (case f of (H, w) \<Rightarrow>
     \<exists>h gs g. filehandle H = Some h \<and> \<not> ifntfs H \<and> ifneedseg H \<and> filename H = fn \<and>
       unat (currentfileseg H) = length gs \<and> [] \<notin> set gs \<and> rs = concat gs @ g \<and>
       holds (fl w) fn 0 gs \<and> fl w (seg fn (length gs)) = Some (concat g) \<and>
       opn w h = Some (seg fn (length gs), length (concat g)) \<and>
       (\<forall>j. length gs < j \<and> j < 2 ^ 32 \<longrightarrow> fl w (seg fn j) = None))"

definition reading ::
  "('w \<Rightarrow> fname \<Rightarrow> buf option) \<Rightarrow> ('w \<Rightarrow> nat \<Rightarrow> (fname \<times> nat) option) \<Rightarrow> fname \<Rightarrow> FILE_HANDLE_INFO \<times> 'w \<Rightarrow> buf \<Rightarrow> buf list \<Rightarrow> bool" where
  "reading fl opn fn f cur rest \<longleftrightarrow> (case f of (H, w) \<Rightarrow>
     \<exists>h k p c g gs. filehandle H = Some h \<and> \<not> ifntfs H \<and> ifneedseg H \<and> filename H = fn \<and> \<not> ifeof H \<and>
       unat (currentfileseg H) = k \<and> opn w h = Some (seg fn k, p) \<and> fl w (seg fn k) = Some c \<and> p \<le> length c \<and>
       drop p c = cur @ concat g \<and> rest = g @ concat gs \<and> [] \<notin> set rest \<and> [] \<notin> set (butlast gs) \<and>
       holds (fl w) fn (Suc k) gs \<and> fl w (seg fn (Suc k + length gs)) = None \<and> Suc k + length gs < 2 ^ 32)"

lemma length_concat_nonempty: "[] \<notin> set gs \<Longrightarrow> length gs \<le> length (concat gs)"
proof (induction gs)
  case (Cons g gs)
  then show ?case by (cases g) auto
qed simp

lemma FileWrite_appends:
  assumes ok: "efi_ok env fl opn" and wr: "writing fl opn fn (H, w) rs" and len: "length rs + 1 < 2 ^ 32"
  shows "\<exists>H' w'. FileWrite env H w bytes = Some (True, H', w') \<and> writing fl opn fn (H', w') (rs @ [bytes])"
proof -
  obtain h gs g where H: "filehandle H = Some h" "\<not> ifntfs H" "ifneedseg H" "filename H = fn"
      "unat (currentfileseg H) = length gs" and gs: "[] \<notin> set gs" "rs = concat gs @ g" "holds (fl w) fn 0 gs"
      and cur: "fl w (seg fn (length gs)) = Some (concat g)" "opn w h = Some (seg fn (length gs), length (concat g))"
      and none: "\<And>j. length gs < j \<Longrightarrow> j < 2 ^ 32 \<Longrightarrow> fl w (seg fn j) = None"
    using wr unfolding writing_def by auto
  have k: "length gs + 1 < 2 ^ 32"
    using length_concat_nonempty [OF gs(1)] gs(2) len by simp
  obtain w1 where w1: "SegFileWrite env h w bytes = Some (True, length bytes, w1)"
      "fl w1 = (fl w)(seg fn (length gs) \<mapsto> concat (g @ [bytes]))"
      "opn w1 = (opn w)(h \<mapsto> (seg fn (length gs), length (concat (g @ [bytes]))))"
    using SegFileWrite_correct [of env fl opn w h _ _ "concat g" bytes] ok cur by (auto simp: efi_ok_def)
  let ?H1 = "H\<lparr>currentfilesize := currentfilesize H + of_nat (length bytes)\<rparr>"
  have raw: "raw_FileWrite env H w bytes = Some (True, length bytes, H, w1)"
    using H w1(1) by (simp add: raw_FileWrite_def)
  have files: "holds (fl w1) fn 0 gs"
    using holds_upd [OF gs(3), of "length gs"] k w1(2) by simp
  have none1: "fl w1 (seg fn j) = None" if "length gs < j" "j < 2 ^ 32" for j
    using none [OF that] seg_inject [of j "length gs" fn] that k w1(2) by auto
  show ?thesis
  proof (cases "SPLIT_SIZE < currentfilesize ?H1")
    case False
    have "writing fl opn fn (?H1, w1) (rs @ [bytes])"
      unfolding writing_def prod.case
      by (intro exI [of _ h] exI [of _ gs] exI [of _ "g @ [bytes]"]) (use H gs w1 files none1 in simp)
    with False raw H show ?thesis
      by (simp add: FileWrite_def)
  next
    case True
    let ?w2 = "efiClose env w1 h"
    let ?n = "seg fn (length gs + 1)"
    have fl2: "fl ?w2 = fl w1" "fl ?w2 ?n = None"
      using ok none1 [of "length gs + 1"] k by (auto simp: efi_ok_def efi_opens_def)
    have seg1: "unat (currentfileseg H + 1) = length gs + 1"
      using H(5) k by (subst unat_add_no_wrap) auto
    have nm: "segment_name fn (currentfileseg H + 1) = ?n"
      using arg_cong [OF seg1, of "of_nat :: nat \<Rightarrow> u32"] by (simp add: seg_def add.commute)
    have "creates (EFI_FILE_MODE_CREATE OR EFI_FILE_MODE_WRITE OR EFI_FILE_MODE_READ)"
      by (simp add: creates_def EFI_FILE_MODE_CREATE_def EFI_FILE_MODE_WRITE_def EFI_FILE_MODE_READ_def)
    then obtain h3 w3 where w3: "efiOpen env ?w2 ?n (EFI_FILE_MODE_CREATE OR EFI_FILE_MODE_WRITE OR EFI_FILE_MODE_READ) = Some (h3, w3)"
        "fl w3 = (fl w1)(?n \<mapsto> [])" "opn w3 = (opn ?w2)(h3 \<mapsto> (?n, 0))"
      using ok fl2 unfolding efi_ok_def efi_opens_def by metis
    let ?H4 = "?H1\<lparr>filehandle := Some h3, currentfilesize := 0, currentfileseg := currentfileseg H + 1\<rparr>"
    have "holds (fl w3) fn 0 (gs @ [g @ [bytes]])"
      unfolding holds_append w3(2) using holds_upd [OF files, of "length gs + 1"] k w1(2) seg_inject [of "length gs" "length gs + 1" fn]
      by (auto simp: holds_Cons)
    moreover have "fl w3 (seg fn j) = None" if "length gs + 1 < j" "j < 2 ^ 32" for j
      using none1 [of j] that seg_inject [of j "length gs + 1" fn] k w3(2) by auto
    ultimately have "writing fl opn fn (?H4, w3) (rs @ [bytes])"
      unfolding writing_def prod.case
      by (intro exI [of _ h3] exI [of _ "gs @ [g @ [bytes]]"] exI [of _ "[]"]) (use H gs w3 seg1 in simp)
    moreover have "FileWrite env H w bytes = Some (True, ?H4, w3)"
      using raw H True w3(1) by (simp add: FileWrite_def FileClose_def raw_FileOpen_def nm)
    ultimately show ?thesis by blast
  qed
qed

lemma raw_FileRead_fat:
  assumes "efi_ok env fl opn" "filehandle H = Some h" "\<not> ifntfs H" "opn w h = Some (n, p)" "fl w n = Some c"
    and "want < MY_DEFINE_BUFFER_SIZE \<or> p + want \<le> length c"
  shows "\<exists>w'. raw_FileRead env H w want = Some (True, take want (drop p c), H, w') \<and>
    fl w' = fl w \<and> opn w' = (opn w)(h \<mapsto> (n, p + length (take want (drop p c))))"
  using SegFileRead_correct [of env fl opn w h n p c want] assms
  by (auto simp: efi_ok_def raw_FileRead_def)

lemma FileRead_more:
  assumes ok: "efi_ok env fl opn" and rd: "reading fl opn fn (H, w) (xs @ ys) rest"
    and xs: "xs \<noteq> []" "\<not> old_header xs"
  shows "\<exists>H' w'. FileRead env H w (length xs) = Some (True, xs, H', w') \<and> reading fl opn fn (H', w') ys rest"
proof -
  obtain h k p c g gs where H: "filehandle H = Some h" "\<not> ifntfs H" "ifneedseg H" "filename H = fn" "\<not> ifeof H"
      "unat (currentfileseg H) = k" and at: "opn w h = Some (seg fn k, p)" "fl w (seg fn k) = Some c" "p \<le> length c"
      and c: "drop p c = (xs @ ys) @ concat g" and rest: "rest = g @ concat gs" "[] \<notin> set rest" "[] \<notin> set (butlast gs)"
      "holds (fl w) fn (Suc k) gs" "fl w (seg fn (Suc k + length gs)) = None" "Suc k + length gs < 2 ^ 32"
    using rd unfolding reading_def by auto
  have "length c - p = length xs + length (ys @ concat g)"
    using arg_cong [OF c, of length] by simp
  then have len: "p + length xs \<le> length c"
    using at(3) by linarith
  have tk: "take (length xs) (drop p c) = xs"
    by (simp add: c)
  from raw_FileRead_fat [OF ok H(1,2) at(1,2), of "length xs"] len
  obtain w' where w': "raw_FileRead env H w (length xs) = Some (True, xs, H, w')" "fl w' = fl w"
      "opn w' = (opn w)(h \<mapsto> (seg fn k, p + length xs))"
    unfolding tk by blast
  have "drop (p + length xs) c = ys @ concat g"
    using c by (metis append.assoc append_eq_conv_conj drop_drop add.commute)
  then have "reading fl opn fn (H, w') ys rest"
    unfolding reading_def prod.case
    by (intro exI [of _ h] exI [of _ k] exI [of _ "p + length xs"] exI [of _ c] exI [of _ g] exI [of _ gs])
      (use H at(2) rest w' len in simp)
  moreover have "FileRead env H w (length xs) = Some (True, xs, H, w')"
    using w'(1) xs H(5) by (simp add: FileRead_def after_read_def)
  ultimately show ?thesis by blast
qed

text \<open>At the end of a file the first read finds nothing and \<open>FileRead\<close> opens the next file.\<close>

lemma FileRead_at_end:
  assumes ok: "efi_ok env fl opn" and H: "filehandle H = Some h" "\<not> ifntfs H" "ifneedseg H" "filename H = fn" "\<not> ifeof H"
      "unat (currentfileseg H) = k" and at: "opn w h = Some (seg fn k, length c)" "fl w (seg fn k) = Some c"
      and want: "want < MY_DEFINE_BUFFER_SIZE" and k: "Suc k < 2 ^ 32"
  shows "\<exists>H1 w1. fl w1 = fl w \<and>
    (if fl w (seg fn (Suc k)) = None then FileRead env H w want = Some (True, [], H1, w1)
     else \<exists>h1. filehandle H1 = Some h1 \<and> \<not> ifntfs H1 \<and> ifneedseg H1 \<and> filename H1 = fn \<and> \<not> ifeof H1 \<and>
        unat (currentfileseg H1) = Suc k \<and> opn w1 h1 = Some (seg fn (Suc k), 0) \<and>
        (\<forall>out H2 w2. raw_FileRead env H1 w1 want = Some (True, out, H2, w2) \<and> \<not> old_header out \<longrightarrow>
           FileRead env H w want = Some (True, out, H2, w2)))"
proof -
  obtain w' where w': "raw_FileRead env H w want = Some (True, [], H, w')" "fl w' = fl w"
    using raw_FileRead_fat [OF ok H(1,2) at, of want] want by auto
  let ?w2 = "efiClose env w' h" and ?n = "seg fn (Suc k)"
  have fl2: "fl ?w2 = fl w"
    using ok w'(2) by (auto simp: efi_ok_def efi_opens_def)
  have seg1: "unat (currentfileseg H + 1) = Suc k"
    using H(6) k by (subst unat_add_no_wrap) auto
  have nm: "segment_name fn (currentfileseg H + 1) = ?n"
    using arg_cong [OF seg1, of "of_nat :: nat \<Rightarrow> u32"] by (simp add: seg_def add.commute)
  have mode: "\<not> creates EFI_FILE_MODE_READ"
    by (simp add: creates_def EFI_FILE_MODE_CREATE_def EFI_FILE_MODE_READ_def)
  let ?H1 = "H\<lparr>currentfileseg := currentfileseg H + 1, filehandle := None\<rparr>"
  show ?thesis
  proof (cases "fl w ?n = None")
    case True
    then have "efiOpen env ?w2 ?n EFI_FILE_MODE_READ = None"
      using ok mode fl2 unfolding efi_ok_def efi_opens_def by metis
    then have "FileRead env H w want = Some (True, [], ?H1\<lparr>ifeof := True\<rparr>, ?w2)"
      using w' H by (simp add: FileRead_def FileClose_def raw_FileOpen_def nm)
    with True fl2 show ?thesis by auto
  next
    case False
    then obtain h1 w1 where w1: "efiOpen env ?w2 ?n EFI_FILE_MODE_READ = Some (h1, w1)" "fl w1 = fl w"
        "opn w1 = (opn ?w2)(h1 \<mapsto> (?n, 0))"
      using ok fl2 unfolding efi_ok_def efi_opens_def by metis
    let ?H2 = "?H1\<lparr>filehandle := Some h1\<rparr>"
    have "FileRead env H w want = Some (True, out, H2, w2)"
      if "raw_FileRead env ?H2 w1 want = Some (True, out, H2, w2)" "\<not> old_header out" for out H2 w2
      using that w' H w1(1) by (simp add: FileRead_def FileClose_def raw_FileOpen_def nm after_read_def)
    then show ?thesis
      using False H seg1 w1 by (intro exI [of _ ?H2] exI [of _ w1]) auto
  qed
qed

lemma FileRead_next:
  assumes ok: "efi_ok env fl opn" and rd: "reading fl opn fn (H, w) [] ((xs @ ys) # rest)"
    and xs: "xs \<noteq> []" "\<not> old_header xs" "length xs < MY_DEFINE_BUFFER_SIZE"
  shows "\<exists>H' w'. FileRead env H w (length xs) = Some (True, xs, H', w') \<and> reading fl opn fn (H', w') ys rest"
proof -
  obtain h k p c g gs where H: "filehandle H = Some h" "\<not> ifntfs H" "ifneedseg H" "filename H = fn" "\<not> ifeof H"
      "unat (currentfileseg H) = k" and at: "opn w h = Some (seg fn k, p)" "fl w (seg fn k) = Some c" "p \<le> length c"
      and c: "drop p c = concat g" and rest: "(xs @ ys) # rest = g @ concat gs" "[] \<notin> set ((xs @ ys) # rest)" "[] \<notin> set (butlast gs)"
      "holds (fl w) fn (Suc k) gs" "fl w (seg fn (Suc k + length gs)) = None" "Suc k + length gs < 2 ^ 32"
    using rd unfolding reading_def prod.case append_Nil by blast
  show ?thesis
  proof (cases g)
    case (Cons r g')
    have "reading fl opn fn (H, w) (xs @ ys) rest"
      unfolding reading_def prod.case
      by (intro exI [of _ h] exI [of _ k] exI [of _ p] exI [of _ c] exI [of _ g'] exI [of _ gs])
        (use H at c rest Cons in auto)
    then show ?thesis using FileRead_more [OF ok _ xs(1,2)] by blast
  next
    case Nil
    then have pc: "p = length c" using c at(3) by simp
    obtain g1 gs' where gs: "gs = g1 # gs'"
      using rest(1) Nil by (cases gs) auto
    have "g1 \<noteq> []"
      using rest(1,3) Nil gs by (cases gs') auto
    then obtain r g2 where g1: "g1 = r # g2" by (cases g1) auto
    then have r: "r = xs @ ys" "rest = g2 @ concat gs'"
      using rest(1) Nil gs by auto
    have c1: "fl w (seg fn (Suc k)) = Some (concat g1)" "holds (fl w) fn (Suc (Suc k)) gs'"
      using rest(4) gs by (auto simp: holds_Cons)
    have k1: "Suc k < 2 ^ 32" using rest(6) by simp
    obtain H1 w1 h1 where w1: "fl w1 = fl w" "filehandle H1 = Some h1" "\<not> ifntfs H1" "ifneedseg H1" "filename H1 = fn" "\<not> ifeof H1"
        "unat (currentfileseg H1) = Suc k" "opn w1 h1 = Some (seg fn (Suc k), 0)"
        and fr: "\<And>out H2 w2. raw_FileRead env H1 w1 (length xs) = Some (True, out, H2, w2) \<Longrightarrow> \<not> old_header out \<Longrightarrow>
           FileRead env H w (length xs) = Some (True, out, H2, w2)"
      using FileRead_at_end [OF ok H at(1) [unfolded pc] at(2) xs(3) k1] c1(1) by auto
    have c1': "fl w1 (seg fn (Suc k)) = Some (concat g1)" using c1 w1 by simp
    from raw_FileRead_fat [OF ok w1(2,3,8) c1', of "length xs"] g1 r xs(3)
    obtain w2 where w2: "raw_FileRead env H1 w1 (length xs) = Some (True, xs, H1, w2)" "fl w2 = fl w1"
        "opn w2 = (opn w1)(h1 \<mapsto> (seg fn (Suc k), length xs))"
      by auto
    have "reading fl opn fn (H1, w2) ys rest"
      unfolding reading_def prod.case
      by (intro exI [of _ h1] exI [of _ "Suc k"] exI [of _ "length xs"] exI [of _ "concat g1"] exI [of _ g2] exI [of _ gs'])
        (use w1 w2 c1 rest gs g1 r in \<open>auto split: if_splits\<close>)
    then show ?thesis using fr [OF w2(1) xs(2)] by blast
  qed
qed

lemma FileRead_finish:
  assumes ok: "efi_ok env fl opn" and rd: "reading fl opn fn (H, w) [] []" and want: "want < MY_DEFINE_BUFFER_SIZE"
  shows "\<exists>H' w'. FileRead env H w want = Some (True, [], H', w')"
proof -
  obtain h k p c gs where H: "filehandle H = Some h" "\<not> ifntfs H" "ifneedseg H" "filename H = fn" "\<not> ifeof H"
      "unat (currentfileseg H) = k" and at: "opn w h = Some (seg fn k, p)" "fl w (seg fn k) = Some c" "p = length c"
      and rest: "concat gs = []" "[] \<notin> set (butlast gs)"
      "holds (fl w) fn (Suc k) gs" "fl w (seg fn (Suc k + length gs)) = None" "Suc k + length gs < 2 ^ 32"
    using rd unfolding reading_def by auto
  have k1: "Suc k < 2 ^ 32" using rest(5) by simp
  note fe = FileRead_at_end [OF ok H at(1) [unfolded at(3)] at(2) want k1]
  show ?thesis
  proof (cases "fl w (seg fn (Suc k))")
    case None
    with fe show ?thesis by auto
  next
    case (Some c1)
    then have gs: "gs \<noteq> []" using rest(4) by auto
    then obtain g1 gs' where g: "gs = g1 # gs'" "g1 = []" using rest(1) by (cases gs) auto
    then have "c1 = []" using rest(3) Some by (auto simp: holds_Cons)
    moreover obtain H1 w1 h1 where w1: "fl w1 = fl w" "filehandle H1 = Some h1" "\<not> ifntfs H1" "opn w1 h1 = Some (seg fn (Suc k), 0)"
        and fr: "\<And>out H2 w2. raw_FileRead env H1 w1 want = Some (True, out, H2, w2) \<Longrightarrow> \<not> old_header out \<Longrightarrow>
           FileRead env H w want = Some (True, out, H2, w2)"
      using fe Some by auto
    ultimately obtain w2 where "raw_FileRead env H1 w1 want = Some (True, [], H1, w2)"
      using raw_FileRead_fat [OF ok w1(2-4), of "[]" want] Some want by auto
    from fr [OF this] show ?thesis
      by (auto simp: old_header_def rd32_def rd_le_def)
  qed
qed

text \<open>Writing and reading a sequence of records.\<close>

fun write_all :: "('f \<Rightarrow> buf \<Rightarrow> (bool \<times> 'f) option) \<Rightarrow> 'f \<Rightarrow> buf list \<Rightarrow> (bool \<times> 'f) option" where
  "write_all fw f [] = Some (True, f)"
| "write_all fw f (r # rs) = do { (ok, f') \<leftarrow> fw f r; if ok then write_all fw f' rs else Some (False, f') }"

fun read_all :: "('f \<Rightarrow> nat \<Rightarrow> (bool \<times> buf \<times> 'f) option) \<Rightarrow> 'f \<Rightarrow> nat list \<Rightarrow> (buf list \<times> 'f) option" where
  "read_all fr f [] = Some ([], f)"
| "read_all fr f (n # ns) =
     do { (ok, b, f') \<leftarrow> fr f n; if ok then do { (bs, f'') \<leftarrow> read_all fr f' ns; Some (b # bs, f'') } else None }"

definition readable :: "nat \<Rightarrow> buf list \<Rightarrow> bool" where
  "readable limit xs \<longleftrightarrow> xs \<noteq> [] \<and> [] \<notin> set xs \<and> (\<forall>x \<in> set xs. \<not> old_header x) \<and> length (hd xs) < limit"

lemma read_all_append:
  "read_all fr f (ms @ ns) = do { (xs, f1) \<leftarrow> read_all fr f ms; (ys, f2) \<leftarrow> read_all fr f1 ns; Some (xs @ ys, f2) }"
  by (induction ms arbitrary: f) (auto split: option.splits simp: Option.bind_assoc split_def intro!: Option.bind_cong)

lemma readable_concat: "readable limit xs \<Longrightarrow> concat xs \<noteq> []"
  by (cases xs) (auto simp: readable_def)

section \<open>The interface the backup and the restore rely on\<close>

text \<open>
  \<open>wr f rs\<close>: the file is open for writing and holds the records \<open>rs\<close>. \<open>rd f cur rest\<close>: it is open
  for reading, \<open>cur\<close> is what is left of the current record and \<open>rest\<close> are the records behind it. A
  read never has to cross the end of a record, and the first read of a record, which may have to
  go on to the next file, is shorter than \<open>limit\<close>.
\<close>

locale image_file =
  fixes fw :: "'f \<Rightarrow> buf \<Rightarrow> (bool \<times> 'f) option" and fr :: "'f \<Rightarrow> nat \<Rightarrow> (bool \<times> buf \<times> 'f) option"
    and reopen :: "'f \<Rightarrow> 'f option" and wr :: "'f \<Rightarrow> buf list \<Rightarrow> bool" and rd :: "'f \<Rightarrow> buf \<Rightarrow> buf list \<Rightarrow> bool"
    and limit :: nat
  assumes write_law: "wr f rs \<Longrightarrow> length rs + 1 < 2 ^ 32 \<Longrightarrow> \<exists>f'. fw f bytes = Some (True, f') \<and> wr f' (rs @ [bytes])"
    and more_law: "rd f (xs @ ys) rest \<Longrightarrow> xs \<noteq> [] \<Longrightarrow> \<not> old_header xs \<Longrightarrow>
      \<exists>f'. fr f (length xs) = Some (True, xs, f') \<and> rd f' ys rest"
    and next_record: "rd f [] ((xs @ ys) # rest) \<Longrightarrow> xs \<noteq> [] \<Longrightarrow> \<not> old_header xs \<Longrightarrow> length xs < limit \<Longrightarrow>
      \<exists>f'. fr f (length xs) = Some (True, xs, f') \<and> rd f' ys rest"
    and at_end: "rd f [] [] \<Longrightarrow> n < limit \<Longrightarrow> \<exists>f'. fr f n = Some (True, [], f')"
    and again: "wr f rs \<Longrightarrow> [] \<notin> set rs \<Longrightarrow> length rs + 1 < 2 ^ 32 \<Longrightarrow> \<exists>f'. reopen f = Some f' \<and> rd f' [] rs"
begin

lemma write_all_records:
  "wr f rs0 \<Longrightarrow> length rs0 + length rs < 2 ^ 32 \<Longrightarrow> \<exists>f'. write_all fw f rs = Some (True, f') \<and> wr f' (rs0 @ rs)"
proof (induction rs arbitrary: f rs0)
  case (Cons r rs)
  from write_law [OF Cons.prems(1), of r] Cons.prems(2)
  obtain f1 where f1: "fw f r = Some (True, f1)" "wr f1 (rs0 @ [r])" by auto
  from Cons.IH [OF f1(2)] Cons.prems(2)
  obtain f' where "write_all fw f1 rs = Some (True, f')" "wr f' ((rs0 @ [r]) @ rs)" by auto
  with f1 show ?case by simp
qed auto

lemma read_rest:
  "rd f (concat xs) rest \<Longrightarrow> [] \<notin> set xs \<Longrightarrow> \<forall>x \<in> set xs. \<not> old_header x \<Longrightarrow>
    \<exists>f'. read_all fr f (map length xs) = Some (xs, f') \<and> rd f' [] rest"
proof (induction xs arbitrary: f)
  case (Cons x xs)
  from more_law [of f x "concat xs" rest] Cons.prems
  obtain f1 where f1: "fr f (length x) = Some (True, x, f1)" "rd f1 (concat xs) rest" by auto
  with Cons show ?case by fastforce
qed auto

lemma read_record:
  assumes "rd f [] (concat xs # rest)" "readable limit xs"
  shows "\<exists>f'. read_all fr f (map length xs) = Some (xs, f') \<and> rd f' [] rest"
proof -
  obtain y ys where xs: "xs = y # ys" using assms(2) by (cases xs) (auto simp: readable_def)
  with next_record [of f y "concat ys" rest] assms
  obtain f1 where f1: "fr f (length y) = Some (True, y, f1)" "rd f1 (concat ys) rest"
    by (auto simp: readable_def)
  from read_rest [OF f1(2)] assms(2) xs f1 show ?thesis
    by (fastforce simp: readable_def)
qed

lemma read_records:
  "rd f [] (map concat xss) \<Longrightarrow> \<forall>xs \<in> set xss. readable limit xs \<Longrightarrow>
    \<exists>f'. read_all fr f (map length (concat xss)) = Some (concat xss, f') \<and> rd f' [] []"
proof (induction xss arbitrary: f)
  case (Cons xs xss)
  from read_record [of f xs "map concat xss"] Cons.prems
  obtain f1 where f1: "read_all fr f (map length xs) = Some (xs, f1)" "rd f1 [] (map concat xss)" by auto
  from Cons.IH [OF f1(2)] Cons.prems(2) obtain f2 where
    "read_all fr f1 (map length (concat xss)) = Some (concat xss, f2)" "rd f2 [] []" by auto
  with f1 show ?case by (simp add: read_all_append)
qed auto

lemma image_roundtrip_general:
  assumes "wr f []" "\<forall>xs \<in> set xss. readable limit xs" "length xss + 1 < 2 ^ 32"
  shows "\<exists>f1 f2 f3. write_all fw f (map concat xss) = Some (True, f1) \<and> reopen f1 = Some f2 \<and>
    read_all fr f2 (map length (concat xss)) = Some (concat xss, f3)"
proof -
  from write_all_records [OF assms(1), of "map concat xss"] assms(3)
  obtain f1 where f1: "write_all fw f (map concat xss) = Some (True, f1)" "wr f1 (map concat xss)" by auto
  have "[] \<notin> set (map concat xss)"
    using assms(2) readable_concat by fastforce
  from again [OF f1(2) this] assms(3) obtain f2 where "reopen f1 = Some f2" "rd f2 [] (map concat xss)" by auto
  with read_records [OF _ assms(2)] f1 show ?thesis by blast
qed

end

section \<open>The image files provide it\<close>

definition image_write :: "'w fs_env \<Rightarrow> FILE_HANDLE_INFO \<times> 'w \<Rightarrow> buf \<Rightarrow> (bool \<times> FILE_HANDLE_INFO \<times> 'w) option" where
  "image_write env f bytes = FileWrite env (fst f) (snd f) bytes"

definition image_read :: "'w fs_env \<Rightarrow> FILE_HANDLE_INFO \<times> 'w \<Rightarrow> nat \<Rightarrow> (bool \<times> buf \<times> FILE_HANDLE_INFO \<times> 'w) option" where
  "image_read env f n = FileRead env (fst f) (snd f) n"

definition image_reopen :: "'w fs_env \<Rightarrow> FILE_HANDLE_INFO \<times> 'w \<Rightarrow> (FILE_HANDLE_INFO \<times> 'w) option" where
  "image_reopen env f =
     do { (H1, w1) \<leftarrow> FileClose env (fst f) (snd f);
          (ok, H2, w2) \<leftarrow> FileOpen env False w1 (filename (fst f)) EFI_FILE_MODE_READ True;
          if ok then Some (H2, w2) else None }"

lemma image_reopen_reads:
  assumes ok: "efi_ok env fl opn" and wr: "writing fl opn fn (H, w) rs" and rs: "[] \<notin> set rs"
    and fn: "length fn \<le> 64" and len: "length rs + 1 < 2 ^ 32"
  shows "\<exists>H' w'. image_reopen env (H, w) = Some (H', w') \<and> reading fl opn fn (H', w') [] rs"
proof -
  obtain h gs g where H: "filehandle H = Some h" "\<not> ifntfs H" "ifneedseg H" "filename H = fn"
      "unat (currentfileseg H) = length gs" and gs: "[] \<notin> set gs" "rs = concat gs @ g" "holds (fl w) fn 0 gs"
      and cur: "fl w (seg fn (length gs)) = Some (concat g)"
      and none: "\<And>j. length gs < j \<Longrightarrow> j < 2 ^ 32 \<Longrightarrow> fl w (seg fn j) = None"
    using wr unfolding writing_def by auto
  have k: "length gs + 1 < 2 ^ 32"
    using length_concat_nonempty [OF gs(1)] gs(2) len by simp
  let ?w1 = "efiClose env w h"
  have fl1: "fl ?w1 = fl w" using ok by (auto simp: efi_ok_def efi_opens_def)
  obtain x gs' where all: "gs @ [g] = x # gs'" by (cases "gs @ [g]") auto
  have hold: "holds (fl w) fn 0 (x # gs')"
    using gs(3) cur all [symmetric] by (simp add: holds_append holds_Cons)
  then have c0: "fl w fn = Some (concat x)" "holds (fl w) fn 1 gs'"
    by (auto simp: holds_Cons seg_def)
  have "fl ?w1 fn \<noteq> None" using c0 fl1 by simp
  then obtain h2 w2 where w2: "efiOpen env ?w1 fn EFI_FILE_MODE_READ = Some (h2, w2)" "fl w2 = fl w"
      "opn w2 = (opn ?w1)(h2 \<mapsto> (fn, 0))"
    using ok fl1 unfolding efi_ok_def efi_opens_def by metis
  have lengs: "length gs' = length gs" using arg_cong [OF all, of length] by simp
  have bl: "[] \<notin> set (butlast gs')"
  proof -
    have "butlast (x # gs') = gs" using all by (metis butlast_snoc)
    then show ?thesis using gs(1) by (cases gs') auto
  qed
  have rs': "rs = x @ concat gs'"
    using gs(2) all by (metis append_Nil2 concat.simps(1,2) concat_append)
  define H' where "H' = \<lparr>ifntfs = False, filehandle = Some h2, filepos = 0, filename = fn,
         currentfileseg = 0, currentfilesize = 0, ifneedseg = True, ifeof = False,
         cachedirty = False, cachesize = 0, cachedatasize = 0, cachedatapos = 0, cache = []\<rparr>"
  have "image_reopen env (H, w) = Some (H', w2)"
    using H w2(1) fn by (simp add: image_reopen_def FileClose_def FileOpen_def raw_FileOpen_def H'_def)
  moreover have "reading fl opn fn (H', w2) [] rs"
    unfolding reading_def prod.case
    by (intro exI [of _ h2] exI [of _ 0] exI [of _ "concat x"] exI [of _ x] exI [of _ gs'])
      (use w2 c0 bl rs' rs lengs k none [of "length gs + 1"] in \<open>auto simp: H'_def seg_def\<close>)
  ultimately show ?thesis by blast
qed

lemma FileIo_image_file:
  assumes "efi_ok env fl opn" "length fn \<le> 64"
  shows "image_file (image_write env) (image_read env) (image_reopen env) (writing fl opn fn) (reading fl opn fn) MY_DEFINE_BUFFER_SIZE"
proof
  fix f rs bytes
  assume "writing fl opn fn f rs" "length rs + 1 < 2 ^ 32"
  then show "\<exists>f'. image_write env f bytes = Some (True, f') \<and> writing fl opn fn f' (rs @ [bytes])"
    using FileWrite_appends [OF assms(1), of fn "fst f" "snd f" rs bytes] by (auto simp: image_write_def)
next
  fix f xs ys rest
  assume "reading fl opn fn f (xs @ ys) rest" "xs \<noteq> []" "\<not> old_header xs"
  then show "\<exists>f'. image_read env f (length xs) = Some (True, xs, f') \<and> reading fl opn fn f' ys rest"
    using FileRead_more [OF assms(1), of fn "fst f" "snd f" xs ys rest] by (auto simp: image_read_def)
next
  fix f xs ys rest
  assume "reading fl opn fn f [] ((xs @ ys) # rest)" "xs \<noteq> []" "\<not> old_header xs" "length xs < MY_DEFINE_BUFFER_SIZE"
  then show "\<exists>f'. image_read env f (length xs) = Some (True, xs, f') \<and> reading fl opn fn f' ys rest"
    using FileRead_next [OF assms(1), of fn "fst f" "snd f" xs ys rest] by (auto simp: image_read_def)
next
  fix f n
  assume "reading fl opn fn f [] []" "n < MY_DEFINE_BUFFER_SIZE"
  then show "\<exists>f'. image_read env f n = Some (True, [], f')"
    using FileRead_finish [OF assms(1), of fn "fst f" "snd f" n] by (auto simp: image_read_def)
next
  fix f rs
  assume "writing fl opn fn f rs" "[] \<notin> set rs" "length rs + 1 < 2 ^ 32"
  then show "\<exists>f'. image_reopen env f = Some f' \<and> reading fl opn fn f' [] rs"
    using image_reopen_reads [OF assms(1), of fn "fst f" "snd f" rs] assms(2) by auto
qed

lemma FileOpen_creates:
  assumes ok: "efi_ok env fl opn" and fn: "length fn \<le> 64" and none: "\<And>j. j < 2 ^ 32 \<Longrightarrow> fl w (seg fn j) = None"
  shows "\<exists>f. FileOpen env False w fn (EFI_FILE_MODE_CREATE OR EFI_FILE_MODE_WRITE OR EFI_FILE_MODE_READ) True = Some (True, f) \<and>
    writing fl opn fn f []"
proof -
  have c: "creates (EFI_FILE_MODE_CREATE OR EFI_FILE_MODE_WRITE OR EFI_FILE_MODE_READ)"
    by (simp add: creates_def EFI_FILE_MODE_CREATE_def EFI_FILE_MODE_WRITE_def EFI_FILE_MODE_READ_def)
  have s0: "seg fn 0 = fn" by (simp add: seg_def)
  have "fl w fn = None" using none [of 0] s0 by simp
  with ok c obtain h w1 where w1: "efiOpen env w fn (EFI_FILE_MODE_CREATE OR EFI_FILE_MODE_WRITE OR EFI_FILE_MODE_READ) = Some (h, w1)"
      "fl w1 = (fl w)(fn \<mapsto> [])" "opn w1 = (opn w)(h \<mapsto> (fn, 0))"
    unfolding efi_ok_def efi_opens_def by metis
  define H where "H = \<lparr>ifntfs = False, filehandle = Some h, filepos = 0, filename = fn,
         currentfileseg = 0, currentfilesize = 0, ifneedseg = True, ifeof = False,
         cachedirty = False, cachesize = 0, cachedatasize = 0, cachedatapos = 0, cache = []\<rparr>"
  have "fl w1 (seg fn j) = None" if "0 < j" "j < 2 ^ 32" for j
    using none [OF that(2)] seg_inject [of j 0 fn] that w1(2) s0 by auto
  then have "writing fl opn fn (H, w1) []"
    unfolding writing_def prod.case
    by (intro exI [of _ h] exI [of _ "[]"]) (use w1 s0 in \<open>simp add: H_def\<close>)
  moreover have "FileOpen env False w fn (EFI_FILE_MODE_CREATE OR EFI_FILE_MODE_WRITE OR EFI_FILE_MODE_READ) True = Some (True, H, w1)"
    using w1(1) fn by (simp add: FileOpen_def raw_FileOpen_def H_def)
  ultimately show ?thesis by blast
qed

text \<open>
  C6. Records written with FileWrite to a newly created image, which FileWrite splits into
  numbered files, come back from FileRead piece by piece after the image has been closed and
  opened again.
\<close>

theorem image_roundtrip:
  assumes ok: "efi_ok env fl opn" and fn: "length fn \<le> 64" and none: "\<And>j. j < 2 ^ 32 \<Longrightarrow> fl w (seg fn j) = None"
    and xss: "\<forall>xs \<in> set xss. readable MY_DEFINE_BUFFER_SIZE xs" "length xss + 1 < 2 ^ 32"
  shows "\<exists>f f1 f2 f3. FileOpen env False w fn (EFI_FILE_MODE_CREATE OR EFI_FILE_MODE_WRITE OR EFI_FILE_MODE_READ) True = Some (True, f) \<and>
    write_all (image_write env) f (map concat xss) = Some (True, f1) \<and> image_reopen env f1 = Some f2 \<and>
    read_all (image_read env) f2 (map length (concat xss)) = Some (concat xss, f3)"
  using FileOpen_creates [OF ok fn none] image_file.image_roundtrip_general [OF FileIo_image_file [OF ok fn] _ xss]
  by blast

section \<open>Reading past the end\<close>

lemma seg_read_past_end:
  assumes rd: "efi_reads env fl opn" and ret: "seg_read env h want w out = Some r"
    and at: "opn w h = Some (n, p)" "fl w n = Some c" "length out + (length c - p) < want"
  shows False
proof -
  let ?Q = "\<lambda>w out. \<forall>p. opn w h = Some (n, p) \<longrightarrow> fl w n = Some c \<longrightarrow> \<not> length out + (length c - p) < want"
  have "e = env \<longrightarrow> h' = h \<longrightarrow> want' = want \<longrightarrow> ?Q w out" if "seg_read e h' want' w out = Some r" for e h' want' w out r
  proof (rule seg_read.raw_induct [where P = "\<lambda>e h' want' w out r. e = env \<longrightarrow> h' = h \<longrightarrow> want' = want \<longrightarrow> ?Q w out",
      OF _ that], intro impI allI notI, goal_cases)
    case (1 f e h' want' w out r p)
    let ?b = "take (min MY_DEFINE_BUFFER_SIZE (want - length out)) (drop p c)"
    obtain w' where w': "efiRead env w h (min MY_DEFINE_BUFFER_SIZE (want - length out)) = Some (?b, w')"
        "fl w' = fl w" "opn w' = (opn w)(h \<mapsto> (n, p + length ?b))"
      using rd 1(6,7) unfolding efi_reads_def by blast
    then have "f env h want w' (out @ ?b) = Some r"
      using 1(2-5,8) by simp
    from 1(1) [OF this] have "?Q w' (out @ ?b)" by simp
    then have "\<not> length (out @ ?b) + (length c - (p + length ?b)) < want"
      using w' 1(7) by simp
    moreover have "length ?b \<le> length c - p" by simp
    ultimately show ?case using 1(8) unfolding length_append by linarith
  qed
  from this [OF ret] at show False by blast
qed

text \<open>
  C33. A read of 20 MB or more that reaches behind the end of the file never returns:
  SegFileRead asks again after an empty read.
\<close>

theorem SegFileRead_hangs:
  assumes "efi_reads env fl opn" "opn w h = Some (n, p)" "fl w n = Some c"
    and "MY_DEFINE_BUFFER_SIZE \<le> want" "length c - p < want"
  shows "SegFileRead env h w want = None"
  using seg_read_past_end [OF assms(1) _ assms(2,3), of want "[]"] assms(4,5)
  by (cases "seg_read env h want w []") (auto simp: SegFileRead_def)

section \<open>A file system kept in memory\<close>

record ram_fs =
  rfiles :: "fname \<Rightarrow> buf option"
  ropen :: "nat \<Rightarrow> (fname \<times> nat) option"
  rnext :: nat

definition ram_open :: "ram_fs \<Rightarrow> fname \<Rightarrow> nat \<times> ram_fs" where
  "ram_open w n = (rnext w, w\<lparr>ropen := (ropen w)(rnext w \<mapsto> (n, 0)), rnext := Suc (rnext w)\<rparr>)"

definition ram_create :: "ram_fs \<Rightarrow> fname \<Rightarrow> nat \<times> ram_fs" where
  "ram_create w n = ram_open (w\<lparr>rfiles := (rfiles w)(n \<mapsto> [])\<rparr>) n"

definition ram_at :: "ram_fs \<Rightarrow> nat \<Rightarrow> (fname \<times> nat \<times> buf) option" where
  "ram_at w h = do { (n, p) \<leftarrow> ropen w h; c \<leftarrow> rfiles w n; Some (n, p, c) }"

definition ram_fs_env :: "ram_fs fs_env" where
  "ram_fs_env = \<lparr>
     efiRead = (\<lambda>w h k. do { (n, p, c) \<leftarrow> ram_at w h;
        Some (take k (drop p c), w\<lparr>ropen := (ropen w)(h \<mapsto> (n, p + length (take k (drop p c))))\<rparr>) }),
     efiWrite = (\<lambda>w h bs. do { (n, p, c) \<leftarrow> ram_at w h;
        Some (length bs, w\<lparr>rfiles := (rfiles w)(n \<mapsto> overlay p bs c), ropen := (ropen w)(h \<mapsto> (n, p + length bs))\<rparr>) }),
     efiOpen = (\<lambda>w n m. if rfiles w n \<noteq> None then Some (ram_open w n)
        else if creates m then Some (ram_create w n) else None),
     efiClose = (\<lambda>w h. w\<lparr>ropen := (ropen w)(h := None)\<rparr>),
     efiSetPosition = (\<lambda>w h pos. do { (n, p, c) \<leftarrow> ram_at w h; Some (w\<lparr>ropen := (ropen w)(h \<mapsto> (n, unat pos))\<rparr>) }),
     n_readfile = (\<lambda>w h pos k. do { (n, p, c) \<leftarrow> ram_at w h; Some (take (unat k) (drop (unat pos) c)) }),
     n_writefile = (\<lambda>w h pos bs. do { (n, p, c) \<leftarrow> ram_at w h;
        Some (of_nat (length bs), w\<lparr>rfiles := (rfiles w)(n \<mapsto> overlay (unat pos) bs c)\<rparr>) }),
     n_openfile = (\<lambda>w n. if rfiles w (map ucast n) \<noteq> None then Some (ram_open w (map ucast n)) else None),
     n_createfile = (\<lambda>w n. Some (ram_create w (map ucast n))),
     n_missing = (\<lambda>w n. rfiles w (map ucast n) = None),
     n_closefile = (\<lambda>w h. w\<lparr>ropen := (ropen w)(h := None)\<rparr>)\<rparr>"

lemma ram_fs_ok: "efi_ok ram_fs_env rfiles ropen"
  unfolding efi_ok_def efi_reads_def efi_writes_def efi_opens_def
  by (auto simp: ram_fs_env_def ram_at_def ram_open_def ram_create_def)

definition image_name :: fname where
  "image_name = [0x6f, 0x6b, 0x72, 0]"

interpretation ram_image: image_file "image_write ram_fs_env" "image_read ram_fs_env" "image_reopen ram_fs_env"
  "writing rfiles ropen image_name" "reading rfiles ropen image_name" MY_DEFINE_BUFFER_SIZE
  by (rule FileIo_image_file [OF ram_fs_ok]) (simp add: image_name_def)

definition no_files :: ram_fs where
  "no_files = \<lparr>rfiles = (\<lambda>_. None), ropen = (\<lambda>_. None), rnext = 0\<rparr>"

theorem image_roundtrip_witness:
  "\<exists>f f1 f2 f3. FileOpen ram_fs_env False no_files image_name (EFI_FILE_MODE_CREATE OR EFI_FILE_MODE_WRITE OR EFI_FILE_MODE_READ) True = Some (True, f) \<and>
    write_all (image_write ram_fs_env) f (map concat [[[1, 2], [3]], [[4 :: byte]]]) = Some (True, f1) \<and> image_reopen ram_fs_env f1 = Some f2 \<and>
    read_all (image_read ram_fs_env) f2 (map length (concat [[[1, 2], [3]], [[4 :: byte]]])) = Some (concat [[[1, 2], [3]], [[4]]], f3)"
  by (rule image_roundtrip [OF ram_fs_ok])
    (auto simp: image_name_def no_files_def readable_def old_header_def rd32_def rd_le_def slice_def MY_DEFINE_BUFFER_SIZE_def)

theorem SegFileRead_hangs_witness:
  "SegFileRead ram_fs_env 0 \<lparr>rfiles = [image_name \<mapsto> [7]], ropen = [0 \<mapsto> (image_name, 0)], rnext = 1\<rparr> (20 * 1024 * 1024) = None"
  by (rule SegFileRead_hangs [where fl = rfiles and opn = ropen and n = image_name and p = 0 and c = "[7]"])
    (use ram_fs_ok in \<open>auto simp: efi_ok_def MY_DEFINE_BUFFER_SIZE_def\<close>)

end
