(* ===== verification/Okr_NtfsCache.thy ===== *)
theory Okr_NtfsCache
  imports Okr_FileIoCorrect
begin

unbundle bit_operations_syntax

text \<open>
  The cache that \<open>_FileRead\<close>, \<open>_FileWrite\<close> and \<open>FileClose\<close> of \<^verbatim>\<open>utils.c\<close> keep for NTFS files: reads
  through it give what the file holds, and after \<open>FileClose\<close> the file holds what was written.
\<close>

section \<open>The read cache\<close>

definition n_reads :: "'w fs_env \<Rightarrow> ('w \<Rightarrow> nat \<Rightarrow> buf option) \<Rightarrow> bool" where
  "n_reads env nf \<longleftrightarrow> (\<forall>w h c pos k. nf w h = Some c \<longrightarrow> n_readfile env w h pos k = Some (take (unat k) (drop (unat pos) c)))"

definition cache_ok :: "buf \<Rightarrow> FILE_HANDLE_INFO \<Rightarrow> bool" where
  "cache_ok c H \<longleftrightarrow> cachesize H \<noteq> 0 \<and> (cachedatasize H \<noteq> 0 \<longrightarrow>
     unat (cachedatapos H) + unat (cachedatasize H) \<le> length c \<and>
     take (unat (cachedatasize H)) (cache H) = take (unat (cachedatasize H)) (drop (unat (cachedatapos H)) c))"

lemma take_take_drop: "take m (drop p c) @ take n (drop (p + length (take m (drop p c))) c) = take (m + n) (drop p c)" for c :: buf
proof (cases "p + m \<le> length c")
  case True
  then have "length (take m (drop p c)) = m" by simp
  then show ?thesis by (simp only: take_add drop_drop add.commute [of p m])
next
  case False
  then have "length c \<le> p + length (take m (drop p c))" by simp
  moreover have "take m (drop p c) = drop p c" using False by simp
  ultimately show ?thesis using False by simp
qed

lemma unat_advance:
  fixes p r l :: u64
  assumes "m \<le> unat r" "r \<le> l" "unat p + m < 2 ^ 63"
  shows "unat (r - of_nat m) = unat r - m" "unat (l - of_nat m) = unat l - m" "unat (p + of_nat m) = unat p + m"
    "r - of_nat m \<le> l - of_nat m"
proof -
  have um: "unat (of_nat m :: u64) = m" using assms(3) by (intro unat_of_nat_u64) simp
  have l: "m \<le> unat l" using assms(1,2) by (simp add: word_le_nat_alt)
  show r: "unat (r - of_nat m) = unat r - m" and l: "unat (l - of_nat m) = unat l - m"
    using assms(1) l um by (simp_all add: unat_sub_no_wrap)
  show "unat (p + of_nat m) = unat p + m"
    using assms(3) um by (simp add: unat_add_no_wrap)
  show "r - of_nat m \<le> l - of_nat m"
    using assms(2) unfolding word_le_nat_alt r l by simp
qed

lemma read_direct_correct:
  assumes rd: "n_reads env nf" and c: "nf w h = Some c" "length c < 2 ^ 63"
  shows "unat pos \<le> length c \<Longrightarrow> readsize \<le> left \<Longrightarrow>
    \<exists>pos' left'. read_direct env w h readsize pos left out =
        Some (True, pos', left', out @ take (unat readsize) (drop (unat pos) c)) \<and>
      unat pos' = unat pos + length (take (unat readsize) (drop (unat pos) c)) \<and>
      unat left' = (if unat pos + unat readsize \<le> length c then unat left - unat readsize else 0)"
proof (induction "unat readsize" arbitrary: readsize pos left out rule: less_induct)
  case less
  show ?case
  proof (cases "readsize = 0")
    case True
    then show ?thesis using less.prems by (subst read_direct.simps) simp
  next
    case False
    define n where "n = (if MAX_NTFS_TRANSFER < readsize then MAX_NTFS_TRANSFER else readsize)"
    define b where "b = take (unat n) (drop (unat pos) c)"
    define m where "m = length b"
    have n: "0 < unat n" "unat n \<le> unat readsize"
      using False by (auto simp: n_def MAX_NTFS_TRANSFER_def word_less_nat_alt unat_gt_0)
    have nr: "n_readfile env w h pos n = Some b"
      using rd c(1) by (simp add: n_reads_def b_def)
    show ?thesis
    proof (cases "b = []")
      case True
      then have "unat pos = length c" using n less.prems by (simp add: b_def)
      then show ?thesis
        using False True nr n by (subst read_direct.simps) (simp add: n_def [symmetric])
    next
      case b: False
      have bm: "b = take m (drop (unat pos) c)" by (simp add: m_def b_def min_def)
      have m: "0 < m" "m \<le> unat readsize" "unat pos + m \<le> length c"
        using b n(2) less.prems(1) by (auto simp: m_def b_def)
      note u = unat_advance [OF m(2) less.prems(2), of pos]
      have "unat (readsize - of_nat m) < unat readsize" "unat (pos + of_nat m) \<le> length c" "readsize - of_nat m \<le> left - of_nat m"
        using u m c(2) by simp_all
      from less.hyps [OF this, of "out @ b"] obtain pos' left' where ih:
        "read_direct env w h (readsize - of_nat m) (pos + of_nat m) (left - of_nat m) (out @ b) =
          Some (True, pos', left', (out @ b) @ take (unat readsize - m) (drop (unat pos + m) c))"
        "unat pos' = unat pos + m + length (take (unat readsize - m) (drop (unat pos + m) c))"
        "unat left' = (if unat pos + m + (unat readsize - m) \<le> length c then unat left - m - (unat readsize - m) else 0)"
        using u m(3) c(2) by auto
      have tk: "b @ take (unat readsize - m) (drop (unat pos + m) c) = take (unat readsize) (drop (unat pos) c)"
        using take_take_drop [of m "unat pos" c "unat readsize - m"] m by (simp add: bm)
      have "unat pos' = unat pos + length (take (unat readsize) (drop (unat pos) c))"
        using ih(2) arg_cong [OF tk, of length] by (simp only: length_append m_def)
      moreover have "unat left' = (if unat pos + unat readsize \<le> length c then unat left - unat readsize else 0)"
        using ih(3) m(2) by (simp add: add.assoc)
      moreover have "read_direct env w h readsize pos left out =
          read_direct env w h (readsize - of_nat m) (pos + of_nat m) (left - of_nat m) (out @ b)"
        using False b nr by (subst read_direct.simps) (simp add: n_def [symmetric] m_def Let_def)
      ultimately show ?thesis
        using ih(1) tk by simp
    qed
  qed
qed

lemma cache_multiple_le: "cache_multiple H n \<le> n"
  by (simp add: cache_multiple_def word_and_le2)

lemma fill_cache_correct:
  assumes rd: "n_reads env nf" and c: "nf w h = Some c" "length c < 2 ^ 63" and ok: "cachesize H \<noteq> 0"
    and pos: "unat pos \<le> length c"
  shows "\<exists>H'. fill_cache env w h pos H = (True, H') \<and> cache_ok c (H'\<lparr>cachedatapos := pos\<rparr>) \<and>
    unat (cachedatasize H') = min (unat (cachesize H)) (length c - unat pos) \<and>
    filepos H' = filepos H \<and> cachedatapos H' = cachedatapos H \<and> cachesize H' = cachesize H"
proof -
  let ?b = "take (unat (cachesize H)) (drop (unat pos) c)"
  have lb: "length ?b = min (unat (cachesize H)) (length c - unat pos)" by simp
  have "length ?b < 2 ^ 32"
    using unsigned_less [of "cachesize H", where 'a = nat] by simp
  then have u: "unat (of_nat (length ?b) :: u32) = length ?b" by (rule unat_of_nat_u32)
  let ?H' = "H\<lparr>cachedatasize := of_nat (length ?b), cache := ?b @ drop (length ?b) (cache H)\<rparr>"
  have "fill_cache env w h pos H = (True, ?H')"
    using rd c(1) by (simp add: fill_cache_def n_reads_def)
  moreover have "cache_ok c (?H'\<lparr>cachedatapos := pos\<rparr>)"
    using ok pos u lb by (auto simp: cache_ok_def min_def)
  ultimately show ?thesis
    using u lb by (intro exI [of _ ?H']) simp
qed


lemma copy_cached_correct:
  assumes ok: "cache_ok c H" and len: "length c < 2 ^ 63" and pos: "unat (filepos H) \<le> length c"
  obtains n where "copy_cached H left out = (H\<lparr>filepos := filepos H + of_nat n\<rparr>, left - of_nat n, out @ take n (drop (unat (filepos H)) c))"
    "n \<le> unat left" "unat (filepos H) + n \<le> length c" "in_cache H \<Longrightarrow> left \<noteq> 0 \<Longrightarrow> 0 < n" "\<not> in_cache H \<Longrightarrow> n = 0"
proof (cases "in_cache H")
  case False
  then show thesis using that [of 0] pos by (simp add: copy_cached_def)
next
  case True
  let ?p = "unat (filepos H)" and ?q = "unat (cachedatapos H)" and ?s = "unat (cachedatasize H)"
  have "cachedatasize H \<noteq> 0" using True by (auto simp: in_cache_def)
  then have c: "?q + ?s \<le> length c" "take ?s (cache H) = take ?s (drop ?q c)"
    using ok by (auto simp: cache_ok_def)
  have u: "unat (cachedatapos H + ucast (cachedatasize H)) = ?q + ?s"
    using c(1) len by (subst unat_add_no_wrap) auto
  then have qp: "?q \<le> ?p" "?p < ?q + ?s"
    using True by (auto simp: in_cache_def word_le_nat_alt word_less_nat_alt)
  define ofs where "ofs = filepos H - cachedatapos H"
  define avail where "avail = (ucast (cachedatasize H) :: u64) - ofs"
  define n where "n = (if avail < left then avail else left)"
  have uo: "unat ofs = ?p - ?q" using qp by (simp add: ofs_def unat_sub_no_wrap)
  have ua: "unat avail = ?s - (?p - ?q)" using qp uo by (simp add: avail_def unat_sub_no_wrap)
  have un: "unat n = min (?s - (?p - ?q)) (unat left)"
    using ua by (auto simp: n_def word_less_nat_alt)
  have "take (unat n) (drop (?p - ?q) (cache H)) = take (unat n) (drop ?p c)"
  proof -
    have "take (unat n) (drop (?p - ?q) (cache H)) = take (unat n) (drop (?p - ?q) (take ?s (cache H)))"
      using un qp by (simp add: drop_take min_def)
    also have "\<dots> = take (unat n) (drop (?p - ?q) (take ?s (drop ?q c)))" by (simp only: c(2))
    also have "\<dots> = take (unat n) (drop (?p - ?q) (drop ?q c))"
      using un qp by (simp add: drop_take min_def)
    finally show ?thesis using qp by simp
  qed
  then have "copy_cached H left out = (H\<lparr>filepos := filepos H + of_nat (unat n)\<rparr>, left - of_nat (unat n), out @ take (unat n) (drop ?p c))"
    using True uo
    by (cases "avail < left") (simp_all add: copy_cached_def Let_def ofs_def [symmetric] avail_def [symmetric] n_def)
  moreover have "?p + unat n \<le> length c" using un qp c(1) by simp
  moreover have "0 < unat n" if "left \<noteq> 0" using that un qp by (simp add: unat_gt_0)
  ultimately show thesis using that [of "unat n"] un True by simp
qed

definition read_measure :: "FILE_HANDLE_INFO \<Rightarrow> u64 \<Rightarrow> nat" where
  "read_measure H left = 2 * unat left + (if in_cache H then 0 else 1)"

lemma read_on_correct:
  assumes rd: "n_reads env nf" and c: "nf w h = Some c" "length c < 2 ^ 63" and ok: "cache_ok c H"
    and pos: "unat (filepos H) \<le> length c"
  obtains go H' left' m where
    "read_on env w h H left out = Some (True, go, H', left', out @ take m (drop (unat (filepos H)) c))"
    "cache_ok c H'" "unat (filepos H') = unat (filepos H) + length (take m (drop (unat (filepos H)) c))" "m \<le> unat left"
    "left' = 0 \<and> length c \<le> unat (filepos H) + m \<or> left' = 0 \<and> m = unat left \<or>
     unat left' = unat left - m \<and> (if go then in_cache H' else length c \<le> unat (filepos H'))"
proof -
  let ?r = "cache_multiple H left" and ?p = "unat (filepos H)"
  let ?t = "take (unat ?r) (drop ?p c)"
  have le: "unat ?r \<le> unat left" using cache_multiple_le word_le_nat_alt by blast
  obtain pos' left' where d: "read_direct env w h ?r (filepos H) left out = Some (True, pos', left', out @ ?t)"
      "unat pos' = ?p + length ?t" "unat left' = (if ?p + unat ?r \<le> length c then unat left - unat ?r else 0)"
    using read_direct_correct [OF rd c pos cache_multiple_le, of H left out] by blast
  show thesis
  proof (cases "left' = 0")
    case True
    then have "length c \<le> ?p + unat ?r \<or> unat ?r = unat left"
      using d(3) le by (auto split: if_splits)
    then show thesis
      using that [of True "H\<lparr>filepos := pos'\<rparr>" left' "unat ?r"] d ok le True by (auto simp: read_on_def cache_ok_def)
  next
    case False
    then have av: "?p + unat ?r \<le> length c" "unat left' = unat left - unat ?r"
    proof -
      have "unat left' \<noteq> 0" using False by (simp add: unat_eq_0)
      then show "?p + unat ?r \<le> length c" using d(3) by presburger
      then show "unat left' = unat left - unat ?r" using d(3) by presburger
    qed
    have p': "unat pos' \<le> length c" using d(2) av(1) pos by simp
    let ?H = "H\<lparr>filepos := pos'\<rparr>"
    have "cachesize ?H \<noteq> 0" using ok by (simp add: cache_ok_def)
    from fill_cache_correct [OF rd c this p'] obtain H2 where
      f: "fill_cache env w h pos' ?H = (True, H2)" "cache_ok c (H2\<lparr>cachedatapos := pos'\<rparr>)"
        "unat (cachedatasize H2) = min (unat (cachesize ?H)) (length c - unat pos')" "filepos H2 = filepos ?H"
      by blast
    note H2 = f(1,2) f(3,4) [simplified]
    have ro: "read_on env w h H left out = Some (True, cachedatasize H2 \<noteq> 0, H2\<lparr>cachedatapos := pos'\<rparr>, left', out @ ?t)"
      using d(1) False H2(1) by (simp add: read_on_def)
    have cs: "unat (cachesize H) \<noteq> 0" using ok by (simp add: cache_ok_def unat_eq_0)
    have "if cachedatasize H2 \<noteq> 0 then in_cache (H2\<lparr>cachedatapos := pos'\<rparr>) else length c \<le> unat pos'"
    proof (cases "cachedatasize H2 = 0")
      case True
      then show ?thesis using H2(3) cs by (simp add: min_def split: if_splits)
    next
      case False
      have "unat (pos' + ucast (cachedatasize H2)) = unat pos' + unat (cachedatasize H2)"
        using H2(3) c(2) p' by (subst unat_add_no_wrap) auto
      with False show ?thesis
        using H2(4) by (simp add: in_cache_def word_less_nat_alt unat_gt_0)
    qed
    then show thesis
      by (intro that [OF ro H2(2)]) (use d(2) av(2) H2(4) le in \<open>auto split: if_splits\<close>)
  qed
qed


lemma word_and_mask_le: "unat (x AND y) \<le> unat (x :: u64)"
  using word_and_le2 [of x y] by (simp add: word_le_nat_alt)

text \<open>The start of the loop body: an unaligned position outside the cache fills the cache first.\<close>

lemma cached_read_start:
  assumes rd: "n_reads env nf" and c: "nf w h = Some c" "length c < 2 ^ 63" and ok: "cache_ok c H"
    and pos: "unat (filepos H) \<le> length c"
  obtains H1 where
    "(if b then fill_cache env w h (filepos H AND NOT 0xfff) (H\<lparr>cachedatapos := filepos H AND NOT 0xfff\<rparr>) else (True, H)) = (True, H1)"
    "cache_ok c H1" "filepos H1 = filepos H" "b \<Longrightarrow> cachedatasize H1 = 0 \<Longrightarrow> unat (filepos H) = length c" "\<not> b \<Longrightarrow> H1 = H"
proof (cases b)
  case False
  then show thesis using that [of H] ok by simp
next
  case True
  let ?a = "filepos H AND NOT 0xfff" and ?H = "H\<lparr>cachedatapos := filepos H AND NOT 0xfff\<rparr>"
  have a: "unat ?a \<le> unat (filepos H)" by (rule word_and_mask_le)
  then have a': "unat ?a \<le> length c" using pos by simp
  have cs: "cachesize ?H \<noteq> 0" using ok by (simp add: cache_ok_def)
  from fill_cache_correct [OF rd c cs a'] obtain H' where
    f: "fill_cache env w h ?a ?H = (True, H')" "cache_ok c (H'\<lparr>cachedatapos := ?a\<rparr>)"
       "unat (cachedatasize H') = min (unat (cachesize ?H)) (length c - unat ?a)" "filepos H' = filepos ?H"
       "cachedatapos H' = cachedatapos ?H"
    by blast
  have "H'\<lparr>cachedatapos := ?a\<rparr> = H'" using f(5) by (cases H') simp
  moreover have "unat (filepos H) = length c" if "cachedatasize H' = 0"
    using that f(3) cs a pos by (auto simp: unat_eq_0 min_def split: if_splits)
  ultimately show thesis
    using f(2) by (intro that [of H']) (use f(1,4) True in simp_all)
qed

text \<open>The part of the loop after the copy from the cache: \<open>q\<close> bytes are out, and either the rest of the
  file or of the request is done, or the loop goes round again from inside the cache.\<close>

lemma cached_read_resume:
  assumes ok: "cache_ok c H3" and p3: "unat (filepos H3) = p + length (take q (drop p c))" and q: "q \<le> unat left"
    and three: "left3 = 0 \<and> (length c \<le> p + q \<or> q = unat left) \<or>
      unat left3 = unat left - q \<and> (if gon then in_cache H3 else length c \<le> p + q)"
    and again: "unat left3 = unat left - q \<Longrightarrow> gon \<Longrightarrow> in_cache H3 \<Longrightarrow>
      \<exists>H'. cached_read env w h H3 left3 out' = Some (True, H', out' @ take (unat left3) (drop (unat (filepos H3)) c)) \<and>
        cache_ok c H' \<and> unat (filepos H') = unat (filepos H3) + length (take (unat left3) (drop (unat (filepos H3)) c))"
    and out': "out' = out @ take q (drop p c)"
  shows "\<exists>H'. (if \<not> gon then Some (True, H3, out') else cached_read env w h H3 left3 out')
        = Some (True, H', out @ take (unat left) (drop p c)) \<and>
      cache_ok c H' \<and> unat (filepos H') = p + length (take (unat left) (drop p c))"
proof (cases "unat left3 = unat left - q \<and> gon \<and> in_cache H3")
  case False
  then have "gon \<Longrightarrow> left3 = 0" and fin: "length c \<le> p + q \<or> q = unat left"
    using three by (auto split: if_splits)
  then have "(if \<not> gon then Some (True, H3, out') else cached_read env w h H3 left3 out') = Some (True, H3, out')"
    by (simp add: cached_read.simps [of env w h H3 0])
  moreover have "take q (drop p c) = take (unat left) (drop p c)"
    using fin q by auto
  ultimately show ?thesis using ok p3 out' by auto
next
  case True
  then obtain H' where ih: "cached_read env w h H3 left3 out' =
      Some (True, H', out' @ take (unat left3) (drop (unat (filepos H3)) c))"
    "cache_ok c H'" "unat (filepos H') = unat (filepos H3) + length (take (unat left3) (drop (unat (filepos H3)) c))"
    using again by blast
  have k: "take q (drop p c) @ take (unat left3) (drop (unat (filepos H3)) c) = take (unat left) (drop p c)"
    using take_take_drop [of q p c "unat left3"] p3 True q by simp
  have "unat (filepos H') = p + length (take (unat left) (drop p c))"
    using ih(3) p3 arg_cong [OF k, of length] by (simp only: length_append)
  then show ?thesis
    using True ih(1,2) k out' by simp
qed

text \<open>What the loop body has copied before it reads on.\<close>

lemma cached_read_copy:
  assumes c: "length c < 2 ^ 63" and ok: "cache_ok c H" and pos: "unat (filepos H) \<le> length c"
  obtains n H2 left2 where "copy_cached H left out = (H2, left2, out @ take n (drop (unat (filepos H)) c))"
    "cache_ok c H2" "unat (filepos H2) = unat (filepos H) + n" "unat (filepos H) + n \<le> length c"
    "unat left2 = unat left - n" "n \<le> unat left" "in_cache H \<Longrightarrow> left \<noteq> 0 \<Longrightarrow> 0 < n"
proof -
  obtain n where n: "copy_cached H left out = (H\<lparr>filepos := filepos H + of_nat n\<rparr>, left - of_nat n, out @ take n (drop (unat (filepos H)) c))"
      "n \<le> unat left" "unat (filepos H) + n \<le> length c" "in_cache H \<Longrightarrow> left \<noteq> 0 \<Longrightarrow> 0 < n"
    using copy_cached_correct [OF ok c pos] by metis
  have un: "unat (of_nat n :: u64) = n" using n(3) c by (intro unat_of_nat_u64) simp
  show thesis
    by (rule that [OF n(1)]) (use n ok c un in \<open>auto simp: cache_ok_def unat_add_no_wrap unat_sub_no_wrap\<close>)
qed

lemma cached_read_on:
  assumes rd: "n_reads env nf" and c: "nf w h = Some c" "length c < 2 ^ 63"
    and H2: "cache_ok c H2" "unat (filepos H2) = p + n" "p + n \<le> length c" "unat left2 = unat left - n" "n \<le> unat left"
    and again: "\<And>H3 left3 out'. unat left3 \<le> unat left - n \<Longrightarrow> in_cache H3 \<Longrightarrow> cache_ok c H3 \<Longrightarrow> unat (filepos H3) \<le> length c \<Longrightarrow>
      \<exists>H'. cached_read env w h H3 left3 out' = Some (True, H', out' @ take (unat left3) (drop (unat (filepos H3)) c)) \<and>
        cache_ok c H' \<and> unat (filepos H') = unat (filepos H3) + length (take (unat left3) (drop (unat (filepos H3)) c))"
  shows "\<exists>H'. do {
         (ok3, go, H3, left3, out3) \<leftarrow> read_on env w h H2 left2 (out @ take n (drop p c));
         if \<not> ok3 then Some (False, H3, out3)
         else if \<not> go then Some (True, H3, out3)
         else cached_read env w h H3 left3 out3 } = Some (True, H', out @ take (unat left) (drop p c)) \<and>
      cache_ok c H' \<and> unat (filepos H') = p + length (take (unat left) (drop p c))"
proof -
  let ?o = "out @ take n (drop p c)"
  obtain gon H3 left3 m where ro: "read_on env w h H2 left2 ?o = Some (True, gon, H3, left3, ?o @ take m (drop (unat (filepos H2)) c))"
    "cache_ok c H3" "unat (filepos H3) = unat (filepos H2) + length (take m (drop (unat (filepos H2)) c))" "m \<le> unat left2"
    "left3 = 0 \<and> length c \<le> unat (filepos H2) + m \<or> left3 = 0 \<and> m = unat left2 \<or>
     unat left3 = unat left2 - m \<and> (if gon then in_cache H3 else length c \<le> unat (filepos H3))"
    using read_on_correct [OF rd c H2(1), of left2] H2(2,3) by metis
  have ln: "length (take n (drop p c)) = n" using H2(3) by simp
  have j: "take n (drop p c) @ take m (drop (unat (filepos H2)) c) = take (n + m) (drop p c)"
    using take_take_drop [of n p c m] ln H2(2) by simp
  have p3: "unat (filepos H3) = p + length (take (n + m) (drop p c))"
    using ro(3) arg_cong [OF j, of length] ln H2(2) by (simp only: length_append)
  have nm: "n + m \<le> unat left" using ro(4) H2(4,5) by linarith
  have "unat (filepos H3) \<le> length c" using p3 H2(3) by simp
  moreover have "left3 = 0 \<and> (length c \<le> p + (n + m) \<or> n + m = unat left) \<or>
     unat left3 = unat left - (n + m) \<and> (if gon then in_cache H3 else length c \<le> p + (n + m))"
    using ro(5) H2(2,4,5) p3 by (auto split: if_splits)
  ultimately have "\<exists>H'. (if \<not> gon then Some (True, H3, out @ take (n + m) (drop p c))
      else cached_read env w h H3 left3 (out @ take (n + m) (drop p c)))
    = Some (True, H', out @ take (unat left) (drop p c)) \<and>
      cache_ok c H' \<and> unat (filepos H') = p + length (take (unat left) (drop p c))"
    by (intro cached_read_resume [OF ro(2) p3 nm _ _ refl] again ro(2)) simp_all
  then show ?thesis
    using ro(1) j by simp
qed

lemma cached_read_correct:
  assumes rd: "n_reads env nf" and c: "nf w h = Some c" "length c < 2 ^ 63"
  shows "cache_ok c H \<Longrightarrow> unat (filepos H) \<le> length c \<Longrightarrow>
    \<exists>H'. cached_read env w h H left out = Some (True, H', out @ take (unat left) (drop (unat (filepos H)) c)) \<and>
      cache_ok c H' \<and> unat (filepos H') = unat (filepos H) + length (take (unat left) (drop (unat (filepos H)) c))"
proof (induction "read_measure H left" arbitrary: H left out rule: less_induct)
  case less
  let ?p = "unat (filepos H)"
  show ?case
  proof (cases "left = 0")
    case True
    then show ?thesis using less.prems by (subst cached_read.simps) simp
  next
    case False
    define miss where "miss = (filepos H AND 511 \<noteq> 0 \<and>
              (filepos H < cachedatapos H \<or> cachedatapos H + ucast (cachedatasize H) < filepos H))"
    obtain H1 where H1: "(if miss then fill_cache env w h (filepos H AND NOT 0xfff) (H\<lparr>cachedatapos := filepos H AND NOT 0xfff\<rparr>) else (True, H)) = (True, H1)"
      "cache_ok c H1" "filepos H1 = filepos H" "miss \<Longrightarrow> cachedatasize H1 = 0 \<Longrightarrow> ?p = length c" "\<not> miss \<Longrightarrow> H1 = H"
      using cached_read_start [OF rd c less.prems] by metis
    have hit: "H1 = H" if "in_cache H"
      by (intro H1(5)) (use that in \<open>auto simp: in_cache_def miss_def not_less\<close>)
    show ?thesis
    proof (cases "miss \<and> cachedatasize H1 = 0")
      case True
      then have "cached_read env w h H left out = Some (True, H1, out)"
        using False H1(1) by (subst cached_read.simps) (simp add: miss_def [symmetric] Let_def)
      then show ?thesis using True H1 by simp
    next
      case go: False
      have p1: "unat (filepos H1) \<le> length c" using H1(3) less.prems by simp
      obtain n H2 left2 where cc: "copy_cached H1 left out = (H2, left2, out @ take n (drop ?p c))"
        and H2: "cache_ok c H2" "unat (filepos H2) = ?p + n" "?p + n \<le> length c" "unat left2 = unat left - n"
          "n \<le> unat left" "in_cache H1 \<Longrightarrow> 0 < n"
        using cached_read_copy [OF c(2) H1(2) p1, of left out] H1(3) False by metis
      let ?o = "out @ take n (drop ?p c)"
      have unfold: "cached_read env w h H left out =
         (if left2 = 0 then Some (True, H2, ?o)
          else do {
               (ok3, go, H3, left3, out3) \<leftarrow> read_on env w h H2 left2 ?o;
               if \<not> ok3 then Some (False, H3, out3)
               else if \<not> go then Some (True, H3, out3)
               else cached_read env w h H3 left3 out3 })"
        using False H1(1) go cc by (subst cached_read.simps) (auto simp: miss_def [symmetric] Let_def)
      show ?thesis
      proof (cases "left2 = 0")
        case True
        then have "n = unat left" using H2(4,5) by simp
        then show ?thesis using True unfold H2(1-3) by simp
      next
        case l2: False
        have "read_measure H3 left3 < read_measure H left" if "unat left3 \<le> unat left - n" "in_cache H3" for H3 left3
          using that H2(5,6) hit False by (auto simp: read_measure_def)
        then show ?thesis
          unfolding unfold using l2 cached_read_on [OF rd c H2(1-5) less.hyps] by simp
      qed
    qed
  qed
qed

section \<open>The write cache\<close>

definition n_writes :: "'w fs_env \<Rightarrow> ('w \<Rightarrow> nat \<Rightarrow> buf option) \<Rightarrow> bool" where
  "n_writes env nf \<longleftrightarrow> (\<forall>w h c pos bs. nf w h = Some c \<and> unat pos \<le> length c \<and> length bs < 2 ^ 63 \<longrightarrow>
     (\<exists>w'. n_writefile env w h pos bs = Some (of_nat (length bs), w') \<and> nf w' h = Some (overlay (unat pos) bs c)))"

definition cached_bytes :: "FILE_HANDLE_INFO \<Rightarrow> buf" where
  "cached_bytes H = take (unat (cachedatasize H)) (cache H)"

text \<open>The file as the program sees it: what the NTFS library has, with the cache laid over it.\<close>

definition file_view :: "buf \<Rightarrow> FILE_HANDLE_INFO \<Rightarrow> buf" where
  "file_view c H = (if cachedatasize H = 0 then c else overlay (unat (cachedatapos H)) (cached_bytes H) c)"

definition wcache_ok :: "buf \<Rightarrow> FILE_HANDLE_INFO \<Rightarrow> bool" where
  "wcache_ok c H \<longleftrightarrow> (\<exists>k < 32. cachesize H = 2 ^ k) \<and> length (cache H) = unat (cachesize H) \<and>
     cachedatasize H < cachesize H \<and> unat (filepos H) \<le> length (file_view c H) \<and>
     (cachedatasize H \<noteq> 0 \<longrightarrow> cachedirty H \<and> unat (cachedatapos H) \<le> length c \<and>
       unat (cachedatapos H) + unat (cachedatasize H) < 2 ^ 63)"

lemma cache_multiple_pow2:
  assumes "cachesize H = 2 ^ k" "k < 32" "unat n < 2 ^ 32"
  shows "unat (cache_multiple H n) = unat n div 2 ^ k * 2 ^ k"
proof -
  have n: "take_bit 32 n = n"
    using assms(3) by (metis take_bit_nat_eq_self unsigned_take_bit_eq word_unat_eq_iff)
  then have hi: "bit n i \<Longrightarrow> i < 32" for i
    by (metis bit_take_bit_iff)
  have mask: "(2 :: u32) ^ k - 1 = mask k" by (simp add: mask_eq_decr_exp)
  have "cache_multiple H n = push_bit k (drop_bit k n)"
  proof (rule bit_eqI)
    fix i assume "possible_bit TYPE(u64) i"
    show "bit (cache_multiple H n) i = bit (push_bit k (drop_bit k n)) i"
      unfolding cache_multiple_def assms(1) mask
      by (auto simp: bit_and_iff bit_ucast_iff bit_not_iff bit_mask_iff bit_push_bit_iff bit_drop_bit_eq dest: hi)
  qed
  also have "unat \<dots> = take_bit 64 (unat n div 2 ^ k * 2 ^ k)"
    unfolding unsigned_push_bit_eq unsigned_drop_bit_eq using assms(3) by (simp add: drop_bit_eq_div push_bit_eq_mult take_bit_nat_eq_self)
  also have "\<dots> = unat n div 2 ^ k * 2 ^ k"
  proof -
    have "unat n div 2 ^ k * 2 ^ k \<le> unat n" by (rule div_times_less_eq_dividend)
    then have "unat n div 2 ^ k * 2 ^ k < 2 ^ 64" by (rule le_less_trans) (use assms(3) in simp)
    then show ?thesis by (rule take_bit_nat_eq_self)
  qed
  finally show ?thesis .
qed

lemma length_overlay: "p \<le> length c \<Longrightarrow> length (overlay p bs c) = max (length c) (p + length bs)"
  by (simp add: overlay_def max_def)

lemma overlay_Nil [simp]: "overlay p [] c = c"
  by (simp add: overlay_def)

lemma write_direct_correct:
  assumes wr: "n_writes env nf"
  shows "\<lbrakk>nf w h = Some c; unat pos \<le> length c; unat pos + unat n < 2 ^ 63; unat n \<le> length bytes\<rbrakk> \<Longrightarrow>
    \<exists>w'. write_direct env h n pos bytes w = Some (True, pos + n, drop (unat n) bytes, w') \<and>
      nf w' h = Some (overlay (unat pos) (take (unat n) bytes) c)"
proof (induction "unat n" arbitrary: n pos bytes w c rule: less_induct)
  case less
  show ?case
  proof (cases "n = 0")
    case True
    then show ?thesis using less.prems by (subst write_direct.simps) simp
  next
    case False
    define k where "k = (if MAX_NTFS_TRANSFER < n then MAX_NTFS_TRANSFER else n)"
    have k: "0 < unat k" "unat k \<le> unat n"
      using False by (auto simp: k_def MAX_NTFS_TRANSFER_def word_less_nat_alt unat_gt_0)
    have lk: "length (take (unat k) bytes) = unat k" using k less.prems(4) by simp
    then have "length (take (unat k) bytes) < 2 ^ 63" using k(2) less.prems(3) by linarith
    then obtain w1 where w1: "n_writefile env w h pos (take (unat k) bytes) = Some (k, w1)"
        "nf w1 h = Some (overlay (unat pos) (take (unat k) bytes) c)"
      using wr less.prems(1,2) lk unfolding n_writes_def by (metis of_nat_unat ucast_id)
    have nk: "unat (n - k) = unat n - unat k" using k(2) by (rule unat_sub_no_wrap)
    have pk: "unat (pos + k) = unat pos + unat k" using k(2) less.prems(3) by (intro unat_add_no_wrap) simp
    have pre: "unat (n - k) < unat n" "unat (pos + k) \<le> length (overlay (unat pos) (take (unat k) bytes) c)"
        "unat (pos + k) + unat (n - k) < 2 ^ 63" "unat (n - k) \<le> length (drop (unat k) bytes)"
      using nk pk k lk less.prems(2-4) by (simp_all add: length_overlay)
    obtain w2 where w2: "write_direct env h (n - k) (pos + k) (drop (unat k) bytes) w1 =
        Some (True, pos + k + (n - k), drop (unat (n - k)) (drop (unat k) bytes), w2)"
      "nf w2 h = Some (overlay (unat (pos + k)) (take (unat (n - k)) (drop (unat k) bytes)) (overlay (unat pos) (take (unat k) bytes) c))"
      using less.hyps [OF pre(1) w1(2) pre(2-4)] by blast
    have "take (unat k) bytes @ take (unat (n - k)) (drop (unat k) bytes) = take (unat n) bytes"
      using k(2) nk by (metis le_add_diff_inverse take_add)
    then have "nf w2 h = Some (overlay (unat pos) (take (unat n) bytes) c)"
      using w2(2) overlay_split [OF less.prems(2), of "take (unat k) bytes"] lk pk by simp
    moreover have "drop (unat (n - k)) (drop (unat k) bytes) = drop (unat n) bytes"
      using nk k(2) by simp
    ultimately show ?thesis
      using False w1(1) w2(1) by (subst write_direct.simps) (simp add: k_def [symmetric])
  qed
qed


definition keeps_handle :: "FILE_HANDLE_INFO \<Rightarrow> FILE_HANDLE_INFO \<Rightarrow> bool" where
  "keeps_handle H H' \<longleftrightarrow> ifntfs H' = ifntfs H \<and> filehandle H' = filehandle H \<and> cachesize H' = cachesize H"

text \<open>What a write of \<open>bytes\<close> makes of the file and the handle.\<close>

definition written :: "buf \<Rightarrow> FILE_HANDLE_INFO \<Rightarrow> buf \<Rightarrow> buf \<Rightarrow> FILE_HANDLE_INFO \<Rightarrow> bool" where
  "written bytes H c c' H' \<longleftrightarrow> wcache_ok c' H' \<and> keeps_handle H H' \<and>
     file_view c' H' = overlay (unat (filepos H)) bytes (file_view c H) \<and>
     unat (filepos H') = unat (filepos H) + length bytes"

lemma unat_pow2_u32: "k < 32 \<Longrightarrow> unat (2 ^ k :: u32) = 2 ^ k"
  using unat_of_nat_u32 [of "2 ^ k"] power_strict_increasing [of k 32 "2 :: nat"] by simp

lemma put_at: "i + length xs \<le> length b \<Longrightarrow> put b i xs = Some (take i b @ xs @ drop (i + length xs) b)"
  by (simp add: put_def)

lemma write_through:
  assumes wr: "n_writes env nf" and ok: "wcache_ok c H" and empty: "cachedatasize H = 0" and c: "nf w h = Some c"
    and len: "length bytes < 2 ^ 32" "unat (filepos H) + length bytes < 2 ^ 63"
  shows "\<exists>H' w' c'. do {
            (ok2, pos, tail, w2) \<leftarrow> write_direct env h (cache_multiple H (of_nat (length bytes))) (filepos H) bytes w;
            let H2 = H\<lparr>filepos := pos\<rparr>;
            if \<not> ok2 then Some (False, H2, w2)
            else if tail = [] then Some (True, H2, w2)
            else do {
              mem \<leftarrow> put (cache H2) 0 tail;
              Some (True, H2\<lparr>cache := mem, cachedatasize := of_nat (length tail), cachedatapos := pos,
                       filepos := pos + of_nat (length tail), cachedirty := True\<rparr>, w2) } } = Some (True, H', w') \<and>
      nf w' h = Some c' \<and> written bytes H c c' H'"
proof -
  obtain k where k: "k < 32" "cachesize H = 2 ^ k" using ok by (auto simp: wcache_ok_def)
  have cs: "unat (cachesize H) = 2 ^ k" using k by (simp add: unat_pow2_u32)
  let ?n = "cache_multiple H (of_nat (length bytes))" and ?p = "unat (filepos H)"
  have lb: "unat (of_nat (length bytes) :: u64) = length bytes" using len(1) by (intro unat_of_nat_u64) simp
  then have n: "unat ?n = length bytes div 2 ^ k * 2 ^ k"
    using cache_multiple_pow2 [OF k(2,1)] len(1) by simp
  have nle: "unat ?n \<le> length bytes" unfolding n by (rule div_times_less_eq_dividend)
  have fv: "file_view c H = c" using empty by (simp add: file_view_def)
  have p: "?p \<le> length c" using ok fv by (simp add: wcache_ok_def)
  have pn63: "?p + unat ?n < 2 ^ 63" using len(2) nle by linarith
  obtain w' where w': "write_direct env h ?n (filepos H) bytes w = Some (True, filepos H + ?n, drop (unat ?n) bytes, w')"
      "nf w' h = Some (overlay ?p (take (unat ?n) bytes) c)"
    using write_direct_correct [OF wr c p pn63 nle] by blast
  have pn: "unat (filepos H + ?n) = ?p + unat ?n" using pn63 by (intro unat_add_no_wrap) simp
  define tail where "tail = drop (unat ?n) bytes"
  have lt: "length tail = length bytes mod 2 ^ k" by (simp add: tail_def n minus_div_mult_eq_mod)
  have join: "overlay (?p + unat ?n) tail (overlay ?p (take (unat ?n) bytes) c) = overlay ?p bytes c"
    using overlay_split [OF p, of "take (unat ?n) bytes" tail] nle by (simp add: tail_def)
  show ?thesis
  proof (cases "tail = []")
    case True
    then have "written bytes H c (overlay ?p (take (unat ?n) bytes) c) (H\<lparr>filepos := filepos H + ?n\<rparr>)"
      using ok empty pn join p nle fv by (auto simp: written_def wcache_ok_def file_view_def keeps_handle_def length_overlay tail_def)
    then show ?thesis using w' True by (auto simp: tail_def Let_def)
  next
    case False
    let ?pos = "filepos H + ?n"
    have lt': "length tail < unat (cachesize H)" unfolding lt cs by simp
    then have lt32: "length tail < 2 ^ 32" using unsigned_less [of "cachesize H", where 'a = nat] by simp
    have put: "put (cache H) 0 tail = Some (tail @ drop (length tail) (cache H))"
      using put_at [of 0 tail "cache H"] lt' ok by (simp add: wcache_ok_def)
    have ut: "unat (of_nat (length tail) :: u32) = length tail" "unat (of_nat (length tail) :: u64) = length tail"
      using lt32 by (simp_all add: unat_of_nat_u32 unat_of_nat_u64)
    have both: "unat ?n + length tail = length bytes" using nle by (simp add: tail_def)
    have pe: "unat (?pos + of_nat (length tail)) = ?p + length bytes"
      using pn ut(2) both len(2) by (subst unat_add_no_wrap) simp_all
    let ?H = "H\<lparr>cache := tail @ drop (length tail) (cache H), cachedatasize := of_nat (length tail),
      cachedatapos := ?pos, filepos := ?pos + of_nat (length tail), cachedirty := True\<rparr>"
    have nz: "cachedatasize ?H \<noteq> 0" using False ut(1) by (auto simp flip: unat_eq_0)
    have view: "file_view (overlay ?p (take (unat ?n) bytes) c) ?H = overlay ?p bytes c"
      using nz join ut(1) pn by (simp add: file_view_def cached_bytes_def)
    have "cachedatasize ?H < cachesize ?H" using ut(1) lt' by (simp add: word_less_nat_alt)
    moreover have "length (cache ?H) = unat (cachesize ?H)" using ok lt' by (simp add: wcache_ok_def)
    ultimately have "written bytes H c (overlay ?p (take (unat ?n) bytes) c) ?H"
      using view pe pn ut both len(2) p k fv nle unfolding written_def wcache_ok_def keeps_handle_def
      by (auto simp: length_overlay)
    then show ?thesis using w' False put by (auto simp: tail_def [symmetric] Let_def)
  qed
qed

lemma cached_bytes_length: "wcache_ok c H \<Longrightarrow> length (cached_bytes H) = unat (cachedatasize H)"
  by (auto simp: cached_bytes_def wcache_ok_def word_less_nat_alt)

lemma cached_slice: "wcache_ok c H \<Longrightarrow> slice (cache H) 0 (unat (cachedatasize H)) = Some (cached_bytes H)"
  by (auto simp: cached_bytes_def wcache_ok_def word_less_nat_alt slice_def)

text \<open>A cache that a write at the current position continues: either it was so before, or it has
  been written back.\<close>

definition continues :: "buf \<Rightarrow> FILE_HANDLE_INFO \<Rightarrow> bool" where
  "continues c H \<longleftrightarrow> (\<exists>k < 32. cachesize H = 2 ^ k) \<and> length (cache H) = unat (cachesize H) \<and>
     cachedatasize H < cachesize H \<and> unat (cachedatapos H) \<le> length c \<and>
     unat (filepos H) = unat (cachedatapos H) + unat (cachedatasize H)"

lemma flush_if_moved:
  assumes wr: "n_writes env nf" and ok: "wcache_ok c H" and nz: "cachedatasize H \<noteq> 0" and c: "nf w h = Some c"
  shows "\<exists>H' w' c'. (if filepos H \<noteq> cachedatapos H + ucast (cachedatasize H)
          then do {
            old \<leftarrow> slice (cache H) 0 (unat (cachedatasize H));
            (case n_writefile env w h (cachedatapos H) old of
               None \<Rightarrow> Some (False, H, w)
             | Some (_, w') \<Rightarrow> Some (True, H\<lparr>cachedatasize := 0, cachedatapos := filepos H\<rparr>, w')) }
          else Some (True, H, w)) = Some (True, H', w') \<and> nf w' h = Some c' \<and> continues c' H' \<and> keeps_handle H H' \<and>
      filepos H' = filepos H \<and> overlay (unat (cachedatapos H')) (cached_bytes H') c' = file_view c H"
proof -
  have d: "unat (cachedatapos H) \<le> length c" "unat (cachedatapos H) + unat (cachedatasize H) < 2 ^ 63"
    using ok nz by (auto simp: wcache_ok_def)
  have fv: "file_view c H = overlay (unat (cachedatapos H)) (cached_bytes H) c" using nz by (simp add: file_view_def)
  show ?thesis
  proof (cases "filepos H \<noteq> cachedatapos H + ucast (cachedatasize H)")
    case False
    then have "unat (filepos H) = unat (cachedatapos H) + unat (cachedatasize H)"
      using d(2) by (simp add: unat_add_no_wrap)
    then have "continues c H" using ok d by (auto simp: continues_def wcache_ok_def)
    then show ?thesis using False c fv by (auto simp: keeps_handle_def)
  next
    case True
    have "length (cached_bytes H) < 2 ^ 63" using cached_bytes_length [OF ok] d(2) by linarith
    then obtain w' where w': "n_writefile env w h (cachedatapos H) (cached_bytes H) = Some (of_nat (length (cached_bytes H)), w')"
      "nf w' h = Some (file_view c H)"
      using wr c d(1) unfolding n_writes_def fv by metis
    have "continues (file_view c H) (H\<lparr>cachedatasize := 0, cachedatapos := filepos H\<rparr>)"
      using ok by (auto simp: continues_def wcache_ok_def word_less_nat_alt)
    then show ?thesis using True w' cached_slice [OF ok] by (auto simp: keeps_handle_def cached_bytes_def)
  qed
qed

text \<open>Laying a write into the cache.\<close>

lemma append_to_cache:
  assumes ct: "continues c H" and n: "length xs \<le> unat (cachesize H - cachedatasize H)"
  obtains mem where "put (cache H) (unat (cachedatasize H)) xs = Some mem" "length mem = unat (cachesize H)"
    "take (unat (cachedatasize H) + length xs) mem = cached_bytes H @ xs"
    "unat (cachedatasize H + of_nat (length xs)) = unat (cachedatasize H) + length xs"
    "unat (cachedatasize H) + length xs \<le> unat (cachesize H)"
proof -
  have lt: "unat (cachedatasize H) < unat (cachesize H)" "length (cache H) = unat (cachesize H)"
    using ct by (auto simp: continues_def word_less_nat_alt)
  have room: "unat (cachedatasize H) + length xs \<le> unat (cachesize H)"
    using n lt by (simp add: unat_sub_no_wrap)
  have b: "unat (cachesize H) < 2 ^ 32" using unsigned_less [of "cachesize H", where 'a = nat] by simp
  then have ux: "unat (of_nat (length xs) :: u32) = length xs" using room by (intro unat_of_nat_u32) linarith
  then have add: "unat (cachedatasize H + of_nat (length xs)) = unat (cachedatasize H) + length xs"
    using room b by (subst unat_add_no_wrap) simp_all
  have put: "put (cache H) (unat (cachedatasize H)) xs =
      Some (take (unat (cachedatasize H)) (cache H) @ xs @ drop (unat (cachedatasize H) + length xs) (cache H))"
    using room lt by (intro put_at) simp
  show thesis
    by (rule that [OF put _ _ add room]) (use room lt in \<open>auto simp: cached_bytes_def\<close>)
qed

text \<open>The cache of \<open>H1\<close> continues the file \<open>c1\<close>, and \<open>mem\<close> is that cache with \<open>xs\<close> appended, a prefix of
  what is written at the position of \<open>H\<close>.\<close>

definition laid :: "buf \<Rightarrow> FILE_HANDLE_INFO \<Rightarrow> buf \<Rightarrow> FILE_HANDLE_INFO \<Rightarrow> buf \<Rightarrow> buf \<Rightarrow> bool" where
  "laid c H c1 H1 xs mem \<longleftrightarrow> continues c1 H1 \<and> keeps_handle H H1 \<and> filepos H1 = filepos H \<and>
     length mem = unat (cachesize H1) \<and>
     take (unat (cachedatasize H1) + length xs) mem = cached_bytes H1 @ xs \<and>
     unat (cachedatasize H1 + of_nat (length xs)) = unat (cachedatasize H1) + length xs \<and>
     unat (cachedatasize H1) + length xs \<le> unat (cachesize H1) \<and>
     unat (filepos H) + length xs < 2 ^ 63 \<and>
     overlay (unat (cachedatapos H1)) (cached_bytes H1 @ xs) c1 = overlay (unat (filepos H)) xs (file_view c H)"

lemma laid_pos:
  assumes "laid c H c1 H1 xs mem"
  shows "unat (cachedatapos H1) \<le> length c1" "unat (filepos H) = unat (cachedatapos H1) + unat (cachedatasize H1)"
    "length (cached_bytes H1) = unat (cachedatasize H1)"
  using assms by (auto simp: laid_def continues_def cached_bytes_def word_less_nat_alt)

lemma lay_in_cache:
  assumes ct: "continues c1 H1" and kh: "keeps_handle H H1" and fp: "filepos H1 = filepos H"
    and view: "overlay (unat (cachedatapos H1)) (cached_bytes H1) c1 = file_view c H"
    and n: "length xs \<le> unat (cachesize H1 - cachedatasize H1)" and len: "unat (filepos H) + length xs < 2 ^ 63"
  obtains mem where "put (cache H1) (unat (cachedatasize H1)) xs = Some mem" "laid c H c1 H1 xs mem"
proof -
  obtain mem where mem: "put (cache H1) (unat (cachedatasize H1)) xs = Some mem" "length mem = unat (cachesize H1)"
    "take (unat (cachedatasize H1) + length xs) mem = cached_bytes H1 @ xs"
    "unat (cachedatasize H1 + of_nat (length xs)) = unat (cachedatasize H1) + length xs"
    "unat (cachedatasize H1) + length xs \<le> unat (cachesize H1)"
    using append_to_cache [OF ct n] by metis
  have dp: "unat (cachedatapos H1) \<le> length c1" "unat (filepos H) = unat (cachedatapos H1) + unat (cachedatasize H1)"
    "length (cached_bytes H1) = unat (cachedatasize H1)"
    using ct fp mem(2,5) by (auto simp: continues_def cached_bytes_def word_less_nat_alt)
  have "overlay (unat (cachedatapos H1)) (cached_bytes H1 @ xs) c1 = overlay (unat (filepos H)) xs (file_view c H)"
    using overlay_split [OF dp(1), of "cached_bytes H1" xs] view dp(2,3) by simp
  then show thesis
    using that [OF mem(1)] mem ct kh fp len by (simp add: laid_def)
qed

text \<open>A cache that the bytes fill is written out.\<close>

lemma laid_full:
  assumes wr: "n_writes env nf" and ld: "laid c H c1 H1 xs mem" and c1: "nf w1 h = Some c1"
    and full: "cachedatasize H1 + of_nat (length xs) = cachesize H1"
    and pos: "pos = cachedatapos H1 + ucast (cachesize H1)"
  obtains c2 w2 where "slice mem 0 (unat (cachesize H1)) = Some (cached_bytes H1 @ xs)"
    "n_writefile env w1 h (cachedatapos H1) (cached_bytes H1 @ xs) = Some (of_nat (length (cached_bytes H1 @ xs)), w2)"
    "nf w2 h = Some c2"
    "written xs H c c2 (H1\<lparr>cache := mem, cachedatapos := pos, filepos := pos, cachedatasize := 0, cachedirty := False\<rparr>)"
proof -
  let ?c2 = "overlay (unat (cachedatapos H1)) (cached_bytes H1 @ xs) c1"
  let ?H = "H1\<lparr>cache := mem, cachedatapos := pos, filepos := pos, cachedatasize := 0, cachedirty := False\<rparr>"
  note dp = laid_pos [OF ld]
  have sz: "unat (cachedatasize H1) + length xs = unat (cachesize H1)" using full ld by (auto simp: laid_def)
  have sl: "slice mem 0 (unat (cachesize H1)) = Some (cached_bytes H1 @ xs)"
    using ld sz by (simp add: laid_def slice_def)
  have "length (cached_bytes H1 @ xs) < 2 ^ 63" using dp(2,3) ld by (simp add: laid_def)
  then obtain w2 where w2: "n_writefile env w1 h (cachedatapos H1) (cached_bytes H1 @ xs) = Some (of_nat (length (cached_bytes H1 @ xs)), w2)"
    "nf w2 h = Some ?c2"
    using wr c1 dp(1) unfolding n_writes_def by metis
  have up: "unat pos = unat (filepos H) + length xs"
    unfolding pos using dp(2) sz ld by (subst unat_add_no_wrap) (simp_all add: laid_def)
  have "continues c1 H1" "length mem = unat (cachesize H1)"
    using ld by (simp_all add: laid_def)
  then have "wcache_ok ?c2 ?H"
    using up dp sz by (auto simp: wcache_ok_def continues_def file_view_def length_overlay word_less_nat_alt)
  then have "written xs H c ?c2 ?H"
    using ld up unfolding written_def keeps_handle_def laid_def by (simp add: file_view_def)
  then show thesis by (rule that [OF sl w2])
qed

text \<open>Bytes that leave room stay in the cache.\<close>

lemma laid_part:
  assumes ld: "laid c H c1 H1 xs mem" and ok: "wcache_ok c H"
    and part: "cachedatasize H1 + of_nat (length xs) \<noteq> cachesize H1"
    and H': "H' = H1\<lparr>cache := mem, cachedatasize := cachedatasize H1 + of_nat (length xs), cachedirty := True,
      filepos := filepos H1 + of_nat (length xs)\<rparr>"
    and view: "overlay (unat (cachedatapos H1)) (cached_bytes H1) c1 = file_view c H"
  shows "written xs H c c1 H'"
proof -
  note dp = laid_pos [OF ld]
  have lt: "unat (cachedatasize H1) + length xs < unat (cachesize H1)"
    using part ld unfolding laid_def by (metis le_neq_implies_less word_unat_eq_iff)
  have un: "unat (filepos H + of_nat (length xs)) = unat (filepos H) + length xs"
    using ld by (subst unat_add_no_wrap) (simp_all add: unat_of_nat_u64 laid_def)
  have view': "file_view c1 H' = overlay (unat (filepos H)) xs (file_view c H)"
    using ld view unfolding laid_def H'
    by (cases "cachedatasize H1 + of_nat (length xs) = 0") (auto simp: file_view_def cached_bytes_def simp flip: unat_eq_0)
  have "unat (filepos H) \<le> length (file_view c H)" using ok by (simp add: wcache_ok_def)
  then have "wcache_ok c1 H'"
    using ld lt un dp unfolding wcache_ok_def view' unfolding H' continues_def laid_def
    by (auto simp: length_overlay word_less_nat_alt)
  then show ?thesis
    using ld view' un unfolding written_def keeps_handle_def laid_def H' by simp
qed

lemma cache_write_correct:
  assumes wr: "n_writes env nf" and ok: "wcache_ok c H" and nz: "cachedatasize H \<noteq> 0" and c: "nf w h = Some c"
    and len: "length bytes < 2 ^ 32" "unat (filepos H) + length bytes < 2 ^ 63"
  shows "\<exists>rest H' w' c'. cache_write env h H w bytes = Some (True, rest, H', w') \<and> nf w' h = Some c' \<and>
    (case rest of
       None \<Rightarrow> written bytes H c c' H'
     | Some rst \<Rightarrow> \<exists>xs. bytes = xs @ rst \<and> written xs H c c' H' \<and> cachedatasize H' = 0)"
proof -
  obtain H1 w1 c1 where s: "(if filepos H \<noteq> cachedatapos H + ucast (cachedatasize H)
          then do {
            old \<leftarrow> slice (cache H) 0 (unat (cachedatasize H));
            (case n_writefile env w h (cachedatapos H) old of
               None \<Rightarrow> Some (False, H, w)
             | Some (_, w') \<Rightarrow> Some (True, H\<lparr>cachedatasize := 0, cachedatapos := filepos H\<rparr>, w')) }
          else Some (True, H, w)) = Some (True, H1, w1)"
    and c1: "nf w1 h = Some c1" and ct: "continues c1 H1" and kh: "keeps_handle H H1" and fp: "filepos H1 = filepos H"
    and view: "overlay (unat (cachedatapos H1)) (cached_bytes H1) c1 = file_view c H"
    using flush_if_moved [OF wr ok nz c] by blast
  define n where "n = min (length bytes) (unat (cachesize H1 - cachedatasize H1))"
  define xs where "xs = take n bytes"
  have lx: "length xs = n" "length xs \<le> unat (cachesize H1 - cachedatasize H1)" "unat (filepos H) + length xs < 2 ^ 63"
    using len(2) by (auto simp: xs_def n_def)
  obtain mem where mem: "put (cache H1) (unat (cachedatasize H1)) xs = Some mem" and ld: "laid c H c1 H1 xs mem"
    using lay_in_cache [OF ct kh fp view lx(2,3)] .
  show ?thesis
  proof (cases "cachedatasize H1 + of_nat (length xs) = cachesize H1")
    case True
    let ?pos = "cachedatapos H1 + ucast (cachesize H1)"
    let ?H = "H1\<lparr>cache := mem, cachedatapos := ?pos, filepos := ?pos, cachedatasize := 0, cachedirty := False\<rparr>"
    obtain c2 w2 where f: "slice mem 0 (unat (cachesize H1)) = Some (cached_bytes H1 @ xs)"
      "n_writefile env w1 h (cachedatapos H1) (cached_bytes H1 @ xs) = Some (of_nat (length (cached_bytes H1 @ xs)), w2)"
      "nf w2 h = Some c2" "written xs H c c2 ?H"
      using laid_full [OF wr ld c1 True refl] .
    have "cache_write env h H w bytes = Some (True, Some (drop n bytes), ?H, w2)"
      unfolding cache_write_def s
      using mem True f(1,2) lx(1) by (simp add: Let_def n_def [symmetric] xs_def [symmetric])
    then show ?thesis using f(3,4) by (auto simp: xs_def intro!: exI [of _ "take n bytes"])
  next
    case False
    let ?H = "H1\<lparr>cache := mem, cachedatasize := cachedatasize H1 + of_nat (length xs), cachedirty := True,
      filepos := filepos H1 + of_nat (length xs)\<rparr>"
    have "n \<noteq> unat (cachesize H1 - cachedatasize H1)"
      using False lx(1) ct by (auto simp: continues_def)
    then have "xs = bytes" by (simp add: xs_def n_def min_def split: if_splits)
    then have "written bytes H c c1 ?H"
      using laid_part [OF ld ok False refl view] by simp
    moreover have "cache_write env h H w bytes = Some (True, None, ?H, w1)"
      unfolding cache_write_def s
      using mem False lx(1) by (simp add: Let_def n_def [symmetric] xs_def [symmetric])
    ultimately show ?thesis using c1 by auto
  qed
qed

lemma written_trans:
  assumes "written xs H c c1 H1" "written ys H1 c1 c2 H2" "unat (filepos H) \<le> length (file_view c H)"
  shows "written (xs @ ys) H c c2 H2"
  using assms overlay_split [OF assms(3), of xs ys] by (simp add: written_def keeps_handle_def)

lemma cached_write_correct:
  assumes wr: "n_writes env nf" and ok: "wcache_ok c H" and c: "nf w h = Some c"
    and len: "length bytes < 2 ^ 32" "unat (filepos H) + length bytes < 2 ^ 63"
  shows "\<exists>H' w' c'. cached_write env h H w bytes = Some (True, H', w') \<and> nf w' h = Some c' \<and> written bytes H c c' H'"
proof (cases "cachedatasize H = 0")
  case True
  then show ?thesis using write_through [OF wr ok True c len] by (simp add: cached_write_def)
next
  case False
  obtain rest H1 w1 c1 where cw: "cache_write env h H w bytes = Some (True, rest, H1, w1)" "nf w1 h = Some c1"
    "case rest of None \<Rightarrow> written bytes H c c1 H1
     | Some rst \<Rightarrow> \<exists>xs. bytes = xs @ rst \<and> written xs H c c1 H1 \<and> cachedatasize H1 = 0"
    using cache_write_correct [OF wr ok False c len] by blast
  show ?thesis
  proof (cases rest)
    case None
    then show ?thesis using cw False by (auto simp: cached_write_def)
  next
    case (Some rst)
    then obtain xs where xs: "bytes = xs @ rst" "written xs H c c1 H1" "cachedatasize H1 = 0" using cw(3) by auto
    have ok1: "wcache_ok c1 H1" and len1: "length rst < 2 ^ 32" "unat (filepos H1) + length rst < 2 ^ 63"
      using xs(1,2) len by (auto simp: written_def)
    obtain H2 w2 c2 where h2: "do {
            (ok2, pos, tail, w2) \<leftarrow> write_direct env h (cache_multiple H1 (of_nat (length rst))) (filepos H1) rst w1;
            let H2 = H1\<lparr>filepos := pos\<rparr>;
            if \<not> ok2 then Some (False, H2, w2)
            else if tail = [] then Some (True, H2, w2)
            else do {
              mem \<leftarrow> put (cache H2) 0 tail;
              Some (True, H2\<lparr>cache := mem, cachedatasize := of_nat (length tail), cachedatapos := pos,
                       filepos := pos + of_nat (length tail), cachedirty := True\<rparr>, w2) } } = Some (True, H2, w2)"
      "nf w2 h = Some c2" "written rst H1 c1 c2 H2"
      using write_through [OF wr ok1 xs(3) cw(2) len1] by blast
    have "cached_write env h H w bytes = Some (True, H2, w2)"
      using False cw(1) Some h2(1) by (simp add: cached_write_def)
    then show ?thesis
      using h2(2) written_trans [OF xs(2) h2(3)] ok xs(1) by (auto simp: wcache_ok_def)
  qed
qed

text \<open>An NTFS file as its users see it: opened, written at positions of their choice, closed.\<close>

fun write_at :: "'w fs_env \<Rightarrow> FILE_HANDLE_INFO \<Rightarrow> 'w \<Rightarrow> (u64 \<times> buf) list \<Rightarrow> (bool \<times> FILE_HANDLE_INFO \<times> 'w) option" where
  "write_at env H w [] = Some (True, H, w)"
| "write_at env H w ((pos, bytes) # ops) =
     do { (ok, H1, w1) \<leftarrow> FileSetPos env H w pos;
          if \<not> ok then Some (False, H1, w1)
          else do {
            (ok2, H2, w2) \<leftarrow> FileWrite env H1 w1 bytes;
            if \<not> ok2 then Some (False, H2, w2) else write_at env H2 w2 ops } }"

fun overlays :: "buf \<Rightarrow> (u64 \<times> buf) list \<Rightarrow> buf" where
  "overlays c [] = c"
| "overlays c ((pos, bytes) # ops) = overlays (overlay (unat pos) bytes c) ops"

text \<open>Every write starts inside the file as it then is, and the sizes fit their types.\<close>

fun in_file :: "buf \<Rightarrow> (u64 \<times> buf) list \<Rightarrow> bool" where
  "in_file c [] = True"
| "in_file c ((pos, bytes) # ops) \<longleftrightarrow> unat pos \<le> length c \<and> length bytes < 2 ^ 32 \<and> unat pos + length bytes < 2 ^ 63 \<and>
     in_file (overlay (unat pos) bytes c) ops"

lemma FileOpen_ntfs:
  assumes "FileOpen env True w name mode needseg = Some (True, H, w0)"
  shows "ifntfs H" "\<not> ifneedseg H" "\<not> ifeof H" "filepos H = 0" "cachedatasize H = 0"
    "cachesize H = DEFAULT_FILE_CACHE_SIZE" "length (cache H) = unat DEFAULT_FILE_CACHE_SIZE"
  using assms by (auto simp: FileOpen_def raw_FileOpen_def Let_def elim!: bind_SomeE split: option.splits if_splits prod.splits)

lemma FileOpen_ntfs_cache:
  assumes "FileOpen env True w name mode needseg = Some (True, H, w0)"
  shows "wcache_ok c H" "cache_ok c H" "file_view c H = c"
proof -
  have "(2 :: u32) ^ 20 = DEFAULT_FILE_CACHE_SIZE" by (simp add: DEFAULT_FILE_CACHE_SIZE_def)
  then show "wcache_ok c H"
    using FileOpen_ntfs [OF assms]
    by (auto simp: wcache_ok_def intro!: exI [of _ 20]) (simp add: DEFAULT_FILE_CACHE_SIZE_def)
  show "cache_ok c H" "file_view c H = c"
    using FileOpen_ntfs [OF assms] by (simp_all add: cache_ok_def file_view_def DEFAULT_FILE_CACHE_SIZE_def)
qed

lemma FileWrite_ntfs:
  assumes wr: "n_writes env nf" and h: "ifntfs H" "\<not> ifneedseg H" "filehandle H = Some h"
    and ok: "wcache_ok c H" "nf w h = Some c"
    and len: "length bytes < 2 ^ 32" "unat (filepos H) + length bytes < 2 ^ 63"
  shows "\<exists>H' w' c'. FileWrite env H w bytes = Some (True, H', w') \<and> nf w' h = Some c' \<and> wcache_ok c' H' \<and>
    file_view c' H' = overlay (unat (filepos H)) bytes (file_view c H) \<and> ifntfs H' \<and> \<not> ifneedseg H' \<and> filehandle H' = Some h"
proof -
  obtain H1 w1 c1 where cw: "cached_write env h H w bytes = Some (True, H1, w1)" "nf w1 h = Some c1" "written bytes H c c1 H1"
    using cached_write_correct [OF wr ok len] by blast
  have seg: "ifneedseg H1 = ifneedseg H"
    using cw(1) by (auto simp: cached_write_def cache_write_def Let_def elim!: bind_SomeE split: if_splits option.splits prod.splits)
  have "FileWrite env H w bytes = Some (True, H1\<lparr>currentfilesize := currentfilesize H1 + of_nat (length bytes)\<rparr>, w1)"
    using h cw(1) seg by (simp add: FileWrite_def raw_FileWrite_def Let_def)
  then show ?thesis
    using h cw(2,3) seg by (auto simp: written_def keeps_handle_def wcache_ok_def file_view_def cached_bytes_def)
qed


lemma write_at_correct:
  assumes wr: "n_writes env nf"
  shows "\<lbrakk>ifntfs H; \<not> ifneedseg H; filehandle H = Some h; wcache_ok c H; nf w h = Some c; in_file (file_view c H) ops\<rbrakk> \<Longrightarrow>
    \<exists>H' w' c'. write_at env H w ops = Some (True, H', w') \<and> nf w' h = Some c' \<and> wcache_ok c' H' \<and>
      file_view c' H' = overlays (file_view c H) ops \<and> ifntfs H' \<and> filehandle H' = Some h"
proof (induction ops arbitrary: H w c)
  case Nil
  then show ?case by auto
next
  case (Cons op ops)
  obtain pos bytes where op: "op = (pos, bytes)" by (cases op)
  let ?H = "H\<lparr>ifeof := False, filepos := pos\<rparr>"
  have fv: "file_view c ?H = file_view c H" by (simp add: file_view_def cached_bytes_def)
  have ok: "wcache_ok c ?H" "length bytes < 2 ^ 32" "unat (filepos ?H) + length bytes < 2 ^ 63"
    using Cons.prems(4,6) fv by (auto simp: wcache_ok_def op)
  obtain H1 w1 c1 where h1: "FileWrite env ?H w bytes = Some (True, H1, w1)" "nf w1 h = Some c1" "wcache_ok c1 H1"
    "file_view c1 H1 = overlay (unat pos) bytes (file_view c H)" "ifntfs H1" "\<not> ifneedseg H1" "filehandle H1 = Some h"
    using FileWrite_ntfs [OF wr _ _ _ ok(1) Cons.prems(5) ok(2,3)] Cons.prems(1-3) fv by auto
  have "in_file (file_view c1 H1) ops" using Cons.prems(6) h1(4) by (simp add: op)
  from Cons.IH [OF h1(5,6,7,3,2) this] show ?case
    using h1(1,4) Cons.prems(1) by (simp add: op FileSetPos_def Let_def)
qed

lemma FileClose_ntfs:
  assumes wr: "n_writes env nf" and h: "ifntfs H" "filehandle H = Some h" and ok: "wcache_ok c H" "nf w h = Some c"
  shows "\<exists>H' w'. FileClose env H w = Some (H', n_closefile env w' h) \<and> nf w' h = Some (file_view c H)"
proof (cases "cachedatasize H = 0")
  case True
  then show ?thesis using h ok(2) by (auto simp: FileClose_def file_view_def)
next
  case False
  then have d: "cachedirty H" "unat (cachedatapos H) \<le> length c" "length (cached_bytes H) < 2 ^ 63"
    using ok(1) cached_bytes_length [OF ok(1)] by (auto simp: wcache_ok_def)
  have fv: "file_view c H = overlay (unat (cachedatapos H)) (cached_bytes H) c" using False by (simp add: file_view_def)
  obtain w' where "n_writefile env w h (cachedatapos H) (cached_bytes H) = Some (of_nat (length (cached_bytes H)), w')"
    "nf w' h = Some (file_view c H)"
    using wr ok(2) d(2,3) unfolding n_writes_def fv by metis
  then show ?thesis using h d(1) False cached_slice [OF ok(1)] by (auto simp: FileClose_def)
qed

text \<open>
  C12. Writes at any positions of an opened NTFS file, followed by FileClose, leave the file with
  the writes laid over it in their order, although the cache delays and merges them.
\<close>

theorem cached_write_refines:
  assumes "n_writes env nf"
    and "FileOpen env True w name mode needseg = Some (True, H, w0)" "filehandle H = Some h" "nf w0 h = Some c"
    and "in_file c ops"
  shows "\<exists>H1 w1 H2 w2. write_at env H w0 ops = Some (True, H1, w1) \<and>
    FileClose env H1 w1 = Some (H2, n_closefile env w2 h) \<and> nf w2 h = Some (overlays c ops)"
proof -
  have "in_file (file_view c H) ops" using assms(5) FileOpen_ntfs_cache(3) [OF assms(2)] by simp
  from write_at_correct [OF assms(1) FileOpen_ntfs(1,2) [OF assms(2)] assms(3) FileOpen_ntfs_cache(1) [OF assms(2)] assms(4) this]
  obtain H1 w1 c1 where h1: "write_at env H w0 ops = Some (True, H1, w1)" "nf w1 h = Some c1" "wcache_ok c1 H1"
    "file_view c1 H1 = overlays c ops" "ifntfs H1" "filehandle H1 = Some h"
    using FileOpen_ntfs_cache(3) [OF assms(2)] by auto
  then show ?thesis using FileClose_ntfs [OF assms(1) h1(5,6,3,2)] by auto
qed

text \<open>Reads at positions of the caller's choice.\<close>

fun read_at :: "'w fs_env \<Rightarrow> FILE_HANDLE_INFO \<Rightarrow> 'w \<Rightarrow> (u64 \<times> nat) list \<Rightarrow> buf list option" where
  "read_at env H w [] = Some []"
| "read_at env H w ((pos, k) # ops) =
     do { (ok, H1, w1) \<leftarrow> FileSetPos env H w pos;
          (ok2, bytes, H2, w2) \<leftarrow> FileRead env H1 w1 k;
          if \<not> ok \<or> \<not> ok2 then None
          else do { rest \<leftarrow> read_at env H2 w2 ops; Some (bytes # rest) } }"

definition read_of :: "buf \<Rightarrow> u64 \<times> nat \<Rightarrow> buf" where
  "read_of c op = take (snd op) (drop (unat (fst op)) c)"

definition plain_reads :: "buf \<Rightarrow> (u64 \<times> nat) list \<Rightarrow> bool" where
  "plain_reads c ops \<longleftrightarrow> list_all (\<lambda>op. unat (fst op) \<le> length c \<and> snd op < 2 ^ 64 \<and> \<not> old_header (read_of c op)) ops"

definition handle_of :: "FILE_HANDLE_INFO \<Rightarrow> bool \<times> bool \<times> bool \<times> nat option" where
  "handle_of H = (ifntfs H, ifneedseg H, ifeof H, filehandle H)"

lemma fill_cache_handle: "fill_cache env w h pos H = (b, H') \<Longrightarrow> handle_of H' = handle_of H"
  by (auto simp: fill_cache_def handle_of_def split: option.splits)

lemma copy_cached_handle: "copy_cached H left out = (H', r) \<Longrightarrow> handle_of H' = handle_of H"
  by (auto simp: copy_cached_def handle_of_def Let_def split: if_splits)

lemma read_on_handle: "read_on env w h H left out = Some (ok, go, H', r) \<Longrightarrow> handle_of H' = handle_of H"
  by (auto simp: read_on_def Let_def handle_of_def elim!: bind_SomeE split: if_splits prod.splits bool.splits dest!: fill_cache_handle)

lemma cached_read_handle:
  assumes "cached_read env w h H left out = Some (ok, H', out')"
  shows "handle_of H' = handle_of H"
proof -
  have "handle_of (fst (snd (ok, H', out'))) = handle_of H"
  proof (rule cached_read.raw_induct [where P = "\<lambda>env w h H left out r. handle_of (fst (snd r)) = handle_of H", OF _ assms], goal_cases)
    case (1 f env w h H left out r)
    define miss where "miss = (filepos H AND 511 \<noteq> 0 \<and>
              (filepos H < cachedatapos H \<or> cachedatapos H + ucast (cachedatasize H) < filepos H))"
    obtain ok1 H1 where f: "(if miss then fill_cache env w h (filepos H AND NOT 0xfff)
                          (H\<lparr>cachedatapos := filepos H AND NOT 0xfff\<rparr>) else (True, H)) = (ok1, H1)"
      by (cases "if miss then fill_cache env w h (filepos H AND NOT 0xfff) (H\<lparr>cachedatapos := filepos H AND NOT 0xfff\<rparr>) else (True, H)")
    have h1: "handle_of H1 = handle_of H"
      using f fill_cache_handle [of env w h "filepos H AND NOT 0xfff"] by (cases miss) (auto simp: handle_of_def)
    obtain H2 left2 out2 where g: "copy_cached H1 left out = (H2, left2, out2)" by (cases "copy_cached H1 left out")
    note step = 1(2) [unfolded Let_def miss_def [symmetric] f prod.case g]
    show ?case
      using step h1 copy_cached_handle [OF g]
      by (auto elim!: bind_SomeE split: if_splits dest!: read_on_handle 1(1))
  qed
  then show ?thesis by simp
qed

lemma read_at_correct:
  assumes rd: "n_reads env nf" and c: "nf w h = Some c" "length c < 2 ^ 63"
  shows "\<lbrakk>ifntfs H; \<not> ifneedseg H; filehandle H = Some h; cache_ok c H; plain_reads c ops\<rbrakk> \<Longrightarrow>
    read_at env H w ops = Some (map (read_of c) ops)"
proof (induction ops arbitrary: H)
  case Nil
  then show ?case by simp
next
  case (Cons op ops)
  obtain pos k where op: "op = (pos, k)" by (cases op)
  let ?H = "H\<lparr>ifeof := False, filepos := pos\<rparr>"
  have k: "unat pos \<le> length c" "unat (of_nat k :: u64) = k" "\<not> old_header (take k (drop (unat pos) c))" "plain_reads c ops"
    using Cons.prems(5) by (auto simp: plain_reads_def op unat_of_nat_u64 read_of_def)
  have ok: "cache_ok c ?H" "unat (filepos ?H) \<le> length c" using Cons.prems(4) k(1) by (auto simp: cache_ok_def)
  obtain H1 where h1: "cached_read env w h ?H (of_nat k) [] = Some (True, H1, take k (drop (unat pos) c))" "cache_ok c H1"
    using cached_read_correct [OF rd c ok, of "of_nat k" "[]"] k(2) by auto
  have hd: "ifntfs H1" "\<not> ifneedseg H1" "filehandle H1 = Some h"
    using cached_read_handle [OF h1(1)] Cons.prems(1-3) by (auto simp: handle_of_def)
  have "FileRead env ?H w k = Some (True, take k (drop (unat pos) c), H1, w)"
    using h1(1) Cons.prems(1,3) hd k(3) by (simp add: FileRead_def raw_FileRead_def after_read_def)
  then show ?case
    using Cons.IH [OF hd h1(2) k(4)] Cons.prems(1) by (simp add: op FileSetPos_def Let_def read_of_def)
qed

text \<open>
  C13. Reads at any positions of an opened NTFS file give the bytes of the file, whatever the
  cache holds.
\<close>

theorem cached_read_equals_direct:
  assumes "n_reads env nf" "nf w0 h = Some c" "length c < 2 ^ 63"
    and "FileOpen env True w name mode needseg = Some (True, H, w0)" "filehandle H = Some h" "plain_reads c ops"
  shows "read_at env H w0 ops = Some (map (read_of c) ops)"
  using read_at_correct [OF assms(1-3) FileOpen_ntfs(1,2) [OF assms(4)] assms(5) FileOpen_ntfs_cache(2) [OF assms(4)] assms(6)] .

definition ram_inode :: "ram_fs \<Rightarrow> nat \<Rightarrow> buf option" where
  "ram_inode w h = map_option (\<lambda>(n, p, c). c) (ram_at w h)"

lemma ram_ntfs_ok: "n_reads ram_fs_env ram_inode" "n_writes ram_fs_env ram_inode"
  by (auto simp: n_reads_def n_writes_def ram_fs_env_def ram_inode_def ram_at_def elim!: bind_SomeE)

lemma ram_open_ntfs:
  obtains H where "FileOpen ram_fs_env True (no_files\<lparr>rfiles := [image_name \<mapsto> c]\<rparr>) image_name mode False =
    Some (True, H, \<lparr>rfiles = [image_name \<mapsto> c], ropen = [0 \<mapsto> (image_name, 0)], rnext = 1\<rparr>)"
    "filehandle H = Some 0"
proof -
  have "Unicode2Ascii image_name = Some [0x6f, 0x6b, 0x72, 0]" "map ucast [0x6f, 0x6b, 0x72, 0 :: byte] = image_name"
    by (simp_all add: image_name_def)
  then show thesis
    using that by (simp add: FileOpen_def raw_FileOpen_def ram_fs_env_def ram_open_def no_files_def Let_def)
qed

theorem cached_read_equals_direct_witness:
  "\<exists>H w0. FileOpen ram_fs_env True (no_files\<lparr>rfiles := [image_name \<mapsto> [1, 2, 3, 4, 5]]\<rparr>) image_name EFI_FILE_MODE_READ False = Some (True, H, w0) \<and>
    read_at ram_fs_env H w0 [(3, 2), (0, 4), (1, 600)] = Some [[4, 5], [1, 2, 3, 4], [2, 3, 4, 5]]"
proof -
  obtain H where H: "FileOpen ram_fs_env True (no_files\<lparr>rfiles := [image_name \<mapsto> [1, 2, 3, 4, 5]]\<rparr>) image_name EFI_FILE_MODE_READ False =
    Some (True, H, \<lparr>rfiles = [image_name \<mapsto> [1, 2, 3, 4, 5]], ropen = [0 \<mapsto> (image_name, 0)], rnext = 1\<rparr>)"
    "filehandle H = Some 0"
    by (rule ram_open_ntfs)
  have "ram_inode \<lparr>rfiles = [image_name \<mapsto> [1, 2, 3, 4, 5]], ropen = [0 \<mapsto> (image_name, 0)], rnext = 1\<rparr> 0 = Some [1, 2, 3, 4, 5]"
    by (simp add: ram_inode_def ram_at_def)
  from cached_read_equals_direct [OF ram_ntfs_ok(1) this _ H, of "[(3, 2), (0, 4), (1, 600)]"] H(1)
  show ?thesis by (simp add: plain_reads_def read_of_def old_header_def rd32_def rd_le_def slice_def)
qed

theorem cached_write_refines_witness:
  "\<exists>H w0 H1 w1 H2 w2. FileOpen ram_fs_env True (no_files\<lparr>rfiles := [image_name \<mapsto> []]\<rparr>) image_name EFI_FILE_MODE_WRITE False = Some (True, H, w0) \<and>
    write_at ram_fs_env H w0 [(0, [1, 2, 3, 4]), (4, [5]), (1, [9, 9])] = Some (True, H1, w1) \<and>
    FileClose ram_fs_env H1 w1 = Some (H2, n_closefile ram_fs_env w2 0) \<and> ram_inode w2 0 = Some [1, 9, 9, 4, 5]"
proof -
  obtain H where H: "FileOpen ram_fs_env True (no_files\<lparr>rfiles := [image_name \<mapsto> []]\<rparr>) image_name EFI_FILE_MODE_WRITE False =
    Some (True, H, \<lparr>rfiles = [image_name \<mapsto> []], ropen = [0 \<mapsto> (image_name, 0)], rnext = 1\<rparr>)"
    "filehandle H = Some 0"
    by (rule ram_open_ntfs)
  have "ram_inode \<lparr>rfiles = [image_name \<mapsto> []], ropen = [0 \<mapsto> (image_name, 0)], rnext = 1\<rparr> 0 = Some []"
    by (simp add: ram_inode_def ram_at_def)
  from cached_write_refines [OF ram_ntfs_ok(2) H this, of "[(0, [1, 2, 3, 4]), (4, [5]), (1, [9, 9])]"] H(1)
  show ?thesis by (simp add: overlay_def)
qed

end
