(* ===== verification/Okr_Lz4.thy ===== *)
theory Okr_Lz4
  imports Okr_Prelude
begin

unbundle bit_operations_syntax

text \<open>
  The compressor of the images, \<^verbatim>\<open>src/OkrPkg/okrefi/lz4.c\<close>: \<open>LZ4_compress\<close> and \<open>LZ4_decompress_safe\<close>
  with the instances of \<open>LZ4_compress_generic\<close> and \<open>LZ4_decompress_generic\<close> that they stand for in the
  64-bit, little-endian build (\<open>LZ4_ARCH64\<close>, steps of eight bytes): no output limit, no prefix, the end
  given by the size of the input, full decoding. The streaming functions, which the program does not
  call, are left out, and with them \<open>withPrefix\<close>; \<open>byPtr\<close> occurs in 32-bit builds only.

  A pointer into the source or the destination is its offset, a natural number; a comparison with a
  pointer that may lie in front of its buffer, such as \<open>oend - MFLIMIT\<close>, is written with the sum on the
  other side. The two buffers are byte lists, and an access outside one of them is \<open>None\<close>. The copies
  in steps of eight bytes write behind the end of what they copy, as in the code.
\<close>

abbreviation (input) MINMATCH :: nat where "MINMATCH \<equiv> 4"
abbreviation (input) COPYLENGTH :: nat where "COPYLENGTH \<equiv> 8"
abbreviation (input) LASTLITERALS :: nat where "LASTLITERALS \<equiv> 5"
abbreviation (input) MFLIMIT :: nat where "MFLIMIT \<equiv> 12"
abbreviation (input) LZ4_minLength :: nat where "LZ4_minLength \<equiv> 13"
abbreviation (input) LZ4_64KLIMIT :: nat where "LZ4_64KLIMIT \<equiv> 65547"
abbreviation (input) SKIPSTRENGTH :: nat where "SKIPSTRENGTH \<equiv> 6"
abbreviation (input) MAX_DISTANCE :: nat where "MAX_DISTANCE \<equiv> 65535"
abbreviation (input) ML_MASK :: nat where "ML_MASK \<equiv> 15"
abbreviation (input) RUN_MASK :: nat where "RUN_MASK \<equiv> 15"
abbreviation (input) STEPSIZE :: nat where "STEPSIZE \<equiv> 8"
abbreviation (input) LZ4_MAX_INPUT_SIZE :: nat where "LZ4_MAX_INPUT_SIZE \<equiv> 0x7E000000"

datatype tableType_t = byU32 | byU16

section \<open>Copying in steps\<close>

text \<open>\<open>from\<close> gives the memory that is read: the source, or the destination itself as it is at that
  moment. The results are the destination and the two pointers.\<close>

function LZ4_WILDCOPY :: "(buf \<Rightarrow> buf) \<Rightarrow> buf \<Rightarrow> nat \<Rightarrow> nat \<Rightarrow> nat \<Rightarrow> (buf \<times> nat \<times> nat) option" where
  "LZ4_WILDCOPY from dest d s e =
     do {
       x \<leftarrow> slice (from dest) s STEPSIZE;
       dest' \<leftarrow> put dest d x;
       if d + STEPSIZE < e then LZ4_WILDCOPY from dest' (d + STEPSIZE) (s + STEPSIZE) e
       else Some (dest', d + STEPSIZE, s + STEPSIZE) }"
  by pat_completeness auto
termination
  by (relation "measure (\<lambda>(from, dest, d, s, e). e - d)") auto

declare LZ4_WILDCOPY.simps [simp del]

section \<open>The hash table\<close>

definition LZ4_hashSequence :: "u32 \<Rightarrow> tableType_t \<Rightarrow> nat" where
  "LZ4_hashSequence sequence tableType =
     (if tableType = byU16 then unat (drop_bit 19 (sequence * 2654435761))
      else unat (drop_bit 20 (sequence * 2654435761)))"

definition LZ4_hashPosition :: "buf \<Rightarrow> nat \<Rightarrow> tableType_t \<Rightarrow> nat option" where
  "LZ4_hashPosition src p tableType =
     do { sequence \<leftarrow> rd32 src p; Some (LZ4_hashSequence sequence tableType) }"

text \<open>The table as \<open>LZ4_compress\<close> clears it: 4096 words, or twice as many halves.\<close>

definition LZ4_table :: "tableType_t \<Rightarrow> u32 list" where
  "LZ4_table tableType = replicate (if tableType = byU16 then 8192 else 4096) 0"

definition LZ4_putPositionOnHash :: "nat \<Rightarrow> nat \<Rightarrow> u32 list \<Rightarrow> tableType_t \<Rightarrow> u32 list option" where
  "LZ4_putPositionOnHash p h table tableType =
     (if h < length table
      then Some (table[h := (case tableType of byU32 \<Rightarrow> of_nat p | byU16 \<Rightarrow> ucast (of_nat p :: u16))])
      else None)"

definition LZ4_putPosition :: "buf \<Rightarrow> nat \<Rightarrow> u32 list \<Rightarrow> tableType_t \<Rightarrow> u32 list option" where
  "LZ4_putPosition src p table tableType =
     do { h \<leftarrow> LZ4_hashPosition src p tableType; LZ4_putPositionOnHash p h table tableType }"

definition LZ4_getPositionOnHash :: "nat \<Rightarrow> u32 list \<Rightarrow> nat option" where
  "LZ4_getPositionOnHash h table = (if h < length table then Some (unat (table ! h)) else None)"

definition LZ4_getPosition :: "buf \<Rightarrow> nat \<Rightarrow> u32 list \<Rightarrow> tableType_t \<Rightarrow> nat option" where
  "LZ4_getPosition src p table tableType =
     do { h \<leftarrow> LZ4_hashPosition src p tableType; LZ4_getPositionOnHash h table }"

section \<open>Searching for a match\<close>

text \<open>\<open>Some None\<close> is the jump to the last literals.\<close>

function find_match ::
  "buf \<Rightarrow> tableType_t \<Rightarrow> nat \<Rightarrow> nat \<Rightarrow> nat \<Rightarrow> nat \<Rightarrow> u32 list \<Rightarrow> (nat \<times> nat \<times> u32 list) option option" where
  "find_match src tt mflimit findMatchAttempts forwardIp forwardH table =
     (let h = forwardH; step = findMatchAttempts div 2 ^ SKIPSTRENGTH; ip = forwardIp; forwardIp = ip + step in
      if forwardIp > mflimit then Some None
      else do {
        forwardH \<leftarrow> LZ4_hashPosition src forwardIp tt;
        ref \<leftarrow> LZ4_getPositionOnHash h table;
        table \<leftarrow> LZ4_putPositionOnHash ip h table tt;
        again \<leftarrow> (if ref + MAX_DISTANCE < ip then Some True
                  else do { a \<leftarrow> rd32 src ref; b \<leftarrow> rd32 src ip; Some (a \<noteq> b) });
        if again then find_match src tt mflimit (findMatchAttempts + 1) forwardIp forwardH table
        else Some (Some (ip, ref, table)) })"
  by pat_completeness auto
termination
  by (relation "measure (\<lambda>(src, tt, mflimit, att, forwardIp, forwardH, table). (mflimit + 1 - forwardIp) + (64 - att))")
    (auto simp: div_eq_0_iff intro!: add_less_le_mono add_le_less_mono)

declare find_match.simps [simp del]

function catch_up :: "buf \<Rightarrow> nat \<Rightarrow> nat \<Rightarrow> nat \<Rightarrow> (nat \<times> nat) option" where
  "catch_up src anchor ip ref =
     (if ip > anchor \<and> ref > 0
      then do {
        a \<leftarrow> rd8 src (ip - 1);
        b \<leftarrow> rd8 src (ref - 1);
        if a = b then catch_up src anchor (ip - 1) (ref - 1) else Some (ip, ref) }
      else Some (ip, ref))"
  by pat_completeness auto
termination
  by (relation "measure (\<lambda>(src, anchor, ip, ref). ip)") auto

declare catch_up.simps [simp del]

text \<open>The lowest bit that is set, by bytes: \<open>_BitScanForward64\<close>.\<close>

definition LZ4_NbCommonBytes :: "u64 \<Rightarrow> nat" where
  "LZ4_NbCommonBytes val = length (takeWhile (\<lambda>i. \<not> bit val i) [0..<64]) div 8"

function count_match :: "buf \<Rightarrow> nat \<Rightarrow> nat \<Rightarrow> nat \<Rightarrow> nat option" where
  "count_match src matchlimit ip ref =
     (if ip + (STEPSIZE - 1) < matchlimit
      then do {
        a \<leftarrow> rd64 src ref;
        b \<leftarrow> rd64 src ip;
        let diff = a XOR b;
        if diff = 0 then count_match src matchlimit (ip + STEPSIZE) (ref + STEPSIZE)
        else Some (ip + LZ4_NbCommonBytes diff) }
      else do {
        (ip, ref) \<leftarrow> (if ip + 3 < matchlimit
           then do { a \<leftarrow> rd32 src ref; b \<leftarrow> rd32 src ip; Some (if a = b then (ip + 4, ref + 4) else (ip, ref)) }
           else Some (ip, ref));
        (ip, ref) \<leftarrow> (if ip + 1 < matchlimit
           then do { a \<leftarrow> rd16 src ref; b \<leftarrow> rd16 src ip; Some (if a = b then (ip + 2, ref + 2) else (ip, ref)) }
           else Some (ip, ref));
        if ip < matchlimit
        then do { a \<leftarrow> rd8 src ref; b \<leftarrow> rd8 src ip; Some (if a = b then ip + 1 else ip) }
        else Some ip })"
  by pat_completeness auto
termination
  by (relation "measure (\<lambda>(src, matchlimit, ip, ref). matchlimit - ip)") auto

declare count_match.simps [simp del]

section \<open>Writing a sequence\<close>

function emit_length :: "buf \<Rightarrow> nat \<Rightarrow> nat \<Rightarrow> (buf \<times> nat) option" where
  "emit_length dest op len =
     (if 255 \<le> len then do { dest \<leftarrow> put dest op [255]; emit_length dest (op + 1) (len - 255) }
      else do { dest \<leftarrow> put dest op [of_nat len]; Some (dest, op + 1) })"
  by pat_completeness auto
termination
  by (relation "measure (\<lambda>(dest, op, len). len)") auto

declare emit_length.simps [simp del]

text \<open>The token of a run of literals, at \<open>op\<close>, with the bytes that continue its length.\<close>

definition emit_run :: "buf \<Rightarrow> nat \<Rightarrow> nat \<Rightarrow> (buf \<times> nat) option" where
  "emit_run dest op len =
     (if RUN_MASK \<le> len
      then do { dest \<leftarrow> put dest op [push_bit 4 (of_nat RUN_MASK)]; emit_length dest (op + 1) (len - RUN_MASK) }
      else do { dest \<leftarrow> put dest op [push_bit 4 (of_nat len)]; Some (dest, op + 1) })"

function emit_match_length :: "buf \<Rightarrow> nat \<Rightarrow> nat \<Rightarrow> (buf \<times> nat) option" where
  "emit_match_length dest op len =
     (if 509 < len
      then do {
        dest \<leftarrow> put dest op [255];
        dest \<leftarrow> put dest (op + 1) [255];
        emit_match_length dest (op + 2) (len - 510) }
      else do {
        (dest, op, len) \<leftarrow> (if 255 \<le> len then do { dest \<leftarrow> put dest op [255]; Some (dest, op + 1, len - 255) }
                            else Some (dest, op, len));
        dest \<leftarrow> put dest op [of_nat len];
        Some (dest, op + 1) })"
  by pat_completeness auto
termination
  by (relation "measure (\<lambda>(dest, op, len). len)") auto

declare emit_match_length.simps [simp del]

definition emit_match :: "buf \<Rightarrow> nat \<Rightarrow> nat \<Rightarrow> nat \<Rightarrow> (buf \<times> nat) option" where
  "emit_match dest token op len =
     do {
       t \<leftarrow> rd8 dest token;
       if ML_MASK \<le> len
       then do { dest \<leftarrow> put dest token [t + of_nat ML_MASK]; emit_match_length dest op (len - ML_MASK) }
       else do { dest \<leftarrow> put dest token [t + of_nat len]; Some (dest, op) } }"

text \<open>From the label \<open>_next_match\<close>: the sequences whose matches follow each other without literals. The
  last component is \<open>None\<close> at the end of the chunk and else the table for the next search.\<close>

partial_function (option) match_loop ::
  "buf \<Rightarrow> tableType_t \<Rightarrow> nat \<Rightarrow> nat \<Rightarrow> nat \<Rightarrow> nat \<Rightarrow> nat \<Rightarrow> nat \<Rightarrow> buf \<Rightarrow> u32 list
   \<Rightarrow> (nat \<times> nat \<times> buf \<times> u32 list option) option" where
  "match_loop src tt mflimit matchlimit ip ref token op dest table =
     do {
       dest \<leftarrow> put dest op (le_bytes 2 (of_int (int ip - int ref) :: u16));
       let op = op + 2;
       let anchor = ip + MINMATCH;
       ip \<leftarrow> count_match src matchlimit anchor (ref + MINMATCH);
       (dest, op) \<leftarrow> emit_match dest token op (ip - anchor);
       if ip > mflimit then Some (ip, op, dest, None)
       else do {
         table \<leftarrow> LZ4_putPosition src (ip - 2) table tt;
         ref \<leftarrow> LZ4_getPosition src ip table tt;
         table \<leftarrow> LZ4_putPosition src ip table tt;
         hit \<leftarrow> (if ip \<le> ref + MAX_DISTANCE then do { a \<leftarrow> rd32 src ref; b \<leftarrow> rd32 src ip; Some (a = b) }
                 else Some False);
         if hit
         then do { dest \<leftarrow> put dest op [0]; match_loop src tt mflimit matchlimit ip ref op (op + 1) dest table }
         else Some (ip, op, dest, Some table) } }"

partial_function (option) compress_loop ::
  "buf \<Rightarrow> tableType_t \<Rightarrow> nat \<Rightarrow> nat \<Rightarrow> nat \<Rightarrow> nat \<Rightarrow> nat \<Rightarrow> u32 list \<Rightarrow> nat \<Rightarrow> buf
   \<Rightarrow> (nat \<times> nat \<times> buf) option" where
  "compress_loop src tt mflimit matchlimit anchor ip forwardH table op dest =
     do {
       found \<leftarrow> find_match src tt mflimit (2 ^ SKIPSTRENGTH + 3) ip forwardH table;
       (case found of
          None \<Rightarrow> Some (anchor, op, dest)
        | Some (ip, ref, table) \<Rightarrow> do {
            (ip, ref) \<leftarrow> catch_up src anchor ip ref;
            let len = ip - anchor;
            let token = op;
            (dest, op) \<leftarrow> emit_run dest op len;
            let stop = op + len;
            (dest, _, _) \<leftarrow> LZ4_WILDCOPY (\<lambda>_. src) dest op anchor stop;
            (ip, op, dest, next) \<leftarrow> match_loop src tt mflimit matchlimit ip ref token stop dest table;
            (case next of
               None \<Rightarrow> Some (ip, op, dest)
             | Some table \<Rightarrow> do {
                 forwardH \<leftarrow> LZ4_hashPosition src (ip + 1) tt;
                 compress_loop src tt mflimit matchlimit ip (ip + 1) forwardH table op dest }) }) }"

definition last_literals :: "buf \<Rightarrow> nat \<Rightarrow> nat \<Rightarrow> nat \<Rightarrow> buf \<Rightarrow> (nat \<times> buf) option" where
  "last_literals src iend anchor op dest =
     do {
       let lastRun = iend - anchor;
       (dest, op) \<leftarrow> emit_run dest op lastRun;
       x \<leftarrow> slice src anchor lastRun;
       dest \<leftarrow> put dest op x;
       Some (op + lastRun, dest) }"

definition LZ4_compress_generic :: "buf \<Rightarrow> buf \<Rightarrow> int \<Rightarrow> tableType_t \<Rightarrow> (nat \<times> buf) option" where
  "LZ4_compress_generic source dest inputSize tableType =
     (if inputSize < 0 \<or> int LZ4_MAX_INPUT_SIZE < inputSize then Some (0, dest)
      else if tableType = byU16 \<and> int LZ4_64KLIMIT \<le> inputSize then Some (0, dest)
      else do {
        let iend = nat inputSize;
        (anchor, op, dest) \<leftarrow>
          (if iend < LZ4_minLength then Some (0, 0, dest)
           else do {
             table \<leftarrow> LZ4_putPosition source 0 (LZ4_table tableType) tableType;
             forwardH \<leftarrow> LZ4_hashPosition source 1 tableType;
             compress_loop source tableType (iend - MFLIMIT) (iend - LASTLITERALS) 0 1 forwardH table 0 dest });
        last_literals source iend anchor op dest })"

definition LZ4_compress :: "buf \<Rightarrow> buf \<Rightarrow> int \<Rightarrow> (nat \<times> buf) option" where
  "LZ4_compress source dest inputSize =
     (if inputSize < int LZ4_64KLIMIT then LZ4_compress_generic source dest inputSize byU16
      else LZ4_compress_generic source dest inputSize byU32)"

section \<open>Decompression\<close>

function run_length :: "buf \<Rightarrow> int \<Rightarrow> nat \<Rightarrow> nat \<Rightarrow> (nat \<times> nat) option" where
  "run_length src iend ip len =
     (if int ip < iend
      then do {
        s \<leftarrow> rd8 src ip;
        if s = 255 then run_length src iend (ip + 1) (len + unat s) else Some (ip + 1, len + unat s) }
      else Some (ip, len))"
  by pat_completeness auto
termination
  by (relation "measure (\<lambda>(src, iend, ip, len). nat iend - ip)") auto

function match_length :: "buf \<Rightarrow> int \<Rightarrow> nat \<Rightarrow> nat \<Rightarrow> (nat \<times> nat) option" where
  "match_length src iend ip len =
     (if int ip + int (LASTLITERALS + 1) < iend
      then do {
        s \<leftarrow> rd8 src ip;
        if s = 255 then match_length src iend (ip + 1) (len + unat s) else Some (ip + 1, len + unat s) }
      else Some (ip, len))"
  by pat_completeness auto
termination
  by (relation "measure (\<lambda>(src, iend, ip, len). nat iend - ip)") auto

declare run_length.simps [simp del] match_length.simps [simp del]

definition dec32table :: "int list" where "dec32table = [0, 3, 2, 3, 0, 0, 0, 0]"
definition dec64table :: "int list" where "dec64table = [0, 0, 0, -1, 0, 1, 2, 3]"

definition copy_byte :: "buf \<Rightarrow> nat \<Rightarrow> nat \<Rightarrow> buf option" where
  "copy_byte dest op ref = do { x \<leftarrow> rd8 dest ref; put dest op [x] }"

text \<open>The first eight bytes of a match.\<close>

definition match_start :: "buf \<Rightarrow> nat \<Rightarrow> nat \<Rightarrow> (buf \<times> nat \<times> nat) option" where
  "match_start dest op ref =
     (if op - ref < STEPSIZE
      then do {
        let dec64 = dec64table ! (op - ref);
        dest \<leftarrow> copy_byte dest op ref;
        dest \<leftarrow> copy_byte dest (op + 1) (ref + 1);
        dest \<leftarrow> copy_byte dest (op + 2) (ref + 2);
        dest \<leftarrow> copy_byte dest (op + 3) (ref + 3);
        let op = op + 4;
        let ref = ref + 4;
        let ref = nat (int ref - dec32table ! (op - ref));
        x \<leftarrow> slice dest ref 4;
        dest \<leftarrow> put dest op x;
        Some (dest, op + (STEPSIZE - 4), nat (int ref - dec64)) }
      else do {
        x \<leftarrow> slice dest ref STEPSIZE;
        dest \<leftarrow> put dest op x;
        Some (dest, op + STEPSIZE, ref + STEPSIZE) })"

function copy_bytes :: "buf \<Rightarrow> nat \<Rightarrow> nat \<Rightarrow> nat \<Rightarrow> buf option" where
  "copy_bytes dest op ref cpy =
     (if op < cpy then do { dest \<leftarrow> copy_byte dest op ref; copy_bytes dest (op + 1) (ref + 1) cpy } else Some dest)"
  by pat_completeness auto
termination
  by (relation "measure (\<lambda>(dest, op, ref, cpy). cpy - op)") auto

declare copy_bytes.simps [simp del]

text \<open>The rest of a match up to \<open>cpy\<close>; \<open>None\<close> inside is the jump to \<open>_output_error\<close>.\<close>

definition match_rest :: "buf \<Rightarrow> int \<Rightarrow> nat \<Rightarrow> nat \<Rightarrow> nat \<Rightarrow> buf option option" where
  "match_rest dest oend op ref cpy =
     (if int cpy + int COPYLENGTH + int (STEPSIZE - 4) > oend
      then if int cpy + int LASTLITERALS > oend then Some None
      else do {
        (dest, op, ref) \<leftarrow>
          (if int op + int COPYLENGTH < oend then LZ4_WILDCOPY (\<lambda>d. d) dest op ref (nat oend - COPYLENGTH)
           else Some (dest, op, ref));
        dest \<leftarrow> copy_bytes dest op ref cpy;
        Some (Some dest) }
      else do {
        (dest, _, _) \<leftarrow> LZ4_WILDCOPY (\<lambda>d. d) dest op ref cpy;
        Some (Some dest) })"

partial_function (option) decompress_loop ::
  "buf \<Rightarrow> int \<Rightarrow> int \<Rightarrow> nat \<Rightarrow> nat \<Rightarrow> buf \<Rightarrow> (int \<times> buf) option" where
  "decompress_loop src iend oend ip op dest =
     do {
       token \<leftarrow> rd8 src ip;
       (ip, len) \<leftarrow> (if unat (drop_bit 4 token) = RUN_MASK then run_length src iend (ip + 1) RUN_MASK
                     else Some (ip + 1, unat (drop_bit 4 token)));
       let cpy = op + len;
       if int cpy + int MFLIMIT > oend \<or> int ip + int len + int (2 + 1 + LASTLITERALS) > iend
       then if int ip + int len \<noteq> iend \<or> int cpy > oend then Some (- int ip - 1, dest)
            else do { x \<leftarrow> slice src ip len; dest \<leftarrow> put dest op x; Some (int (op + len), dest) }
       else do {
         (dest, op', ip') \<leftarrow> LZ4_WILDCOPY (\<lambda>_. src) dest op ip cpy;
         let ip = ip' - (op' - cpy);
         off \<leftarrow> rd16 src ip;
         let ip = ip + 2;
         if cpy < unat off then Some (- int ip - 1, dest)
         else do {
           let ref = cpy - unat off;
           (ip, len) \<leftarrow> (if unat (token AND 15) = ML_MASK then match_length src iend ip ML_MASK
                         else Some (ip, unat (token AND 15)));
           (dest, op, ref) \<leftarrow> match_start dest cpy ref;
           let cpy = op + len - (STEPSIZE - 4);
           rest \<leftarrow> match_rest dest oend op ref cpy;
           (case rest of
              None \<Rightarrow> Some (- int ip - 1, dest)
            | Some dest \<Rightarrow> decompress_loop src iend oend ip cpy dest) } } }"

declare match_loop.simps [code] compress_loop.simps [code] decompress_loop.simps [code]

definition LZ4_decompress_safe :: "buf \<Rightarrow> buf \<Rightarrow> int \<Rightarrow> int \<Rightarrow> (int \<times> buf) option" where
  "LZ4_decompress_safe source dest inputSize maxOutputSize =
     (if maxOutputSize = 0
      then if inputSize = 1
        then do { b \<leftarrow> rd8 source 0; Some (if b = 0 then 0 else - 1, dest) }
        else Some (- 1, dest)
      else decompress_loop source inputSize maxOutputSize 0 0 dest)"

end
