(* ===== verification/Okr_Pipeline.thy ===== *)
theory Okr_Pipeline
  imports Okr_BufferArray Okr_Scan Okr_Strings Okr_Lz4
begin

unbundle bit_operations_syntax

text \<open>
  The data path of a backup and of a restore, \<^verbatim>\<open>src/OkrPkg/okrefi/func.c\<close>: \<open>CompressBuffer\<close> and
  \<open>DecompressBuffer\<close>, and the loops of \<open>Backup\<close> and \<open>Recover\<close> over the partitions. For every
  partition an image holds the bitmap of the blocks, padded to 4096 bytes, and then units: a head
  of 16 bytes (\<open>lZ4_BUFFER_HEAD\<close>), the compressed data of a chunk of marked blocks, and padding.

  \<open>InitMp\<close> always leaves \<open>bMultiThread\<close> off, so the loops are those of one thread and use one buffer.
  The user does not interrupt (\<open>bIsAutoFunc\<close>). The compressor is that of \<open>Okr_Lz4\<close>. The image file
  is a pair of functions \<open>fw\<close> and \<open>fr\<close> over a state \<open>'f\<close>, the shape that \<open>FileWrite\<close> and \<open>FileRead\<close>
  have. An access outside a buffer, or to the part of a head that was not read, is \<open>None\<close>.
\<close>

definition LZ4_HEAD_SIZE :: nat where "LZ4_HEAD_SIZE = 16"
definition COMPRESS_MAGIC :: u32 where "COMPRESS_MAGIC = 0x65617a63"
definition UNCOMPRESS_MAGIC :: u32 where "UNCOMPRESS_MAGIC = 0x7370786e"
definition BLOCK_BYTES :: nat where "BLOCK_BYTES = BLOCK_SIZE * 512"

definition LZ4_COMPRESSBOUND :: "u32 \<Rightarrow> u32" where
  "LZ4_COMPRESSBOUND isize = (if 0x7E000000 < isize then 0 else isize + isize div 255 + 16)"

section \<open>One chunk\<close>

definition CompressBuffer :: "u32 \<Rightarrow> BUFFER_INFO \<Rightarrow> buf \<Rightarrow> (int \<times> BUFFER_INFO \<times> buf) option" where
  "CompressBuffer cbs b lzmem =
     (if usedsize b = 0 then Some (0, b\<lparr>datavalid := False\<rparr>, lzmem)
      else do {
        bytes \<leftarrow> slice (pointer b) 0 (unat (usedsize b));
        (k, out) \<leftarrow> LZ4_compress bytes (drop LZ4_HEAD_SIZE lzmem) (sint (usedsize b));
        let m1 = take LZ4_HEAD_SIZE lzmem @ out;
        if k = 0 then Some (- 1, b, m1)
        else do {
          (flag, n, m2) \<leftarrow>
            (if unat (usedsize b) < k
             then do { m \<leftarrow> put m1 LZ4_HEAD_SIZE bytes; Some (UNCOMPRESS_MAGIC, usedsize b, m) }
             else Some (COMPRESS_MAGIC, of_nat k, m1));
          m3 \<leftarrow> put m2 0 (le_bytes 4 flag);
          m4 \<leftarrow> put m3 4 (le_bytes 4 n);
          let aligned = CalcAliginSize (ucast n + of_nat LZ4_HEAD_SIZE);
          if ucast (LZ4_COMPRESSBOUND cbs) + of_nat LZ4_HEAD_SIZE + ALGIN_SIZE_BYTE < ucast (ucast aligned :: u32)
          then Some (- 1, b, m4)
          else do {
            m5 \<leftarrow> put m4 8 (le_bytes 4 (ucast aligned :: u32));
            Some (int (unat aligned), b\<lparr>datavalid := False\<rparr>, m5) } } })"

definition DecompressBuffer :: "u32 \<Rightarrow> BUFFER_INFO \<Rightarrow> buf \<Rightarrow> (int \<times> BUFFER_INFO \<times> buf) option" where
  "DecompressBuffer cbs b lzmem =
     (if usedsize b = 0 then Some (0, b\<lparr>datavalid := False\<rparr>, lzmem)
      else do {
        bytes \<leftarrow> slice (pointer b) 0 (unat (usedsize b));
        if ifcompressed b
        then do {
          (r, m) \<leftarrow> LZ4_decompress_safe bytes lzmem (sint (usedsize b)) (sint cbs);
          Some (if r = 0 then - 1 else r, b\<lparr>datavalid := False\<rparr>, m) }
        else do {
          m \<leftarrow> put lzmem 0 bytes;
          Some (int (unat (usedsize b)), b\<lparr>datavalid := False\<rparr>, m) } })"

section \<open>Backup\<close>

definition total_blocks :: "u64 \<Rightarrow> nat" where
  "total_blocks totsec = unat ((totsec + of_nat BLOCK_SIZE - 1) div of_nat BLOCK_SIZE)"

definition bitmap_size :: "nat \<Rightarrow> u64" where
  "bitmap_size blocks = CalcAliginSize ((of_nat blocks + 7) div 8)"

text \<open>The inner loop: marked blocks are read one behind the other until the buffer is full.\<close>

function read_blocks ::
  "'d disk_env \<Rightarrow> buf \<Rightarrow> u64 \<Rightarrow> nat \<Rightarrow> nat \<Rightarrow> nat \<Rightarrow> nat \<Rightarrow> CONTINUE_RWDISK_INFO \<Rightarrow> 'd \<times> buf
   \<Rightarrow> (nat \<times> nat \<times> CONTINUE_RWDISK_INFO \<times> 'd \<times> buf) option" where
  "read_blocks env bitmap beginsec blocks full cur readn info st =
     (if cur < blocks
      then do {
        marked \<leftarrow> ReadBit (of_nat cur) bitmap;
        if marked
        then do {
          (_, info', st') \<leftarrow> SmartDiskIo env info (of_nat (cur * BLOCK_SIZE) + beginsec) (of_nat BLOCK_SIZE) readn st;
          if readn + BLOCK_BYTES = full then Some (Suc cur, readn + BLOCK_BYTES, info', st')
          else read_blocks env bitmap beginsec blocks full (Suc cur) (readn + BLOCK_BYTES) info' st' }
        else read_blocks env bitmap beginsec blocks full (Suc cur) readn info st }
      else Some (cur, readn, info, st))"
  by pat_completeness auto
termination
  by (relation "measure (\<lambda>(env, bitmap, beginsec, blocks, full, cur, readn, info, st). blocks - cur)") auto

declare read_blocks.simps [simp del]

definition read_chunk ::
  "'d disk_env \<Rightarrow> buf \<Rightarrow> u64 \<Rightarrow> nat \<Rightarrow> nat \<Rightarrow> nat \<Rightarrow> CONTINUE_RWDISK_INFO \<Rightarrow> 'd \<times> buf
   \<Rightarrow> (nat \<times> nat \<times> CONTINUE_RWDISK_INFO \<times> 'd \<times> buf) option" where
  "read_chunk env bitmap beginsec blocks full cur info st =
     (if cur < blocks
      then do {
        (cur', readn, info1, st1) \<leftarrow> read_blocks env bitmap beginsec blocks full cur 0 info st;
        (_, info2, st2) \<leftarrow> SmartDiskIo env info1 0 0 0 st1;
        Some (cur', readn, info2, st2) }
      else Some (cur, 0, info, st))"

text \<open>The loop of one partition. The flag is \<open>False\<close> on the way to \<open>Done\<close>; an error of the
  compressor only ends the loop.\<close>

partial_function (option) backup_loop ::
  "'d disk_env \<Rightarrow> u32 \<Rightarrow> ('f \<Rightarrow> buf \<Rightarrow> (bool \<times> 'f) option) \<Rightarrow> buf \<Rightarrow> u64 \<Rightarrow> nat \<Rightarrow> nat
   \<Rightarrow> CONTINUE_RWDISK_INFO \<Rightarrow> 'd \<Rightarrow> BUFFER_INFO \<Rightarrow> buf \<Rightarrow> 'f \<Rightarrow> u64
   \<Rightarrow> (bool \<times> 'f \<times> u64 \<times> BUFFER_INFO \<times> buf) option" where
  "backup_loop env cbs fw bitmap beginsec blocks cur info d b lzmem f totalwrite =
     do {
       (cur', readn, info', d', mem) \<leftarrow>
         read_chunk env bitmap beginsec blocks (unat (totalsize b)) cur info (d, pointer b);
       (n, b', lzmem') \<leftarrow>
         CompressBuffer cbs (b\<lparr>pointer := mem, usedsize := of_nat readn, datavalid := True\<rparr>) lzmem;
       if n \<le> 0 then Some (True, f, totalwrite, b', lzmem')
       else if 8 < n
       then do {
         bytes \<leftarrow> slice lzmem' 0 (nat n);
         (ok, f') \<leftarrow> fw f bytes;
         if \<not> ok then Some (False, f', totalwrite, b', lzmem')
         else backup_loop env cbs fw bitmap beginsec blocks cur' info' d' b' lzmem' f' (totalwrite + of_int n) }
       else backup_loop env cbs fw bitmap beginsec blocks cur' info' d' b' lzmem' f totalwrite }"

declare backup_loop.simps [code]

text \<open>The bitmap and the data of a partition after the scan. \<open>bitmap\<close> is the whole buffer
  \<open>g_data.databitmap\<close> of \<open>g_databitmapbufsize\<close> bytes.\<close>

definition backup_data ::
  "'d disk_env \<Rightarrow> u32 \<Rightarrow> ('f \<Rightarrow> buf \<Rightarrow> (bool \<times> 'f) option) \<Rightarrow> byte \<Rightarrow> u64 \<Rightarrow> u64 \<Rightarrow> buf \<Rightarrow> 'd
   \<Rightarrow> BUFFER_INFO \<Rightarrow> buf \<Rightarrow> 'f \<Rightarrow> (bool \<times> 'f \<times> u64 \<times> BUFFER_INFO \<times> buf) option" where
  "backup_data env cbs fw disk beginsec totsec bitmap d b lzmem f =
     (let blocks = total_blocks totsec; sz = bitmap_size blocks in
      if length bitmap < unat sz then Some (False, f, 0, b, lzmem)
      else do {
        bytes \<leftarrow> slice bitmap 0 (unat sz);
        (ok, f1) \<leftarrow> fw f bytes;
        if \<not> ok then Some (False, f1, 0, b, lzmem)
        else backup_loop env cbs fw bitmap beginsec blocks 0 (SmartDiskIoInit disk COMMAND_READ) d
               (b\<lparr>datavalid := False, usedsize := 0, sequence := 0\<rparr>) lzmem f1 sz })"

record 'f backup_state =
  bk_file :: 'f
  bk_part :: part_state
  bk_sizes :: "u16 \<Rightarrow> u64 option"
  bk_slot :: BUFFER_INFO
  bk_lzmem :: buf

text \<open>One round of the loop over \<open>g_Partitions\<close>. \<open>unused\<close> gives the result of \<open>GetUnusedDataList\<close>
  and \<open>bufsize\<close> is \<open>g_databitmapbufsize\<close>.\<close>

definition backup_one ::
  "'d disk_env \<Rightarrow> u32 \<Rightarrow> ('f \<Rightarrow> buf \<Rightarrow> (bool \<times> 'f) option) \<Rightarrow> byte \<Rightarrow> (u16 \<Rightarrow> SIZE_L list) \<Rightarrow> nat \<Rightarrow> 'd
   \<Rightarrow> u16 \<Rightarrow> 'f backup_state \<Rightarrow> (bool \<times> 'f backup_state) option" where
  "backup_one env cbs fw disk unused bufsize d i st =
     (if length (g_Partitions (bk_part st)) \<le> unat i then None
      else let P = g_Partitions (bk_part st) ! unat i in
      if bIfBackup P = 0 then Some (True, st)
      else do {
        (r, bitmap, ps) \<leftarrow> ScanPartitionData env d i (GetDataToBitmap (unused i)) (replicate bufsize 0) (bk_part st);
        if r < 0 then Some (True, st\<lparr>bk_part := ps, bk_sizes := (bk_sizes st)(i \<mapsto> 0)\<rparr>)
        else do {
          (ok, f, n, b, lzmem) \<leftarrow>
            backup_data env cbs fw disk (BootBegin P) (TotalSectors P) bitmap d (bk_slot st) (bk_lzmem st) (bk_file st);
          Some (ok, st\<lparr>bk_file := f, bk_part := ps, bk_slot := b, bk_lzmem := lzmem,
                  bk_sizes := (if ok then (bk_sizes st)(i \<mapsto> n) else bk_sizes st)\<rparr>) } })"

fun backup_all ::
  "'d disk_env \<Rightarrow> u32 \<Rightarrow> ('f \<Rightarrow> buf \<Rightarrow> (bool \<times> 'f) option) \<Rightarrow> byte \<Rightarrow> (u16 \<Rightarrow> SIZE_L list) \<Rightarrow> nat \<Rightarrow> 'd
   \<Rightarrow> u16 list \<Rightarrow> 'f backup_state \<Rightarrow> (bool \<times> 'f backup_state) option" where
  "backup_all env cbs fw disk unused bufsize d [] st = Some (True, st)"
| "backup_all env cbs fw disk unused bufsize d (i # is) st =
     do { (ok, st') \<leftarrow> backup_one env cbs fw disk unused bufsize d i st;
          if ok then backup_all env cbs fw disk unused bufsize d is st' else Some (False, st') }"

section \<open>Restore\<close>

text \<open>The values that \<open>SET_ERROR\<close> stores; \<open>OKR_ERROR_NONE\<close> where the code jumps to \<open>Done\<close> without it.\<close>

datatype dwErrorCode =
  OKR_ERROR_NONE | OKR_ERROR_ALLOC_BITMAP | OKR_ERROR_READ_BITMAP | OKR_ERROR_READ_SIGNATURE
| OKR_ERROR_INVALID_SIGNATURE | OKR_ERROR_UNIT_SIZE | OKR_ERROR_READ_COMPRESS_UNIT
| OKR_ERROR_DECOMPRESS | OKR_ERROR_COMPRESS_DATA_CORRUPTED | OKR_ERROR_WRITE_GPT
| OKR_ERROR_UNMATCHED_PARTITION | OKR_ERROR_OPEN_FILE | OKR_ERROR_READ_FILE | OKR_ERROR_READ_DISK

definition unit_flag :: "u32 \<Rightarrow> bool option" where
  "unit_flag flag =
     (if flag = COMPRESS_MAGIC \<or> flag = 0x676a6763 then Some True
      else if flag = UNCOMPRESS_MAGIC \<or> flag = 0x676a6762 then Some False else None)"

text \<open>Reading one unit into the buffer. No more bytes, or \<open>wanted\<close> unset, gives an empty buffer. The
  last component is \<open>align_lz4_size\<close>.\<close>

definition read_unit ::
  "('f \<Rightarrow> nat \<Rightarrow> (bool \<times> buf \<times> 'f) option) \<Rightarrow> u32 \<Rightarrow> bool \<Rightarrow> BUFFER_INFO \<Rightarrow> 'f
   \<Rightarrow> (dwErrorCode + BUFFER_INFO \<times> 'f \<times> u32) option" where
  "read_unit fr cbs wanted b f =
     do {
       (ok, head, f1) \<leftarrow> (if wanted then fr f LZ4_HEAD_SIZE else Some (True, [], f));
       if \<not> ok then Some (Inl OKR_ERROR_READ_SIGNATURE)
       else if head = [] then Some (Inr (b\<lparr>usedsize := 0\<rparr>, f1, 0))
       else do {
         flag \<leftarrow> rd32 head 0;
         (case unit_flag flag of
            None \<Rightarrow> Some (Inl OKR_ERROR_INVALID_SIGNATURE)
          | Some compressed \<Rightarrow> do {
              lz4_size \<leftarrow> rd32 head 4;
              if totalsize b < lz4_size then Some (Inl OKR_ERROR_UNIT_SIZE)
              else do {
                align_lz4_size \<leftarrow> rd32 head 8;
                let readn = (ucast align_lz4_size - of_nat LZ4_HEAD_SIZE :: u64);
                if ucast (cbs + ucast ALGIN_SIZE_BYTE) < readn then Some (Inl OKR_ERROR_NONE)
                else do {
                  (ok2, body, f2) \<leftarrow> fr f1 (unat readn);
                  if \<not> ok2 \<or> ucast (ucast readn :: u32) \<noteq> (of_nat (length body) :: u64)
                  then Some (Inl OKR_ERROR_READ_COMPRESS_UNIT)
                  else do {
                    mem \<leftarrow> put (pointer b) 0 body;
                    Some (Inr (b\<lparr>pointer := mem, ifcompressed := compressed, usedsize := lz4_size\<rparr>, f2,
                      align_lz4_size)) } } } }) } }"

text \<open>The loop that writes a decompressed chunk to the marked blocks. \<open>limit\<close> is
  \<open>CurImageSyspartitionsize\<close> where \<open>needlimit\<close> applies to the partition. \<open>datasize\<close> is unsigned.\<close>

function write_blocks ::
  "'d disk_env \<Rightarrow> u64 option \<Rightarrow> buf \<Rightarrow> u64 \<Rightarrow> u64 \<Rightarrow> nat \<Rightarrow> nat \<Rightarrow> u64 \<Rightarrow> nat \<Rightarrow> CONTINUE_RWDISK_INFO \<Rightarrow> 'd \<times> buf
   \<Rightarrow> (dwErrorCode option \<times> nat \<times> CONTINUE_RWDISK_INFO \<times> 'd \<times> buf) option" where
  "write_blocks env limit bitmap beginsec totsec blocks cur datasize p info st =
     (if datasize = 0 then Some (None, cur, info, st)
      else if cur < blocks
      then do {
        marked \<leftarrow> ReadBit (of_nat cur) bitmap;
        if marked
        then do {
          let secnum = (if Suc cur = blocks then ucast (totsec - of_nat (cur * BLOCK_SIZE)) else of_nat BLOCK_SIZE);
          (ok, info', st') \<leftarrow>
            (if (case limit of None \<Rightarrow> True | Some m \<Rightarrow> of_nat cur < m + 1)
             then SmartDiskIo env info (of_nat (cur * BLOCK_SIZE) + beginsec) secnum p st
             else Some (True, info, st));
          if \<not> ok then Some (Some OKR_ERROR_WRITE_GPT, cur, info', st')
          else write_blocks env limit bitmap beginsec totsec blocks (Suc cur) (datasize - of_nat BLOCK_BYTES)
                 (p + BLOCK_BYTES) info' st' }
        else write_blocks env limit bitmap beginsec totsec blocks (Suc cur) datasize p info st }
      else Some (Some OKR_ERROR_COMPRESS_DATA_CORRUPTED, cur, info, st))"
  by pat_completeness auto
termination
  by (relation "measure (\<lambda>(env, limit, bitmap, beginsec, totsec, blocks, cur, datasize, p, info, st). blocks - cur)") auto

declare write_blocks.simps [simp del]

definition write_chunk ::
  "'d disk_env \<Rightarrow> u64 option \<Rightarrow> buf \<Rightarrow> u64 \<Rightarrow> u64 \<Rightarrow> nat \<Rightarrow> nat \<Rightarrow> u64 \<Rightarrow> CONTINUE_RWDISK_INFO \<Rightarrow> 'd \<times> buf
   \<Rightarrow> (dwErrorCode option \<times> nat \<times> CONTINUE_RWDISK_INFO \<times> 'd \<times> buf) option" where
  "write_chunk env limit bitmap beginsec totsec blocks cur datasize info st =
     do {
       (err, cur', info1, st1) \<leftarrow> write_blocks env limit bitmap beginsec totsec blocks cur datasize 0 info st;
       if err \<noteq> None then Some (err, cur', info1, st1)
       else do {
         (ok, info2, st2) \<leftarrow> SmartDiskIo env info1 0 0 0 st1;
         Some (if ok then None else Some OKR_ERROR_WRITE_GPT, cur', info2, st2) } }"

text \<open>The loop of one partition. The error is \<open>None\<close> when the loop ends by \<open>break\<close>.\<close>

partial_function (option) restore_loop ::
  "'d disk_env \<Rightarrow> u32 \<Rightarrow> ('f \<Rightarrow> nat \<Rightarrow> (bool \<times> buf \<times> 'f) option) \<Rightarrow> u64 option \<Rightarrow> buf \<Rightarrow> u64 \<Rightarrow> u64 \<Rightarrow> u64
   \<Rightarrow> nat \<Rightarrow> u64 \<Rightarrow> CONTINUE_RWDISK_INFO \<Rightarrow> 'd \<Rightarrow> BUFFER_INFO \<Rightarrow> buf \<Rightarrow> 'f
   \<Rightarrow> (dwErrorCode option \<times> 'd \<times> BUFFER_INFO \<times> buf \<times> 'f) option" where
  "restore_loop env cbs fr limit bitmap beginsec totsec totaldatasize cur currentdata info d b lzmem f =
     do {
       r \<leftarrow> read_unit fr cbs (currentdata < totaldatasize) b f;
       (case r of
          Inl e \<Rightarrow> Some (Some e, d, b, lzmem, f)
        | Inr (b1, f1, al) \<Rightarrow> do {
            (n, b2, lzmem2) \<leftarrow> DecompressBuffer cbs (b1\<lparr>datavalid := True\<rparr>) lzmem;
            if n = 0 then Some (None, d, b2, lzmem2, f1)
            else if n < 0 then Some (Some OKR_ERROR_DECOMPRESS, d, b2, lzmem2, f1)
            else if 8 < n
            then do {
              (err, cur', info', d', lzmem3) \<leftarrow> write_chunk env limit bitmap beginsec totsec (total_blocks totsec)
                 cur (of_int n) info (d, lzmem2);
              if err \<noteq> None then Some (err, d', b2, lzmem3, f1)
              else restore_loop env cbs fr limit bitmap beginsec totsec totaldatasize cur' (currentdata + ucast al)
                     info' d' b2 lzmem3 f1 }
            else restore_loop env cbs fr limit bitmap beginsec totsec totaldatasize cur (currentdata + ucast al)
                   info d b2 lzmem2 f1 }) }"

declare restore_loop.simps [code]

record 'f restore_state =
  rs_file :: 'f
  rs_slot :: BUFFER_INFO
  rs_lzmem :: buf

text \<open>One round of the loop over the partitions of the image; \<open>lim\<close> is \<open>CurImageSyspartitionsize\<close>
  when \<open>needlimit\<close> is 1.\<close>

definition restore_one ::
  "'d disk_env \<Rightarrow> u32 \<Rightarrow> ('f \<Rightarrow> nat \<Rightarrow> (bool \<times> buf \<times> 'f) option) \<Rightarrow> byte \<Rightarrow> u64 option
   \<Rightarrow> WIN32_PARTITIONINFO \<Rightarrow> 'd \<times> 'f restore_state \<Rightarrow> (dwErrorCode option \<times> 'd \<times> 'f restore_state) option" where
  "restore_one env cbs fr disk lim P st = (case st of (d, rs) \<Rightarrow>
     if bIfBackup P = 0 \<or> BackupDataSize P = 0 then Some (None, d, rs)
     else let sz = bitmap_size (total_blocks (TotalSectors P)) in
     (case myalloc env d (ucast sz) of
        None \<Rightarrow> Some (Some OKR_ERROR_ALLOC_BITMAP, d, rs)
      | Some mem \<Rightarrow> do {
          (ok, bytes, f1) \<leftarrow> fr (rs_file rs) (unat sz);
          if \<not> ok \<or> of_nat (length bytes) \<noteq> sz then Some (Some OKR_ERROR_READ_BITMAP, d, rs\<lparr>rs_file := f1\<rparr>)
          else do {
            bitmap \<leftarrow> put mem 0 bytes;
            (err, d', b, lzmem, f2) \<leftarrow> restore_loop env cbs fr
              (if HasWindows P \<noteq> 0 then lim else None) bitmap (BootBegin P) (TotalSectors P)
              (BackupDataSize P - sz) 0 0 (SmartDiskIoInit disk COMMAND_WRITE) d
              ((rs_slot rs)\<lparr>datavalid := False, usedsize := 0, sequence := 0\<rparr>) (rs_lzmem rs) f1;
            Some (err, d', \<lparr>rs_file = f2, rs_slot = b, rs_lzmem = lzmem\<rparr>) } }))"

fun restore_all ::
  "'d disk_env \<Rightarrow> u32 \<Rightarrow> ('f \<Rightarrow> nat \<Rightarrow> (bool \<times> buf \<times> 'f) option) \<Rightarrow> byte \<Rightarrow> u64 option
   \<Rightarrow> WIN32_PARTITIONINFO list \<Rightarrow> 'd \<times> 'f restore_state \<Rightarrow> (dwErrorCode option \<times> 'd \<times> 'f restore_state) option" where
  "restore_all env cbs fr disk lim [] st = Some (None, st)"
| "restore_all env cbs fr disk lim (P # Ps) st =
     do { (err, st') \<leftarrow> restore_one env cbs fr disk lim P st;
          if err = None then restore_all env cbs fr disk lim Ps st' else Some (err, st') }"

end
