(* ===== verification/Okr_Chunks.thy ===== *)
theory Okr_Chunks
  imports Okr_Pipeline
begin

unbundle bit_operations_syntax

text \<open>
  One chunk of a backup or a restore: \<open>read_chunk\<close> puts the next marked blocks of the partition one
  behind the other into the buffer, \<open>write_chunk\<close> writes such a buffer back to the same blocks, the
  last block of the partition only as far as the partition goes.
\<close>

section \<open>The marked blocks\<close>

definition marked :: "buf \<Rightarrow> nat \<Rightarrow> bool" where
  "marked bitmap b \<longleftrightarrow> ReadBit (of_nat b) bitmap = Some True"

definition marked_from :: "buf \<Rightarrow> nat \<Rightarrow> nat \<Rightarrow> nat list" where
  "marked_from bitmap blocks cur = filter (marked bitmap) [cur..<blocks]"

text \<open>The bitmap has a bit for every block.\<close>

definition covers :: "buf \<Rightarrow> nat \<Rightarrow> bool" where
  "covers bitmap blocks \<longleftrightarrow> blocks \<le> 8 * length bitmap \<and> blocks < 2 ^ 64"

lemma covers_ReadBit: "covers bitmap blocks \<Longrightarrow> b < blocks \<Longrightarrow> ReadBit (of_nat b) bitmap = Some (marked bitmap b)"
  by (auto simp: covers_def marked_def ReadBit_alt unat_of_nat take_bit_nat_eq_self split: if_splits)

lemma marked_from_step:
  "marked_from bitmap blocks cur = (if cur < blocks then
     (if marked bitmap cur then cur # marked_from bitmap blocks (Suc cur) else marked_from bitmap blocks (Suc cur)) else [])"
  by (simp add: marked_from_def upt_conv_Cons)

lemma marked_from_in: "b \<in> set (marked_from bitmap blocks cur) \<longleftrightarrow> cur \<le> b \<and> b < blocks \<and> marked bitmap b"
  by (auto simp: marked_from_def)

definition read_req :: "u64 \<Rightarrow> nat \<Rightarrow> u64 \<times> u32" where
  "read_req beginsec b = (of_nat (b * BLOCK_SIZE) + beginsec, of_nat BLOCK_SIZE)"

section \<open>Reading a chunk\<close>

lemma read_blocks_strict:
  assumes cov: "covers bitmap blocks" and k: "full = readn + BLOCK_BYTES * Suc k"
    and io: "smart_strict env info (map (read_req beginsec) (take (Suc k) (marked_from bitmap blocks cur))) readn st = Some (info', st')"
  shows "\<exists>cur' info1 st1. read_blocks env bitmap beginsec blocks full cur readn info st =
      Some (cur', readn + BLOCK_BYTES * length (take (Suc k) (marked_from bitmap blocks cur)), info1, st1) \<and>
    SmartDiskIo env info1 0 0 0 st1 = Some (True, info', st') \<and>
    marked_from bitmap blocks cur' = drop (Suc k) (marked_from bitmap blocks cur)"
  using k io
proof (induction "blocks - cur" arbitrary: cur readn info st k)
  case 0
  then have "marked_from bitmap blocks cur = []" "\<not> cur < blocks" by (simp_all add: marked_from_def)
  then show ?case using 0(3) by (subst read_blocks.simps) (auto elim!: bind_SomeE split: if_splits)
next
  case (Suc n)
  have lt: "cur < blocks" "n = blocks - Suc cur" using Suc(2) by auto
  have bit: "ReadBit (of_nat cur) bitmap = Some (marked bitmap cur)" using covers_ReadBit [OF cov lt(1)] .
  have bb: "512 * unat (of_nat BLOCK_SIZE :: u32) = BLOCK_BYTES" by (simp add: BLOCK_BYTES_def BLOCK_SIZE_def)
  show ?case
  proof (cases "marked bitmap cur")
    case False
    then have e: "marked_from bitmap blocks cur = marked_from bitmap blocks (Suc cur)"
      using lt marked_from_step [of bitmap blocks cur] by simp
    show ?thesis
      using Suc(1) [OF lt(2) Suc(3) Suc(4) [unfolded e]] lt(1) bit False unfolding e
      by (subst read_blocks.simps) simp
  next
    case True
    then have e: "marked_from bitmap blocks cur = cur # marked_from bitmap blocks (Suc cur)"
      using lt marked_from_step [of bitmap blocks cur] by simp
    obtain info1 st1 where io1: "SmartDiskIo env info (of_nat (cur * BLOCK_SIZE) + beginsec) (of_nat BLOCK_SIZE) readn st = Some (True, info1, st1)"
      "smart_strict env info1 (map (read_req beginsec) (take k (marked_from bitmap blocks (Suc cur)))) (readn + BLOCK_BYTES) st1 = Some (info', st')"
      using Suc(4) unfolding e by (auto simp: read_req_def bb elim!: bind_SomeE split: if_splits)
    show ?thesis
    proof (cases k)
      case 0
      then show ?thesis
        using lt(1) bit True io1 Suc(3) unfolding e
        by (subst read_blocks.simps) (auto elim!: bind_SomeE split: if_splits)
    next
      case (Suc k')
      have f: "full = (readn + BLOCK_BYTES) + BLOCK_BYTES * Suc k'" using Suc.prems(1) Suc by (simp add: algebra_simps)
      have ne: "readn + BLOCK_BYTES \<noteq> full" using f by (simp add: BLOCK_BYTES_def BLOCK_SIZE_def)
      show ?thesis
        using Suc.hyps(1) [OF lt(2) f io1(2) [unfolded Suc]] lt(1) bit True io1(1) ne unfolding e Suc
        by (subst read_blocks.simps) (auto simp: algebra_simps)
    qed
  qed
qed

text \<open>The bytes of the sectors of a list of blocks.\<close>

definition block_bytes :: "(nat \<Rightarrow> buf) \<Rightarrow> u64 \<Rightarrow> nat \<Rightarrow> buf" where
  "block_bytes f beginsec b = concat (map f [unat beginsec + b * BLOCK_SIZE..<unat beginsec + b * BLOCK_SIZE + BLOCK_SIZE])"

definition chunk_bytes :: "(nat \<Rightarrow> buf) \<Rightarrow> u64 \<Rightarrow> nat list \<Rightarrow> buf" where
  "chunk_bytes f beginsec bs = concat (map (block_bytes f beginsec) bs)"

definition on_disk :: "nat \<Rightarrow> u64 \<Rightarrow> nat \<Rightarrow> bool" where
  "on_disk secs beginsec blocks \<longleftrightarrow> unat beginsec + blocks * BLOCK_SIZE \<le> secs \<and> secs < 2 ^ 64"

lemma length_chunk_bytes:
  assumes "\<And>i. length (f i) = 512"
  shows "length (chunk_bytes f beginsec bs) = BLOCK_BYTES * length bs"
  by (induction bs) (simp_all add: chunk_bytes_def block_bytes_def length_concat_sectors [of f, OF assms] BLOCK_BYTES_def)

lemma unat_block_sector:
  assumes "on_disk secs beginsec blocks" "b < blocks"
  shows "unat (of_nat (b * BLOCK_SIZE) + beginsec) = unat beginsec + b * BLOCK_SIZE"
    "unat beginsec + b * BLOCK_SIZE + BLOCK_SIZE \<le> secs"
proof -
  have "Suc b * BLOCK_SIZE \<le> blocks * BLOCK_SIZE" using assms(2) by (intro mult_le_mono1) simp
  then show le: "unat beginsec + b * BLOCK_SIZE + BLOCK_SIZE \<le> secs" using assms(1) by (simp add: on_disk_def)
  then have "unat beginsec + b * BLOCK_SIZE < 2 ^ 64" using assms(1) by (simp add: on_disk_def)
  then show "unat (of_nat (b * BLOCK_SIZE) + beginsec) = unat beginsec + b * BLOCK_SIZE"
    using unat_of_nat_u64 [of "b * BLOCK_SIZE"] by (subst unat_add_no_wrap) (simp_all del: of_nat_mult)
qed

lemma unat_BLOCK_SIZE: "unat (of_nat BLOCK_SIZE :: u32) = BLOCK_SIZE"
  by (simp add: BLOCK_SIZE_def)

lemma unat_read_req:
  assumes "on_disk secs beginsec blocks" "b < blocks"
  shows "unat (fst (read_req beginsec b)) = unat beginsec + b * BLOCK_SIZE" "unat (snd (read_req beginsec b)) = BLOCK_SIZE"
  using unat_block_sector [OF assms] by (simp_all only: read_req_def fst_conv snd_conv unat_BLOCK_SIZE)

lemma read_reqs_sum: "sum_list (map (unat \<circ> snd) (map (read_req beginsec) bs)) = BLOCK_SIZE * length bs"
  by (induction bs) (simp_all add: read_req_def unat_BLOCK_SIZE)

lemma read_reqs_ok:
  assumes "on_disk secs beginsec blocks" "\<forall>b\<in>set bs. b < blocks" "BLOCK_SIZE * length bs < 2 ^ 32"
  shows "reqs_ok secs (map (read_req beginsec) bs)"
proof -
  have "0 < BLOCK_SIZE" by (simp add: BLOCK_SIZE_def)
  then show ?thesis
    using assms(2,3) unat_read_req [OF assms(1)] unat_block_sector(2) [OF assms(1)]
    unfolding reqs_ok_def read_reqs_sum by (auto simp: case_prod_beta)
qed

lemma req_bytes_blocks:
  assumes "on_disk secs beginsec blocks" "\<forall>b\<in>set bs. b < blocks"
  shows "req_bytes f (reqs_nat (map (read_req beginsec) bs)) = chunk_bytes f beginsec bs"
  using assms(2)
  by (induction bs) (simp_all add: reqs_nat_def chunk_bytes_def block_bytes_def case_prod_beta unat_read_req [OF assms(1)])

text \<open>A buffer that holds a whole number of blocks.\<close>

lemma read_chunk_correct:
  assumes dev: "reads_sectors env sec (ucast disk) secs" "ucast disk < g_disknum env"
    and part: "covers bitmap blocks" "on_disk secs beginsec blocks"
    and full: "full = BLOCK_BYTES * Suc k" "full < 2 ^ 32" "full \<le> length mem"
    and idle: "idle COMMAND_READ disk info"
    and bs: "bs = take (Suc k) (marked_from bitmap blocks cur)"
  shows "\<exists>cur' info' d'. read_chunk env bitmap beginsec blocks full cur info (d, mem) =
      Some (cur', BLOCK_BYTES * length bs, info', d', chunk_bytes (sec d (ucast disk)) beginsec bs @ drop (BLOCK_BYTES * length bs) mem) \<and>
    sec d' (ucast disk) = sec d (ucast disk) \<and> idle COMMAND_READ disk info' \<and>
    marked_from bitmap blocks cur' = drop (Suc k) (marked_from bitmap blocks cur)"
proof (cases "cur < blocks")
  case False
  then show ?thesis using idle bs by (simp add: read_chunk_def marked_from_def chunk_bytes_def)
next
  case True
  have inb: "\<forall>b\<in>set bs. b < blocks" using marked_from_in [of _ bitmap blocks cur] unfolding bs by (auto dest: in_set_takeD)
  have "BLOCK_BYTES * length bs \<le> full" unfolding full(1) bs by (intro mult_le_mono2) simp
  then have sz: "BLOCK_BYTES * length bs < 2 ^ 32" "BLOCK_BYTES * length bs \<le> length mem" using full by simp_all
  then have "BLOCK_SIZE * length bs < 2 ^ 32" "0 + 512 * sum_list (map (unat \<circ> snd) (map (read_req beginsec) bs)) \<le> length mem"
    unfolding read_reqs_sum by (simp_all add: BLOCK_BYTES_def)
  then obtain info' d' mem' where io: "smart_strict env info (map (read_req beginsec) bs) 0 (d, mem) = Some (info', d', mem')"
      "sec d' (ucast disk) = sec d (ucast disk)" "put mem 0 (req_bytes (sec d (ucast disk)) (reqs_nat (map (read_req beginsec) bs))) = Some mem'"
      "idle COMMAND_READ disk info'"
    using smart_strict_reads [OF dev _ read_reqs_ok [OF part(2) inb] _ idle] part(2) unfolding on_disk_def by blast
  have len: "length (chunk_bytes (sec d (ucast disk)) beginsec bs) = BLOCK_BYTES * length bs"
    using dev(1) by (intro length_chunk_bytes) (simp add: reads_sectors_def)
  have mem': "mem' = chunk_bytes (sec d (ucast disk)) beginsec bs @ drop (BLOCK_BYTES * length bs) mem"
    using io(3) sz(2) unfolding req_bytes_blocks [OF part(2) inb] by (simp add: put_def len split: if_splits)
  obtain cur' info1 st1 where "read_blocks env bitmap beginsec blocks full cur 0 info (d, mem) =
      Some (cur', BLOCK_BYTES * length bs, info1, st1)" "SmartDiskIo env info1 0 0 0 st1 = Some (True, info', d', mem')"
      "marked_from bitmap blocks cur' = drop (Suc k) (marked_from bitmap blocks cur)"
    using read_blocks_strict [OF part(1) _ io(1) [unfolded bs]] full(1) unfolding bs by auto
  then show ?thesis using True io mem' by (auto simp: read_chunk_def)
qed

section \<open>Writing a chunk\<close>

definition allowed :: "u64 option \<Rightarrow> nat \<Rightarrow> bool" where
  "allowed limit b = (case limit of None \<Rightarrow> True | Some m \<Rightarrow> of_nat b < m + 1)"

definition write_req :: "u64 \<Rightarrow> u64 \<Rightarrow> nat \<Rightarrow> nat \<Rightarrow> u64 \<times> u32" where
  "write_req beginsec totsec blocks b = (of_nat (b * BLOCK_SIZE) + beginsec,
     if Suc b = blocks then ucast (totsec - of_nat (b * BLOCK_SIZE)) else of_nat BLOCK_SIZE)"

lemma allowed_mono: "\<not> allowed limit b \<Longrightarrow> b \<le> c \<Longrightarrow> c < 2 ^ 64 \<Longrightarrow> \<not> allowed limit c"
  by (auto simp: allowed_def word_less_nat_alt unat_of_nat_u64 split: option.splits)

lemma smart_strict_Nil_any: "smart_strict env info [] p st = smart_strict env info [] q st"
  by simp

lemma datasize_step:
  assumes "BLOCK_BYTES * Suc k < 2 ^ 64"
  shows "(of_nat (BLOCK_BYTES * Suc k) :: u64) \<noteq> 0" "(of_nat (BLOCK_BYTES * Suc k) :: u64) - of_nat BLOCK_BYTES = of_nat (BLOCK_BYTES * k)"
proof -
  have "unat (of_nat (BLOCK_BYTES * Suc k) :: u64) = BLOCK_BYTES * Suc k" using assms by (rule unat_of_nat_u64)
  moreover have "0 < BLOCK_BYTES" by (simp add: BLOCK_BYTES_def BLOCK_SIZE_def)
  ultimately show "(of_nat (BLOCK_BYTES * Suc k) :: u64) \<noteq> 0" by (metis nat_0_less_mult_iff not_gr0 unsigned_0 zero_less_Suc)
  show "(of_nat (BLOCK_BYTES * Suc k) :: u64) - of_nat BLOCK_BYTES = of_nat (BLOCK_BYTES * k)" by simp
qed

text \<open>The first block of the chunk: its request is made when the limit allows the block, and then the
  requests of the other blocks follow.\<close>

lemma write_request_first:
  assumes cov: "covers bitmap blocks" and reqs: "reqs = map (write_req beginsec totsec blocks)
      (filter (allowed limit) (take k (marked_from bitmap blocks (Suc cur))))"
    and st: "smart_strict env info (map (write_req beginsec totsec blocks)
      (filter (allowed limit) (cur # take k (marked_from bitmap blocks (Suc cur))))) p st = Some (info', st')"
  obtains info1 st1 where "(if allowed limit cur
       then SmartDiskIo env info (of_nat (cur * BLOCK_SIZE) + beginsec)
         (if Suc cur = blocks then ucast (totsec - of_nat (cur * BLOCK_SIZE)) else of_nat BLOCK_SIZE) p st
       else Some (True, info, st)) = Some (True, info1, st1)"
    "smart_strict env info1 reqs (p + BLOCK_BYTES) st1 = Some (info', st')"
proof (cases "allowed limit cur")
  case False
  have "\<not> allowed limit c" if "c \<in> set (marked_from bitmap blocks (Suc cur))" for c
    using that allowed_mono [OF False, of c] cov by (auto simp: marked_from_in covers_def)
  then have "filter (allowed limit) (take k (marked_from bitmap blocks (Suc cur))) = []"
    by (auto simp: filter_empty_conv dest: in_set_takeD)
  then show thesis using False st that unfolding reqs by simp
next
  case True
  have bb: "512 * unat (of_nat BLOCK_SIZE :: u32) = BLOCK_BYTES" by (simp add: BLOCK_BYTES_def BLOCK_SIZE_def)
  obtain info1 st1 q where io: "SmartDiskIo env info (of_nat (cur * BLOCK_SIZE) + beginsec)
         (if Suc cur = blocks then ucast (totsec - of_nat (cur * BLOCK_SIZE)) else of_nat BLOCK_SIZE) p st = Some (True, info1, st1)"
      "smart_strict env info1 reqs q st1 = Some (info', st')" "Suc cur \<noteq> blocks \<Longrightarrow> q = p + BLOCK_BYTES"
    using st True unfolding reqs
    by (auto simp: write_req_def bb simp del: of_nat_mult elim!: bind_SomeE split: if_splits)
  have "Suc cur = blocks \<Longrightarrow> reqs = []" by (simp add: reqs marked_from_def)
  then have "smart_strict env info1 reqs (p + BLOCK_BYTES) st1 = Some (info', st')"
    using io(2,3) smart_strict_Nil_any [of env info1 q st1 "p + BLOCK_BYTES"] by (cases "Suc cur = blocks") auto
  then show thesis using io(1) True that by auto
qed

lemma write_blocks_strict:
  assumes cov: "covers bitmap blocks"
  shows "\<lbrakk>k \<le> length (marked_from bitmap blocks cur); BLOCK_BYTES * k < 2 ^ 64;
      smart_strict env info (map (write_req beginsec totsec blocks) (filter (allowed limit) (take k (marked_from bitmap blocks cur)))) p st
        = Some (info', st')\<rbrakk> \<Longrightarrow>
    \<exists>cur' info1 st1. write_blocks env limit bitmap beginsec totsec blocks cur (of_nat (BLOCK_BYTES * k)) p info st =
        Some (None, cur', info1, st1) \<and> SmartDiskIo env info1 0 0 0 st1 = Some (True, info', st') \<and>
      marked_from bitmap blocks cur' = drop k (marked_from bitmap blocks cur)"
proof (induction "blocks - cur" arbitrary: cur p info st k)
  case 0
  then have "marked_from bitmap blocks cur = []" by (simp add: marked_from_def)
  then show ?case using 0(2,4) by (subst write_blocks.simps) (auto elim!: bind_SomeE split: if_splits)
next
  case (Suc n)
  have lt: "cur < blocks" "n = blocks - Suc cur" using Suc(2) by auto
  have bit: "ReadBit (of_nat cur) bitmap = Some (marked bitmap cur)" using covers_ReadBit [OF cov lt(1)] .
  show ?case
  proof (cases k)
    case 0
    then show ?thesis using Suc(5) by (subst write_blocks.simps) (auto elim!: bind_SomeE split: if_splits)
  next
    case (Suc k')
    note dz = datasize_step [OF Suc.prems(2) [unfolded Suc]]
    show ?thesis
    proof (cases "marked bitmap cur")
      case False
      then have e: "marked_from bitmap blocks cur = marked_from bitmap blocks (Suc cur)"
        using lt marked_from_step [of bitmap blocks cur] by simp
      show ?thesis
        using Suc.hyps(1) [OF lt(2) Suc.prems [unfolded e]] lt(1) bit False dz(1) unfolding e Suc
        by (subst write_blocks.simps) (simp del: of_nat_mult of_nat_Suc)
    next
      case True
      then have e: "marked_from bitmap blocks cur = cur # marked_from bitmap blocks (Suc cur)"
        using lt marked_from_step [of bitmap blocks cur] by simp
      have k': "k' \<le> length (marked_from bitmap blocks (Suc cur))" "BLOCK_BYTES * k' < 2 ^ 64"
        using Suc.prems(1,2) unfolding e Suc by simp_all
      obtain info1 st1 where io: "(if allowed limit cur
             then SmartDiskIo env info (of_nat (cur * BLOCK_SIZE) + beginsec)
               (if Suc cur = blocks then ucast (totsec - of_nat (cur * BLOCK_SIZE)) else of_nat BLOCK_SIZE) p st
             else Some (True, info, st)) = Some (True, info1, st1)"
          "smart_strict env info1 (map (write_req beginsec totsec blocks)
             (filter (allowed limit) (take k' (marked_from bitmap blocks (Suc cur))))) (p + BLOCK_BYTES) st1 = Some (info', st')"
        using Suc.prems(3) [unfolded e Suc take_Suc_Cons] by (rule write_request_first [OF cov refl])
      have "write_blocks env limit bitmap beginsec totsec blocks cur (of_nat (BLOCK_BYTES * k)) p info st =
         write_blocks env limit bitmap beginsec totsec blocks (Suc cur) (of_nat (BLOCK_BYTES * k')) (p + BLOCK_BYTES) info1 st1"
        using lt(1) bit True io(1) dz unfolding Suc
        by (subst write_blocks.simps) (simp add: allowed_def Let_def del: of_nat_mult of_nat_Suc)
      then show ?thesis
        using Suc.hyps(1) [OF lt(2) k' io(2)] unfolding e Suc by simp
    qed
  qed
qed

text \<open>The sectors of a block that lie inside the partition.\<close>

definition in_block :: "u64 \<Rightarrow> u64 \<Rightarrow> nat \<Rightarrow> nat \<Rightarrow> bool" where
  "in_block beginsec totsec b i \<longleftrightarrow> unat beginsec + b * BLOCK_SIZE \<le> i \<and>
     i < unat beginsec + min (b * BLOCK_SIZE + BLOCK_SIZE) (unat totsec)"

definition part_fits :: "nat \<Rightarrow> u64 \<Rightarrow> u64 \<Rightarrow> bool" where
  "part_fits secs beginsec totsec \<longleftrightarrow> unat beginsec + unat totsec \<le> secs \<and> secs < 2 ^ 64 - 64"

lemma total_blocks_eq:
  assumes "part_fits secs beginsec totsec"
  shows "total_blocks totsec = (unat totsec + 63) div 64"
proof -
  have "totsec + of_nat BLOCK_SIZE - 1 = totsec + 63" by (simp add: BLOCK_SIZE_def)
  moreover have "unat (totsec + 63) = unat totsec + 63"
    using assms by (subst unat_add_no_wrap) (simp_all add: part_fits_def)
  ultimately have "unat (totsec + of_nat BLOCK_SIZE - 1) = unat totsec + 63" by (simp only:)
  then show ?thesis unfolding total_blocks_def unat_div_distrib by (simp add: BLOCK_SIZE_def)
qed

lemma block_start:
  assumes "part_fits secs beginsec totsec" "b < total_blocks totsec"
  shows "b * BLOCK_SIZE < unat totsec" "Suc b < total_blocks totsec \<Longrightarrow> b * BLOCK_SIZE + BLOCK_SIZE \<le> unat totsec"
    "Suc b = total_blocks totsec \<Longrightarrow> unat totsec \<le> b * BLOCK_SIZE + BLOCK_SIZE"
  using assms(2) unfolding total_blocks_eq [OF assms(1)] BLOCK_SIZE_def by linarith+

lemma unat_write_req:
  assumes fits: "part_fits secs beginsec totsec" and b: "b < total_blocks totsec"
  defines "r \<equiv> write_req beginsec totsec (total_blocks totsec) b"
  shows "unat (fst r) = unat beginsec + b * BLOCK_SIZE"
    "b * BLOCK_SIZE + unat (snd r) = min (b * BLOCK_SIZE + BLOCK_SIZE) (unat totsec)"
    "0 < unat (snd r)" "unat (snd r) \<le> BLOCK_SIZE" "Suc b \<noteq> total_blocks totsec \<Longrightarrow> unat (snd r) = BLOCK_SIZE"
proof -
  note st = block_start [OF fits b]
  have ub: "unat (of_nat (b * BLOCK_SIZE) :: u64) = b * BLOCK_SIZE"
    using st(1) unsigned_less [of totsec, where 'a = nat] by (intro unat_of_nat_u64) simp
  show "unat (fst r) = unat beginsec + b * BLOCK_SIZE"
    unfolding r_def write_req_def fst_conv using ub st(1) fits unfolding part_fits_def
    by (subst unat_add_no_wrap) (simp_all del: of_nat_mult)
  show five: "unat (snd r) = BLOCK_SIZE" if "Suc b \<noteq> total_blocks totsec"
    using that by (simp add: r_def write_req_def unat_BLOCK_SIZE)
  have last: "unat (snd r) = unat totsec - b * BLOCK_SIZE" if "Suc b = total_blocks totsec"
  proof -
    have "unat (totsec - of_nat (b * BLOCK_SIZE)) = unat totsec - b * BLOCK_SIZE"
      using ub st(1) by (subst unat_sub_no_wrap) (simp_all del: of_nat_mult)
    moreover have "unat totsec - b * BLOCK_SIZE < 2 ^ 32" using st(3) [OF that] by (simp add: BLOCK_SIZE_def)
    ultimately have "unat (ucast (totsec - of_nat (b * BLOCK_SIZE)) :: u32) = unat totsec - b * BLOCK_SIZE"
      by (metis ucast_unat_eq unat_of_nat_u32)
    then show ?thesis using that by (simp add: r_def write_req_def del: of_nat_mult)
  qed
  have cases: "Suc b = total_blocks totsec \<or> Suc b < total_blocks totsec" using b by auto
  then show "b * BLOCK_SIZE + unat (snd r) = min (b * BLOCK_SIZE + BLOCK_SIZE) (unat totsec)"
    using st last five by auto
  show "0 < unat (snd r)" "unat (snd r) \<le> BLOCK_SIZE"
    using cases st last five by (auto simp: BLOCK_SIZE_def)
qed

lemma sector_of_concat:
  assumes "\<And>i. length (G i) = 512"
  shows "j < n \<Longrightarrow> take 512 (drop (512 * j) (concat (map G [s..<s + n]))) = G (s + j)"
proof (induction n)
  case (Suc n)
  have len: "length (concat (map G [s..<s + n])) = 512 * n" by (rule length_concat_sectors [OF assms])
  show ?case
  proof (cases "j < n")
    case True
    then have "512 * j + 512 \<le> length (concat (map G [s..<s + n]))" unfolding len by simp
    then show ?thesis using Suc.IH [OF True] by (simp add: len)
  next
    case False
    then have "j = n" using Suc.prems by simp
    then show ?thesis using len assms by simp
  qed
qed simp

lemma store_block:
  assumes G: "\<And>i. length (G i) = 512" and n: "n \<le> BLOCK_SIZE" and s: "s = unat beginsec + b * BLOCK_SIZE"
  shows "store_sectors f s (take (512 * n) (block_bytes G beginsec b @ t)) i = (if s \<le> i \<and> i < s + n then G i else f i)"
proof -
  have len: "length (block_bytes G beginsec b) = 512 * BLOCK_SIZE"
    unfolding block_bytes_def by (rule length_concat_sectors [OF G])
  then have l: "length (take (512 * n) (block_bytes G beginsec b @ t)) = 512 * n" using n by simp
  have "take 512 (drop (512 * (i - s)) (take (512 * n) (block_bytes G beginsec b @ t))) = G i" if "s \<le> i" "i < s + n"
  proof -
    have "512 * (i - s) + 512 \<le> 512 * n" using that by linarith
    then have "take 512 (drop (512 * (i - s)) (take (512 * n) (block_bytes G beginsec b @ t))) =
        take 512 (drop (512 * (i - s)) (block_bytes G beginsec b))"
      using len n by (simp add: drop_take min_absorb1)
    also have "\<dots> = G (s + (i - s))"
      unfolding block_bytes_def s [symmetric] by (rule sector_of_concat [OF G]) (use that n in simp)
    finally show ?thesis using that by simp
  qed
  moreover have "length (take (512 * n) (block_bytes G beginsec b @ t)) div 512 = n" unfolding l by simp
  ultimately show ?thesis unfolding store_sectors_def by presburger
qed

lemma store_reqs_blocks:
  assumes fits: "part_fits secs beginsec totsec" and G: "\<And>i. length (G i) = 512"
  shows "\<lbrakk>sorted_wrt (<) bs; \<forall>b\<in>set bs. b < total_blocks totsec; drop p mem = chunk_bytes G beginsec bs @ t\<rbrakk> \<Longrightarrow>
    store_reqs f (reqs_nat (map (write_req beginsec totsec (total_blocks totsec)) bs)) p mem i =
      (if \<exists>b\<in>set bs. in_block beginsec totsec b i then G i else f i)"
proof (induction bs arbitrary: p f)
  case Nil
  then show ?case by (simp add: reqs_nat_def)
next
  case (Cons b bs)
  let ?r = "write_req beginsec totsec (total_blocks totsec) b"
  have b: "b < total_blocks totsec" using Cons.prems(2) by simp
  note u = unat_write_req [OF fits b]
  let ?s = "unat (fst ?r)" and ?n = "unat (snd ?r)"
  have dr: "drop p mem = block_bytes G beginsec b @ chunk_bytes G beginsec bs @ t"
    using Cons.prems(3) by (simp add: chunk_bytes_def)
  have st: "store_sectors f ?s (take (512 * ?n) (drop p mem)) i = (if in_block beginsec totsec b i then G i else f i)" for i
    unfolding dr store_block [OF G u(4,1)] in_block_def using u(1,2) by simp
  have "store_reqs f' (reqs_nat (map (write_req beginsec totsec (total_blocks totsec)) bs)) (p + 512 * ?n) mem i =
      (if \<exists>b\<in>set bs. in_block beginsec totsec b i then G i else f' i)" for f'
  proof (cases "Suc b = total_blocks totsec")
    case True
    then have "bs = []" using Cons.prems(1,2) by (cases bs) auto
    then show ?thesis by (simp add: reqs_nat_def)
  next
    case False
    have "length (block_bytes G beginsec b) = 512 * ?n"
      unfolding u(5) [OF False] block_bytes_def by (rule length_concat_sectors [OF G])
    moreover have "drop (p + 512 * ?n) mem = drop (512 * ?n) (drop p mem)" by (simp add: add.commute)
    ultimately have "drop (p + 512 * ?n) mem = chunk_bytes G beginsec bs @ t" unfolding dr by simp
    then show ?thesis using Cons.IH [of "p + 512 * ?n" f'] Cons.prems(1,2) by simp
  qed
  then show ?case using st by (auto simp: reqs_nat_def case_prod_beta)
qed

lemma marked_from_sorted: "sorted_wrt (<) (marked_from bitmap blocks cur)"
  unfolding marked_from_def by (intro sorted_wrt_filter) simp

lemma allowed_prefix:
  assumes "sorted_wrt (<) bs" "\<forall>b\<in>set bs. b < 2 ^ 64"
  shows "\<exists>bs'. bs = filter (allowed limit) bs @ bs'"
  using assms
proof (induction bs)
  case (Cons b bs)
  show ?case
  proof (cases "allowed limit b")
    case False
    have "\<not> allowed limit c" if "c \<in> set bs" for c
      using allowed_mono [OF False, of c] that Cons.prems by auto
    then have "filter (allowed limit) (b # bs) = []" using False by (auto simp: filter_empty_conv)
    then show ?thesis by simp
  next
    case True
    then show ?thesis using Cons by auto
  qed
qed simp

lemma write_reqs_sum:
  assumes "part_fits secs beginsec totsec" "\<forall>b\<in>set bs. b < total_blocks totsec"
  shows "sum_list (map (unat \<circ> snd) (map (write_req beginsec totsec (total_blocks totsec)) bs)) \<le> BLOCK_SIZE * length bs"
  using assms(2)
proof (induction bs)
  case (Cons b bs)
  then show ?case using unat_write_req(4) [OF assms(1), of b] by (simp add: add_mono)
qed simp

lemma write_reqs_ok:
  assumes fits: "part_fits secs beginsec totsec" and bs: "\<forall>b\<in>set bs. b < total_blocks totsec" "BLOCK_SIZE * length bs < 2 ^ 32"
  shows "reqs_ok secs (map (write_req beginsec totsec (total_blocks totsec)) bs)"
proof -
  have "0 < unat (snd (write_req beginsec totsec (total_blocks totsec) b)) \<and>
      unat (fst (write_req beginsec totsec (total_blocks totsec) b)) + unat (snd (write_req beginsec totsec (total_blocks totsec) b)) \<le> secs"
    if "b \<in> set bs" for b
    using unat_write_req [OF fits, of b] bs(1) that fits unfolding part_fits_def by auto
  then show ?thesis
    using write_reqs_sum [OF fits bs(1)] bs(2) unfolding reqs_ok_def by (auto simp: case_prod_beta)
qed

definition with_blocks :: "(nat \<Rightarrow> buf) \<Rightarrow> (nat \<Rightarrow> buf) \<Rightarrow> u64 \<Rightarrow> u64 \<Rightarrow> nat set \<Rightarrow> nat \<Rightarrow> buf" where
  "with_blocks f G beginsec totsec B i = (if \<exists>b\<in>B. in_block beginsec totsec b i then G i else f i)"

lemma with_blocks_Un: "with_blocks (with_blocks f G beginsec totsec A) G beginsec totsec B = with_blocks f G beginsec totsec (A \<union> B)"
  by (auto simp: with_blocks_def fun_eq_iff)

lemma with_blocks_empty [simp]: "with_blocks f G beginsec totsec {} = f"
  by (simp add: with_blocks_def fun_eq_iff)

lemma write_chunk_correct:
  assumes dev: "writes_sectors env sec (ucast disk) secs" "ucast disk < g_disknum env"
    and fits: "part_fits secs beginsec totsec" and cov: "covers bitmap (total_blocks totsec)"
    and G: "\<And>i. length (G i) = 512" and idle: "idle COMMAND_WRITE disk info"
    and bs: "bs = take k (marked_from bitmap (total_blocks totsec) cur)" "length bs = k" "BLOCK_BYTES * k < 2 ^ 32"
    and mem: "lzmem = chunk_bytes G beginsec bs @ t"
  shows "\<exists>cur' info' d'. write_chunk env limit bitmap beginsec totsec (total_blocks totsec) cur (of_nat (BLOCK_BYTES * k)) info (d, lzmem) =
      Some (None, cur', info', d', lzmem) \<and>
    sec d' (ucast disk) = with_blocks (sec d (ucast disk)) G beginsec totsec {b \<in> set bs. allowed limit b} \<and>
    idle COMMAND_WRITE disk info' \<and>
    marked_from bitmap (total_blocks totsec) cur' = drop k (marked_from bitmap (total_blocks totsec) cur)"
proof -
  let ?as = "filter (allowed limit) bs" and ?w = "write_req beginsec totsec (total_blocks totsec)"
  have inb: "\<forall>b\<in>set bs. b < total_blocks totsec"
    using marked_from_in [of _ bitmap "total_blocks totsec" cur] unfolding bs(1) by (auto dest: in_set_takeD)
  then have inas: "\<forall>b\<in>set ?as. b < total_blocks totsec" by simp
  have sorted: "sorted_wrt (<) bs" "sorted_wrt (<) ?as"
    using marked_from_sorted sorted_wrt_take sorted_wrt_filter unfolding bs(1) by blast+
  have "\<forall>b\<in>set bs. b < 2 ^ 64" using inb cov by (auto simp: covers_def)
  then obtain bs' where bs': "bs = ?as @ bs'" using allowed_prefix [OF sorted(1)] by blast
  then have mem': "lzmem = chunk_bytes G beginsec ?as @ chunk_bytes G beginsec bs' @ t"
    unfolding mem chunk_bytes_def by (metis append.assoc concat_append map_append)
  have las: "length ?as \<le> k" using bs(2) by (metis length_filter_le)
  then have "BLOCK_SIZE * length ?as \<le> BLOCK_SIZE * k" by (rule mult_le_mono2)
  moreover have "BLOCK_SIZE * k < 2 ^ 32" using bs(3) by (simp add: BLOCK_BYTES_def)
  ultimately have lb: "BLOCK_SIZE * length ?as < 2 ^ 32" by linarith
  have room: "0 + 512 * sum_list (map (unat \<circ> snd) (map ?w ?as)) \<le> length lzmem"
    using write_reqs_sum [OF fits inas] length_chunk_bytes [of G beginsec ?as, OF G] unfolding mem'
    by (simp add: BLOCK_BYTES_def)
  have s64: "secs < 2 ^ 64" using fits by (simp add: part_fits_def)
  obtain info' d' where io: "smart_strict env info (map ?w ?as) 0 (d, lzmem) = Some (info', d', lzmem)"
      "sec d' (ucast disk) = store_reqs (sec d (ucast disk)) (reqs_nat (map ?w ?as)) 0 lzmem" "idle COMMAND_WRITE disk info'"
    using smart_strict_writes [OF dev s64 write_reqs_ok [OF fits inas lb] room idle] by blast
  have sec: "sec d' (ucast disk) = with_blocks (sec d (ucast disk)) G beginsec totsec {b \<in> set bs. allowed limit b}"
  proof
    fix i
    show "sec d' (ucast disk) i = with_blocks (sec d (ucast disk)) G beginsec totsec {b \<in> set bs. allowed limit b} i"
      unfolding io(2) with_blocks_def
      using store_reqs_blocks [where G = G and p = 0 and mem = lzmem and t = "chunk_bytes G beginsec bs' @ t", OF fits G sorted(2) inas] mem' by auto
  qed
  have "k \<le> length (marked_from bitmap (total_blocks totsec) cur)" using bs(1,2) by auto
  moreover have "BLOCK_BYTES * k < 2 ^ 64" using bs(3) by simp
  ultimately obtain cur' info1 st1 where w: "write_blocks env limit bitmap beginsec totsec (total_blocks totsec) cur (of_nat (BLOCK_BYTES * k)) 0 info (d, lzmem) =
        Some (None, cur', info1, st1)" "SmartDiskIo env info1 0 0 0 st1 = Some (True, info', d', lzmem)"
      "marked_from bitmap (total_blocks totsec) cur' = drop k (marked_from bitmap (total_blocks totsec) cur)"
    using write_blocks_strict [OF cov] io(1) unfolding bs(1) by blast
  then show ?thesis using sec io(3) by (auto simp: write_chunk_def)
qed

end
