(* ===== verification/Okr_Lz4Copy.thy ===== *)
theory Okr_Lz4Copy
  imports Okr_Lz4
begin

unbundle bit_operations_syntax

text \<open>
  Copies in steps of eight bytes, from the source and inside the destination, where the steps of a
  match may overlap: each stays inside its window, and a match repeats what lies its distance back.
\<close>

section \<open>Writes inside a window\<close>

definition same_outside :: "nat \<Rightarrow> nat \<Rightarrow> buf \<Rightarrow> buf \<Rightarrow> bool" where
  "same_outside a b m m' \<longleftrightarrow> length m' = length m \<and> (\<forall>j < length m. j < a \<or> b \<le> j \<longrightarrow> m' ! j = m ! j)"

lemma same_outside_refl [simp]: "same_outside a b m m"
  by (simp add: same_outside_def)

lemma same_outside_trans: "same_outside a b m m1 \<Longrightarrow> same_outside a b m1 m2 \<Longrightarrow> same_outside a b m m2"
  by (auto simp: same_outside_def)

lemma same_outside_mono: "same_outside a b m m' \<Longrightarrow> a' \<le> a \<Longrightarrow> b \<le> b' \<Longrightarrow> same_outside a' b' m m'"
  by (auto simp: same_outside_def)

lemma same_outside_length: "same_outside a b m m' \<Longrightarrow> length m' = length m"
  by (simp add: same_outside_def)

lemma same_outside_take: "same_outside a b m m' \<Longrightarrow> take a m' = take a m"
  by (rule nth_equalityI) (auto simp: same_outside_def)

lemma same_outside_drop: "same_outside a b m m' \<Longrightarrow> drop b m' = drop b m"
  by (rule nth_equalityI) (auto simp: same_outside_def)

lemma put_ok:
  assumes "i + length xs \<le> length b"
  obtains b' where "put b i xs = Some b'" "same_outside i (i + length xs) b b'"
    "\<And>j. j < length xs \<Longrightarrow> b' ! (i + j) = xs ! j"
proof -
  obtain b' where b': "put b i xs = Some b'" using assms by (simp add: put_def)
  show thesis
    by (rule that [OF b']) (use put_nth [OF b'] put_length [OF b'] assms in \<open>auto simp: same_outside_def\<close>)
qed

section \<open>Copying in steps\<close>

definition wild :: "nat \<Rightarrow> nat" where
  "wild n = 8 * max 1 ((n + 7) div 8)"

lemma wild_bounds: "n \<le> wild n" "8 \<le> wild n" "wild n \<le> n + 8" "0 < n \<Longrightarrow> wild n < n + 8"
  by (auto simp: wild_def max_def)

lemma wild_step: "8 < n \<Longrightarrow> wild n = 8 + wild (n - 8)"
proof -
  assume "8 < n"
  then obtain m where n: "n = 9 + m"
    using le_Suc_ex [of 9 n] by auto
  have "(m + 2 * 8) div 8 = m div 8 + 2" "(m + 1 * 8) div 8 = m div 8 + 1"
    by (simp_all only: div_mult_self1 div_mult_self3 add.commute)
  then show ?thesis by (simp add: wild_def n add.commute)
qed

lemma wild_last: "n \<le> 8 \<Longrightarrow> wild n = 8"
  by (auto simp: wild_def max_def)

lemma slice_ok: "i + n \<le> length b \<Longrightarrow> slice b i n = Some (take n (drop i b))"
  by (simp add: slice_def)

text \<open>From the source: what is read does not change.\<close>

lemma wildcopy_source:
  assumes "d + wild (e - d) \<le> length dest" "s + wild (e - d) \<le> length src"
  shows "LZ4_WILDCOPY (\<lambda>_. src) dest d s e =
    Some (take d dest @ take (wild (e - d)) (drop s src) @ drop (d + wild (e - d)) dest,
      d + wild (e - d), s + wild (e - d))"
  using assms
proof (induction "\<lambda>_ :: buf. src" dest d s e rule: LZ4_WILDCOPY.induct)
  case (1 dest d s e)
  have r: "d + 8 \<le> length dest" "s + 8 \<le> length src"
    using 1(2,3) wild_bounds(2) [of "e - d"] by linarith+
  then have x: "slice src s 8 = Some (take 8 (drop s src))"
    and y: "put dest d (take 8 (drop s src)) = Some (take d dest @ take 8 (drop s src) @ drop (d + 8) dest)"
    by (simp_all add: slice_def put_def)
  show ?case
  proof (cases "d + 8 < e")
    case True
    then have w: "wild (e - d) = 8 + wild (e - (d + 8))"
      using wild_step [of "e - d"] by simp
    have t: "take (8 + k) (drop s src) = take 8 (drop s src) @ take k (drop (s + 8) src)" for k
      using take_add [of 8 k "drop s src"] by (simp add: add.commute)
    show ?thesis
      using 1(1) [OF x y True] 1(2,3) r x y True unfolding w
      by (subst LZ4_WILDCOPY.simps) (simp add: t ac_simps)
  next
    case False
    then show ?thesis
      using x y wild_last [of "e - d"] by (subst LZ4_WILDCOPY.simps) simp
  qed
qed

text \<open>Inside the destination.\<close>

lemma wildcopy_inside:
  assumes "s \<le> d" "d + wild (e - d) \<le> length dest"
  shows "\<exists>dest'. LZ4_WILDCOPY (\<lambda>d. d) dest d s e = Some (dest', d + wild (e - d), s + wild (e - d)) \<and>
    same_outside d (d + wild (e - d)) dest dest' \<and>
    (s + 8 \<le> d \<longrightarrow> (\<forall>j. d \<le> j \<and> j < d + wild (e - d) \<longrightarrow> dest' ! j = dest' ! (j - (d - s))))"
  using assms
proof (induction "\<lambda>d :: buf. d" dest d s e rule: LZ4_WILDCOPY.induct)
  case (1 dest d s e)
  have r: "d + 8 \<le> length dest" "s + 8 \<le> length dest"
    using 1(2,3) wild_bounds(2) [of "e - d"] by linarith+
  have x: "slice dest s 8 = Some (take 8 (drop s dest))"
    using r by (simp add: slice_def)
  obtain dest1 where y: "put dest d (take 8 (drop s dest)) = Some dest1"
    and o1: "same_outside d (d + 8) dest dest1" "\<And>j. j < 8 \<Longrightarrow> dest1 ! (d + j) = dest ! (s + j)"
    using put_ok [of d "take 8 (drop s dest)" dest] r by auto
  have l1: "length dest1 = length dest" using o1(1) by (rule same_outside_length)
  have near: "dest1 ! j = dest1 ! (j - (d - s))" if "s + 8 \<le> d" "d \<le> j" "j < d + 8" for j
  proof -
    have "dest1 ! j = dest ! (s + (j - d))" using o1(2) [of "j - d"] that by simp
    also have "s + (j - d) = j - (d - s)" using that 1(2) by simp
    also have "dest ! (j - (d - s)) = dest1 ! (j - (d - s))"
      using o1(1) that r 1(2) by (simp add: same_outside_def)
    finally show ?thesis .
  qed
  show ?case
  proof (cases "d + 8 < e")
    case True
    then have w: "wild (e - d) = 8 + wild (e - (d + 8))"
      using wild_step [of "e - d"] by simp
    obtain dest2 where ih: "LZ4_WILDCOPY (\<lambda>d. d) dest1 (d + 8) (s + 8) e =
        Some (dest2, d + 8 + wild (e - (d + 8)), s + 8 + wild (e - (d + 8)))"
      "same_outside (d + 8) (d + 8 + wild (e - (d + 8))) dest1 dest2"
      "s + 8 \<le> d \<Longrightarrow> (\<forall>j. d + 8 \<le> j \<and> j < d + 8 + wild (e - (d + 8)) \<longrightarrow> dest2 ! j = dest2 ! (j - (d - s)))"
      using 1(1) [OF x y True] 1(2,3) l1 unfolding w by auto
    have same: "same_outside d (d + wild (e - d)) dest dest2"
      using same_outside_trans [OF same_outside_mono [OF o1(1)] same_outside_mono [OF ih(2)]] w by simp
    have "dest2 ! j = dest2 ! (j - (d - s))" if "s + 8 \<le> d" "d \<le> j" "j < d + wild (e - d)" for j
    proof (cases "j < d + 8")
      case True
      then show ?thesis
        using near [OF that(1,2) True] ih(2) r l1 by (simp add: same_outside_def)
    next
      case False
      then show ?thesis using ih(3) that w by simp
    qed
    then show ?thesis
      using ih(1) same x y True w by (subst LZ4_WILDCOPY.simps) (simp add: add.assoc)
  next
    case False
    then have w: "wild (e - d) = 8" by (intro wild_last) simp
    have "LZ4_WILDCOPY (\<lambda>d. d) dest d s e = Some (dest1, d + 8, s + 8)"
      using False x y by (subst LZ4_WILDCOPY.simps) simp
    then show ?thesis
      using o1(1) near unfolding w by blast
  qed
qed

lemma copy_byte_ok:
  assumes "op < length dest" "ref < length dest"
  obtains dest' where "copy_byte dest op ref = Some dest'" "same_outside op (Suc op) dest dest'" "dest' ! op = dest ! ref"
proof -
  have "put dest op [dest ! ref] = Some (take op dest @ [dest ! ref] @ drop (Suc op) dest)"
    using assms(1) by (simp add: put_def)
  moreover from put_nth [OF this, of op] have "(take op dest @ [dest ! ref] @ drop (Suc op) dest) ! op = dest ! ref"
    using assms(1) by simp
  moreover have "same_outside op (Suc op) dest (take op dest @ [dest ! ref] @ drop (Suc op) dest)"
    using assms(1) by (auto simp: same_outside_def nth_append)
  ultimately show thesis using that assms(2) by (simp add: copy_byte_def rd8_def)
qed

lemma copy_bytes_ok:
  assumes "ref \<le> op" "cpy \<le> length dest"
  shows "\<exists>dest'. copy_bytes dest op ref cpy = Some dest' \<and> same_outside op (max op cpy) dest dest' \<and>
    (ref < op \<longrightarrow> (\<forall>j. op \<le> j \<and> j < cpy \<longrightarrow> dest' ! j = dest' ! (j - (op - ref))))"
  using assms
proof (induction dest op ref cpy rule: copy_bytes.induct)
  case (1 dest op ref cpy)
  show ?case
  proof (cases "op < cpy")
    case False
    then show ?thesis by (subst copy_bytes.simps) auto
  next
    case True
    obtain dest1 where c: "copy_byte dest op ref = Some dest1" "same_outside op (Suc op) dest dest1" "dest1 ! op = dest ! ref"
      by (rule copy_byte_ok [of op dest ref]) (use True 1(2,3) in simp_all)
    obtain dest2 where ih: "copy_bytes dest1 (op + 1) (ref + 1) cpy = Some dest2"
      "same_outside (op + 1) (max (op + 1) cpy) dest1 dest2"
      "ref < op \<Longrightarrow> \<forall>j. op + 1 \<le> j \<and> j < cpy \<longrightarrow> dest2 ! j = dest2 ! (j - (op - ref))"
      using 1(1) [OF True c(1)] 1(2,3) same_outside_length [OF c(2)] by auto
    have "same_outside op (max op cpy) dest dest2"
      using same_outside_trans [OF same_outside_mono [OF c(2)] same_outside_mono [OF ih(2)]] True by simp
    moreover have "dest2 ! op = dest2 ! ref" if "ref < op"
      using c ih(2) that True 1(3) by (simp add: same_outside_def)
    ultimately show ?thesis
      using ih(1,3) c(1) True by (subst copy_bytes.simps) (auto simp: Suc_le_eq dest: le_neq_implies_less)
  qed
qed

lemma copy_four:
  assumes "ref \<le> op" "op + 4 \<le> length dest"
  obtains m where "do { d \<leftarrow> copy_byte dest op ref; d \<leftarrow> copy_byte d (op + 1) (ref + 1);
      d \<leftarrow> copy_byte d (op + 2) (ref + 2); copy_byte d (op + 3) (ref + 3) } = Some m"
    "same_outside op (op + 4) dest m" "\<And>i. ref < op \<Longrightarrow> i < 4 \<Longrightarrow> m ! (op + i) = m ! (ref + i)"
proof -
  obtain a where a: "copy_byte dest op ref = Some a" "same_outside op (Suc op) dest a" "a ! op = dest ! ref"
    by (rule copy_byte_ok [of op dest ref]) (use assms in simp_all)
  note la = same_outside_length [OF a(2)]
  obtain b where b: "copy_byte a (op + 1) (ref + 1) = Some b" "same_outside (op + 1) (Suc (op + 1)) a b" "b ! (op + 1) = a ! (ref + 1)"
    by (rule copy_byte_ok [of "op + 1" a "ref + 1"]) (use assms la in simp_all)
  note lb = same_outside_length [OF b(2)]
  obtain c where c: "copy_byte b (op + 2) (ref + 2) = Some c" "same_outside (op + 2) (Suc (op + 2)) b c" "c ! (op + 2) = b ! (ref + 2)"
    by (rule copy_byte_ok [of "op + 2" b "ref + 2"]) (use assms la lb in simp_all)
  note lc = same_outside_length [OF c(2)]
  obtain m where m: "copy_byte c (op + 3) (ref + 3) = Some m" "same_outside (op + 3) (Suc (op + 3)) c m" "m ! (op + 3) = c ! (ref + 3)"
    by (rule copy_byte_ok [of "op + 3" c "ref + 3"]) (use assms la lb lc in simp_all)
  note lens = la lb lc same_outside_length [OF m(2)]
  have "same_outside op (op + 4) dest m"
    using a(2) b(2) c(2) m(2) by (auto simp: same_outside_def)
  moreover have "m ! (op + i) = m ! (ref + i)" if "ref < op" "i < 4" for i
  proof -
    consider "i = 0" | "i = 1" | "i = 2" | "i = 3" using \<open>i < 4\<close> by linarith
    then show ?thesis
      using a b c m \<open>ref < op\<close> assms lens by cases (auto simp: same_outside_def)
  qed
  ultimately show thesis using that a(1) b(1) c(1) m(1) by simp
qed

lemma match_start_near:
  assumes D: "op = ref + D" "D < 8" and fit: "op + 8 \<le> length dest"
  obtains m ref' where "match_start dest op ref = Some (m, op + 8, ref')" "same_outside op (op + 8) dest m"
    "ref' \<le> op + 8" "0 < D \<Longrightarrow> ref' + 8 \<le> op + 8" "0 < D \<Longrightarrow> op \<le> ref' + D" "0 < D \<Longrightarrow> (op + 8 - ref') mod D = 0"
    "\<And>j. 0 < D \<Longrightarrow> j < 8 \<Longrightarrow> m ! (op + j) = m ! (ref + j)"
proof -
  obtain m4 where m4: "do { d \<leftarrow> copy_byte dest op ref; d \<leftarrow> copy_byte d (op + 1) (ref + 1);
      d \<leftarrow> copy_byte d (op + 2) (ref + 2); copy_byte d (op + 3) (ref + 3) } = Some m4"
    "same_outside op (op + 4) dest m4" "\<And>i. ref < op \<Longrightarrow> i < 4 \<Longrightarrow> m4 ! (op + i) = m4 ! (ref + i)"
    by (rule copy_four [of ref op dest]) (use D fit in simp_all)
  note l4 = same_outside_length [OF m4(2)]
  define r2 where "r2 = nat (int (ref + 4) - dec32table ! D)"
  have cases: "D = 0 \<or> D = 1 \<or> D = 2 \<or> D = 3 \<or> D = 4 \<or> D = 5 \<or> D = 6 \<or> D = 7" using D(2) by linarith
  have r2: "r2 \<le> op + 4" "0 < D \<Longrightarrow> r2 \<le> op"
    using cases D(1) by (auto simp: r2_def dec32table_def)
  have sl: "slice m4 r2 4 = Some (take 4 (drop r2 m4))"
    using r2 fit l4 by (simp add: slice_def)
  obtain m where pm: "put m4 (op + 4) (take 4 (drop r2 m4)) = Some m" "same_outside (op + 4) (op + 8) m4 m"
      and pj: "\<And>j. j < 4 \<Longrightarrow> m ! (op + 4 + j) = m4 ! (r2 + j)"
    using put_ok [of "op + 4" "take 4 (drop r2 m4)" m4] r2 fit l4 by (auto simp: add.assoc)
  have keep: "m ! j = m4 ! j" if "j < op + 4" for j
    using pm(2) that fit l4 by (simp add: same_outside_def)
  have e: "m ! (op + j) = m ! (ref + j)" if "0 < D" "j < 4" for j
    using m4(3) [of j] that D(1) keep [of "op + j"] keep [of "ref + j"] by simp
  have f: "m ! (op + 4 + j) = m ! (r2 + j)" if "0 < D" "j < 4" for j
    using pj [OF that(2)] keep [of "r2 + j"] r2(2) that by simp
  show thesis
  proof (rule that)
    show "match_start dest op ref = Some (m, op + 8, nat (int r2 - dec64table ! D))"
      using m4(1) sl pm(1) D unfolding match_start_def r2_def by (auto simp: Let_def option_simps)
    show "same_outside op (op + 8) dest m"
      using same_outside_trans [OF same_outside_mono [OF m4(2)] same_outside_mono [OF pm(2)]] by simp
    show "nat (int r2 - dec64table ! D) \<le> op + 8" "0 < D \<Longrightarrow> nat (int r2 - dec64table ! D) + 8 \<le> op + 8"
      "0 < D \<Longrightarrow> op \<le> nat (int r2 - dec64table ! D) + D" "0 < D \<Longrightarrow> (op + 8 - nat (int r2 - dec64table ! D)) mod D = 0"
      using cases D(1) by (auto simp: r2_def dec32table_def dec64table_def nat_diff_distrib' nat_add_distrib)
    fix j :: nat assume j: "0 < D" "j < 8"
    show "m ! (op + j) = m ! (ref + j)"
    proof (cases "j < 4")
      case False
      then have "j = 4 \<or> j = 5 \<or> j = 6 \<or> j = 7" using j(2) by linarith
      moreover have "D \<ge> 4 \<Longrightarrow> r2 = ref + 4" "D = 1 \<Longrightarrow> r2 = ref + 1" "D = 2 \<Longrightarrow> r2 = ref + 2" "D = 3 \<Longrightarrow> r2 = ref + 1"
        using cases by (auto simp: r2_def dec32table_def)
      moreover have "D = 1 \<or> D = 2 \<or> D = 3 \<or> 4 \<le> D" using j(1) by linarith
      ultimately show ?thesis
        using e [OF j(1), of 0] e [OF j(1), of 1] e [OF j(1), of 2] e [OF j(1), of 3]
          f [OF j(1), of 0] f [OF j(1), of 1] f [OF j(1), of 2] f [OF j(1), of 3]
        by (elim disjE) (simp_all add: D(1) eval_nat_numeral)
    qed (use e [OF j(1)] in simp)
  qed
qed

lemma match_start_ok:
  assumes "ref \<le> op" and fit: "op + 8 \<le> length dest"
  obtains m ref' where "match_start dest op ref = Some (m, op + 8, ref')" "same_outside op (op + 8) dest m"
    "ref' \<le> op + 8"
    "ref < op \<Longrightarrow> 8 \<le> op + 8 - ref' \<and> op + 8 - ref' \<le> 8 + (op - ref) \<and> (op + 8 - ref') mod (op - ref) = 0 \<and>
       (\<forall>j. op \<le> j \<and> j < op + 8 \<longrightarrow> m ! j = m ! (j - (op - ref)))"
proof (cases "op - ref < 8")
  case True
  have D: "op = ref + (op - ref)" using assms(1) by simp
  obtain m ref' where m: "match_start dest op ref = Some (m, op + 8, ref')" "same_outside op (op + 8) dest m"
    "ref' \<le> op + 8" "ref < op \<Longrightarrow> ref' + 8 \<le> op + 8" "ref < op \<Longrightarrow> op \<le> ref' + (op - ref)"
    "ref < op \<Longrightarrow> (op + 8 - ref') mod (op - ref) = 0" "\<And>j. ref < op \<Longrightarrow> j < 8 \<Longrightarrow> m ! (op + j) = m ! (ref + j)"
    by (rule match_start_near [OF D True fit]) auto
  have "m ! j = m ! (j - (op - ref))" if "ref < op" "op \<le> j" "j < op + 8" for j
    using m(7) [of "j - op"] that assms(1) by (auto simp: add.commute)
  then show thesis using m by (intro that [OF m(1,2,3)]) auto
next
  case False
  obtain m where m: "put dest op (take 8 (drop ref dest)) = Some m" "same_outside op (op + 8) dest m"
      and mj: "\<And>j. j < 8 \<Longrightarrow> m ! (op + j) = dest ! (ref + j)"
    using put_ok [of op "take 8 (drop ref dest)" dest] assms by auto
  have "m ! j = m ! (j - (op - ref))" if "op \<le> j" "j < op + 8" for j
  proof -
    have "m ! j = dest ! (ref + (j - op))" using mj [of "j - op"] that by simp
    moreover have "m ! (ref + (j - op)) = dest ! (ref + (j - op))"
      using m(2) that False fit by (simp add: same_outside_def)
    moreover have "ref + (j - op) = j - (op - ref)" using that assms(1) by simp
    ultimately show ?thesis by metis
  qed
  moreover have "match_start dest op ref = Some (m, op + 8, ref + 8)"
    using False m(1) assms by (simp add: match_start_def slice_def)
  ultimately show thesis
    using m(2) False assms by (intro that [of m "ref + 8"]) auto
qed

lemma mod_shift: "a + k * D \<le> i \<Longrightarrow> (i - k * D - a) mod D = (i - a) mod (D :: nat)"
proof -
  assume "a + k * D \<le> i"
  then have "i - a = (i - k * D - a) + k * D" by simp
  then show ?thesis by (metis mod_mult_self1)
qed

lemma periodic:
  fixes m :: buf
  assumes D: "0 < D" "D \<le> p" and near: "\<And>j. p \<le> j \<Longrightarrow> j < p + 8 \<Longrightarrow> m ! j = m ! (j - D)"
    and E: "E mod D = 0" "8 \<le> E" "E \<le> 8 + D" and far: "\<And>j. p + 8 \<le> j \<Longrightarrow> j < n \<Longrightarrow> m ! j = m ! (j - E)"
    and j: "p \<le> j" "j < n"
  shows "m ! j = m ! (j - D)"
proof -
  have closed: "m ! i = m ! (p - D + (i - (p - D)) mod D)" if "p - D \<le> i" "i < n" for i
    using that
  proof (induction i rule: less_induct)
    case (less i)
    consider "i < p" | "p \<le> i" "i < p + 8" | "p + 8 \<le> i" by linarith
    then show ?case
    proof cases
      case 1
      then show ?thesis using less.prems D by simp
    next
      case 2
      have "m ! i = m ! (i - D)" using near 2 by blast
      also have "\<dots> = m ! (p - D + (i - D - (p - D)) mod D)"
        using less.IH [of "i - D"] 2 D less.prems by simp
      also have "(i - D - (p - D)) mod D = (i - (p - D)) mod D"
        using mod_shift [of "p - D" 1 D i] 2 D by simp
      finally show ?thesis .
    next
      case 3
      obtain k where k: "E = k * D" using E(1) by (metis mod_0_imp_dvd dvdE mult.commute)
      have "m ! i = m ! (i - E)" using far 3 less.prems by blast
      also have "\<dots> = m ! (p - D + (i - E - (p - D)) mod D)"
        using less.IH [of "i - E"] 3 D E less.prems by simp
      also have "(i - E - (p - D)) mod D = (i - (p - D)) mod D"
        unfolding k using mod_shift [of "p - D" k D i] 3 E(3) D k by simp
      finally show ?thesis .
    qed
  qed
  have "p - D \<le> j - D" "j - D < n" using j by simp_all
  moreover have "(j - D - (p - D)) mod D = (j - (p - D)) mod D"
    using mod_shift [of "p - D" 1 D j] j D by simp
  ultimately show ?thesis using closed [of j] closed [of "j - D"] j by simp
qed

text \<open>The rest of a match: it stays inside the output and repeats what lies \<open>op - ref\<close> bytes back.\<close>

lemma match_rest_ok:
  assumes op: "ref \<le> op" "op + 4 \<le> oend" "oend \<le> length m" "op \<le> cpy + 4" and fin: "cpy + 5 \<le> oend"
    and sec: "cpy + 12 \<le> oend \<longrightarrow> op + 8 \<le> oend"
  obtains m' where "match_rest m (int oend) op ref cpy = Some (Some m')" "same_outside op oend m m'"
    "\<And>j. ref + 8 \<le> op \<Longrightarrow> op \<le> j \<Longrightarrow> j < cpy \<Longrightarrow> m' ! j = m' ! (j - (op - ref))"
proof (cases "oend < cpy + 12")
  case False
  have w: "op + wild (cpy - op) \<le> oend" "cpy \<le> op + wild (cpy - op)"
    using wild_bounds [of "cpy - op"] wild_last [of "cpy - op"] op False sec by (cases "op < cpy"; simp)+
  then obtain m' where m': "LZ4_WILDCOPY (\<lambda>d. d) m op ref cpy = Some (m', op + wild (cpy - op), ref + wild (cpy - op))"
    "same_outside op (op + wild (cpy - op)) m m'"
    "ref + 8 \<le> op \<longrightarrow> (\<forall>j. op \<le> j \<and> j < op + wild (cpy - op) \<longrightarrow> m' ! j = m' ! (j - (op - ref)))"
    using wildcopy_inside [OF op(1), of cpy m] op(3) by auto
  have "match_rest m (int oend) op ref cpy = Some (Some m')"
    using False m'(1) by (simp add: match_rest_def)
  then show thesis
    by (rule that) (use m'(2,3) w in \<open>auto intro: same_outside_mono\<close>)
next
  case True
  define op3 where "op3 = (if op + 8 < oend then op + wild (oend - 8 - op) else op)"
  have "\<exists>m3. (if int op + 8 < int oend then LZ4_WILDCOPY (\<lambda>d. d) m op ref (nat (int oend) - 8)
      else Some (m, op, ref)) = Some (m3, op3, ref + (op3 - op)) \<and> same_outside op op3 m m3 \<and>
    (ref + 8 \<le> op \<longrightarrow> (\<forall>j. op \<le> j \<and> j < op3 \<longrightarrow> m3 ! j = m3 ! (j - (op - ref))))"
  proof (cases "op + 8 < oend")
    case True
    then have "op + wild (oend - 8 - op) \<le> oend"
      using wild_bounds(4) [of "oend - 8 - op"] by simp
    then show ?thesis
      using wildcopy_inside [OF op(1), of "oend - 8" m] op(3) True by (auto simp: op3_def)
  next
    case False
    then show ?thesis by (simp add: op3_def)
  qed
  then obtain m3 where m3: "(if int op + 8 < int oend then LZ4_WILDCOPY (\<lambda>d. d) m op ref (nat (int oend) - 8)
      else Some (m, op, ref)) = Some (m3, op3, ref + (op3 - op))" "same_outside op op3 m m3"
    "ref + 8 \<le> op \<longrightarrow> (\<forall>j. op \<le> j \<and> j < op3 \<longrightarrow> m3 ! j = m3 ! (j - (op - ref)))" by blast
  have op3: "op \<le> op3" "op3 \<le> oend"
    using wild_bounds(4) [of "oend - 8 - op"] op(2) by (auto simp: op3_def)
  then have dist: "ref + (op3 - op) \<le> op3" "op3 - (ref + (op3 - op)) = op - ref" "ref + (op3 - op) < op3 \<longleftrightarrow> ref < op"
    using op(1) by auto
  have "cpy \<le> length m3" using fin op(3) same_outside_length [OF m3(2)] by simp
  then obtain m4 where m4: "copy_bytes m3 op3 (ref + (op3 - op)) cpy = Some m4" "same_outside op3 (max op3 cpy) m3 m4"
    "ref < op \<longrightarrow> (\<forall>j. op3 \<le> j \<and> j < cpy \<longrightarrow> m4 ! j = m4 ! (j - (op - ref)))"
    using copy_bytes_ok [OF dist(1), of cpy m3] unfolding dist(2,3) by blast
  have run: "match_rest m (int oend) op ref cpy = Some (Some m4)"
    using True fin m3(1) m4(1) by (simp add: match_rest_def)
  have same: "same_outside op oend m m4"
    using same_outside_trans [OF same_outside_mono [OF m3(2)] same_outside_mono [OF m4(2)]] op3 fin by simp
  have "m4 ! j = m4 ! (j - (op - ref))" if "ref + 8 \<le> op" "op \<le> j" "j < cpy" for j
  proof (cases "j < op3")
    case True
    then have "m4 ! j = m3 ! j" "m4 ! (j - (op - ref)) = m3 ! (j - (op - ref))"
      using m4(2) that(3) \<open>cpy \<le> length m3\<close> by (simp_all add: same_outside_def)
    then show ?thesis using m3(3) that True by simp
  next
    case False
    then show ?thesis using m4(3) that by simp
  qed
  then show thesis by (rule that [OF run same])
qed

lemma match_copy:
  assumes ref: "ref \<le> op" and op: "op + 12 \<le> oend" "oend \<le> length dest"
  obtains m ref' where "match_start dest op ref = Some (m, op + 8, ref')" "same_outside op oend dest m"
    "oend < op + len + 9 \<Longrightarrow> match_rest m (int oend) (op + 8) ref' (op + 8 + len - 4) = Some None"
    "op + len + 9 \<le> oend \<Longrightarrow> \<exists>m'. match_rest m (int oend) (op + 8) ref' (op + 8 + len - 4) = Some (Some m') \<and>
       same_outside op oend dest m' \<and>
       (ref < op \<longrightarrow> (\<forall>j. op \<le> j \<and> j < op + len + 4 \<longrightarrow> m' ! j = m' ! (j - (op - ref))))"
proof -
  obtain m ref' where m: "match_start dest op ref = Some (m, op + 8, ref')" "same_outside op (op + 8) dest m"
    "ref' \<le> op + 8"
    "ref < op \<Longrightarrow> 8 \<le> op + 8 - ref' \<and> op + 8 - ref' \<le> 8 + (op - ref) \<and> (op + 8 - ref') mod (op - ref) = 0 \<and>
       (\<forall>j. op \<le> j \<and> j < op + 8 \<longrightarrow> m ! j = m ! (j - (op - ref)))"
    by (rule match_start_ok [OF ref, of dest]) (use op in auto)
  have same: "same_outside op oend dest m" using op(1) by (intro same_outside_mono [OF m(2)]) auto
  have lm: "length m = length dest" using m(2) by (rule same_outside_length)
  show thesis
  proof (rule that [OF m(1) same])
    assume "oend < op + len + 9"
    then show "match_rest m (int oend) (op + 8) ref' (op + 8 + len - 4) = Some None"
      by (simp add: match_rest_def)
  next
    assume fit: "op + len + 9 \<le> oend"
    have c: "op + 8 + len - 4 = op + len + 4" by simp
    obtain m' where m': "match_rest m (int oend) (op + 8) ref' (op + len + 4) = Some (Some m')"
      "same_outside (op + 8) oend m m'"
      "\<And>j. ref' + 8 \<le> op + 8 \<Longrightarrow> op + 8 \<le> j \<Longrightarrow> j < op + len + 4 \<Longrightarrow> m' ! j = m' ! (j - (op + 8 - ref'))"
      by (rule match_rest_ok [OF m(3), of oend m "op + len + 4"]) (use op fit lm in auto)
    have "m' ! j = m' ! (j - (op - ref))" if r: "ref < op" and j: "op \<le> j" "j < op + len + 4" for j
    proof (rule periodic [where p = op and E = "op + 8 - ref'" and n = "op + len + 4"])
      show "m' ! i = m' ! (i - (op - ref))" if "op \<le> i" "i < op + 8" for i
        using m(4) [OF r] that m'(2) op lm by (auto simp: same_outside_def)
      show "m' ! i = m' ! (i - (op + 8 - ref'))" if "op + 8 \<le> i" "i < op + len + 4" for i
        using m'(3) [of i] m(4) [OF r] that by auto
    qed (use m(4) [OF r] r j in auto)
    moreover have "same_outside op oend dest m'"
      using same_outside_trans [OF same same_outside_mono [OF m'(2)]] by simp
    ultimately show "\<exists>m'. match_rest m (int oend) (op + 8) ref' (op + 8 + len - 4) = Some (Some m') \<and>
       same_outside op oend dest m' \<and>
       (ref < op \<longrightarrow> (\<forall>j. op \<le> j \<and> j < op + len + 4 \<longrightarrow> m' ! j = m' ! (j - (op - ref))))"
      unfolding c using m'(1) by blast
  qed
qed

end
