(* ===== verification/Okr_Lz4Decode.thy ===== *)
theory Okr_Lz4Decode
  imports Okr_Lz4Copy
begin

unbundle bit_operations_syntax

text \<open>
  \<open>LZ4_decompress_safe\<close>: on any input it stays inside its two buffers, and on a block in the LZ4 format it
  gives the bytes that the block stands for.
\<close>

section \<open>Staying inside the buffers\<close>

lemma run_length_bounds:
  assumes "ip \<le> length src"
  obtains ip' len' where "run_length src (int (length src)) ip len = Some (ip', len')" "ip \<le> ip'" "ip' \<le> length src"
proof -
  have "\<exists>ip' len'. run_length src (int (length src)) ip len = Some (ip', len') \<and> ip \<le> ip' \<and> ip' \<le> length src"
    using assms
  proof (induction src "int (length src)" ip len rule: run_length.induct)
    case (1 src ip len)
    show ?case
    proof (cases "ip < length src")
      case True
      then have r: "rd8 src ip = Some (src ! ip)" "int ip < int (length src)" by (simp_all add: rd8_def)
      show ?thesis
      proof (cases "src ! ip = 255")
        case 255: True
        obtain ip' len' where "run_length src (int (length src)) (ip + 1) (len + unat (src ! ip)) = Some (ip', len')"
          "ip + 1 \<le> ip'" "ip' \<le> length src"
          using 1(1) [OF r(2,1) 255] True by auto
        then show ?thesis using r 255 by (subst run_length.simps) auto
      next
        case False
        then show ?thesis using r True by (subst run_length.simps) auto
      qed
    qed (use 1(2) in \<open>simp add: run_length.simps\<close>)
  qed
  then show thesis using that by blast
qed

lemma match_length_bounds:
  assumes "ip + 6 \<le> length src"
  obtains ip' len' where "match_length src (int (length src)) ip len = Some (ip', len')" "ip \<le> ip'" "ip' + 6 \<le> length src"
proof -
  have "\<exists>ip' len'. match_length src (int (length src)) ip len = Some (ip', len') \<and> ip \<le> ip' \<and> ip' + 6 \<le> length src"
    using assms
  proof (induction src "int (length src)" ip len rule: match_length.induct)
    case (1 src ip len)
    show ?case
    proof (cases "ip + 6 < length src")
      case True
      then have r: "rd8 src ip = Some (src ! ip)" "int ip + int (LASTLITERALS + 1) < int (length src)" by (simp_all add: rd8_def)
      show ?thesis
      proof (cases "src ! ip = 255")
        case 255: True
        obtain ip' len' where "match_length src (int (length src)) (ip + 1) (len + unat (src ! ip)) = Some (ip', len')"
          "ip + 1 \<le> ip'" "ip' + 6 \<le> length src"
          using 1(1) [OF r(2,1) 255] True by auto
        then show ?thesis using r 255 by (subst match_length.simps) auto
      next
        case False
        then show ?thesis using r True by (subst match_length.simps) auto
      qed
    qed (use 1(2) in \<open>simp add: match_length.simps\<close>)
  qed
  then show thesis using that by blast
qed

lemma literals_copied:
  assumes "op + len + 12 \<le> oend" "oend \<le> length dest" "ip + len + 8 \<le> length src"
  obtains m w where "LZ4_WILDCOPY (\<lambda>_. src) dest op ip (op + len) = Some (m, op + len + w, ip + len + w)"
    "same_outside op oend dest m" "take (op + len) m = take op dest @ take len (drop ip src)"
proof -
  let ?w = "wild len"
  have b: "op + ?w \<le> length dest" "ip + ?w \<le> length src" "op + ?w \<le> oend" "len \<le> ?w"
    using wild_bounds [of len] assms by linarith+
  let ?m = "take op dest @ take ?w (drop ip src) @ drop (op + ?w) dest"
  have "LZ4_WILDCOPY (\<lambda>_. src) dest op ip (op + len) = Some (?m, op + ?w, ip + ?w)"
    using wildcopy_source [of op "op + len" dest ip src] b(1,2) by simp
  moreover have "same_outside op oend dest ?m"
    using b by (auto simp: same_outside_def nth_append)
  moreover have "take (op + len) ?m = take op dest @ take len (drop ip src)"
    using b by simp
  ultimately show thesis using that [of ?m "?w - len"] b(4) by simp
qed

text \<open>One round of the main loop: the literals and the match of a sequence, cut short by an error.\<close>

definition token_run :: "buf \<Rightarrow> nat \<Rightarrow> byte \<Rightarrow> nat \<Rightarrow> nat \<Rightarrow> bool" where
  "token_run src ip token ip1 len \<longleftrightarrow> rd8 src ip = Some token \<and>
     (if unat (drop_bit 4 token) = 15 then run_length src (int (length src)) (ip + 1) 15
      else Some (ip + 1, unat (drop_bit 4 token))) = Some (ip1, len)"

definition token_match :: "buf \<Rightarrow> nat \<Rightarrow> byte \<Rightarrow> u16 \<Rightarrow> nat \<Rightarrow> nat \<Rightarrow> bool" where
  "token_match src ip token off ip3 ml \<longleftrightarrow> rd16 src ip = Some off \<and>
     (if unat (token AND 15) = 15 then match_length src (int (length src)) (ip + 2) 15
      else Some (ip + 2, unat (token AND 15))) = Some (ip3, ml)"

lemma token_run_ok:
  assumes "ip < length src"
  obtains token ip1 len where "token_run src ip token ip1 len" "ip < ip1" "ip1 \<le> length src"
proof -
  obtain ip' len' where "run_length src (int (length src)) (ip + 1) 15 = Some (ip', len')" "ip + 1 \<le> ip'" "ip' \<le> length src"
    using run_length_bounds [of "ip + 1" src 15] assms by auto
  then show thesis
    using that [of "src ! ip"] assms unfolding token_run_def rd8_def
    by (cases "unat (drop_bit 4 (src ! ip)) = 15") auto
qed

lemma token_match_ok:
  assumes "ip + 8 \<le> length src"
  obtains off ip3 ml where "token_match src ip token off ip3 ml" "ip + 2 \<le> ip3" "ip3 + 6 \<le> length src"
proof -
  obtain off where "rd16 src ip = Some off" using assms by (simp add: rd16_def rd_le_def)
  moreover obtain ip' len' where "match_length src (int (length src)) (ip + 2) 15 = Some (ip', len')" "ip + 2 \<le> ip'" "ip' + 6 \<le> length src"
    using match_length_bounds [of "ip + 2" src 15] assms by auto
  ultimately show thesis
    using that assms unfolding token_match_def by (cases "unat (token AND 15) = 15") auto
qed

lemma decompress_round:
  assumes run: "token_run src ip token ip1 len" and room: "op + len + 12 \<le> oend" "oend \<le> length dest" "ip1 + len + 8 \<le> length src"
    and mat: "token_match src (ip1 + len) token off ip3 ml" and off: "unat off \<le> op + len"
  shows "\<exists>m. same_outside op oend dest m \<and>
    (if oend < op + len + ml + 9
     then decompress_loop src (int (length src)) (int oend) ip op dest = Some (- int ip3 - 1, m)
     else decompress_loop src (int (length src)) (int oend) ip op dest
         = decompress_loop src (int (length src)) (int oend) ip3 (op + len + ml + 4) m \<and>
       take (op + len) m = take op dest @ take len (drop ip1 src) \<and>
       (0 < unat off \<longrightarrow> (\<forall>j. op + len \<le> j \<and> j < op + len + ml + 4 \<longrightarrow> m ! j = m ! (j - unat off))))"
proof -
  obtain m w where m: "LZ4_WILDCOPY (\<lambda>_. src) dest op ip1 (op + len) = Some (m, op + len + w, ip1 + len + w)"
    "same_outside op oend dest m" "take (op + len) m = take op dest @ take len (drop ip1 src)"
    by (rule literals_copied [OF room])
  have lm: "length m = length dest" using m(2) by (rule same_outside_length)
  have d: "op + len - (op + len - unat off) = unat off" "op + len - unat off < op + len \<longleftrightarrow> 0 < unat off" "op + len + ml + 4 = op + len + 8 + ml - 4"
    using off room(1) by auto
  obtain m2 ref2 where m2: "match_start m (op + len) (op + len - unat off) = Some (m2, op + len + 8, ref2)"
    "same_outside (op + len) oend m m2"
    "oend < op + len + ml + 9 \<Longrightarrow> match_rest m2 (int oend) (op + len + 8) ref2 (op + len + 8 + ml - 4) = Some None"
    "op + len + ml + 9 \<le> oend \<Longrightarrow> \<exists>m'. match_rest m2 (int oend) (op + len + 8) ref2 (op + len + 8 + ml - 4) = Some (Some m') \<and>
       same_outside (op + len) oend m m' \<and>
       (0 < unat off \<longrightarrow> (\<forall>j. op + len \<le> j \<and> j < op + len + ml + 4 \<longrightarrow> m' ! j = m' ! (j - unat off)))"
    by (rule match_copy [of "op + len - unat off" "op + len" oend m ml, unfolded d(1,2)]) (use room lm in auto)
  note step = run [unfolded token_run_def] room(1,3) m(1) mat [unfolded token_match_def] off m2(1)
  have trans: "same_outside op oend dest x" if "same_outside (op + len) oend m x" for x
    using same_outside_trans [OF m(2) same_outside_mono [OF that]] by simp
  show ?thesis
  proof (cases "oend < op + len + ml + 9")
    case True
    then have "decompress_loop src (int (length src)) (int oend) ip op dest = Some (- int ip3 - 1, m2)"
      using step m2(3) by (subst decompress_loop.simps) (auto simp: Let_def)
    then show ?thesis using True trans [OF m2(2)] by auto
  next
    case False
    then obtain m3 where m3: "match_rest m2 (int oend) (op + len + 8) ref2 (op + len + 8 + ml - 4) = Some (Some m3)"
      "same_outside (op + len) oend m m3"
      "0 < unat off \<longrightarrow> (\<forall>j. op + len \<le> j \<and> j < op + len + ml + 4 \<longrightarrow> m3 ! j = m3 ! (j - unat off))"
      using m2(4) by auto
    have "decompress_loop src (int (length src)) (int oend) ip op dest
        = decompress_loop src (int (length src)) (int oend) ip3 (op + len + ml + 4) m3"
      unfolding d(3) using step m3(1) by (subst decompress_loop.simps) (auto simp: Let_def)
    then show ?thesis
      using False trans [OF m3(2)] m3(3) same_outside_take [OF m3(2)] m(3) by auto
  qed
qed

lemma decompress_end:
  assumes run: "token_run src ip token ip1 len" and fin: "ip1 + len = length src" "op + len \<le> oend" "oend \<le> length dest"
  obtains m where "decompress_loop src (int (length src)) (int oend) ip op dest = Some (int (op + len), m)"
    "same_outside op oend dest m" "take (op + len) m = take op dest @ drop ip1 src"
proof -
  define x where "x = drop ip1 src"
  have x: "length x = len" "slice src ip1 len = Some x" using fin(1) by (auto simp: x_def slice_def)
  have "put dest op x = Some (take op dest @ x @ drop (op + len) dest)"
    using fin(2,3) unfolding put_def x(1) by simp
  then have run: "decompress_loop src (int (length src)) (int oend) ip op dest
      = Some (int (op + len), take op dest @ x @ drop (op + len) dest)"
    using run [unfolded token_run_def] fin x(2) by (subst decompress_loop.simps) auto
  show thesis
    by (rule that [OF run]) (use fin x in \<open>auto simp: same_outside_def nth_append simp flip: x_def\<close>)
qed

lemma decompress_loop_inside:
  assumes "ip < length src" "op \<le> oend" "oend \<le> length dest"
  shows "\<exists>r dest'. decompress_loop src (int (length src)) (int oend) ip op dest = Some (r, dest') \<and>
    r \<le> int oend \<and> same_outside 0 oend dest dest'"
  using assms
proof (induction "length src - ip" arbitrary: ip op dest rule: less_induct)
  case less
  obtain token ip1 len where run: "token_run src ip token ip1 len" "ip < ip1" "ip1 \<le> length src"
    by (rule token_run_ok [OF less.prems(1)])
  note run' = run(1) [unfolded token_run_def]
  show ?case
  proof (cases "oend < op + len + 12 \<or> length src < ip1 + len + 8")
    case True
    show ?thesis
    proof (cases "ip1 + len = length src \<and> op + len \<le> oend")
      case fin: True
      then obtain m where "decompress_loop src (int (length src)) (int oend) ip op dest = Some (int (op + len), m)"
        "same_outside op oend dest m"
        using decompress_end [OF run(1) _ _ less.prems(3), of op] by blast
      then show ?thesis using fin same_outside_mono [of op oend dest m 0 oend] by auto
    next
      case False
      then show ?thesis
        using run' True by (subst decompress_loop.simps) auto
    qed
  next
    case False
    then have room: "op + len + 12 \<le> oend" "ip1 + len + 8 \<le> length src" by simp_all
    obtain off ip3 ml where mat: "token_match src (ip1 + len) token off ip3 ml" "ip1 + len + 2 \<le> ip3" "ip3 + 6 \<le> length src"
      by (rule token_match_ok [OF room(2)])
    show ?thesis
    proof (cases "op + len < unat off")
      case True
      obtain m w where "LZ4_WILDCOPY (\<lambda>_. src) dest op ip1 (op + len) = Some (m, op + len + w, ip1 + len + w)"
        "same_outside op oend dest m"
        by (rule literals_copied [OF room(1) less.prems(3) room(2)])
      then show ?thesis
        using run' room mat(1) [unfolded token_match_def] True same_outside_mono [of op oend dest m 0 oend]
        by (subst decompress_loop.simps) (auto simp: Let_def)
    next
      case False
      then obtain m where m: "same_outside op oend dest m"
        "if oend < op + len + ml + 9
         then decompress_loop src (int (length src)) (int oend) ip op dest = Some (- int ip3 - 1, m)
         else decompress_loop src (int (length src)) (int oend) ip op dest
           = decompress_loop src (int (length src)) (int oend) ip3 (op + len + ml + 4) m"
        using decompress_round [OF run(1) room(1) less.prems(3) room(2) mat(1)] by (auto split: if_splits)
      have s: "same_outside 0 oend dest m" by (rule same_outside_mono [OF m(1)]) simp_all
      have "\<exists>r d. decompress_loop src (int (length src)) (int oend) ip3 (op + len + ml + 4) m = Some (r, d) \<and>
          r \<le> int oend \<and> same_outside 0 oend m d" if "op + len + ml + 9 \<le> oend"
        by (rule less.hyps) (use run(2,3) mat(2,3) that less.prems(3) same_outside_length [OF s] in simp_all)
      then show ?thesis
        using m(2) s same_outside_trans [OF s] by (cases "oend < op + len + ml + 9") auto
    qed
  qed
qed

text \<open>
  C7. On any bytes at all, such as a damaged unit of an image, \<open>LZ4_decompress_safe\<close> returns: it reads only
  inside its input, as long as that has a byte, and writes only below the limit of the output.
\<close>

theorem LZ4_decompress_safe_stays_inside:
  assumes "source \<noteq> []" and "n \<le> length dest"
  shows "\<exists>r dest'. LZ4_decompress_safe source dest (int (length source)) (int n) = Some (r, dest') \<and>
    r \<le> int n \<and> length dest' = length dest \<and> drop n dest' = drop n dest"
proof (cases "n = 0")
  case True
  then show ?thesis using assms(1) by (auto simp: LZ4_decompress_safe_def rd8_def)
next
  case False
  obtain r dest' where "decompress_loop source (int (length source)) (int n) 0 0 dest = Some (r, dest')" "r \<le> int n"
    "same_outside 0 n dest dest'"
    using decompress_loop_inside [of 0 source 0 n dest] assms by auto
  then show ?thesis
    using False same_outside_drop same_outside_length by (auto simp: LZ4_decompress_safe_def)
qed

text \<open>A block whose match lies in front of the output.\<close>

lemma LZ4_decompress_safe_stays_inside_witness:
  "\<exists>r dest'. LZ4_decompress_safe [0x10, 65, 9, 0, 0] (replicate 20 7) 5 12 = Some (r, dest') \<and>
     r \<le> 12 \<and> length dest' = 20 \<and> drop 12 dest' = replicate 8 7"
  using LZ4_decompress_safe_stays_inside [of "[0x10, 65, 9, 0, 0]" 12 "replicate 20 7"] by (simp add: numeral_eq_Suc)

section \<open>The format of a block\<close>

text \<open>A length beyond what the token holds continues in bytes of 255 and a last smaller byte.\<close>

definition len_ext :: "nat \<Rightarrow> buf" where
  "len_ext n = replicate (n div 255) 255 @ [of_nat (n mod 255)]"

definition len_more :: "nat \<Rightarrow> buf" where
  "len_more n = (if 15 \<le> n then len_ext (n - 15) else [])"

definition token_of :: "nat \<Rightarrow> nat \<Rightarrow> byte" where
  "token_of l m = of_nat (16 * min 15 l + min 15 m)"

definition seq_bytes :: "buf \<Rightarrow> nat \<Rightarrow> nat \<Rightarrow> buf" where
  "seq_bytes lits d m =
     token_of (length lits) m # len_more (length lits) @ lits @ le_bytes 2 (of_nat d :: u16) @ len_more m"

definition last_bytes :: "buf \<Rightarrow> buf" where
  "last_bytes lits = token_of (length lits) 0 # len_more (length lits) @ lits"

text \<open>A list of sequences stands for the bytes of \<open>body\<close> from \<open>a\<close> to \<open>b\<close>: each has a number of literals, a
  distance and the length of its match beyond four.\<close>

fun valid_seqs :: "buf \<Rightarrow> nat \<Rightarrow> (nat \<times> nat \<times> nat) list \<Rightarrow> nat \<Rightarrow> bool" where
  "valid_seqs body a [] b \<longleftrightarrow> a = b"
| "valid_seqs body a ((l, d, m) # s) b \<longleftrightarrow> 0 < d \<and> d < 2 ^ 16 \<and> d \<le> a + l \<and> a + l + 12 \<le> length body \<and>
     a + l + m + 9 \<le> length body \<and> (\<forall>j. a + l \<le> j \<and> j < a + l + m + 4 \<longrightarrow> body ! j = body ! (j - d)) \<and>
     valid_seqs body (a + l + m + 4) s b"

fun seqs_bytes :: "buf \<Rightarrow> nat \<Rightarrow> (nat \<times> nat \<times> nat) list \<Rightarrow> buf" where
  "seqs_bytes body a [] = []"
| "seqs_bytes body a ((l, d, m) # s) = seq_bytes (take l (drop a body)) d m @ seqs_bytes body (a + l + m + 4) s"

lemma len_ext_step: "255 \<le> n \<Longrightarrow> len_ext n = 255 # len_ext (n - 255)"
  by (simp add: len_ext_def le_div_geq le_mod_geq)

lemma len_ext_last: "n < 255 \<Longrightarrow> len_ext n = [of_nat n]"
  by (simp add: len_ext_def)

lemma unat_of_nat_byte: "n < 256 \<Longrightarrow> unat (of_nat n :: byte) = n"
  by (simp add: unat_of_nat take_bit_nat_eq_self)

lemma last_len_byte: "n < 255 \<Longrightarrow> (of_nat n :: byte) \<noteq> 255"
proof
  assume n: "n < 255" and "(of_nat n :: byte) = 255"
  then have "unat (of_nat n :: byte) = unat (255 :: byte)" by (simp only:)
  with n show False by (simp only: unat_of_nat_byte) simp
qed

lemma run_length_ext: "run_length (pre @ len_ext n @ t) (int (length (pre @ len_ext n @ t))) (length pre) acc =
    Some (length pre + length (len_ext n), acc + n)"
proof (induction n arbitrary: pre acc rule: less_induct)
  case (less n)
  let ?src = "pre @ len_ext n @ t"
  show ?case
  proof (cases "255 \<le> n")
    case True
    then have s: "?src = (pre @ [255]) @ len_ext (n - 255) @ t" by (simp add: len_ext_step)
    have "rd8 ?src (length pre) = Some 255" using True by (simp add: rd8_def len_ext_step)
    moreover have "run_length ?src (int (length ?src)) (length pre + 1) (acc + 255) =
        Some (length pre + 1 + length (len_ext (n - 255)), acc + 255 + (n - 255))"
      using less [of "n - 255" "pre @ [255]" "acc + 255"] True unfolding s by simp
    ultimately show ?thesis
      using True by (subst run_length.simps) (simp add: len_ext_step)
  next
    case False
    then have u: "unat (of_nat n :: byte) = n" "(of_nat n :: byte) \<noteq> 255"
      by (simp_all add: unat_of_nat_byte last_len_byte)
    have "rd8 ?src (length pre) = Some (of_nat n)" using False by (simp add: rd8_def len_ext_last nth_append)
    then show ?thesis
      using False u by (subst run_length.simps) (simp add: len_ext_last)
  qed
qed

lemma match_length_ext:
  assumes "6 \<le> length t"
  shows "match_length (pre @ len_ext n @ t) (int (length (pre @ len_ext n @ t))) (length pre) acc =
    Some (length pre + length (len_ext n), acc + n)"
proof (induction n arbitrary: pre acc rule: less_induct)
  case (less n)
  let ?src = "pre @ len_ext n @ t"
  show ?case
  proof (cases "255 \<le> n")
    case True
    then have s: "?src = (pre @ [255]) @ len_ext (n - 255) @ t" by (simp add: len_ext_step)
    have "rd8 ?src (length pre) = Some 255" using True by (simp add: rd8_def len_ext_step)
    moreover have "match_length ?src (int (length ?src)) (length pre + 1) (acc + 255) =
        Some (length pre + 1 + length (len_ext (n - 255)), acc + 255 + (n - 255))"
      using less [of "n - 255" "pre @ [255]" "acc + 255"] True unfolding s by simp
    ultimately show ?thesis
      using True assms by (subst match_length.simps) (simp add: len_ext_step)
  next
    case False
    then have u: "unat (of_nat n :: byte) = n" "(of_nat n :: byte) \<noteq> 255"
      by (simp_all add: unat_of_nat_byte last_len_byte)
    have "rd8 ?src (length pre) = Some (of_nat n)" using False by (simp add: rd8_def len_ext_last nth_append)
    then show ?thesis
      using False u assms by (subst match_length.simps) (simp add: len_ext_last)
  qed
qed

lemma token_fields: "unat (drop_bit 4 (token_of l m)) = min 15 l" "unat (token_of l m AND 15) = min 15 m"
proof -
  have u: "unat (token_of l m) = 16 * min 15 l + min 15 m"
    unfolding token_of_def by (rule unat_of_nat_byte) (simp add: min_def)
  have lt: "16 * min 15 l + min 15 m < 2 ^ 8" by (simp add: min_def)
  show "unat (drop_bit 4 (token_of l m)) = min 15 l"
    unfolding unsigned_drop_bit_eq using u take_bit_nat_eq_self [OF lt] by (simp add: drop_bit_eq_div)
  have low: "token_of l m AND 15 = take_bit 4 (token_of l m)"
    by (simp add: take_bit_eq_mask mask_eq_exp_minus_1)
  show "unat (token_of l m AND 15) = min 15 m"
    unfolding low unsigned_take_bit_eq u by (simp add: take_bit_eq_mod)
qed


lemma token_run_format:
  assumes src: "src = pre @ token_of l m # len_more l @ t"
  shows "token_run src (length pre) (token_of l m) (length pre + 1 + length (len_more l)) l"
proof -
  have r: "rd8 src (length pre) = Some (token_of l m)" by (simp add: src rd8_def)
  show ?thesis
  proof (cases "15 \<le> l")
    case True
    then have "src = (pre @ [token_of l m]) @ len_ext (l - 15) @ t" by (simp add: src len_more_def)
    from run_length_ext [of "pre @ [token_of l m]" "l - 15" t 15, folded this] True r show ?thesis
      by (simp add: token_run_def token_fields len_more_def)
  qed (use r in \<open>simp add: token_run_def token_fields len_more_def\<close>)
qed

lemma token_match_format:
  assumes src: "src = pre @ le_bytes 2 (of_nat d :: u16) @ len_more m @ t" and "6 \<le> length t"
  shows "token_match src (length pre) (token_of l m) (of_nat d) (length pre + 2 + length (len_more m)) m"
proof -
  have r: "rd16 src (length pre) = Some (of_nat d)" by (simp add: src rd16_def rd_le_def)
  show ?thesis
  proof (cases "15 \<le> m")
    case True
    then have "src = (pre @ le_bytes 2 (of_nat d :: u16)) @ len_ext (m - 15) @ t" by (simp add: src len_more_def)
    from match_length_ext [OF assms(2), of "pre @ le_bytes 2 (of_nat d :: u16)" "m - 15" 15, folded this] True r show ?thesis
      by (simp add: token_match_def token_fields len_more_def)
  qed (use r in \<open>simp add: token_match_def token_fields len_more_def\<close>)
qed

lemma valid_seqs_end: "valid_seqs bytes a s b \<Longrightarrow> a + 5 \<le> length bytes \<Longrightarrow> b + 5 \<le> length bytes"
  by (induction bytes a s b rule: valid_seqs.induct) auto

text \<open>Memory that agrees with a body up to \<open>p\<close> and repeats itself as the body does agrees further.\<close>

lemma repeats_agree:
  fixes m body :: buf
  assumes p: "take p m = take p body" "p \<le> length body" "p \<le> length m" and q: "q \<le> length body" "q \<le> length m"
    and d: "0 < d" "d \<le> p"
    and m: "\<And>j. p \<le> j \<Longrightarrow> j < q \<Longrightarrow> m ! j = m ! (j - d)" and t: "\<And>j. p \<le> j \<Longrightarrow> j < q \<Longrightarrow> body ! j = body ! (j - d)"
  shows "take q m = take q body"
proof (rule nth_equalityI)
  have eq: "j < q \<Longrightarrow> m ! j = body ! j" for j
  proof (induction j rule: less_induct)
    case (less j)
    show ?case
    proof (cases "j < p")
      case True
      then show ?thesis using p(1) by (metis nth_take)
    next
      case False
      then show ?thesis using less.IH [of "j - d"] m [of j] t [of j] less.prems d by simp
    qed
  qed
  fix j assume "j < length (take q m)"
  then show "take q m ! j = take q body ! j" using eq by simp
qed (use q in simp)

lemma decode_seqs:
  assumes "valid_seqs body a s b" and src: "src = pre @ seqs_bytes body a s @ last_bytes (drop b body)"
    and "a \<le> length body" and mem: "length body \<le> oend" "oend \<le> length dest" and "take a dest = take a body"
  shows "\<exists>dest'. decompress_loop src (int (length src)) (int oend) (length pre) a dest = Some (int (length body), dest') \<and>
    take (length body) dest' = body \<and> same_outside 0 oend dest dest'"
  using assms
proof (induction body a s b arbitrary: pre dest rule: valid_seqs.induct)
  case (1 body a b)
  let ?l = "length body - a"
  have run: "token_run src (length pre) (token_of ?l 0) (length pre + 1 + length (len_more ?l)) ?l"
    by (rule token_run_format [where t = "drop a body"]) (use 1 in \<open>simp add: last_bytes_def\<close>)
  obtain m where m: "decompress_loop src (int (length src)) (int oend) (length pre) a dest = Some (int (a + ?l), m)"
    "same_outside a oend dest m" "take (a + ?l) m = take a dest @ drop (length pre + 1 + length (len_more ?l)) src"
    by (rule decompress_end [OF run, of a oend dest]) (use 1 in \<open>auto simp: last_bytes_def\<close>)
  have "take (length body) m = body"
    using m(3) 1 by (simp add: last_bytes_def)
  then show ?case using m(1,2) 1(3) same_outside_mono [OF m(2), of 0 oend] by auto
next
  case (2 body a l d mm s b)
  let ?lits = "take l (drop a body)" and ?rest = "seqs_bytes body (a + l + mm + 4) s @ last_bytes (drop b body)"
  let ?T = "token_of l mm"
  have v: "0 < d" "d < 2 ^ 16" "d \<le> a + l" "a + l + 12 \<le> length body" "a + l + mm + 9 \<le> length body"
    "\<And>j. a + l \<le> j \<Longrightarrow> j < a + l + mm + 4 \<Longrightarrow> body ! j = body ! (j - d)" "valid_seqs body (a + l + mm + 4) s b"
    using 2(2) by auto
  have ll: "length ?lits = l" using v(4) by simp
  have rest: "6 \<le> length ?rest"
    using valid_seqs_end [OF v(7)] v(5) by (simp add: last_bytes_def)
  have s1: "src = pre @ ?T # len_more l @ ?lits @ le_bytes 2 (of_nat d :: u16) @ len_more mm @ ?rest"
    unfolding 2(3) seqs_bytes.simps seq_bytes_def ll by simp
  let ?ip1 = "length pre + 1 + length (len_more l)"
  have run: "token_run src (length pre) ?T ?ip1 l" by (rule token_run_format [OF s1])
  have mat: "token_match src (?ip1 + l) ?T (of_nat d) (?ip1 + l + 2 + length (len_more mm)) mm"
    using token_match_format [of src "pre @ ?T # len_more l @ ?lits" d mm ?rest l] s1 rest ll by (simp add: add.assoc)
  have ud: "unat (of_nat d :: u16) = d" using v(2) by (simp add: unat_of_nat take_bit_nat_eq_self)
  have room: "a + l + 12 \<le> oend" "?ip1 + l + 8 \<le> length src" "unat (of_nat d :: u16) \<le> a + l"
    using v(3,4) 2(5) rest ll ud by (simp_all add: s1)
  obtain m where m: "same_outside a oend dest m"
    "decompress_loop src (int (length src)) (int oend) (length pre) a dest
       = decompress_loop src (int (length src)) (int oend) (?ip1 + l + 2 + length (len_more mm)) (a + l + mm + 4) m"
    "take (a + l) m = take a dest @ take l (drop ?ip1 src)"
    "\<And>j. a + l \<le> j \<Longrightarrow> j < a + l + mm + 4 \<Longrightarrow> m ! j = m ! (j - d)"
    using decompress_round [OF run room(1) 2(6) room(2) mat room(3)] v(1,5) 2(5) ud by auto
  have lm: "length m = length dest" using m(1) by (rule same_outside_length)
  have "take (a + l) m = take (a + l) body"
    using m(3) 2(7) ll unfolding s1 by (simp add: take_add)
  then have tk: "take (a + l + mm + 4) m = take (a + l + mm + 4) body"
    by (rule repeats_agree [where d = d]) (use v m(4) lm 2(5,6) in auto)
  let ?pre = "pre @ seq_bytes ?lits d mm"
  have s2: "src = ?pre @ ?rest" using 2(3) by simp
  have pos: "?ip1 + l + 2 + length (len_more mm) = length ?pre"
    unfolding seq_bytes_def ll length_append length_Cons by simp
  have "a + l + mm + 4 \<le> length body" "oend \<le> length m" using v(5) lm 2(6) by simp_all
  then obtain dest' where "decompress_loop src (int (length src)) (int oend) (length ?pre) (a + l + mm + 4) m = Some (int (length body), dest')"
    "take (length body) dest' = body" "same_outside 0 oend m dest'"
    using 2(1) [OF v(7) s2 _ 2(5) _ tk] by blast
  moreover have "same_outside 0 oend dest m" by (rule same_outside_mono [OF m(1)]) simp_all
  ultimately show ?case
    using m(2) unfolding pos by (metis same_outside_trans)
qed

end
