(* ===== verification/Okr_Lz4Search.thy ===== *)
theory Okr_Lz4Search
  imports Okr_Lz4Decode
begin

unbundle bit_operations_syntax

text \<open>
  The parts of \<open>LZ4_compress_generic\<close>: the bytes that it writes for the lengths of a sequence, the
  comparison of eight bytes at a time (\<open>LZ4_NbCommonBytes\<close>), the hash table, which holds positions in
  front of the current one, and the search for a match.
\<close>

section \<open>Writing the bytes of a sequence\<close>

lemma put_here: "length xs \<le> length r \<Longrightarrow> put (out @ r) (length out) xs = Some (out @ xs @ drop (length xs) r)"
  by (simp add: put_def)

lemma length_len_ext [simp]: "length (len_ext n) = n div 255 + 1"
  by (simp add: len_ext_def)

lemma emit_length_bytes:
  "length (len_ext n) \<le> length r \<Longrightarrow> emit_length (out @ r) (length out) n =
     Some (out @ len_ext n @ drop (length (len_ext n)) r, length out + length (len_ext n))"
proof (induction n arbitrary: out r rule: less_induct)
  case (less n)
  have p: "put (out @ r) (length out) [x] = Some ((out @ [x]) @ drop 1 r)" for x
    using less.prems put_here [of "[x]" r out] by simp
  show ?case
  proof (cases "255 \<le> n")
    case True
    have "length (len_ext (n - 255)) \<le> length (drop 1 r)" using less.prems True by (simp add: len_ext_step)
    from less.IH [OF _ this, of "out @ [255]"] True show ?thesis
      by (subst emit_length.simps) (simp add: p len_ext_step)
  next
    case False
    then show ?thesis by (subst emit_length.simps) (simp add: p len_ext_last)
  qed
qed

lemma emit_match_length_bytes:
  "length (len_ext n) \<le> length r \<Longrightarrow> emit_match_length (out @ r) (length out) n =
     Some (out @ len_ext n @ drop (length (len_ext n)) r, length out + length (len_ext n))"
proof (induction n arbitrary: out r rule: less_induct)
  case (less n)
  have p: "put (out @ r) (length out) [x] = Some ((out @ [x]) @ drop 1 r)" if "r \<noteq> []" for x r and out :: buf
    using that put_here [of "[x]" r out] by (cases r) auto
  have ne: "r \<noteq> []" using less.prems by auto
  show ?case
  proof (cases "509 < n")
    case True
    then have e: "len_ext n = 255 # 255 # len_ext (n - 510)" by (simp add: len_ext_step)
    then have "length (len_ext (n - 510)) \<le> length (drop 2 r)" "drop 1 r \<noteq> []" using less.prems by auto
    moreover have "drop 1 (drop 1 r) = drop 2 r" by (simp add: numeral_2_eq_2)
    ultimately show ?thesis
      using less.IH [of "n - 510" "drop 2 r" "out @ [255, 255]"] True p [OF ne, of out 255] p [of "drop 1 r" "out @ [255]" 255]
      by (subst emit_match_length.simps) (simp add: e)
  next
    case False
    show ?thesis
    proof (cases "255 \<le> n")
      case True
      then have e: "len_ext n = [255, of_nat (n - 255)]" using False by (simp add: len_ext_step len_ext_last)
      then have "drop 1 r \<noteq> []" using less.prems by auto
      then show ?thesis
        using False True e p [OF ne, of out 255] p [of "drop 1 r" "out @ [255]" "of_nat (n - 255)"]
        by (subst emit_match_length.simps) simp
    next
      case False
      then show ?thesis using p [OF ne, of out "of_nat n"] by (subst emit_match_length.simps) (simp add: len_ext_last)
    qed
  qed
qed

lemma emit_run_bytes:
  assumes "1 + length (len_more n) \<le> length r"
  shows "emit_run (out @ r) (length out) n =
     Some (out @ token_of n 0 # len_more n @ drop (1 + length (len_more n)) r, length out + 1 + length (len_more n))"
proof -
  have p: "put (out @ r) (length out) [x] = Some ((out @ [x]) @ drop 1 r)" for x
    using assms put_here [of "[x]" r out] by simp
  have t: "push_bit 4 (of_nat (min 15 n)) = token_of n 0"
    by (simp add: token_of_def push_bit_eq_mult min_def mult.commute)
  show ?thesis
  proof (cases "15 \<le> n")
    case True
    then show ?thesis
      using p [of "token_of n 0"] t assms emit_length_bytes [of "n - 15" "drop 1 r" "out @ [token_of n 0]"]
      by (simp add: emit_run_def len_more_def)
  next
    case False
    then show ?thesis
      using p [of "token_of n 0"] t by (simp add: emit_run_def len_more_def)
  qed
qed

lemma emit_match_bytes:
  assumes "length (len_more n) \<le> length r"
  shows "emit_match (out @ token_of l 0 # mid @ r) (length out) (length out + 1 + length mid) n =
     Some (out @ token_of l n # mid @ len_more n @ drop (length (len_more n)) r, length out + 1 + length mid + length (len_more n))"
proof -
  have t: "token_of l 0 + of_nat (min 15 n) = token_of l n"
    by (simp add: token_of_def)
  have "rd8 (out @ token_of l 0 # mid @ r) (length out) = Some (token_of l 0)"
    by (simp add: rd8_def)
  moreover have "put (out @ token_of l 0 # mid @ r) (length out) [token_of l n] = Some (out @ token_of l n # mid @ r)"
    by (simp add: put_def)
  ultimately show ?thesis
    using t assms emit_match_length_bytes [of "n - 15" r "out @ token_of l n # mid"]
    by (cases "15 \<le> n") (auto simp: emit_match_def len_more_def min_def)
qed

section \<open>Counting equal bytes\<close>

lemma bit_le_word:
  assumes "8 * length bs \<le> LENGTH('a::len)"
  shows "bit (le_word bs :: 'a word) i \<longleftrightarrow> i div 8 < length bs \<and> bit (bs ! (i div 8)) (i mod 8)"
  using assms
proof (induction bs arbitrary: i)
  case (Cons b bs)
  have "256 * le_word bs = push_bit 8 (le_word bs :: 'a word)" by (simp add: push_bit_eq_mult mult.commute)
  moreover have "ucast b AND push_bit 8 (le_word bs :: 'a word) = 0"
    by (rule bit_word_eqI) (auto simp: bit_simps dest: bit_imp_le_length)
  ultimately have "le_word (b # bs) = ucast b OR push_bit 8 (le_word bs :: 'a word)"
    by (simp add: disjunctive_add_eq_or)
  then have s: "bit (le_word (b # bs) :: 'a word) i \<longleftrightarrow> (i < LENGTH('a) \<and> i < 8 \<and> bit b i) \<or> (8 \<le> i \<and> i < LENGTH('a) \<and> bit (le_word bs :: 'a word) (i - 8))"
    by (auto simp: bit_simps dest: bit_imp_le_length)
  show ?case
  proof (cases "i < 8")
    case True
    then show ?thesis using s Cons.prems by auto
  next
    case False
    then have "i div 8 = Suc ((i - 8) div 8)" "i mod 8 = (i - 8) mod 8"
      by (simp_all add: le_div_geq le_mod_geq)
    then show ?thesis
      using s False Cons.IH [of "i - 8"] Cons.prems by (auto dest: bit_imp_le_length)
  qed
qed simp


lemma le_word_inj:
  assumes "8 * length xs \<le> LENGTH('a::len)" "length ys = length xs"
  shows "(le_word xs :: 'a word) = le_word ys \<longleftrightarrow> xs = ys"
proof
  assume eq: "(le_word xs :: 'a word) = le_word ys"
  show "xs = ys"
  proof (rule nth_equalityI)
    fix i assume i: "i < length xs"
    show "xs ! i = ys ! i"
    proof (rule bit_word_eqI)
      fix n assume "n < LENGTH(8)"
      then have "(8 * i + n) div 8 = i" "(8 * i + n) mod 8 = n" by simp_all
      then show "bit (xs ! i) n \<longleftrightarrow> bit (ys ! i) n"
        using bit_le_word [where 'a = 'a, of xs "8 * i + n"] bit_le_word [where 'a = 'a, of ys "8 * i + n"] eq assms i by simp
    qed
  qed (simp add: assms(2))
qed simp

lemma takeWhile_upt:
  assumes "k < n" "\<And>i. i < k \<Longrightarrow> P i" "\<not> P k"
  shows "takeWhile P [0..<n] = [0..<k]"
proof -
  have "[0..<n] = [0..<k] @ k # [Suc k..<n]" using assms(1) upt_add_eq_append [of 0 k "n - k"] by (simp add: upt_conv_Cons)
  moreover have "takeWhile P ([0..<k] @ k # [Suc k..<n]) = [0..<k] @ takeWhile P (k # [Suc k..<n])"
    by (rule takeWhile_append2) (use assms(2) in simp)
  ultimately show ?thesis using assms(3) by simp
qed

lemma LZ4_NbCommonBytes_prefix:
  fixes xs ys :: buf
  assumes "length xs = 8" "length ys = 8" "k < 8" "\<And>i. i < k \<Longrightarrow> xs ! i = ys ! i" "xs ! k \<noteq> ys ! k"
  shows "LZ4_NbCommonBytes (le_word xs XOR le_word ys) = k"
proof -
  let ?v = "le_word xs XOR le_word ys :: u64"
  have bit: "bit ?v i \<longleftrightarrow> i div 8 < 8 \<and> (bit (xs ! (i div 8)) (i mod 8) \<noteq> bit (ys ! (i div 8)) (i mod 8))" for i
    using bit_le_word [where 'a = 64, of xs i] bit_le_word [where 'a = 64, of ys i] assms(1,2) by (auto simp: bit_simps)
  define P where "P n \<longleftrightarrow> bit (xs ! k) n \<noteq> bit (ys ! k) n" for n
  have "\<exists>n. P n" using assms(5) bit_eqI [of "xs ! k" "ys ! k"] by (auto simp: P_def)
  define b where "b = (LEAST n. P n)"
  have b: "P b" "\<And>n. n < b \<Longrightarrow> \<not> P n"
    using \<open>\<exists>n. P n\<close> by (auto simp: b_def intro: LeastI dest: not_less_Least)
  have b8: "b < 8" using b(1) by (auto simp: P_def dest: bit_imp_le_length)
  have "takeWhile (\<lambda>i. \<not> bit ?v i) [0..<64] = [0..<8 * k + b]"
  proof (rule takeWhile_upt)
    show "8 * k + b < 64" using assms(3) b8 by simp
    have "(8 * k + b) div 8 = k" "(8 * k + b) mod 8 = b" using b8 by simp_all
    then show "\<not> \<not> bit ?v (8 * k + b)" using b(1) assms(3) by (simp add: bit P_def)
    fix i assume i: "i < 8 * k + b"
    show "\<not> bit ?v i"
    proof (cases "i div 8 < k")
      case True
      then show ?thesis using assms(4) by (simp add: bit)
    next
      case False
      have "i = 8 * (i div 8) + i mod 8" "i mod 8 < 8" by simp_all
      then have "i div 8 = k" "i mod 8 < b" using False i b8 by linarith+
      then show ?thesis using b(2) by (simp add: bit P_def)
    qed
  qed
  then show ?thesis unfolding LZ4_NbCommonBytes_def using b8 by simp
qed

text \<open>\<open>count_match\<close> finds exactly how far the bytes at the two positions agree, up to the limit.\<close>

definition agree :: "buf \<Rightarrow> nat \<Rightarrow> nat \<Rightarrow> nat \<Rightarrow> nat \<Rightarrow> bool" where
  "agree src lim ip ref k \<longleftrightarrow> ip + k \<le> lim \<and> (\<forall>j < k. src ! (ip + j) = src ! (ref + j)) \<and>
     (ip + k < lim \<longrightarrow> src ! (ip + k) \<noteq> src ! (ref + k))"

lemma agree_add:
  assumes "agree src lim (ip + n) (ref + n) k" "\<And>j. j < n \<Longrightarrow> src ! (ip + j) = src ! (ref + j)"
  shows "agree src lim ip ref (n + k)"
  unfolding agree_def
proof (intro conjI allI impI)
  fix j assume "j < n + k"
  then show "src ! (ip + j) = src ! (ref + j)"
    using assms unfolding agree_def by (cases "j < n") (auto simp: add.assoc dest!: spec [of _ "j - n"])
qed (use assms(1) in \<open>auto simp: agree_def add.assoc\<close>)

lemma bytes_eq_iff:
  assumes "8 * n \<le> LENGTH('a::len)" "i + n \<le> length src" "k + n \<le> length src"
  shows "(le_word (take n (drop i src)) :: 'a word) = le_word (take n (drop k src)) \<longleftrightarrow> (\<forall>j < n. src ! (i + j) = src ! (k + j))"
  using assms by (subst le_word_inj) (auto simp: list_eq_iff_nth_eq)


lemma count_tail:
  assumes lim: "lim \<le> length src" "ref \<le> ip" "ip \<le> lim" "lim \<le> ip + 7"
  obtains k where "count_match src lim ip ref = Some (ip + k)" "agree src lim ip ref k"
proof -
  define k4 where "k4 = (if ip + 3 < lim \<and> (\<forall>j < 4. src ! (ref + j) = src ! (ip + j)) then 4 else 0 :: nat)"
  define k2 where "k2 = (if ip + k4 + 1 < lim \<and> (\<forall>j < 2. src ! (ref + k4 + j) = src ! (ip + k4 + j)) then 2 else 0 :: nat)"
  define k1 where "k1 = (if ip + k4 + k2 < lim \<and> src ! (ref + k4 + k2) = src ! (ip + k4 + k2) then 1 else 0 :: nat)"
  have s4: "(if ip + 3 < lim then do { a \<leftarrow> rd32 src ref; b \<leftarrow> rd32 src ip; Some (if a = b then (ip + 4, ref + 4) else (ip, ref)) }
      else Some (ip, ref)) = Some (ip + k4, ref + k4)"
    using lim bytes_eq_iff [where 'a = 32, of 4 ref src ip] by (auto simp: k4_def rd32_def rd_le_def)
  have s2: "(if ip + k4 + 1 < lim then do { a \<leftarrow> rd16 src (ref + k4); b \<leftarrow> rd16 src (ip + k4);
        Some (if a = b then (ip + k4 + 2, ref + k4 + 2) else (ip + k4, ref + k4)) }
      else Some (ip + k4, ref + k4)) = Some (ip + k4 + k2, ref + k4 + k2)"
    using lim bytes_eq_iff [where 'a = 16, of 2 "ref + k4" src "ip + k4"] by (auto simp: k2_def rd16_def rd_le_def)
  have s1: "(if ip + k4 + k2 < lim then do { a \<leftarrow> rd8 src (ref + k4 + k2); b \<leftarrow> rd8 src (ip + k4 + k2);
        Some (if a = b then ip + k4 + k2 + 1 else ip + k4 + k2) } else Some (ip + k4 + k2)) = Some (ip + (k4 + k2 + k1))"
    using lim by (auto simp: k1_def rd8_def)
  have "count_match src lim ip ref = Some (ip + (k4 + k2 + k1))"
    using lim(4) s4 s2 s1 by (subst count_match.simps) simp
  moreover have "agree src lim ip ref (k4 + k2 + k1)"
    using lim(3,4) unfolding agree_def k1_def k2_def k4_def
    by (auto simp: numeral_eq_Suc All_less_Suc split: if_splits)
  ultimately show thesis using that by blast
qed

lemma xor_word_zero: "a XOR b = (0 :: 'a::len word) \<longleftrightarrow> a = b"
  by (auto simp: bit_eq_iff bit_simps)

lemma count_match_agree:
  assumes lim: "lim \<le> length src" "ref \<le> ip" "ip \<le> lim"
  shows "\<exists>k. count_match src lim ip ref = Some (ip + k) \<and> agree src lim ip ref k"
  using lim
proof (induction "lim - ip" arbitrary: ip ref rule: less_induct)
  case less
  show ?case
  proof (cases "ip + 7 < lim")
    case False
    then show ?thesis using count_tail [of lim src ref ip] less.prems by auto
  next
    case True
    let ?x = "take 8 (drop ref src)" and ?y = "take 8 (drop ip src)"
    have r: "rd64 src ref = Some (le_word ?x)" "rd64 src ip = Some (le_word ?y)"
      using True less.prems by (simp_all add: rd64_def rd_le_def)
    have l: "length ?x = 8" "length ?y = 8" using True less.prems by simp_all
    have nth: "?x ! j = src ! (ref + j)" "?y ! j = src ! (ip + j)" if "j < 8" for j
      using that True less.prems by simp_all
    show ?thesis
    proof (cases "?x = ?y")
      case eq: True
      have "src ! (ip + j) = src ! (ref + j)" if "j < 8" for j
        using nth [OF that] eq by simp
      moreover obtain k where "count_match src lim (ip + 8) (ref + 8) = Some (ip + 8 + k)" "agree src lim (ip + 8) (ref + 8) k"
      proof -
        have "lim - (ip + 8) < lim - ip" "ref + 8 \<le> ip + 8" "ip + 8 \<le> lim" using True less.prems by linarith+
        from less.hyps [OF this(1) less.prems(1) this(2,3)] that show thesis by blast
      qed
      moreover have "count_match src lim ip ref = count_match src lim (ip + 8) (ref + 8)"
        using True r eq by (subst count_match.simps) simp
      ultimately show ?thesis using agree_add [of src lim ip 8 ref k] by (auto simp: add.assoc)
    next
      case False
      define P where "P k \<longleftrightarrow> k < 8 \<and> ?x ! k \<noteq> ?y ! k" for k
      have ex: "\<exists>k. P k" using False l by (auto simp: P_def list_eq_iff_nth_eq)
      define k where "k = (LEAST k. P k)"
      have k: "P k" "\<And>j. j < k \<Longrightarrow> \<not> P j"
        using ex by (auto simp: k_def intro: LeastI dest: not_less_Least)
      then have k8: "k < 8" "?x ! k \<noteq> ?y ! k" "\<And>j. j < k \<Longrightarrow> ?x ! j = ?y ! j"
        by (auto simp: P_def)
      have "le_word ?x XOR le_word ?y \<noteq> (0 :: u64)"
        using le_word_inj [where 'a = 64, of ?x ?y] l False by (simp add: xor_word_zero)
      then have "count_match src lim ip ref = Some (ip + k)"
        using True r LZ4_NbCommonBytes_prefix [OF l k8(1) k8(3) k8(2)] by (subst count_match.simps) (simp add: Let_def)
      moreover have "agree src lim ip ref k"
        using k8 nth True by (auto simp: agree_def)
      ultimately show ?thesis by blast
    qed
  qed
qed

section \<open>The hash table\<close>

definition cells :: "tableType_t \<Rightarrow> nat" where
  "cells tt = (if tt = byU16 then 8192 else 4096)"

text \<open>Every entry is a position below \<open>lim\<close>.\<close>

definition table_ok :: "tableType_t \<Rightarrow> nat \<Rightarrow> u32 list \<Rightarrow> bool" where
  "table_ok tt lim table \<longleftrightarrow> length table = cells tt \<and> (\<forall>x \<in> set table. unat x < lim)"

definition positions :: "tableType_t \<Rightarrow> nat \<Rightarrow> bool" where
  "positions tt n \<longleftrightarrow> n \<le> (if tt = byU16 then 2 ^ 16 else 2 ^ 32)"

lemma table_ok_mono: "table_ok tt lim table \<Longrightarrow> lim \<le> lim' \<Longrightarrow> table_ok tt lim' table"
  by (force simp: table_ok_def)

lemma hash_in_table: "LZ4_hashSequence s tt < cells tt"
proof -
  have u: "unat (s * 2654435761) < 2 ^ 32" using unsigned_less [of "s * 2654435761", where 'a = nat] by simp
  then have "unat (drop_bit 19 (s * 2654435761)) < 8192" "unat (drop_bit 20 (s * 2654435761)) < 4096"
    by (simp_all add: unsigned_drop_bit_eq drop_bit_eq_div take_bit_nat_eq_self div_less_iff_less_mult)
  then show ?thesis by (simp add: LZ4_hashSequence_def cells_def)
qed

lemma LZ4_hashPosition_ok:
  assumes "p + 4 \<le> length src"
  obtains h where "LZ4_hashPosition src p tt = Some h" "h < cells tt"
  using assms hash_in_table by (auto simp: LZ4_hashPosition_def rd32_def rd_le_def)

lemma LZ4_putPositionOnHash_ok:
  assumes "table_ok tt lim table" "h < cells tt" "p < lim" "positions tt lim"
  obtains table' where "LZ4_putPositionOnHash p h table tt = Some table'" "table_ok tt lim table'"
proof -
  define w :: u32 where "w = (case tt of byU32 \<Rightarrow> of_nat p | byU16 \<Rightarrow> ucast (of_nat p :: u16))"
  have "unat w = p"
    using assms(3,4) by (cases tt) (auto simp: w_def positions_def unat_of_nat_u32 unat_of_nat take_bit_nat_eq_self)
  then have "table_ok tt lim (table[h := w])"
    using assms(1,3) set_update_subset_insert [of table h w] by (auto simp: table_ok_def)
  then show thesis using that assms(1,2) by (auto simp: LZ4_putPositionOnHash_def w_def table_ok_def)
qed

lemma LZ4_getPositionOnHash_ok:
  assumes "table_ok tt lim table" "h < cells tt"
  obtains ref where "LZ4_getPositionOnHash h table = Some ref" "ref < lim"
  using assms by (auto simp: LZ4_getPositionOnHash_def table_ok_def)

lemma LZ4_putPosition_ok:
  assumes "table_ok tt lim table" "p < lim" "positions tt lim" "p + 4 \<le> length src"
  obtains table' where "LZ4_putPosition src p table tt = Some table'" "table_ok tt lim table'"
proof -
  obtain h where "LZ4_hashPosition src p tt = Some h" "h < cells tt" by (rule LZ4_hashPosition_ok [OF assms(4)])
  then show thesis
    using LZ4_putPositionOnHash_ok [OF assms(1) _ assms(2,3)] that by (auto simp: LZ4_putPosition_def)
qed

lemma LZ4_getPosition_ok:
  assumes "table_ok tt lim table" "p + 4 \<le> length src"
  obtains ref where "LZ4_getPosition src p table tt = Some ref" "ref < lim"
proof -
  obtain h where "LZ4_hashPosition src p tt = Some h" "h < cells tt" by (rule LZ4_hashPosition_ok [OF assms(2)])
  then show thesis
    using LZ4_getPositionOnHash_ok [OF assms(1)] that by (auto simp: LZ4_getPosition_def)
qed

lemma LZ4_table_ok: "0 < lim \<Longrightarrow> table_ok tt lim (LZ4_table tt)"
  by (auto simp: table_ok_def LZ4_table_def cells_def)

section \<open>Searching\<close>

text \<open>A match at \<open>ip\<close>: an earlier position, not too far back, with the same four bytes.\<close>

definition is_match :: "buf \<Rightarrow> nat \<Rightarrow> nat \<Rightarrow> bool" where
  "is_match src ip ref \<longleftrightarrow> ref < ip \<and> ip \<le> ref + 65535 \<and> (\<forall>j < 4. src ! (ip + j) = src ! (ref + j))"

lemma four_bytes:
  assumes "ref < ip" "ip + 4 \<le> length src"
  shows "do { a \<leftarrow> rd32 src ref; b \<leftarrow> rd32 src ip; Some (a = b) } = Some (\<forall>j < 4. src ! (ip + j) = src ! (ref + j))"
    "do { a \<leftarrow> rd32 src ref; b \<leftarrow> rd32 src ip; Some (a \<noteq> b) } = Some (\<not> (\<forall>j < 4. src ! (ip + j) = src ! (ref + j)))"
  using assms bytes_eq_iff [where 'a = 32, of 4 ref src ip] by (auto simp: rd32_def rd_le_def)

lemma find_match_ok:
  assumes "table_ok tt forwardIp table" "forwardH < cells tt" "64 \<le> att" "mflimit + 4 \<le> length src" "positions tt (mflimit + 1)"
  shows "find_match src tt mflimit att forwardIp forwardH table = Some None \<or>
    (\<exists>ip ref table'. find_match src tt mflimit att forwardIp forwardH table = Some (Some (ip, ref, table')) \<and>
      forwardIp \<le> ip \<and> ip < mflimit \<and> is_match src ip ref \<and> table_ok tt (ip + 1) table')"
  using assms
proof (induction src tt mflimit att forwardIp forwardH table rule: find_match.induct)
  case (1 src tt mflimit att ip h table)
  let ?f = "ip + att div 2 ^ 6"
  have step: "0 < att div 2 ^ 6" using 1(4) by (simp add: div_greater_zero_iff)
  show ?case
  proof (cases "?f > mflimit")
    case True
    then show ?thesis by (subst find_match.simps) (simp add: Let_def)
  next
    case False
    have "?f + 4 \<le> length src" using False 1(5) by simp
    then obtain h' where h': "LZ4_hashPosition src ?f tt = Some h'" "h' < cells tt" by (rule LZ4_hashPosition_ok)
    obtain ref where ref: "LZ4_getPositionOnHash h table = Some ref" "ref < ip"
      by (rule LZ4_getPositionOnHash_ok [OF 1(2,3)])
    have pos: "positions tt (ip + 1)" using 1(6) False step by (auto simp: positions_def split: if_splits)
    obtain table' where t: "LZ4_putPositionOnHash ip h table tt = Some table'" "table_ok tt (ip + 1) table'"
      by (rule LZ4_putPositionOnHash_ok [of tt "ip + 1" table h ip]) (use 1(2,3) pos table_ok_mono in auto)
    define again where "again \<longleftrightarrow> ref + 65535 < ip \<or> \<not> (\<forall>j < 4. src ! (ip + j) = src ! (ref + j))"
    have a: "(if ref + 65535 < ip then Some True else do { a \<leftarrow> rd32 src ref; b \<leftarrow> rd32 src ip; Some (a \<noteq> b) }) = Some again"
      using four_bytes(2) [OF ref(2), of src] False 1(5) step by (auto simp: again_def)
    show ?thesis
    proof (cases again)
      case True
      have rec: "find_match src tt mflimit att ip h table = find_match src tt mflimit (att + 1) ?f h' table'"
        using False h'(1) ref(1) t(1) a True by (subst find_match.simps) (simp add: Let_def)
      have "table_ok tt ?f table'" by (rule table_ok_mono [OF t(2)]) (use step in simp)
      then show ?thesis
        using 1(1) [OF refl refl refl refl False h'(1) ref(1) t(1) a True] h'(2) 1(4,5,6) unfolding rec by fastforce
    next
      case no: False
      have "find_match src tt mflimit att ip h table = Some (Some (ip, ref, table'))"
        using False h'(1) ref(1) t(1) a no by (subst find_match.simps) (simp add: Let_def)
      then show ?thesis
        using no ref(2) False step t(2) by (auto simp: is_match_def again_def)
    qed
  qed
qed

lemma catch_up_ok:
  assumes "anchor \<le> ip" "ref < ip" "ip \<le> length src"
  shows "\<exists>k. catch_up src anchor ip ref = Some (ip - k, ref - k) \<and> k \<le> ref \<and> anchor + k \<le> ip \<and>
    (\<forall>j < k. src ! (ip - k + j) = src ! (ref - k + j))"
  using assms
proof (induction src anchor ip ref rule: catch_up.induct)
  case (1 src anchor ip ref)
  show ?case
  proof (cases "ip > anchor \<and> ref > 0 \<and> src ! (ip - 1) = src ! (ref - 1)")
    case True
    then have r: "rd8 src (ip - 1) = Some (src ! (ip - 1))" "rd8 src (ref - 1) = Some (src ! (ref - 1))"
      using 1 by (simp_all add: rd8_def)
    have c: "anchor < ip \<and> 0 < ref" "src ! (ip - 1) = src ! (ref - 1)" using True by simp_all
    obtain k where k: "catch_up src anchor (ip - 1) (ref - 1) = Some (ip - 1 - k, ref - 1 - k)" "k \<le> ref - 1" "anchor + k \<le> ip - 1"
      "\<forall>j < k. src ! (ip - 1 - k + j) = src ! (ref - 1 - k + j)"
    proof -
      have "anchor \<le> ip - 1" "ref - 1 < ip - 1" "ip - 1 \<le> length src" using 1(2-4) c(1) by linarith+
      from 1(1) [OF c(1) r(1) r(2) c(2) this] that show thesis by blast
    qed
    have "src ! (ip - Suc k + j) = src ! (ref - Suc k + j)" if "j < Suc k" for j
    proof (cases "j = k")
      case True
      have "ip - Suc k + k = ip - 1" "ref - Suc k + k = ref - 1" using k(2,3) c(1) by simp_all
      then show ?thesis using True c(2) by simp
    qed (use k(4) that in auto)
    moreover have "catch_up src anchor ip ref = Some (ip - Suc k, ref - Suc k)"
      using c r k(1) by (subst catch_up.simps) simp
    ultimately show ?thesis using k(2,3) c(1) by (intro exI [of _ "Suc k"]) auto
  next
    case False
    then have "catch_up src anchor ip ref = Some (ip, ref)"
      using 1(2-4) by (subst catch_up.simps) (auto simp: rd8_def)
    then show ?thesis using 1(2) by (intro exI [of _ 0]) simp
  qed
qed

end
