(* ===== verification/Okr_Lz4Encode.thy ===== *)
theory Okr_Lz4Encode
  imports Okr_Lz4Search
begin

unbundle bit_operations_syntax

text \<open>
  \<open>LZ4_compress\<close> writes a block in the LZ4 format whose sequences stand for its input, within the
  size of \<open>LZ4_COMPRESSBOUND\<close>, and \<open>LZ4_decompress_safe\<close> gives the input back.
\<close>

section \<open>The size of the output\<close>

abbreviation bound :: "nat \<Rightarrow> nat" where
  "bound n \<equiv> n + n div 255"

lemma length_len_more: "length (len_more n) \<le> n div 255 + 1" "length (len_more n) \<le> n"
proof -
  have "(n - 15) div 255 \<le> n div 255" by (rule div_le_mono) simp
  then show "length (len_more n) \<le> n div 255 + 1" by (simp add: len_more_def)
  have "(n - 15) div 255 \<le> n - 15" by (rule div_le_dividend)
  then show "length (len_more n) \<le> n" by (simp add: len_more_def) arith
qed

lemma bound_mono: "a \<le> b \<Longrightarrow> bound a \<le> bound b"
  by (simp add: add_le_mono div_le_mono)

lemma bound_add: "bound a + bound b \<le> bound (a + b)"
proof -
  have "(a div 255 + b div 255) * 255 \<le> a + b"
    using div_times_less_eq_dividend [of a 255] div_times_less_eq_dividend [of b 255] by (simp add: add_mult_distrib)
  then have "a div 255 + b div 255 \<le> (a + b) div 255" by (simp add: less_eq_div_iff_mult_less_eq)
  then show ?thesis by simp
qed

lemma seq_bytes_bound:
  assumes "length lits = l"
  shows "bound a + length (seq_bytes lits d m) \<le> bound (a + l + m + 4)"
proof -
  have "length (seq_bytes lits d m) \<le> bound l + m + 4"
    using length_len_more(1) [of l] length_len_more(2) [of m] by (simp add: seq_bytes_def assms)
  moreover have "bound a + bound l + (m + 4) \<le> bound (a + l + m + 4)"
    using bound_add [of a l] bound_add [of "a + l" "m + 4"] by simp
  ultimately show ?thesis by simp
qed

lemma seqs_bytes_bound: "valid_seqs body a s b \<Longrightarrow> bound a + length (seqs_bytes body a s) \<le> bound b"
proof (induction body a s b rule: valid_seqs.induct)
  case (2 body a l d m s b)
  have "length (take l (drop a body)) = l" using 2(2) by auto
  from seq_bytes_bound [OF this, of a d m] 2 show ?case by simp
qed simp

lemma valid_seqs_le: "valid_seqs body a s b \<Longrightarrow> a \<le> b"
  by (induction body a s b rule: valid_seqs.induct) auto

lemma valid_seqs_snoc:
  "valid_seqs body a s b \<Longrightarrow> valid_seqs body b [(l, d, m)] c \<Longrightarrow> valid_seqs body a (s @ [(l, d, m)]) c"
  by (induction body a s b rule: valid_seqs.induct) auto

lemma seqs_bytes_snoc:
  "valid_seqs body a s b \<Longrightarrow> seqs_bytes body a (s @ [(l, d, m)]) = seqs_bytes body a s @ seq_bytes (take l (drop b body)) d m"
  by (induction body a s b rule: valid_seqs.induct) auto

section \<open>The loops of the compressor\<close>

text \<open>The destination begins with the bytes of the sequences up to \<open>a\<close>.\<close>

definition emitted :: "buf \<Rightarrow> (nat \<times> nat \<times> nat) list \<Rightarrow> nat \<Rightarrow> nat \<Rightarrow> buf \<Rightarrow> bool" where
  "emitted src s a op dest \<longleftrightarrow> valid_seqs src 0 s a \<and> op = length (seqs_bytes src 0 s) \<and>
     bound (length src) + 16 \<le> length dest \<and> take op dest = seqs_bytes src 0 s"

lemma emitted_room: "emitted src s a op dest \<Longrightarrow> a \<le> length src \<Longrightarrow> op \<le> bound a \<and> op + 16 \<le> length dest"
  using seqs_bytes_bound [of src 0 s a] bound_mono [of a "length src"] by (simp add: emitted_def)

text \<open>One match, from the offset to the end of its length.\<close>

lemma match_step:
  assumes em: "valid_seqs src 0 s a" and dest: "dest = seqs_bytes src 0 s @ token_of l 0 # (len_more l @ take l (drop a src)) @ r"
    and cap: "bound (length src) + 16 \<le> length dest"
    and ip: "a + l = ip" "ip \<le> ip0" "ip0 + 12 \<le> length src" and ref: "ref < ip" "ip \<le> ref + 65535"
    and eq: "\<And>j. j < ip0 - ip + 4 \<Longrightarrow> src ! (ip + j) = src ! (ref + j)"
    and pos: "token = length (seqs_bytes src 0 s)" "op = token + 1 + length (len_more l) + l"
  obtains dest1 k dest2 op2 where "put dest op (le_bytes 2 (of_int (int ip - int ref) :: u16)) = Some dest1"
    "count_match src (length src - 5) (ip + 4) (ref + 4) = Some (ip + 4 + k)"
    "emit_match dest1 token (op + 2) k = Some (dest2, op2)"
    "emitted src (s @ [(l, ip - ref, k)]) (ip + 4 + k) op2 dest2" "length dest2 = length dest"
    "ip0 + 4 \<le> ip + 4 + k" "ip + 4 + k + 5 \<le> length src"
proof -
  let ?out = "seqs_bytes src 0 s" and ?lits = "take l (drop a src)" and ?d = "ip - ref"
  have ll: "length ?lits = l" using ip by simp
  obtain k where k: "count_match src (length src - 5) (ip + 4) (ref + 4) = Some (ip + 4 + k)"
    "agree src (length src - 5) (ip + 4) (ref + 4) k"
  proof -
    have "length src - 5 \<le> length src" "ref + 4 \<le> ip + 4" "ip + 4 \<le> length src - 5" using ref ip by linarith+
    from count_match_agree [OF this] that show thesis by blast
  qed
  have kmin: "ip0 - ip \<le> k"
  proof (rule ccontr)
    assume "\<not> ip0 - ip \<le> k"
    then have "ip + 4 + k < length src - 5" "src ! (ip + (4 + k)) = src ! (ref + (4 + k))"
      using ip eq [of "4 + k"] by simp_all
    then show False using k(2) by (simp add: agree_def add.assoc)
  qed
  have "ip + 4 + k \<le> length src - 5" using k(2) by (simp add: agree_def)
  then have kmax: "ip + 4 + k + 5 \<le> length src" using ip(3) by linarith
  have rep: "src ! j = src ! (j - ?d)" if "ip \<le> j" "j < ip + k + 4" for j
  proof -
    have "src ! (ip + (j - ip)) = src ! (ref + (j - ip))"
      using eq [of "j - ip"] k(2) that by (cases "j - ip < 4") (auto simp: agree_def dest!: spec [of _ "j - ip - 4"])
    moreover have "ref + (j - ip) = j - ?d" using that ref by simp
    ultimately show ?thesis using that by simp
  qed
  have v: "valid_seqs src 0 (s @ [(l, ?d, k)]) (ip + 4 + k)"
    by (rule valid_seqs_snoc [OF em]) (use ip ref kmax rep in auto)
  let ?bytes = "seqs_bytes src 0 (s @ [(l, ?d, k)])"
  have b: "?bytes = ?out @ token_of l k # len_more l @ ?lits @ le_bytes 2 (of_nat ?d :: u16) @ len_more k"
    using seqs_bytes_snoc [OF em, of l ?d k] ll by (simp add: seq_bytes_def)
  have "length ?bytes + 16 \<le> length dest"
    using seqs_bytes_bound [OF v] bound_mono [of "ip + 4 + k" "length src"] kmax cap by simp
  then have room: "2 \<le> length r" "length (len_more k) \<le> length (drop 2 r)"
    unfolding b using dest ll by simp_all
  have w: "(of_int (int ip - int ref) :: u16) = of_nat ?d" using ref(1) by (simp add: of_nat_diff)
  have opl: "op = length (?out @ token_of l 0 # len_more l @ ?lits)" using pos ll by simp
  let ?mid = "len_more l @ ?lits @ le_bytes 2 (of_nat ?d :: u16)"
  have p: "put dest op (le_bytes 2 (of_nat ?d :: u16)) = Some (?out @ token_of l 0 # ?mid @ drop 2 r)"
    using put_here [of "le_bytes 2 (of_nat ?d :: u16)" r "?out @ token_of l 0 # len_more l @ ?lits"] room(1)
    unfolding opl dest by simp
  let ?res = "?bytes @ drop (length (len_more k)) (drop 2 r)"
  have e: "emit_match (?out @ token_of l 0 # ?mid @ drop 2 r) token (op + 2) k = Some (?res, length ?bytes)"
    using emit_match_bytes [OF room(2), of ?out l ?mid] pos ll unfolding b by (simp add: add.assoc)
  show thesis
  proof (rule that [OF _ k(1) e])
    show "put dest op (le_bytes 2 (of_int (int ip - int ref) :: u16)) = Some (?out @ token_of l 0 # ?mid @ drop 2 r)"
      unfolding w by (rule p)
    show len: "length ?res = length dest"
      unfolding b using dest room ll by simp
    show "emitted src (s @ [(l, ?d, k)]) (ip + 4 + k) (length ?bytes) ?res"
      using v cap unfolding emitted_def len by simp
  qed (use kmin kmax ip in simp_all)
qed

text \<open>The state from which the search goes on, or the end of the chunk.\<close>

definition after_match :: "buf \<Rightarrow> tableType_t \<Rightarrow> nat \<Rightarrow> buf \<Rightarrow> nat \<times> nat \<times> buf \<times> u32 list option \<Rightarrow> bool" where
  "after_match src tt ip dest r \<longleftrightarrow> (case r of (ip', op', dest', next) \<Rightarrow>
     (\<exists>s'. emitted src s' ip' op' dest') \<and> length dest' = length dest \<and> ip < ip' \<and> ip' + 5 \<le> length src \<and>
     (case next of None \<Rightarrow> True | Some table \<Rightarrow> ip' + 12 \<le> length src \<and> table_ok tt (ip' + 1) table))"

lemma match_loop_ok:
  assumes src: "positions tt (length src - 11)"
  shows "\<lbrakk>valid_seqs src 0 s a; dest = seqs_bytes src 0 s @ token_of l 0 # (len_more l @ take l (drop a src)) @ r;
      bound (length src) + 16 \<le> length dest; a + l = ip; ip \<le> ip0; ip0 + 12 \<le> length src; ref < ip; ip \<le> ref + 65535;
      \<And>j. j < ip0 - ip + 4 \<Longrightarrow> src ! (ip + j) = src ! (ref + j); token = length (seqs_bytes src 0 s);
      op = token + 1 + length (len_more l) + l; table_ok tt (ip0 + 1) table\<rbrakk>
    \<Longrightarrow> \<exists>res. match_loop src tt (length src - 12) (length src - 5) ip ref token op dest table = Some res \<and>
      after_match src tt ip dest res"
proof (induction "length src - ip" arbitrary: s a dest l r ip ip0 ref token op table rule: less_induct)
  case less
  obtain dest1 k dest2 op2 where st: "put dest op (le_bytes 2 (of_int (int ip - int ref) :: u16)) = Some dest1"
    "count_match src (length src - 5) (ip + 4) (ref + 4) = Some (ip + 4 + k)"
    "emit_match dest1 token (op + 2) k = Some (dest2, op2)"
    "emitted src (s @ [(l, ip - ref, k)]) (ip + 4 + k) op2 dest2" "length dest2 = length dest"
    "ip0 + 4 \<le> ip + 4 + k" "ip + 4 + k + 5 \<le> length src"
    by (rule match_step [OF less.prems(1-11)])
  define ip' where "ip' = ip + 4 + k"
  define s' where "s' = s @ [(l, ip - ref, k)]"
  note st' = st(4-7) [folded ip'_def s'_def]
  have gt: "ip < ip'" "ip' - (ip + 4) = k" by (simp_all add: ip'_def)
  have first: "put dest op (le_bytes 2 (of_int (int ip - int ref) :: u16)) = Some dest1"
    "count_match src (length src - 5) (ip + 4) (ref + 4) = Some ip'"
    "emit_match dest1 token (op + 2) (ip' - (ip + 4)) = Some (dest2, op2)"
    using st(1-3) gt(2) by (simp_all add: ip'_def)
  show ?case
  proof (cases "ip' > length src - 12")
    case True
    then have "match_loop src tt (length src - 12) (length src - 5) ip ref token op dest table = Some (ip', op2, dest2, None)"
      using first by (subst match_loop.simps) (simp only: Let_def bind.simps if_True case_prod_conv)
    then show ?thesis using st' gt by (auto simp: after_match_def)
  next
    case False
    then have low: "ip' + 12 \<le> length src" using less.prems(6) by linarith
    have pos: "positions tt ip'" "positions tt (ip' + 1)"
      using src low by (auto simp: positions_def split: if_splits)
    have "table_ok tt ip' table" by (rule table_ok_mono [OF less.prems(12)]) (use st'(3) in simp)
    then obtain t1 where t1: "LZ4_putPosition src (ip' - 2) table tt = Some t1" "table_ok tt ip' t1"
      by (rule LZ4_putPosition_ok [of tt ip' table "ip' - 2" src]) (use gt pos low in auto)
    obtain ref' where ref': "LZ4_getPosition src ip' t1 tt = Some ref'" "ref' < ip'"
      by (rule LZ4_getPosition_ok [OF t1(2), of ip' src]) (use low in simp)
    obtain t2 where t2: "LZ4_putPosition src ip' t1 tt = Some t2" "table_ok tt (ip' + 1) t2"
      by (rule LZ4_putPosition_ok [of tt "ip' + 1" t1 ip' src]) (use table_ok_mono [OF t1(2)] pos low in auto)
    define hit where "hit \<longleftrightarrow> ip' \<le> ref' + 65535 \<and> (\<forall>j < 4. src ! (ip' + j) = src ! (ref' + j))"
    have h: "(if ip' \<le> ref' + 65535 then do { a \<leftarrow> rd32 src ref'; b \<leftarrow> rd32 src ip'; Some (a = b) } else Some False) = Some hit"
      using four_bytes(1) [OF ref'(2), of src] low by (auto simp: hit_def)
    have step: "match_loop src tt (length src - 12) (length src - 5) ip ref token op dest table =
        (if hit then do { d \<leftarrow> put dest2 op2 [0]; match_loop src tt (length src - 12) (length src - 5) ip' ref' op2 (op2 + 1) d t2 }
         else Some (ip', op2, dest2, Some t2))"
      using first False t1(1) ref'(1) t2(1) h by (subst match_loop.simps) (simp only: Let_def bind.simps if_False case_prod_conv)
    show ?thesis
    proof (cases hit)
      case no: False
      then show ?thesis using step st' gt low t2(2) by (auto simp: after_match_def)
    next
      case True
      obtain r2 where d2: "dest2 = seqs_bytes src 0 s' @ r2" "op2 = length (seqs_bytes src 0 s')"
        using st'(1) append_take_drop_id [of op2 dest2] unfolding emitted_def by metis
      have ne: "r2 \<noteq> []" using emitted_room [OF st'(1)] st'(4) d2 by auto
      have p: "put dest2 op2 [0] = Some (seqs_bytes src 0 s' @ token_of 0 0 # (len_more 0 @ take 0 (drop ip' src)) @ drop 1 r2)"
        using ne put_here [of "[0]" r2 "seqs_bytes src 0 s'"] unfolding d2 by (cases r2) (simp_all add: token_of_def len_more_def)
      have "\<exists>res. match_loop src tt (length src - 12) (length src - 5) ip' ref' op2 (op2 + 1)
          (seqs_bytes src 0 s' @ token_of 0 0 # (len_more 0 @ take 0 (drop ip' src)) @ drop 1 r2) t2 = Some res \<and>
        after_match src tt ip' (seqs_bytes src 0 s' @ token_of 0 0 # (len_more 0 @ take 0 (drop ip' src)) @ drop 1 r2) res"
        by (rule less.hyps [where ip0 = ip' and a = ip' and l = 0])
          (use gt low st' d2 ne True ref' t2 emitted_def in \<open>auto simp: hit_def len_more_def\<close>)
      moreover have "length (seqs_bytes src 0 s' @ token_of 0 0 # (len_more 0 @ take 0 (drop ip' src)) @ drop 1 r2) = length dest"
        using ne st'(2) d2(1) by (cases r2) (auto simp: len_more_def)
      ultimately show ?thesis using step True p gt by (auto simp: after_match_def)
    qed
  qed
qed

lemma wildcopy_here:
  assumes "wild l \<le> length t" "a + wild l \<le> length src"
  shows "LZ4_WILDCOPY (\<lambda>_. src) (h @ t) (length h) a (length h + l) =
    Some (h @ take (wild l) (drop a src) @ drop (wild l) t, length h + wild l, a + wild l)"
  using wildcopy_source [of "length h" "length h + l" "h @ t" a src] assms by simp

text \<open>The literals in front of a match: the token, its length and the copy in steps.\<close>

lemma literals_step:
  assumes em: "emitted src s a op dest" and l: "a + l + 8 \<le> length src"
  obtains dest1 op1 dest2 d' s' r where "emit_run dest op l = Some (dest1, op1)" "op1 = op + 1 + length (len_more l)"
    "LZ4_WILDCOPY (\<lambda>_. src) dest1 op1 a (op1 + l) = Some (dest2, d', s')"
    "dest2 = seqs_bytes src 0 s @ token_of l 0 # (len_more l @ take l (drop a src)) @ r" "length dest2 = length dest"
proof -
  let ?out = "seqs_bytes src 0 s"
  have v: "valid_seqs src 0 s a" "op = length ?out" using em by (auto simp: emitted_def)
  define r where "r = drop op dest"
  have dest: "dest = ?out @ r" using em append_take_drop_id [of op dest] unfolding emitted_def r_def by metis
  let ?head = "?out @ token_of l 0 # len_more l"
  have b: "bound a + bound l \<le> bound (a + l)" "bound (a + l) \<le> bound (length src)"
    using bound_add [of a l] bound_mono [of "a + l" "length src"] l by simp_all
  then have "length ?head + wild l \<le> length dest"
    using seqs_bytes_bound [OF v(1)] length_len_more(1) [of l] wild_bounds(3) [of l] em by (simp add: emitted_def)
  then have room: "1 + length (len_more l) \<le> length r" "wild l \<le> length (drop (1 + length (len_more l)) r)"
    unfolding dest by simp_all
  let ?d1 = "?head @ drop (1 + length (len_more l)) r"
  have run: "emit_run dest op l = Some (?d1, length ?head)"
    using emit_run_bytes [OF room(1), of ?out] unfolding dest v(2) by simp
  have wl: "a + wild l \<le> length src" "l \<le> wild l" using wild_bounds [of l] l by linarith+
  let ?rest = "drop l (take (wild l) (drop a src)) @ drop (wild l) (drop (1 + length (len_more l)) r)"
  have tk: "take (wild l) (drop a src) = take l (drop a src) @ drop l (take (wild l) (drop a src))"
    using wl(2) by (metis append_take_drop_id min.absorb1 take_take)
  have wc: "LZ4_WILDCOPY (\<lambda>_. src) ?d1 (length ?head) a (length ?head + l) =
      Some (?head @ take l (drop a src) @ ?rest, length ?head + wild l, a + wild l)"
    unfolding wildcopy_here [OF room(2) wl(1)] by (subst tk) simp
  have lits: "length (take (wild l) (drop a src)) = wild l" using wl(1) by simp
  show thesis
  proof (rule that [OF run _ wc])
    show "length ?head = op + 1 + length (len_more l)" by (simp add: v(2))
    show "?head @ take l (drop a src) @ ?rest = ?out @ token_of l 0 # (len_more l @ take l (drop a src)) @ ?rest" by simp
    have "length (take l (drop a src) @ ?rest) = length (take (wild l) (drop a src)) + length (drop (wild l) (drop (1 + length (len_more l)) r))"
      by (subst tk) simp
    also have "\<dots> = length r - (1 + length (len_more l))" using lits room(2) by simp
    finally have "length (take l (drop a src) @ ?rest) = length r - (1 + length (len_more l))" .
    then show "length (?head @ take l (drop a src) @ ?rest) = length dest"
      using room(1) unfolding dest length_append [of ?head] by simp
  qed
qed

lemma compress_loop_ok:
  assumes src: "positions tt (length src - 11)"
  shows "\<lbrakk>emitted src s a op dest; a + 12 \<le> length src; ip = a + 1; table_ok tt ip table; h < cells tt\<rbrakk>
    \<Longrightarrow> \<exists>s' a' op' dest'. compress_loop src tt (length src - 12) (length src - 5) a ip h table op dest = Some (a', op', dest') \<and>
      emitted src s' a' op' dest' \<and> length dest' = length dest \<and> a' \<le> length src"
proof (induction "length src - a" arbitrary: s a op dest ip h table rule: less_induct)
  case less
  have "length src - 12 + 1 = length src - 11" using less.prems(2) by simp
  then have "positions tt (length src - 12 + 1)" "length src - 12 + 4 \<le> length src"
    using src less.prems(2) by (simp_all only:)
  note find = find_match_ok [OF less.prems(4,5) _ this(2,1), of 67]
  show ?case
  proof (cases "find_match src tt (length src - 12) 67 ip h table = Some None")
    case True
    then show ?thesis
      using less.prems(1,2) by (subst compress_loop.simps) auto
  next
    case False
    then obtain ip0 ref0 t1 where f: "find_match src tt (length src - 12) 67 ip h table = Some (Some (ip0, ref0, t1))"
      "ip \<le> ip0" "ip0 < length src - 12" "is_match src ip0 ref0" "table_ok tt (ip0 + 1) t1" using find by auto
    have "a \<le> ip0" "ref0 < ip0" "ip0 \<le> length src" using f(2-4) less.prems(3) by (auto simp: is_match_def)
    then obtain k where k: "catch_up src a ip0 ref0 = Some (ip0 - k, ref0 - k)" "k \<le> ref0" "a + k \<le> ip0"
      "\<forall>j < k. src ! (ip0 - k + j) = src ! (ref0 - k + j)"
      using catch_up_ok [of a ip0 ref0 src] by blast
    define ip1 where "ip1 = ip0 - k"
    define ref1 where "ref1 = ref0 - k"
    define l where "l = ip1 - a"
    have i: "a + l = ip1" "ip1 \<le> ip0" "ip0 + 12 \<le> length src" "ref1 < ip1" "ip1 \<le> ref1 + 65535" "a + l + 8 \<le> length src"
      using k(2,3) f(3,4) by (auto simp: l_def ip1_def ref1_def is_match_def)
    have eq: "src ! (ip1 + j) = src ! (ref1 + j)" if "j < ip0 - ip1 + 4" for j
    proof (cases "j < k")
      case True
      then show ?thesis using k(4) by (simp add: ip1_def ref1_def)
    next
      case False
      have "j - k < 4" using that k(2,3) False by (simp add: ip1_def)
      then have "src ! (ip0 + (j - k)) = src ! (ref0 + (j - k))"
        using f(4) unfolding is_match_def by blast
      moreover have "ip0 + (j - k) = ip1 + j" "ref0 + (j - k) = ref1 + j" using False k(2,3) by (simp_all add: ip1_def ref1_def)
      ultimately show ?thesis by simp
    qed
    obtain dest1 op1 dest2 d' s' r where lit: "emit_run dest op l = Some (dest1, op1)" "op1 = op + 1 + length (len_more l)"
      "LZ4_WILDCOPY (\<lambda>_. src) dest1 op1 a (op1 + l) = Some (dest2, d', s')"
      "dest2 = seqs_bytes src 0 s @ token_of l 0 # (len_more l @ take l (drop a src)) @ r" "length dest2 = length dest"
      by (rule literals_step [OF less.prems(1) i(6)])
    have em: "valid_seqs src 0 s a" "op = length (seqs_bytes src 0 s)" "bound (length src) + 16 \<le> length dest2"
      using less.prems(1) lit(5) by (auto simp: emitted_def)
    have pos: "op1 + l = op + 1 + length (len_more l) + l" using lit(2) by simp
    obtain ip2 op2 dest3 nxt where m: "match_loop src tt (length src - 12) (length src - 5) ip1 ref1 op (op1 + l) dest2 t1 = Some (ip2, op2, dest3, nxt)"
      "after_match src tt ip1 dest2 (ip2, op2, dest3, nxt)"
      using match_loop_ok [OF src em(1) lit(4) em(3) i(1-5) eq em(2) pos f(5)] by (metis prod_cases4)
    have step: "compress_loop src tt (length src - 12) (length src - 5) a ip h table op dest =
       (case nxt of None \<Rightarrow> Some (ip2, op2, dest3)
        | Some table \<Rightarrow> do { h \<leftarrow> LZ4_hashPosition src (ip2 + 1) tt;
            compress_loop src tt (length src - 12) (length src - 5) ip2 (ip2 + 1) h table op2 dest3 })"
      using f(1) k(1) lit(1,3) m(1)
      by (subst compress_loop.simps) (cases nxt; simp add: ip1_def [symmetric] ref1_def [symmetric] l_def [symmetric])
    obtain s2 where s2: "emitted src s2 ip2 op2 dest3" "length dest3 = length dest" "ip1 < ip2" "ip2 + 5 \<le> length src"
      using m(2) lit(5) by (auto simp: after_match_def)
    show ?thesis
    proof (cases nxt)
      case None
      then show ?thesis using step s2 by auto
    next
      case (Some t2)
      then have t2: "ip2 + 12 \<le> length src" "table_ok tt (ip2 + 1) t2" using m(2) by (auto simp: after_match_def)
      obtain h2 where h2: "LZ4_hashPosition src (ip2 + 1) tt = Some h2" "h2 < cells tt"
        by (rule LZ4_hashPosition_ok [of "ip2 + 1" src tt]) (use t2(1) in simp_all)
      have "length src - ip2 < length src - a" using s2(3) i(1) less.prems(2) by linarith
      from less.hyps [OF this s2(1) t2(1) refl t2(2) h2(2)] s2(2) show ?thesis
        unfolding step Some using h2(1) by auto
    qed
  qed
qed

lemma last_literals_ok:
  assumes em: "emitted src s a op dest" and a: "a \<le> length src"
  obtains r where "last_literals src (length src) a op dest =
      Some (length (seqs_bytes src 0 s @ last_bytes (drop a src)), (seqs_bytes src 0 s @ last_bytes (drop a src)) @ r)"
    "length ((seqs_bytes src 0 s @ last_bytes (drop a src)) @ r) = length dest"
    "length (seqs_bytes src 0 s @ last_bytes (drop a src)) \<le> bound (length src) + 2"
proof -
  let ?out = "seqs_bytes src 0 s" and ?l = "length src - a"
  have v: "valid_seqs src 0 s a" "op = length ?out" using em by (auto simp: emitted_def)
  define r where "r = drop op dest"
  have dest: "dest = ?out @ r" using em append_take_drop_id [of op dest] unfolding emitted_def r_def by metis
  let ?all = "?out @ last_bytes (drop a src)"
  have size: "length ?all \<le> bound (length src) + 2"
  proof -
    have "length (last_bytes (drop a src)) = 1 + length (len_more ?l) + ?l" by (simp add: last_bytes_def)
    moreover have "bound a + bound ?l \<le> bound (length src)" using bound_add [of a ?l] a by simp
    ultimately show ?thesis
      using seqs_bytes_bound [OF v(1)] length_len_more(1) [of ?l] unfolding length_append by linarith
  qed
  moreover have "bound (length src) + 16 \<le> length dest" using em by (simp add: emitted_def)
  ultimately have room: "1 + length (len_more ?l) + ?l \<le> length r" unfolding dest by (simp add: last_bytes_def)
  let ?head = "?out @ token_of ?l 0 # len_more ?l"
  have "emit_run dest op ?l = Some (?head @ drop (1 + length (len_more ?l)) r, length ?head)"
    using emit_run_bytes [of ?l r ?out] room unfolding dest v(2) by simp
  moreover have "slice src a ?l = Some (drop a src)" using a by (simp add: slice_def)
  moreover have "put (?head @ drop (1 + length (len_more ?l)) r) (length ?head) (drop a src)
      = Some (?head @ drop a src @ drop ?l (drop (1 + length (len_more ?l)) r))"
    using put_here [of "drop a src" "drop (1 + length (len_more ?l)) r" ?head] room by simp
  ultimately have "last_literals src (length src) a op dest = Some (length ?all, ?all @ drop ?l (drop (1 + length (len_more ?l)) r))"
    unfolding last_literals_def by (simp add: last_bytes_def Let_def)
  then show thesis
    by (rule that) (use room size in \<open>simp_all add: dest last_bytes_def\<close>)
qed

lemma LZ4_compress_generic_ok:
  assumes n: "length src \<le> 0x7E000000" "tt = byU16 \<longrightarrow> length src < 65547" and cap: "bound (length src) + 16 \<le> length dest"
  obtains s a r where "LZ4_compress_generic src dest (int (length src)) tt =
      Some (length (seqs_bytes src 0 s @ last_bytes (drop a src)), (seqs_bytes src 0 s @ last_bytes (drop a src)) @ r)"
    "valid_seqs src 0 s a" "length ((seqs_bytes src 0 s @ last_bytes (drop a src)) @ r) = length dest"
    "length (seqs_bytes src 0 s @ last_bytes (drop a src)) \<le> bound (length src) + 2"
proof -
  have e0: "emitted src [] 0 0 dest" using cap by (simp add: emitted_def)
  have "\<exists>s a op dest'. (if length src < 13 then Some (0, 0, dest)
      else do { table \<leftarrow> LZ4_putPosition src 0 (LZ4_table tt) tt; h \<leftarrow> LZ4_hashPosition src 1 tt;
        compress_loop src tt (length src - 12) (length src - 5) 0 1 h table 0 dest }) = Some (a, op, dest') \<and>
    emitted src s a op dest' \<and> length dest' = length dest \<and> a \<le> length src"
  proof (cases "length src < 13")
    case False
    have pos: "positions tt (length src - 11)" "positions tt 1" using n by (auto simp: positions_def)
    obtain table where t: "LZ4_putPosition src 0 (LZ4_table tt) tt = Some table" "table_ok tt 1 table"
      by (rule LZ4_putPosition_ok [OF LZ4_table_ok [of 1], of 0 tt src]) (use pos(2) False in auto)
    obtain h where h: "LZ4_hashPosition src 1 tt = Some h" "h < cells tt"
      by (rule LZ4_hashPosition_ok [of 1 src tt]) (use False in simp_all)
    show ?thesis
      using compress_loop_ok [OF pos(1) e0, of 1 table h] t h False by auto
  qed (use e0 in auto)
  then obtain s a op dest' where c: "(if length src < 13 then Some (0, 0, dest)
      else do { table \<leftarrow> LZ4_putPosition src 0 (LZ4_table tt) tt; h \<leftarrow> LZ4_hashPosition src 1 tt;
        compress_loop src tt (length src - 12) (length src - 5) 0 1 h table 0 dest }) = Some (a, op, dest')"
    "emitted src s a op dest'" "length dest' = length dest" "a \<le> length src" by blast
  obtain r where r: "last_literals src (length src) a op dest' =
      Some (length (seqs_bytes src 0 s @ last_bytes (drop a src)), (seqs_bytes src 0 s @ last_bytes (drop a src)) @ r)"
    "length ((seqs_bytes src 0 s @ last_bytes (drop a src)) @ r) = length dest'"
    "length (seqs_bytes src 0 s @ last_bytes (drop a src)) \<le> bound (length src) + 2"
    by (rule last_literals_ok [OF c(2,4)])
  have "LZ4_compress_generic src dest (int (length src)) tt = last_literals src (length src) a op dest'"
    using n c(1) by (auto simp: LZ4_compress_generic_def Let_def)
  then show thesis
    using r c(2,3) by (intro that [of s a r]) (auto simp: emitted_def)
qed

lemma LZ4_compress_ok:
  assumes "length source \<le> 0x7E000000" and "length source + length source div 255 + 16 \<le> length dest"
  obtains s a r where "valid_seqs source 0 s a"
    "LZ4_compress source dest (int (length source)) = Some (length (seqs_bytes source 0 s @ last_bytes (drop a source)),
       (seqs_bytes source 0 s @ last_bytes (drop a source)) @ r)"
    "length ((seqs_bytes source 0 s @ last_bytes (drop a source)) @ r) = length dest"
    "length (seqs_bytes source 0 s @ last_bytes (drop a source)) \<le> bound (length source) + 2"
proof -
  define tt where "tt = (if length source < 65547 then byU16 else byU32)"
  obtain s a r where c: "LZ4_compress_generic source dest (int (length source)) tt =
      Some (length (seqs_bytes source 0 s @ last_bytes (drop a source)), (seqs_bytes source 0 s @ last_bytes (drop a source)) @ r)"
    "valid_seqs source 0 s a" "length ((seqs_bytes source 0 s @ last_bytes (drop a source)) @ r) = length dest"
    "length (seqs_bytes source 0 s @ last_bytes (drop a source)) \<le> bound (length source) + 2"
    by (rule LZ4_compress_generic_ok [of source tt dest]) (use assms in \<open>auto simp: tt_def\<close>)
  have "LZ4_compress source dest (int (length source)) = LZ4_compress_generic source dest (int (length source)) tt"
    by (auto simp: LZ4_compress_def tt_def split: if_splits)
  then show thesis using that [OF c(2) _ c(3,4)] c(1) by simp
qed

lemma LZ4_decompress_seqs:
  assumes v: "valid_seqs source 0 s a" and n: "length source \<le> n" "n \<le> length dest"
    and c: "c = seqs_bytes source 0 s @ last_bytes (drop a source)"
  shows "\<exists>d. LZ4_decompress_safe c dest (int (length c)) (int n) = Some (int (length source), d) \<and>
    take (length source) d = source \<and> length d = length dest \<and> drop n d = drop n dest"
proof (cases "n = 0")
  case True
  then have "source = []" "s = []" "a = 0" using n(1) v by (auto elim: valid_seqs.elims(2))
  then have "c = [0]" by (simp add: c last_bytes_def token_of_def len_more_def)
  then show ?thesis using True \<open>source = []\<close> by (auto simp: LZ4_decompress_safe_def rd8_def)
next
  case False
  have "\<exists>d. decompress_loop c (int (length c)) (int n) (length ([] :: buf)) 0 dest = Some (int (length source), d) \<and>
      take (length source) d = source \<and> same_outside 0 n dest d"
    by (rule decode_seqs [OF v]) (use n in \<open>auto simp: c\<close>)
  then show ?thesis
    using False same_outside_drop same_outside_length by (auto simp: LZ4_decompress_safe_def)
qed

text \<open>What the compressor can make of some bytes, whatever the destination held before.\<close>

definition packed :: "buf \<Rightarrow> buf \<Rightarrow> bool" where
  "packed bytes c \<longleftrightarrow> (\<exists>dest k dest'. bound (length bytes) + 16 \<le> length dest \<and>
     LZ4_compress bytes dest (int (length bytes)) = Some (k, dest') \<and> c = take k dest')"

lemma packed_format:
  assumes "packed bytes c" "length bytes \<le> 0x7E000000"
  obtains s a where "valid_seqs bytes 0 s a" "c = seqs_bytes bytes 0 s @ last_bytes (drop a bytes)"
proof -
  obtain dest k dest' where p: "bound (length bytes) + 16 \<le> length dest"
    "LZ4_compress bytes dest (int (length bytes)) = Some (k, dest')" "c = take k dest'"
    using assms(1) by (auto simp: packed_def)
  obtain s a r where "valid_seqs bytes 0 s a"
    "LZ4_compress bytes dest (int (length bytes)) = Some (length (seqs_bytes bytes 0 s @ last_bytes (drop a bytes)),
       (seqs_bytes bytes 0 s @ last_bytes (drop a bytes)) @ r)"
    by (rule LZ4_compress_ok [OF assms(2) p(1)])
  then show thesis using p(2,3) by (intro that) simp_all
qed

lemma packed_unpacks:
  assumes "packed bytes c" "length bytes \<le> 0x7E000000" "length bytes \<le> n" "n \<le> length dest"
  shows "\<exists>d. LZ4_decompress_safe c dest (int (length c)) (int n) = Some (int (length bytes), d) \<and>
    take (length bytes) d = bytes \<and> length d = length dest \<and> drop n d = drop n dest"
proof -
  obtain s a where "valid_seqs bytes 0 s a" "c = seqs_bytes bytes 0 s @ last_bytes (drop a bytes)"
    by (rule packed_format [OF assms(1,2)])
  then show ?thesis by (intro LZ4_decompress_seqs [OF _ assms(3,4)])
qed

lemma LZ4_compress_packed:
  assumes "length bytes \<le> 0x7E000000" and "bound (length bytes) + 16 \<le> length dest"
  obtains c t where "LZ4_compress bytes dest (int (length bytes)) = Some (length c, c @ t)" "packed bytes c" "c \<noteq> []"
    "length (c @ t) = length dest" "length c \<le> bound (length bytes) + 2"
proof -
  obtain s a r where c: "LZ4_compress bytes dest (int (length bytes)) = Some (length (seqs_bytes bytes 0 s @ last_bytes (drop a bytes)),
       (seqs_bytes bytes 0 s @ last_bytes (drop a bytes)) @ r)"
    "length ((seqs_bytes bytes 0 s @ last_bytes (drop a bytes)) @ r) = length dest"
    "length (seqs_bytes bytes 0 s @ last_bytes (drop a bytes)) \<le> bound (length bytes) + 2"
    by (rule LZ4_compress_ok [OF assms])
  define x where "x = seqs_bytes bytes 0 s @ last_bytes (drop a bytes)"
  have "packed bytes x" unfolding packed_def
    by (intro exI [of _ dest] exI [of _ "length x"] exI [of _ "x @ r"]) (use assms(2) c(1) in \<open>simp add: x_def\<close>)
  moreover have "x \<noteq> []" by (simp add: x_def last_bytes_def)
  ultimately show thesis using c by (intro that [of x r]) (simp_all add: x_def)
qed

text \<open>The last five bytes are literals and the first sequence has one, so the output has some length.\<close>

lemma last_five_literals: "valid_seqs body a s b \<Longrightarrow> s \<noteq> [] \<Longrightarrow> b + 5 \<le> length body"
  by (induction body a s b rule: valid_seqs.induct) (case_tac s; auto)+

lemma packed_length_min:
  assumes p: "packed bytes c" and l: "length bytes \<le> 0x7E000000" "8 \<le> length bytes"
  shows "8 \<le> length c"
proof -
  obtain s a where v: "valid_seqs bytes 0 s a" "c = seqs_bytes bytes 0 s @ last_bytes (drop a bytes)"
    by (rule packed_format [OF p l(1)])
  show ?thesis
  proof (cases s)
    case Nil
    then show ?thesis using v l(2) by (simp add: last_bytes_def)
  next
    case (Cons x s')
    obtain l d m where x: "x = (l, d, m)" by (cases x)
    have "0 < l" "l \<le> length bytes" "a + 5 \<le> length bytes"
      using v(1) last_five_literals [OF v(1)] unfolding Cons x by auto
    then show ?thesis unfolding v(2) Cons x by (simp add: seq_bytes_def last_bytes_def)
  qed
qed

text \<open>
  A token that announces six literals and a long match is followed by the six literals and the low byte
  of a distance, which then is at most six.
\<close>

lemma packed_six_literals:
  assumes p: "packed bytes c" and l: "length bytes \<le> 0x7E000000" and c: "8 \<le> length c" "c ! 0 = 0x6F"
  shows "c ! 7 \<le> 6"
proof -
  obtain s a where v: "valid_seqs bytes 0 s a" "c = seqs_bytes bytes 0 s @ last_bytes (drop a bytes)"
    by (rule packed_format [OF p l])
  have tok: "unat (token_of x y) = 16 * min 15 x + min 15 y" for x y
    unfolding token_of_def by (rule unat_of_nat_byte) linarith
  have c0: "unat (c ! 0) = 111" using c(2) by simp
  show ?thesis
  proof (cases s)
    case Nil
    then have "16 * min 15 (length (drop a bytes)) = 111" using c0 v(2) by (simp add: last_bytes_def tok)
    moreover have "16 * x \<noteq> 111" for x :: nat by presburger
    ultimately show ?thesis by blast
  next
    case (Cons x s')
    obtain l d m where x: "x = (l, d, m)" by (cases x)
    have w: "d \<le> l" "l \<le> length bytes" using v(1) unfolding Cons x by auto
    then have "16 * min 15 l + min 15 m = 111" using c0 unfolding v(2) Cons x by (simp add: seq_bytes_def tok)
    moreover have "x = 6" if "16 * min 15 x + min 15 y = 111" for x y :: nat
      using that by (auto simp: min_def split: if_splits)
    ultimately have l6: "l = 6" by blast
    have "unat (of_nat d :: u16) = d" using w l6 by (simp add: unat_of_nat take_bit_nat_eq_self)
    then have "ucast (of_nat d :: u16) = (of_nat d :: byte)" by (rule ucast_unat_eq)
    moreover have "le_bytes 2 (of_nat d :: u16) = ucast (of_nat d :: u16) # le_bytes 1 (drop_bit 8 (of_nat d :: u16))"
      using le_bytes.simps(2) [of 1] by (simp add: numeral_2_eq_2)
    ultimately have "c ! 7 = of_nat d" using w l6 unfolding v(2) Cons x
      by (simp add: seq_bytes_def len_more_def nth_append)
    moreover have "unat (of_nat d :: byte) = d" using w l6 by (intro unat_of_nat_byte) simp
    ultimately show ?thesis using w l6 by (simp add: word_le_nat_alt)
  qed
qed

section \<open>The round trip\<close>

text \<open>
  C2. Any input up to \<open>LZ4_MAX_INPUT_SIZE\<close> is compressed into a destination of \<open>LZ4_COMPRESSBOUND\<close> bytes
  without leaving either buffer, and decompressing the result into any buffer that is large enough
  gives the input back, the memory behind the output limit untouched.
\<close>

theorem LZ4_roundtrip:
  assumes "length source \<le> 0x7E000000" and "length source + length source div 255 + 16 \<le> length dest"
    and "length source \<le> n" and "n \<le> length dest2"
  shows "\<exists>k dest'. LZ4_compress source dest (int (length source)) = Some (k, dest') \<and>
    0 < k \<and> k \<le> length source + length source div 255 + 2 \<and> length dest' = length dest \<and>
    (\<exists>dest2'. LZ4_decompress_safe (take k dest') dest2 (int k) (int n) = Some (int (length source), dest2') \<and>
      take (length source) dest2' = source \<and> length dest2' = length dest2 \<and> drop n dest2' = drop n dest2)"
proof -
  obtain c t where c: "LZ4_compress source dest (int (length source)) = Some (length c, c @ t)" "packed source c" "c \<noteq> []"
    "length (c @ t) = length dest" "length c \<le> bound (length source) + 2"
    by (rule LZ4_compress_packed [OF assms(1,2)])
  then show ?thesis
    using packed_unpacks [OF c(2) assms(1,3,4)] by (intro exI [of _ "length c"] exI [of _ "c @ t"]) simp
qed

text \<open>A chunk with a repeated pattern: the loop finds its match, and the block is shorter than the chunk.\<close>

lemma LZ4_roundtrip_witness:
  "\<exists>k dest'. LZ4_compress (concat (replicate 10 [1, 2, 3])) (replicate 46 0) 30 = Some (k, dest') \<and>
     0 < k \<and> k \<le> 32 \<and> length dest' = 46 \<and>
     (\<exists>dest2'. LZ4_decompress_safe (take k dest') (replicate 40 7) (int k) 32 = Some (30, dest2') \<and>
        take 30 dest2' = concat (replicate 10 [1, 2, 3]) \<and> length dest2' = 40 \<and> drop 32 dest2' = replicate 8 7)"
  using LZ4_roundtrip [of "concat (replicate 10 [1, 2, 3])" "replicate 46 0" 32 "replicate 40 7"]
  by (simp add: length_concat sum_list_replicate)

end
