(* ===== verification/Okr_Archive.thy ===== *)
theory Okr_Archive
  imports Okr_Chunks Okr_FileIoCorrect Okr_Lz4Encode
begin

unbundle bit_operations_syntax

text \<open>
  A partition restored from the image of a backup is the partition that was saved: the form of the
  units that \<open>CompressBuffer\<close> makes, the records that the loops of \<open>Backup\<close> write, and the loop of
  \<open>Recover\<close> that reads them, over any image file with the laws of \<open>image_file\<close>.
\<close>

section \<open>Units\<close>

text \<open>The data of a unit: what the compressor makes of the chunk, or the chunk itself when that is longer.\<close>

definition unit_payload :: "buf \<Rightarrow> bool \<Rightarrow> buf \<Rightarrow> bool" where
  "unit_payload bytes stored p \<longleftrightarrow>
     (\<exists>c. packed bytes c \<and> stored = (length bytes < length c) \<and> p = (if stored then bytes else c))"

definition unit_head :: "bool \<Rightarrow> buf \<Rightarrow> nat \<Rightarrow> buf" where
  "unit_head stored p n = le_bytes 4 (if stored then UNCOMPRESS_MAGIC else COMPRESS_MAGIC) @
     le_bytes 4 (of_nat (length p) :: u32) @ le_bytes 4 (of_nat n :: u32)"

text \<open>The form of a unit; the reserved field and the padding are what the buffer held before.\<close>

definition unit_with :: "bool \<Rightarrow> buf \<Rightarrow> buf \<Rightarrow> bool" where
  "unit_with stored p u \<longleftrightarrow> length u = (LZ4_HEAD_SIZE + length p + 4095) div 4096 * 4096 \<and>
     (\<exists>r pad. u = unit_head stored p (length u) @ r @ p @ pad \<and> length r = 4)"

definition unit_of :: "buf \<Rightarrow> buf \<Rightarrow> bool" where
  "unit_of bytes u \<longleftrightarrow> (\<exists>stored p. unit_payload bytes stored p \<and> unit_with stored p u)"

lemma unit_payload_length: "unit_payload bytes stored p \<Longrightarrow> length p \<le> length bytes"
  by (auto simp: unit_payload_def split: if_splits)

text \<open>What the compressor writes is never taken for the header of an old image.\<close>

lemma packed_not_old:
  assumes "packed bytes c" "length bytes \<le> 0x7E000000" "8 \<le> length c"
  shows "\<not> old_header c"
proof
  assume "old_header c"
  then have "le_word (take 4 c) = (le_word [0x6F, 0x6B, 0x72, 0x39] :: u32)"
      "le_word (take 4 (drop 4 c)) = (le_word [0x10, 0x08, 0x00, 0x09] :: u32)"
    using assms(3) by (simp_all add: old_header_def rd32_def rd_le_def OKR_IMAGE_MAGIC_def)
  moreover have "xs = ys" if "le_word xs = (le_word ys :: u32)" "length xs = 4" "length ys = 4" for xs ys
    using that le_word_inj [of xs ys, where 'a = 32] by simp
  ultimately have "take 4 c = [0x6F, 0x6B, 0x72, 0x39]" "take 4 (drop 4 c) = [0x10, 0x08, 0x00, 0x09]"
    using assms(3) by (simp_all del: le_word_Cons)
  then have "take 4 c ! 0 = 0x6F" "take 4 (drop 4 c) ! 3 = 0x09" by simp_all
  then have "c ! 0 = 0x6F" "c ! 7 = 0x09" using assms(3) by simp_all
  with packed_six_literals [OF assms] show False by simp
qed

lemma put_prefix: "length a = length x \<Longrightarrow> put (p @ a @ t) (length p) x = Some (p @ x @ t)"
  by (simp add: put_def)

lemma split_4: "4 \<le> length (m :: buf) \<Longrightarrow> \<exists>a t. m = a @ t \<and> length a = 4"
  by (intro exI [of _ "take 4 m"] exI [of _ "drop 4 m"]) simp

lemma split_head:
  assumes "16 \<le> length (m :: buf)"
  obtains a b c r t where "m = a @ b @ c @ r @ t" "length a = 4" "length b = 4" "length c = 4" "length r = 4"
proof -
  obtain a m1 where a: "m = a @ m1" "length a = 4" using split_4 [of m] assms by auto
  obtain b m2 where b: "m1 = b @ m2" "length b = 4" using split_4 [of m1] assms a by auto
  obtain c m3 where c: "m2 = c @ m3" "length c = 4" using split_4 [of m2] assms a b by auto
  obtain r t where "m3 = r @ t" "length r = 4" using split_4 [of m3] assms a b c by auto
  with a b c show thesis using that by auto
qed

lemma put_head:
  assumes "length a = 4" "length b = 4" "length c = 4"
  shows "put (a @ b @ c @ t) 0 (le_bytes 4 x) = Some (le_bytes 4 x @ b @ c @ t)"
    "put (a @ b @ c @ t) 4 (le_bytes 4 x) = Some (a @ le_bytes 4 x @ c @ t)"
    "put (a @ b @ c @ t) 8 (le_bytes 4 x) = Some (a @ b @ le_bytes 4 x @ t)"
  using assms by (auto simp: put_def)

lemma unat_LZ4_COMPRESSBOUND:
  assumes "unat cbs \<le> 0x7E000000"
  shows "unat (LZ4_COMPRESSBOUND cbs) = unat cbs + unat cbs div 255 + 16"
proof -
  have "unat cbs div 255 \<le> unat cbs" by simp
  then have a: "unat (cbs + cbs div 255) = unat cbs + unat cbs div 255"
    using assms by (subst unat_add_no_wrap) (simp_all add: unat_div_distrib)
  show ?thesis
    using assms \<open>unat cbs div 255 \<le> unat cbs\<close> a unfolding LZ4_COMPRESSBOUND_def
    by (subst if_not_P) (simp_all add: word_less_nat_alt unat_add_no_wrap)
qed

lemma sint_unat_small: "unat x < 2 ^ 31 \<Longrightarrow> sint x = int (unat x)" for x :: u32
proof -
  assume "unat x < 2 ^ 31"
  then have "int (unat x) < int (2 ^ 31)" by (simp only: of_nat_less_iff)
  moreover have "- (2 ^ 31) \<le> uint x" by (rule order_trans [of _ 0]) simp_all
  ultimately have "signed_take_bit 31 (uint x) = uint x" by (intro signed_take_bit_int_eq_self) simp_all
  then show ?thesis by (simp add: sint_uint)
qed

text \<open>The length of a unit in the words that \<open>CompressBuffer\<close> computes with.\<close>

lemma unit_size_words:
  assumes p: "p \<le> unat cbs" and cbs: "unat cbs \<le> 0x7E000000" and al: "al = (16 + p + 4095) div 4096 * 4096"
  shows "16 + p \<le> al" "al < 16 + p + 4096" "al < unat (LZ4_COMPRESSBOUND cbs) + 16 + 4096"
    "CalcAliginSize (ucast (of_nat p :: u32) + of_nat LZ4_HEAD_SIZE) = (of_nat al :: u64)"
    "unat (of_nat al :: u64) = al" "ucast (of_nat al :: u64) = (of_nat al :: u32)"
    "\<not> ucast (LZ4_COMPRESSBOUND cbs) + of_nat LZ4_HEAD_SIZE + ALGIN_SIZE_BYTE < (ucast (of_nat al :: u32) :: u64)"
proof -
  show b: "16 + p \<le> al" "al < 16 + p + 4096"
    using align_4096_bounds [of "16 + p"] unfolding al by (simp_all add: ac_simps)
  show c: "al < unat (LZ4_COMPRESSBOUND cbs) + 16 + 4096"
    using b(2) p unat_LZ4_COMPRESSBOUND [OF cbs] by simp
  have al32: "al < 2 ^ 32" using b(2) p cbs by simp
  have n64: "unat (ucast (of_nat p :: u32) + of_nat LZ4_HEAD_SIZE :: u64) = 16 + p"
    using p cbs by (subst unat_add_no_wrap) (simp_all add: LZ4_HEAD_SIZE_def unat_of_nat_u32)
  then have "unat (CalcAliginSize (ucast (of_nat p :: u32) + of_nat LZ4_HEAD_SIZE)) = al"
    using unat_CalcAliginSize [of "ucast (of_nat p :: u32) + of_nat LZ4_HEAD_SIZE"] p cbs by (simp add: al)
  from ucast_unat_eq [OF this, where 'b = 64]
  show "CalcAliginSize (ucast (of_nat p :: u32) + of_nat LZ4_HEAD_SIZE) = (of_nat al :: u64)" by simp
  show u64: "unat (of_nat al :: u64) = al" using al32 by (intro unat_of_nat_u64) simp
  from ucast_unat_eq [OF this, where 'b = 32] show "ucast (of_nat al :: u64) = (of_nat al :: u32)" by simp
  have "unat (of_nat al :: u32) = al" using al32 by (simp add: unat_of_nat_u32)
  moreover have "unat (ucast (LZ4_COMPRESSBOUND cbs) + of_nat LZ4_HEAD_SIZE + ALGIN_SIZE_BYTE :: u64) = unat (LZ4_COMPRESSBOUND cbs) + 16 + 4096"
    using unsigned_less [of "LZ4_COMPRESSBOUND cbs", where 'a = nat]
    by (simp add: LZ4_HEAD_SIZE_def ALGIN_SIZE_BYTE_def unat_add_no_wrap)
  ultimately show "\<not> ucast (LZ4_COMPRESSBOUND cbs) + of_nat LZ4_HEAD_SIZE + ALGIN_SIZE_BYTE < (ucast (of_nat al :: u32) :: u64)"
    using c by (simp add: word_less_nat_alt)
qed

text \<open>The payload lies behind the 16 bytes of the head: the compressed bytes, overwritten by the bytes
  themselves when compression did not shorten them.\<close>

lemma unit_payload_put:
  assumes h: "length front = 16" and lt: "length bytes \<le> length (c @ t)" and p: "p = (if length bytes < length c then bytes else c)"
  obtains pad where "(if length bytes < length c
      then do { m \<leftarrow> put (front @ c @ t) LZ4_HEAD_SIZE bytes; Some (UNCOMPRESS_MAGIC, of_nat (length bytes), m) }
      else Some (COMPRESS_MAGIC, of_nat (length c), front @ c @ t)) =
      Some (if length bytes < length c then UNCOMPRESS_MAGIC else COMPRESS_MAGIC, of_nat (length p) :: u32, front @ p @ pad)"
    "length p + length pad = length (c @ t)"
proof (cases "length bytes < length c")
  case True
  moreover have "put (front @ c @ t) LZ4_HEAD_SIZE bytes = Some (front @ bytes @ drop (length bytes) (c @ t))"
    using h lt by (simp add: put_def LZ4_HEAD_SIZE_def)
  ultimately show thesis by (intro that [of "drop (length bytes) (c @ t)"]) (use lt p in auto)
next
  case False
  then show thesis by (intro that [of t]) (simp_all add: p)
qed

text \<open>\<open>CompressBuffer\<close> puts a unit at the start of \<open>g_lz4_buffer\<close>.\<close>

lemma CompressBuffer_unit:
  assumes cbs: "unat cbs \<le> 0x7E000000"
    and b: "pointer b = bytes @ t" "unat (usedsize b) = length bytes" "0 < length bytes" "length bytes \<le> unat cbs"
    and mem: "length lzmem = unat (LZ4_COMPRESSBOUND cbs) + 16 + 4096"
  shows "\<exists>u lzmem'. CompressBuffer cbs b lzmem = Some (int (length u), b\<lparr>datavalid := False\<rparr>, lzmem') \<and>
    unit_of bytes u \<and> slice lzmem' 0 (length u) = Some u \<and> length lzmem' = length lzmem \<and> length u \<le> unat cbs + 4112"
proof -
  have "length bytes div 255 \<le> unat cbs div 255" using b(4) by (rule div_le_mono)
  then have bound: "bound (length bytes) + 16 \<le> length lzmem - 16" "length bytes \<le> length lzmem - 16" "16 \<le> length lzmem"
    using mem unat_LZ4_COMPRESSBOUND [OF cbs] b(4) by simp_all
  obtain xa xb xc r t' where m: "lzmem = xa @ xb @ xc @ r @ t'" "length xa = 4" "length xb = 4" "length xc = 4" "length r = 4"
    by (rule split_head [of lzmem]) (use bound(3) in simp_all)
  have small: "length bytes \<le> 0x7E000000" using b(4) cbs by simp
  have lt': "length t' = length lzmem - 16" using m by simp
  obtain c t2 where c: "LZ4_compress bytes t' (int (length bytes)) = Some (length c, c @ t2)" "packed bytes c" "c \<noteq> []"
    "length (c @ t2) = length t'"
    by (rule LZ4_compress_packed [OF small, of t']) (use bound(1) lt' in simp_all)
  define stored where "stored = (length bytes < length c)"
  define p where "p = (if stored then bytes else c)"
  have pay: "unit_payload bytes stored p" using c(2) by (auto simp: unit_payload_def stored_def p_def)
  have plen: "length p \<le> unat cbs" using unit_payload_length [OF pay] b(4) by simp
  define al where "al = (16 + length p + 4095) div 4096 * 4096"
  note al = unit_size_words [OF plen cbs al_def]
  have h: "length (xa @ xb @ xc @ r) = 16" "length bytes \<le> length (c @ t2)"
    using m(2-5) bound(2) unfolding c(4) lt' by simp_all
  obtain pad where q: "(if length bytes < length c
      then do { m \<leftarrow> put ((xa @ xb @ xc @ r) @ c @ t2) LZ4_HEAD_SIZE bytes; Some (UNCOMPRESS_MAGIC, of_nat (length bytes), m) }
      else Some (COMPRESS_MAGIC, of_nat (length c), (xa @ xb @ xc @ r) @ c @ t2)) =
      Some (if stored then UNCOMPRESS_MAGIC else COMPRESS_MAGIC, of_nat (length p) :: u32, (xa @ xb @ xc @ r) @ p @ pad)"
    "length p + length pad = length t'"
    using unit_payload_put [OF h p_def [unfolded stored_def]] c(4) unfolding stored_def by metis
  define hd1 where "hd1 = le_bytes 4 (if stored then UNCOMPRESS_MAGIC else COMPRESS_MAGIC)"
  define hd2 where "hd2 = le_bytes 4 (of_nat (length p) :: u32)"
  define hd3 where "hd3 = le_bytes 4 (of_nat al :: u32)"
  note hds = hd1_def hd2_def hd3_def
  define res where "res = hd1 @ hd2 @ hd3 @ r @ p @ pad"
  have used: "usedsize b = of_nat (length bytes)" using ucast_unat_eq [OF b(2), where 'b = 32] by simp
  have flag: "(if unat (usedsize b) < length c
      then do { m' \<leftarrow> put (take LZ4_HEAD_SIZE lzmem @ c @ t2) LZ4_HEAD_SIZE bytes; Some (UNCOMPRESS_MAGIC, usedsize b, m') }
      else Some (COMPRESS_MAGIC, of_nat (length c), take LZ4_HEAD_SIZE lzmem @ c @ t2)) =
      Some (if stored then UNCOMPRESS_MAGIC else COMPRESS_MAGIC, of_nat (length p), xa @ xb @ xc @ r @ p @ pad)"
  proof -
    have front: "take LZ4_HEAD_SIZE lzmem = xa @ xb @ xc @ r" using m by (simp add: LZ4_HEAD_SIZE_def)
    show ?thesis using q(1) unfolding b(2) unfolding front used append_assoc .
  qed
  have "sint (usedsize b) = int (length bytes)" using sint_unat_small [of "usedsize b"] b(2) small by simp
  moreover have "drop LZ4_HEAD_SIZE lzmem = t'" using m by (simp add: LZ4_HEAD_SIZE_def)
  moreover have "slice (pointer b) 0 (unat (usedsize b)) = Some bytes" "usedsize b \<noteq> 0"
    using b(1-3) by (auto simp: slice_def)
  ultimately have cb: "CompressBuffer cbs b lzmem = Some (int al, b\<lparr>datavalid := False\<rparr>, res)"
    unfolding CompressBuffer_def
    using c(1,3) flag al(5,7) m(2-5)
    by (simp add: Let_def al(4,6) put_head res_def hds del: of_nat_unat)
  have len: "length res = length lzmem" using m q(2) by (simp add: res_def hds)
  define u where "u = take al res"
  have lu: "length u = al" using len al(3) mem by (simp add: u_def)
  have "u = unit_head stored p (length u) @ r @ p @ take (al - 16 - length p) pad"
    using al(1) m(5) unfolding lu unfolding u_def res_def unit_head_def hds [symmetric] by (simp add: hds)
  then have "unit_with stored p u"
    unfolding unit_with_def using lu m(5) al_def by (auto simp: LZ4_HEAD_SIZE_def)
  then have "unit_of bytes u" using pay by (auto simp: unit_of_def)
  moreover have "slice res 0 (length u) = Some u" using lu len al(3) mem by (simp add: slice_def u_def)
  moreover have "length u \<le> unat cbs + 4112" using lu al(2) plen by linarith
  ultimately show ?thesis using cb lu len by blast
qed

section \<open>The loop of the backup\<close>

fun chunks :: "nat \<Rightarrow> 'a list \<Rightarrow> 'a list list" where
  "chunks k [] = []"
| "chunks k (x # xs) = take (Suc k) (x # xs) # chunks k (drop k xs)"

lemma chunks_step: "xs \<noteq> [] \<Longrightarrow> chunks k xs = take (Suc k) xs # chunks k (drop (Suc k) xs)"
  by (cases xs) auto

lemma concat_chunks: "concat (chunks k xs) = xs"
  by (induction k xs rule: chunks.induct) auto

lemma length_chunks: "length (chunks k xs) \<le> length xs"
  by (induction k xs rule: chunks.induct) auto

text \<open>The buffers of the backup: the slot holds \<open>Suc k\<close> blocks.\<close>

definition backup_buffers :: "u32 \<Rightarrow> nat \<Rightarrow> BUFFER_INFO \<Rightarrow> buf \<Rightarrow> bool" where
  "backup_buffers cbs k b lzmem \<longleftrightarrow> unat cbs \<le> 0x7E000000 \<and> unat cbs = BLOCK_BYTES * Suc k \<and> totalsize b = cbs \<and>
     unat cbs \<le> length (pointer b) \<and> length lzmem = unat (LZ4_COMPRESSBOUND cbs) + 16 + 4096"

context image_file
begin

lemma backup_loop_records:
  assumes dev: "reads_sectors env sec (ucast disk) secs" "ucast disk < g_disknum env"
    and part: "covers bitmap blocks" "on_disk secs beginsec blocks"
  shows "\<lbrakk>backup_buffers cbs k b lzmem; idle COMMAND_READ disk info; sec d (ucast disk) = F; wr f rs;
      length rs + length (chunks k (marked_from bitmap blocks cur)) + 1 < 2 ^ 32\<rbrakk> \<Longrightarrow>
    \<exists>us f' b' lzmem'. backup_loop env cbs fw bitmap beginsec blocks cur info d b lzmem f n0 =
        Some (True, f', n0 + of_nat (sum_list (map length us)), b', lzmem') \<and>
      list_all2 unit_of (map (chunk_bytes F beginsec) (chunks k (marked_from bitmap blocks cur))) us \<and>
      (\<forall>u\<in>set us. length u \<le> unat cbs + 4112) \<and> wr f' (rs @ us) \<and> backup_buffers cbs k b' lzmem'"
proof (induction "length (marked_from bitmap blocks cur)" arbitrary: cur info d b lzmem f rs n0 rule: less_induct)
  case less
  let ?m = "marked_from bitmap blocks cur" and ?bs = "take (Suc k) (marked_from bitmap blocks cur)"
  note bb = less.prems(1) [unfolded backup_buffers_def]
  have len512: "\<And>i. length (F i) = 512" using dev(1) less.prems(3) by (auto simp: reads_sectors_def)
  define n where "n = BLOCK_BYTES * length ?bs"
  have nle: "n \<le> unat cbs" using bb unfolding n_def by (metis length_take min.cobounded2 mult_le_mono2)
  obtain cur' info' d' where rc: "read_chunk env bitmap beginsec blocks (unat (totalsize b)) cur info (d, pointer b) =
      Some (cur', n, info', d', chunk_bytes F beginsec ?bs @ drop n (pointer b))"
    "sec d' (ucast disk) = F" "idle COMMAND_READ disk info'" "marked_from bitmap blocks cur' = drop (Suc k) ?m"
    using read_chunk_correct [OF dev part, of "unat (totalsize b)" k "pointer b" info ?bs cur d] bb less.prems(2,3)
      unsigned_less [of cbs, where 'a = nat] unfolding n_def by auto
  define b1 where "b1 = b\<lparr>pointer := chunk_bytes F beginsec ?bs @ drop n (pointer b), usedsize := of_nat n, datavalid := True\<rparr>"
  have used: "unat (of_nat n :: u32) = n" using nle bb by (intro unat_of_nat_u32) simp
  have lenb: "length (chunk_bytes F beginsec ?bs) = n" unfolding n_def by (rule length_chunk_bytes [OF len512])
  have bb1: "backup_buffers cbs k (b1\<lparr>datavalid := False\<rparr>) lzmem"
    using bb lenb nle by (auto simp: backup_buffers_def b1_def)
  show ?case
  proof (cases "?m = []")
    case True
    then have n0: "n = 0" by (simp add: n_def)
    have "backup_loop env cbs fw bitmap beginsec blocks cur info d b lzmem f n0 =
        Some (True, f, n0, b1\<lparr>datavalid := False\<rparr>, lzmem)"
      using rc(1) n0 unfolding b1_def by (subst backup_loop.simps) (simp add: CompressBuffer_def)
    then show ?thesis using True less.prems(4) bb1 by (auto intro!: exI [of _ "[]"])
  next
    case False
    then have pos: "0 < n" by (simp add: n_def BLOCK_BYTES_def BLOCK_SIZE_def)
    obtain u lzmem1 where cb: "CompressBuffer cbs b1 lzmem = Some (int (length u), b1\<lparr>datavalid := False\<rparr>, lzmem1)"
        "unit_of (chunk_bytes F beginsec ?bs) u" "slice lzmem1 0 (length u) = Some u" "length lzmem1 = length lzmem"
        "length u \<le> unat cbs + 4112"
      using CompressBuffer_unit [OF, of cbs b1 "chunk_bytes F beginsec ?bs" "drop n (pointer b)" lzmem] bb used lenb nle pos
      by (auto simp: b1_def)
    have u8: "8 < length u" using cb(2) by (auto simp: unit_of_def unit_with_def LZ4_HEAD_SIZE_def)
    have ch: "chunks k ?m = ?bs # chunks k (marked_from bitmap blocks cur')"
      using chunks_step [OF False] rc(4) by simp
    obtain f1 where f1: "fw f u = Some (True, f1)" "wr f1 (rs @ [u])"
      using write_law [OF less.prems(4)] less.prems(5) by auto
    have "length (marked_from bitmap blocks cur') < length ?m" using rc(4) False by simp
    moreover have "length (rs @ [u]) + length (chunks k (marked_from bitmap blocks cur')) + 1 < 2 ^ 32"
      using less.prems(5) ch by simp
    moreover have "backup_buffers cbs k (b1\<lparr>datavalid := False\<rparr>) lzmem1" using bb1 cb(4) by (simp add: backup_buffers_def)
    ultimately obtain us f' b' lzmem' where ih: "backup_loop env cbs fw bitmap beginsec blocks cur' info' d' (b1\<lparr>datavalid := False\<rparr>) lzmem1 f1 (n0 + of_nat (length u)) =
        Some (True, f', n0 + of_nat (length u) + of_nat (sum_list (map length us)), b', lzmem')"
      "list_all2 unit_of (map (chunk_bytes F beginsec) (chunks k (marked_from bitmap blocks cur'))) us"
      "\<forall>u\<in>set us. length u \<le> unat cbs + 4112" "wr f' ((rs @ [u]) @ us)" "backup_buffers cbs k b' lzmem'"
      using less.hyps [OF _ _ rc(3) rc(2) f1(2)] by blast
    have "backup_loop env cbs fw bitmap beginsec blocks cur info d b lzmem f n0 =
        backup_loop env cbs fw bitmap beginsec blocks cur' info' d' (b1\<lparr>datavalid := False\<rparr>) lzmem1 f1 (n0 + of_nat (length u))"
      using rc(1) cb(1,3) u8 f1(1) unfolding b1_def by (subst backup_loop.simps) auto
    then show ?thesis
      using ih cb(2,5) ch by (intro exI [of _ "u # us"]) (auto simp: add.assoc)
  qed
qed

end

lemma total_blocks_le: "total_blocks t < 2 ^ 58"
proof -
  have "unat (x div of_nat BLOCK_SIZE :: u64) = unat x div 64" for x by (simp add: BLOCK_SIZE_def unat_div_distrib)
  moreover have "unat x div 64 < 2 ^ 58" for x :: u64
    using unsigned_less [of x, where 'a = nat] by (simp add: div_less_iff_less_mult)
  ultimately show ?thesis unfolding total_blocks_def by simp
qed

lemma unat_bitmap_size:
  assumes "blocks < 2 ^ 58"
  shows "unat (bitmap_size blocks) = ((blocks + 7) div 8 + 4095) div 4096 * 4096"
proof -
  have "unat (of_nat blocks + 7 :: u64) = blocks + 7"
    using assms by (subst unat_add_no_wrap) (simp_all add: unat_of_nat_u64)
  then have q: "unat ((of_nat blocks + 7) div 8 :: u64) = (blocks + 7) div 8"
    by (simp add: unat_div_distrib)
  have "(blocks + 7) div 8 \<le> 2 ^ 64 - 4096" using assms by simp
  then show ?thesis
    unfolding bitmap_size_def using unat_CalcAliginSize [of "(of_nat blocks + 7) div 8"] q by simp
qed

lemma bitmap_size_covers:
  assumes "blocks < 2 ^ 58"
  shows "blocks \<le> 8 * unat (bitmap_size blocks)"
  using align_4096_bounds(1) [of "(blocks + 7) div 8"] unfolding unat_bitmap_size [OF assms] by linarith

text \<open>What the bits say does not depend on the bytes behind the bitmap.\<close>

lemma marked_take:
  assumes "covers (take n bitmap) blocks"
  shows "marked_from (take n bitmap) blocks cur = marked_from bitmap blocks cur"
proof -
  have "marked (take n bitmap) b = marked bitmap b" if "b < blocks" for b
    using that assms by (auto simp: marked_def covers_def ReadBit_alt unat_of_nat_u64)
  then show ?thesis unfolding marked_from_def by (intro filter_cong) auto
qed

context image_file
begin

lemma backup_data_records:
  assumes dev: "reads_sectors env sec (ucast disk) secs" "ucast disk < g_disknum env"
    and blocks: "blocks = total_blocks totsec" "unat (bitmap_size blocks) \<le> length bitmap" "on_disk secs beginsec blocks"
    and bufs: "backup_buffers cbs k b lzmem" and f: "wr f rs"
    and small: "length rs + length (chunks k (marked_from bitmap blocks 0)) + 2 < 2 ^ 32"
  shows "\<exists>us f' b' lzmem'. backup_data env cbs fw disk beginsec totsec bitmap d b lzmem f =
      Some (True, f', bitmap_size blocks + of_nat (sum_list (map length us)), b', lzmem') \<and>
    list_all2 unit_of (map (chunk_bytes (sec d (ucast disk)) beginsec) (chunks k (marked_from bitmap blocks 0))) us \<and>
    (\<forall>u\<in>set us. length u \<le> unat cbs + 4112) \<and> wr f' (rs @ take (unat (bitmap_size blocks)) bitmap # us) \<and> backup_buffers cbs k b' lzmem'"
proof -
  let ?sz = "bitmap_size blocks" and ?b = "b\<lparr>datavalid := False, usedsize := 0, sequence := 0\<rparr>"
  have b58: "blocks < 2 ^ 58" using total_blocks_le blocks(1) by simp
  have cov: "covers bitmap blocks"
    using bitmap_size_covers [OF b58] blocks(2) b58 by (auto simp: covers_def)
  obtain f1 where f1: "fw f (take (unat ?sz) bitmap) = Some (True, f1)" "wr f1 (rs @ [take (unat ?sz) bitmap])"
    using write_law [OF f] small by auto
  have sm: "length (rs @ [take (unat ?sz) bitmap]) + length (chunks k (marked_from bitmap blocks 0)) + 1 < 2 ^ 32"
    using small by simp
  have bb: "backup_buffers cbs k ?b lzmem" using bufs by (simp add: backup_buffers_def)
  have "backup_data env cbs fw disk beginsec totsec bitmap d b lzmem f =
      backup_loop env cbs fw bitmap beginsec blocks 0 (SmartDiskIoInit disk COMMAND_READ) d ?b lzmem f1 ?sz"
    using blocks(2) f1(1) unfolding backup_data_def by (simp add: Let_def blocks(1) [symmetric] slice_def)
  with backup_loop_records [OF dev cov blocks(3) bb idle_init refl f1(2) sm, where ?n0.0 = "bitmap_size blocks"]
  show ?thesis by auto
qed

end

section \<open>Reading a unit\<close>

definition restore_buffers :: "u32 \<Rightarrow> BUFFER_INFO \<Rightarrow> buf \<Rightarrow> bool" where
  "restore_buffers cbs b lzmem \<longleftrightarrow> unat cbs \<le> 0x7E000000 \<and> totalsize b = cbs \<and>
     unat cbs + 4096 \<le> length (pointer b) \<and> unat cbs \<le> length lzmem"

text \<open>A chunk that goes into the image as it is does not look like the header of an old image.\<close>

definition plain_unit :: "buf \<Rightarrow> bool" where
  "plain_unit bytes \<longleftrightarrow> (unit_payload bytes True bytes \<longrightarrow> \<not> old_header bytes)"

lemma unit_payload_not_old:
  assumes p: "unit_payload bytes stored p" and l: "length bytes \<le> 0x7E000000" "8 \<le> length bytes" and pl: "plain_unit bytes"
  shows "8 \<le> length p" "\<not> old_header p"
proof -
  obtain c where c: "packed bytes c" "stored = (length bytes < length c)" "p = (if stored then bytes else c)"
    using p by (auto simp: unit_payload_def)
  have "8 \<le> length c" by (rule packed_length_min [OF c(1) l])
  then show "8 \<le> length p" using l(2) c(3) by simp
  show "\<not> old_header p"
    using packed_not_old [OF c(1) l(1) \<open>8 \<le> length c\<close>] p pl c(3) by (cases stored) (auto simp: plain_unit_def)
qed

lemma rd32_at: "length p = i \<Longrightarrow> rd32 (p @ le_bytes 4 x @ t) i = Some x" for x :: u32
  by (simp add: rd32_def rd_le_def slice_def)

lemma rd32_prefix: "i + 4 \<le> length p \<Longrightarrow> rd32 (p @ t) i = rd32 p i"
  by (simp add: rd32_def rd_le_def slice_def)

lemma old_header_prefix: "8 \<le> length p \<Longrightarrow> old_header (p @ t) = old_header p"
  by (simp add: old_header_def rd32_prefix)

lemma unit_flag_head: "unit_flag (if stored then UNCOMPRESS_MAGIC else COMPRESS_MAGIC) = Some (\<not> stored)"
  by (simp add: unit_flag_def UNCOMPRESS_MAGIC_def COMPRESS_MAGIC_def)

lemma unit_head_fields:
  "rd32 (unit_head stored p n @ r) 0 = Some (if stored then UNCOMPRESS_MAGIC else COMPRESS_MAGIC)"
  "rd32 (unit_head stored p n @ r) 4 = Some (of_nat (length p))"
  "rd32 (unit_head stored p n @ r) 8 = Some (of_nat n)"
  "length (unit_head stored p n) = 12"
  using rd32_at [of "[]" 0] rd32_at [of "le_bytes 4 y" 4 for y :: u32] rd32_at [of "le_bytes 4 y @ le_bytes 4 z" 8 for y z :: u32]
  unfolding unit_head_def by simp_all

lemma unit_head_not_old: "\<not> old_header (unit_head stored p n @ r)"
  by (simp add: old_header_def unit_head_fields UNCOMPRESS_MAGIC_def COMPRESS_MAGIC_def OKR_IMAGE_MAGIC_def)

context image_file
begin

lemma read_unit_correct:
  assumes limit: "16 < limit" and u: "unit_with stored p u" "8 \<le> length p" "\<not> old_header p" "length u \<le> unat cbs + 4112"
    and bufs: "restore_buffers cbs b lzmem" and len: "length p \<le> unat cbs" and f: "rd f [] (u # rest)"
  shows "\<exists>f' mem. read_unit fr cbs True b f = Some (Inr (b\<lparr>pointer := p @ mem, ifcompressed := \<not> stored,
      usedsize := of_nat (length p)\<rparr>, f', of_nat (length u))) \<and> rd f' [] rest \<and>
    length (p @ mem) = length (pointer b)"
proof -
  let ?p = p and ?h = "unit_head stored p (length u)"
  note bb = bufs [unfolded restore_buffers_def]
  obtain r pad where up: "u = (?h @ r) @ ?p @ pad" "length r = 4" using u(1) unfolding unit_with_def by auto
  have lu: "length u = 16 + length (?p @ pad)" using up(2) arg_cong [OF up(1), of length] by (simp add: unit_head_fields)
  have old: "\<not> old_header (?p @ pad)" using u(2) u(3) by (simp add: old_header_prefix)
  obtain f1 where f1: "fr f 16 = Some (True, ?h @ r, f1)" "rd f1 (?p @ pad) rest"
    using next_record [of f "?h @ r" "?p @ pad" rest] f limit up unit_head_not_old unit_head_fields(4) by fastforce
  obtain f2 where f2: "fr f1 (length (?p @ pad)) = Some (True, ?p @ pad, f2)" "rd f2 [] rest"
    using more_law [of f1 "?p @ pad" "[]" rest] f1(2) u(2) old by fastforce
  have lu32: "unat (of_nat (length u) :: u32) = length u" using u(4) bb by (intro unat_of_nat_u32) simp
  define n where "n = (ucast (of_nat (length u) :: u32) - of_nat LZ4_HEAD_SIZE :: u64)"
  have un: "unat n = length (?p @ pad)"
    unfolding n_def using lu lu32 by (subst unat_sub_no_wrap) (simp_all add: LZ4_HEAD_SIZE_def)
  have cap: "unat (cbs + ucast ALGIN_SIZE_BYTE) = unat cbs + 4096"
    using bb by (subst unat_add_no_wrap) (simp_all add: ALGIN_SIZE_BYTE_def)
  then have small: "\<not> ucast (cbs + ucast ALGIN_SIZE_BYTE) < n"
    using un u(4) lu by (simp add: word_less_nat_alt)
  have "n = of_nat (length (?p @ pad))" using ucast_unat_eq [OF un, where 'b = 64] by simp
  moreover have "length (?p @ pad) < 2 ^ 32" using u(4) lu bb by simp
  ultimately have same: "ucast (ucast n :: u32) = (of_nat (length (?p @ pad)) :: u64)"
    by (metis ucast_unat_eq un unat_of_nat_u32)
  have sz: "\<not> totalsize b < of_nat (length ?p)"
    using len bb by (simp add: word_less_nat_alt unat_of_nat_u32)
  define mem where "mem = pad @ drop (length (?p @ pad)) (pointer b)"
  have fit: "length (?p @ pad) \<le> length (pointer b)" using u(4) lu bb by simp
  then have "put (pointer b) 0 (?p @ pad) = Some (?p @ mem)" by (simp add: put_def mem_def)
  moreover have "r \<noteq> []" using up(2) by auto
  ultimately have "read_unit fr cbs True b f = Some (Inr (b\<lparr>pointer := ?p @ mem, ifcompressed := \<not> stored,
      usedsize := of_nat (length ?p)\<rparr>, f2, of_nat (length u)))"
    unfolding read_unit_def
    using f1(1) f2(1) small same sz un
    by (simp add: unit_head_fields unit_flag_head LZ4_HEAD_SIZE_def n_def Let_def)
  then show ?thesis using f2(2) fit by (auto simp: mem_def)
qed

end

lemma DecompressBuffer_unit:
  assumes cbs: "unat cbs \<le> 0x7E000000" "unat cbs \<le> length lzmem"
    and bytes: "bytes \<noteq> []" "length bytes \<le> unat cbs" and p: "unit_payload bytes stored p" "p \<noteq> []"
    and b: "pointer b = p @ mem" "ifcompressed b = (\<not> stored)" "usedsize b = of_nat (length p)"
  shows "\<exists>rest. DecompressBuffer cbs b lzmem = Some (int (length bytes), b\<lparr>datavalid := False\<rparr>, bytes @ rest) \<and>
    length (bytes @ rest) = length lzmem"
proof -
  have pl: "length p \<le> length bytes" by (rule unit_payload_length [OF p(1)])
  have us: "unat (usedsize b) = length p" unfolding b(3) using pl bytes(2) cbs(1) by (intro unat_of_nat_u32) simp
  then have nz: "usedsize b \<noteq> 0" using p(2) by auto
  have sl: "slice (pointer b) 0 (unat (usedsize b)) = Some p" using b(1) us by (simp add: slice_def)
  show ?thesis
  proof (cases stored)
    case True
    then have "p = bytes" using p(1) by (auto simp: unit_payload_def)
    moreover have "put lzmem 0 bytes = Some (bytes @ drop (length bytes) lzmem)" using bytes(2) cbs(2) by (simp add: put_def)
    ultimately show ?thesis unfolding DecompressBuffer_def using nz sl us b(2) True bytes(2) cbs(2) by simp
  next
    case False
    then have "packed bytes p" using p(1) by (auto simp: unit_payload_def)
    then obtain d where d: "LZ4_decompress_safe p lzmem (int (length p)) (int (unat cbs)) = Some (int (length bytes), d)"
      "take (length bytes) d = bytes" "length d = length lzmem"
      using packed_unpacks [of bytes p "unat cbs" lzmem] bytes(2) cbs by auto
    have "sint cbs = int (unat cbs)" "sint (usedsize b) = int (length p)"
      using sint_unat_small [of cbs] sint_unat_small [of "usedsize b"] cbs(1) us pl bytes(2) by simp_all
    moreover have "d = bytes @ drop (length bytes) d" using d(2) by (metis append_take_drop_id)
    moreover have "length (bytes @ drop (length bytes) d) = length lzmem" using bytes(2) cbs(2) d(3) by simp
    ultimately show ?thesis
      unfolding DecompressBuffer_def using nz sl b(2) False d(1) bytes(1)
      by (intro exI [of _ "drop (length bytes) d"]) simp
  qed
qed

section \<open>The loop of the restore\<close>

lemma unit_of_nonempty: "unit_of bytes u \<Longrightarrow> u \<noteq> []"
  by (auto simp: unit_of_def unit_with_def LZ4_HEAD_SIZE_def)

lemma read_unit_end: "read_unit fr cbs False b f = Some (Inr (b\<lparr>usedsize := 0\<rparr>, f, 0))"
  by (simp add: read_unit_def)

context image_file
begin

lemma restore_loop_step:
  assumes limit: "16 < limit" and dev: "writes_sectors env sec (ucast disk) secs" "ucast disk < g_disknum env"
    and fits: "part_fits secs beginsec totsec" and cov: "covers bitmap (total_blocks totsec)"
    and G: "\<And>i. length (G i) = 512" and cbs: "unat cbs = BLOCK_BYTES * Suc k"
    and st: "restore_buffers cbs b lzmem" "idle COMMAND_WRITE disk info"
    and bs: "bs = take (Suc k) (marked_from bitmap (total_blocks totsec) cur)" "bs \<noteq> []"
    and u: "unit_of (chunk_bytes G beginsec bs) u" "plain_unit (chunk_bytes G beginsec bs)" "length u \<le> unat cbs + 4112"
    and rd: "rd f [] (u # us)" and seen: "unat seen + length u \<le> unat todata"
  shows "\<exists>cur' info' d1 b1 lzmem1 f1.
    restore_loop env cbs fr lim bitmap beginsec totsec todata cur seen info d b lzmem f =
      restore_loop env cbs fr lim bitmap beginsec totsec todata cur' (seen + ucast (of_nat (length u) :: u32)) info' d1 b1 lzmem1 f1 \<and>
    sec d1 (ucast disk) = with_blocks (sec d (ucast disk)) G beginsec totsec {b \<in> set bs. allowed lim b} \<and>
    restore_buffers cbs b1 lzmem1 \<and> idle COMMAND_WRITE disk info' \<and> rd f1 [] us \<and>
    drop (Suc k) (marked_from bitmap (total_blocks totsec) cur) = marked_from bitmap (total_blocks totsec) cur' \<and>
    unat (seen + ucast (of_nat (length u) :: u32)) = unat seen + length u"
proof -
  let ?m = "\<lambda>c. marked_from bitmap (total_blocks totsec) c"
  note bb = st(1) [unfolded restore_buffers_def]
  define bytes where "bytes = chunk_bytes G beginsec bs"
  have lb: "length bytes = BLOCK_BYTES * length bs" unfolding bytes_def by (rule length_chunk_bytes [OF G])
  have "length bs \<le> Suc k" by (simp add: bs)
  then have ble: "length bytes \<le> unat cbs" unfolding lb cbs by (rule mult_le_mono2)
  have b8: "8 < length bytes" using bs(2) unfolding lb by (cases bs) (simp_all add: BLOCK_BYTES_def BLOCK_SIZE_def)
  obtain stored p where up: "unit_payload bytes stored p" "unit_with stored p u"
    using u(1) by (auto simp: unit_of_def bytes_def)
  have small: "length bytes \<le> 0x7E000000" "8 \<le> length bytes" using ble bb b8 by simp_all
  have p8: "8 \<le> length p" "\<not> old_header p"
    using unit_payload_not_old [OF up(1) small u(2) [folded bytes_def]] by simp_all
  have pl: "length p \<le> unat cbs" using unit_payload_length [OF up(1)] ble by simp
  obtain f1 mem where ru: "read_unit fr cbs True b f = Some (Inr (b\<lparr>pointer := p @ mem, ifcompressed := \<not> stored,
      usedsize := of_nat (length p)\<rparr>, f1, of_nat (length u)))" "rd f1 [] us" "length (p @ mem) = length (pointer b)"
    using read_unit_correct [OF limit up(2) p8 u(3) st(1) pl rd] by blast
  define b1 where "b1 = b\<lparr>pointer := p @ mem, ifcompressed := \<not> stored, usedsize := of_nat (length p), datavalid := True\<rparr>"
  have "bytes \<noteq> []" "p \<noteq> []" using b8 p8(1) by auto
  then obtain z where db: "DecompressBuffer cbs b1 lzmem = Some (int (length bytes), b1\<lparr>datavalid := False\<rparr>, bytes @ z)"
    "length (bytes @ z) = length lzmem"
    using DecompressBuffer_unit [OF _ _ _ ble up(1), of lzmem b1 mem] bb unfolding b1_def by auto
  define lzmem1 where "lzmem1 = bytes @ z"
  have "0 < length u" using unit_of_nonempty [OF u(1)] by simp
  then have wanted: "seen < todata" using seen unfolding word_less_nat_alt by linarith
  have c32: "BLOCK_BYTES * length bs < 2 ^ 32" using ble bb lb by simp
  have bst: "bs = take (length bs) (?m cur)" unfolding bs by (auto simp: min_def)
  obtain cur' info' d1 where wc: "write_chunk env lim bitmap beginsec totsec (total_blocks totsec) cur (of_nat (BLOCK_BYTES * length bs)) info (d, lzmem1) =
      Some (None, cur', info', d1, lzmem1)"
    "sec d1 (ucast disk) = with_blocks (sec d (ucast disk)) G beginsec totsec {b \<in> set bs. allowed lim b}"
    "idle COMMAND_WRITE disk info'" "?m cur' = drop (length bs) (?m cur)"
    using write_chunk_correct [where G = G, OF dev fits cov G st(2) bst refl c32 lzmem1_def [unfolded bytes_def]] by blast
  have dr: "drop (length bs) (?m cur) = drop (Suc k) (?m cur)" unfolding bs by (auto simp: min_def)
  have bufs1: "restore_buffers cbs (b1\<lparr>datavalid := False\<rparr>) lzmem1"
    using bb ru(3) db(2) by (simp add: restore_buffers_def b1_def lzmem1_def)
  have "unat (ucast (of_nat (length u) :: u32) :: u64) = length u" using u(3) bb by (simp add: unat_of_nat_u32)
  then have ud: "unat (seen + ucast (of_nat (length u) :: u32)) = unat seen + length u"
    using seen unsigned_less [of todata, where 'a = nat] by (subst unat_add_no_wrap) simp_all
  have "restore_loop env cbs fr lim bitmap beginsec totsec todata cur seen info d b lzmem f =
      restore_loop env cbs fr lim bitmap beginsec totsec todata cur' (seen + ucast (of_nat (length u) :: u32)) info' d1 (b1\<lparr>datavalid := False\<rparr>) lzmem1 f1"
    using ru(1) db(1) [folded lzmem1_def] wc(1) wanted b8 lb unfolding b1_def by (subst restore_loop.simps) (auto simp del: of_nat_mult)
  then show ?thesis using wc(2,3) wc(4) [symmetric] bufs1 ru(2) ud unfolding dr by blast
qed

text \<open>Without the count of the bytes, or without more units in the image, the loop ends.\<close>

lemma restore_loop_end:
  assumes "16 < limit" and "todata = seen \<or> rd f [] []"
  shows "\<exists>f'. restore_loop env cbs fr lim bitmap beginsec totsec todata cur seen info d b lzmem f =
    Some (None, d, b\<lparr>usedsize := 0, datavalid := False\<rparr>, lzmem, f') \<and> (todata = seen \<longrightarrow> f' = f)"
proof (cases "seen < todata")
  case True
  then have "rd f [] []" using assms(2) by auto
  then obtain f' where "fr f 16 = Some (True, [], f')" using at_end assms(1) by blast
  then have "read_unit fr cbs True b f = Some (Inr (b\<lparr>usedsize := 0\<rparr>, f', 0))" by (simp add: read_unit_def LZ4_HEAD_SIZE_def)
  then show ?thesis using True by (subst restore_loop.simps) (auto simp: DecompressBuffer_def)
next
  case False
  then show ?thesis by (subst restore_loop.simps) (simp add: read_unit_end DecompressBuffer_def)
qed

text \<open>The loop restores as many chunks as there are units: all of them when the count of bytes says so,
  and silently fewer when the image ends early.\<close>

lemma restore_loop_records:
  assumes ctx: "16 < limit" "writes_sectors env sec (ucast disk) secs" "ucast disk < g_disknum env"
      "part_fits secs beginsec totsec" "covers bitmap (total_blocks totsec)"
    and G: "\<And>i. length (G i) = 512" and cbs: "unat cbs = BLOCK_BYTES * Suc k"
  shows "\<lbrakk>restore_buffers cbs b lzmem; idle COMMAND_WRITE disk info;
      m = marked_from bitmap (total_blocks totsec) cur; length us \<le> length (chunks k m);
      list_all2 unit_of (map (chunk_bytes G beginsec) (take (length us) (chunks k m))) us;
      \<forall>bs\<in>set (chunks k m). plain_unit (chunk_bytes G beginsec bs);
      \<forall>u\<in>set us. length u \<le> unat cbs + 4112; rd f [] (us @ rest);
      unat seen + sum_list (map length us) \<le> unat todata;
      rest = [] \<or> unat seen + sum_list (map length us) = unat todata\<rbrakk> \<Longrightarrow>
    \<exists>d' b' lzmem' f'. restore_loop env cbs fr lim bitmap beginsec totsec todata cur seen info d b lzmem f =
        Some (None, d', b', lzmem', f') \<and>
      sec d' (ucast disk) = with_blocks (sec d (ucast disk)) G beginsec totsec
        {b \<in> set (concat (take (length us) (chunks k m))). allowed lim b} \<and>
      (unat seen + sum_list (map length us) = unat todata \<longrightarrow> rd f' [] rest) \<and> restore_buffers cbs b' lzmem'"
proof (induction us arbitrary: m cur seen info d b lzmem f)
  case Nil
  have "todata = seen \<or> rd f [] []" using Nil.prems(8,10) by (auto simp: word_unat_eq_iff)
  note fin = restore_loop_end [OF ctx(1) this, of env cbs lim bitmap beginsec totsec cur info d b lzmem]
  obtain f' where f':
    "restore_loop env cbs fr lim bitmap beginsec totsec todata cur seen info d b lzmem f =
      Some (None, d, b\<lparr>usedsize := 0, datavalid := False\<rparr>, lzmem, f')" "todata = seen \<longrightarrow> f' = f"
    using fin by blast
  then show ?case using Nil.prems(1,8) by (auto simp: restore_buffers_def with_blocks_empty word_unat_eq_iff)
next
  case (Cons u us)
  have "m \<noteq> []" using Cons.prems(4) by auto
  define bs where "bs = take (Suc k) m"
  have ch: "chunks k m = bs # chunks k (drop (Suc k) m)" unfolding bs_def by (rule chunks_step [OF \<open>m \<noteq> []\<close>])
  have bs0: "bs \<noteq> []" using \<open>m \<noteq> []\<close> by (simp add: bs_def)
  note bsm = bs_def [unfolded Cons.prems(3)]
  have u: "unit_of (chunk_bytes G beginsec bs) u" "plain_unit (chunk_bytes G beginsec bs)" "length u \<le> unat cbs + 4112"
    "rd f [] (u # us @ rest)" "unat seen + length u \<le> unat todata"
    using Cons.prems(5-9) unfolding ch by auto
  obtain cur' info' d1 b1 lzmem1 f1 where s:
    "restore_loop env cbs fr lim bitmap beginsec totsec todata cur seen info d b lzmem f =
      restore_loop env cbs fr lim bitmap beginsec totsec todata cur' (seen + ucast (of_nat (length u) :: u32)) info' d1 b1 lzmem1 f1"
    "sec d1 (ucast disk) = with_blocks (sec d (ucast disk)) G beginsec totsec {b \<in> set bs. allowed lim b}"
    "restore_buffers cbs b1 lzmem1" "idle COMMAND_WRITE disk info'" "rd f1 [] (us @ rest)"
    "drop (Suc k) m = marked_from bitmap (total_blocks totsec) cur'"
    "unat (seen + ucast (of_nat (length u) :: u32)) = unat seen + length u"
    using restore_loop_step [where G = G and lim = lim and d = d, OF ctx G cbs Cons.prems(1,2) bsm bs0 u] unfolding Cons.prems(3) by blast
  have p: "length us \<le> length (chunks k (drop (Suc k) m))"
    "list_all2 unit_of (map (chunk_bytes G beginsec) (take (length us) (chunks k (drop (Suc k) m)))) us"
    "\<forall>bs\<in>set (chunks k (drop (Suc k) m)). plain_unit (chunk_bytes G beginsec bs)"
    "\<forall>u\<in>set us. length u \<le> unat cbs + 4112"
    "unat (seen + ucast (of_nat (length u) :: u32)) + sum_list (map length us) \<le> unat todata"
    "rest = [] \<or> unat (seen + ucast (of_nat (length u) :: u32)) + sum_list (map length us) = unat todata"
    using Cons.prems(4-10) s(7) unfolding ch by auto
  let ?X = "{b \<in> set (concat (take (length us) (chunks k (drop (Suc k) m)))). allowed lim b}"
  have un: "{b \<in> set (concat (take (length (u # us)) (chunks k m))). allowed lim b} = {b \<in> set bs. allowed lim b} \<union> ?X"
    unfolding ch by auto
  obtain d' b' lzmem' f' where ih: "restore_loop env cbs fr lim bitmap beginsec totsec todata cur'
        (seen + ucast (of_nat (length u) :: u32)) info' d1 b1 lzmem1 f1 = Some (None, d', b', lzmem', f')"
      "sec d' (ucast disk) = with_blocks (sec d1 (ucast disk)) G beginsec totsec ?X"
      "unat seen + length u + sum_list (map length us) = unat todata \<longrightarrow> rd f' [] rest" "restore_buffers cbs b' lzmem'"
    using Cons.IH [OF s(3,4,6) p(1-4) s(5) p(5,6), of d1] unfolding s(7) by blast
  have "sec d' (ucast disk) = with_blocks (sec d (ucast disk)) G beginsec totsec ({b \<in> set bs. allowed lim b} \<union> ?X)"
    unfolding ih(2) s(2) by (rule with_blocks_Un)
  then show ?case using ih(1,3,4) s(1) unfolding un by auto
qed

end

text \<open>What an image holds for a partition whose marked blocks have the sectors \<open>G\<close>.\<close>

definition part_records :: "u32 \<Rightarrow> nat \<Rightarrow> (nat \<Rightarrow> buf) \<Rightarrow> u64 \<Rightarrow> u64 \<Rightarrow> buf \<Rightarrow> buf list \<Rightarrow> bool" where
  "part_records cbs k G beginsec totsec bitmap recs \<longleftrightarrow> (\<exists>us.
     recs = take (unat (bitmap_size (total_blocks totsec))) bitmap # us \<and>
     list_all2 unit_of (map (chunk_bytes G beginsec) (chunks k (marked_from bitmap (total_blocks totsec) 0))) us \<and>
     (\<forall>u\<in>set us. length u \<le> unat cbs + 4112))"

definition plain_part :: "nat \<Rightarrow> (nat \<Rightarrow> buf) \<Rightarrow> u64 \<Rightarrow> u64 \<Rightarrow> buf \<Rightarrow> bool" where
  "plain_part k G beginsec totsec bitmap \<longleftrightarrow>
     \<not> old_header (take (unat (bitmap_size (total_blocks totsec))) bitmap) \<and>
     list_all (\<lambda>bs. plain_unit (chunk_bytes G beginsec bs)) (chunks k (marked_from bitmap (total_blocks totsec) 0))"

lemma set_marked_from: "set (marked_from bitmap n c) = {b. b < n \<and> c \<le> b \<and> marked bitmap b}"
  using marked_from_in [of _ bitmap n c] by auto

lemma bitmap_size_pos:
  assumes "0 < blocks" "blocks < 2 ^ 58"
  shows "0 < unat (bitmap_size blocks)"
  using bitmap_size_covers [OF assms(2)] assms(1) by linarith

context image_file
begin

text \<open>
  The round of a partition whose bitmap and first \<open>us\<close> units follow in the image: complete, or the
  image ends there.
\<close>

lemma restore_one_prefix:
  assumes limit: "16 < limit" "unat (bitmap_size (total_blocks (TotalSectors P))) < limit"
      "unat (bitmap_size (total_blocks (TotalSectors P))) < 2 ^ 32"
    and dev: "writes_sectors env sec (ucast disk) secs" "ucast disk < g_disknum env" "allocates env"
    and fits: "part_fits secs (BootBegin P) (TotalSectors P)" "0 < unat (TotalSectors P)"
    and bm: "unat (bitmap_size (total_blocks (TotalSectors P))) \<le> length bitmap"
    and G: "\<And>i. length (G i) = 512" and cbs: "unat cbs = BLOCK_BYTES * Suc k"
    and chs: "chs = chunks k (marked_from bitmap (total_blocks (TotalSectors P)) 0)" "length us \<le> length chs"
      "list_all2 unit_of (map (chunk_bytes G (BootBegin P)) (take (length us) chs)) us"
      "\<forall>u\<in>set us. length u \<le> unat cbs + 4112" "plain_part k G (BootBegin P) (TotalSectors P) bitmap"
    and P: "bIfBackup P \<noteq> 0"
    and size: "unat (bitmap_size (total_blocks (TotalSectors P))) + sum_list (map length us) \<le> unat (BackupDataSize P)"
      "rest = [] \<or> unat (bitmap_size (total_blocks (TotalSectors P))) + sum_list (map length us) = unat (BackupDataSize P)"
    and st: "restore_buffers cbs (rs_slot rs) (rs_lzmem rs)"
      "rd (rs_file rs) [] (take (unat (bitmap_size (total_blocks (TotalSectors P)))) bitmap # us @ rest)"
  shows "\<exists>d' rs'. restore_one env cbs fr disk lim P (d, rs) = Some (None, d', rs') \<and>
    sec d' (ucast disk) = with_blocks (sec d (ucast disk)) G (BootBegin P) (TotalSectors P)
      {b \<in> set (concat (take (length us) chs)). allowed (if HasWindows P \<noteq> 0 then lim else None) b} \<and>
    (unat (bitmap_size (total_blocks (TotalSectors P))) + sum_list (map length us) = unat (BackupDataSize P) \<longrightarrow> rd (rs_file rs') [] rest) \<and>
    restore_buffers cbs (rs_slot rs') (rs_lzmem rs')"
proof -
  let ?n = "total_blocks (TotalSectors P)"
  define sz where "sz = bitmap_size ?n"
  have n: "?n < 2 ^ 58" "0 < ?n"
    using total_blocks_le [of "TotalSectors P"] fits(2) total_blocks_eq [OF fits(1)] by simp_all
  have sz: "0 < unat sz" "unat sz < limit" "unat sz < 2 ^ 32" "unat sz \<le> length bitmap" "?n \<le> 8 * unat sz"
    using bitmap_size_pos [OF n(2,1)] limit bm bitmap_size_covers [OF n(1)] unfolding sz_def by auto
  have lt: "length (take (unat sz) bitmap) = unat sz" using sz(4) by simp
  have bm0: "bitmap \<noteq> []" using sz(1,4) by auto
  obtain f1 where f1: "fr (rs_file rs) (unat sz) = Some (True, take (unat sz) bitmap, f1)" "rd f1 [] (us @ rest)"
    using next_record [of "rs_file rs" "take (unat sz) bitmap" "[]" "us @ rest"] st(2) lt sz chs(5) bm0
    unfolding plain_part_def sz_def [symmetric] by auto
  have usz: "unat (ucast sz :: u32) = unat sz" using sz(3) by (metis ucast_unat_eq unat_of_nat_u32)
  obtain mem where mem: "myalloc env d (ucast sz) = Some mem" "unat sz \<le> length mem"
    using myalloc_enough [OF dev(3), of d "ucast sz"] usz by auto
  define bitmap' where "bitmap' = take (unat sz) bitmap @ drop (unat sz) mem"
  have pt: "put mem 0 (take (unat sz) bitmap) = Some bitmap'" using mem(2) lt by (simp add: put_def bitmap'_def)
  have cov: "covers (take (unat sz) bitmap) ?n" "covers bitmap' ?n"
    using sz(5) n(1) mem(2) lt by (auto simp: covers_def bitmap'_def)
  have tk: "take (unat sz) bitmap' = take (unat sz) bitmap" using lt by (simp add: bitmap'_def)
  have mf: "marked_from bitmap ?n 0 = marked_from bitmap' ?n 0"
    using marked_take [OF cov(1), of 0] marked_take [of "unat sz" bitmap' ?n 0] tk cov(1) by simp
  have nz: "of_nat (length (take (unat sz) bitmap)) = sz" unfolding lt using ucast_unat_eq [OF refl, of sz, where 'b = 64] by simp
  have ub: "unat (BackupDataSize P - sz) = unat (BackupDataSize P) - unat sz" using size(1) unfolding sz_def [symmetric]
    by (subst unat_sub_no_wrap) simp_all
  then have ud: "unat (0 :: u64) + sum_list (map length us) \<le> unat (BackupDataSize P - sz)"
      "rest = [] \<or> unat (0 :: u64) + sum_list (map length us) = unat (BackupDataSize P - sz)"
      "unat (0 :: u64) + sum_list (map length us) = unat (BackupDataSize P - sz) \<longleftrightarrow>
         unat sz + sum_list (map length us) = unat (BackupDataSize P)"
    using size unfolding sz_def [symmetric] by auto
  let ?b = "(rs_slot rs)\<lparr>datavalid := False, usedsize := 0, sequence := 0\<rparr>"
  have bufs: "restore_buffers cbs ?b (rs_lzmem rs)" using st(1) by (simp add: restore_buffers_def)
  have plain: "\<forall>bs\<in>set chs. plain_unit (chunk_bytes G (BootBegin P) bs)"
    using chs(5) unfolding plain_part_def chs(1) by (simp add: list_all_iff)
  obtain d' b' lzmem' f' where rl: "restore_loop env cbs fr (if HasWindows P \<noteq> 0 then lim else None) bitmap' (BootBegin P) (TotalSectors P)
        (BackupDataSize P - sz) 0 0 (SmartDiskIoInit disk COMMAND_WRITE) d ?b (rs_lzmem rs) f1 = Some (None, d', b', lzmem', f')"
      "sec d' (ucast disk) = with_blocks (sec d (ucast disk)) G (BootBegin P) (TotalSectors P)
        {b \<in> set (concat (take (length us) chs)). allowed (if HasWindows P \<noteq> 0 then lim else None) b}"
      "unat sz + sum_list (map length us) = unat (BackupDataSize P) \<longrightarrow> rd f' [] rest" "restore_buffers cbs b' lzmem'"
    using restore_loop_records [where G = G, OF limit(1) dev(1,2) fits(1) cov(2) G cbs bufs idle_init mf chs(2-3) [unfolded chs(1)]
      plain [unfolded chs(1)] chs(4) f1(2) ud(1,2)] unfolding ud(3) chs(1) by blast
  have "BackupDataSize P \<noteq> 0" using size(1) sz(1) unfolding sz_def [symmetric] by auto
  then have "restore_one env cbs fr disk lim P (d, rs) = Some (None, d', \<lparr>rs_file = f', rs_slot = b', rs_lzmem = lzmem'\<rparr>)"
    unfolding restore_one_def using P(1) mem(1) f1(1) nz pt rl(1) by (simp add: Let_def sz_def [symmetric])
  then show ?thesis using rl(2-4) unfolding sz_def by auto
qed

lemma restore_one_records:
  assumes limit: "16 < limit" "unat (bitmap_size (total_blocks (TotalSectors P))) < limit"
      "unat (bitmap_size (total_blocks (TotalSectors P))) < 2 ^ 32"
    and dev: "writes_sectors env sec (ucast disk) secs" "ucast disk < g_disknum env" "allocates env"
    and fits: "part_fits secs (BootBegin P) (TotalSectors P)" "0 < unat (TotalSectors P)"
    and bm: "unat (bitmap_size (total_blocks (TotalSectors P))) \<le> length bitmap"
    and G: "\<And>i. length (G i) = 512" and cbs: "unat cbs = BLOCK_BYTES * Suc k"
    and recs: "part_records cbs k G (BootBegin P) (TotalSectors P) bitmap recs"
      "plain_part k G (BootBegin P) (TotalSectors P) bitmap"
    and P: "bIfBackup P \<noteq> 0" "unat (BackupDataSize P) = sum_list (map length recs)"
    and st: "restore_buffers cbs (rs_slot rs) (rs_lzmem rs)" "rd (rs_file rs) [] (recs @ rest)"
  shows "\<exists>d' rs'. restore_one env cbs fr disk lim P (d, rs) = Some (None, d', rs') \<and>
    sec d' (ucast disk) = with_blocks (sec d (ucast disk)) G (BootBegin P) (TotalSectors P)
      {b. b < total_blocks (TotalSectors P) \<and> marked bitmap b \<and> allowed (if HasWindows P \<noteq> 0 then lim else None) b} \<and>
    rd (rs_file rs') [] rest \<and> restore_buffers cbs (rs_slot rs') (rs_lzmem rs')"
proof -
  let ?n = "total_blocks (TotalSectors P)"
  let ?chs = "chunks k (marked_from bitmap ?n 0)"
  obtain us where us: "recs = take (unat (bitmap_size ?n)) bitmap # us"
    "list_all2 unit_of (map (chunk_bytes G (BootBegin P)) ?chs) us" "\<forall>u\<in>set us. length u \<le> unat cbs + 4112"
    using recs(1) unfolding part_records_def by auto
  have len: "length us = length ?chs" using list_all2_lengthD [OF us(2)] by simp
  have tot: "unat (bitmap_size ?n) + sum_list (map length us) = unat (BackupDataSize P)" using P(2) us(1) bm by simp
  have all: "take (length us) ?chs = ?chs" "length us \<le> length ?chs" using len by simp_all
  have us2: "list_all2 unit_of (map (chunk_bytes G (BootBegin P)) (take (length us) ?chs)) us" using us(2) all(1) by simp
  have le: "unat (bitmap_size ?n) + sum_list (map length us) \<le> unat (BackupDataSize P)" using tot by simp
  have same: "{b \<in> set (concat ?chs). allowed l b} = {b. b < ?n \<and> marked bitmap b \<and> allowed l b}" for l
    unfolding concat_chunks set_marked_from by auto
  show ?thesis
    using restore_one_prefix [where G = G, OF limit dev fits bm G cbs refl all(2) us2 us(3) recs(2) P(1) le
      disjI2 [OF tot] st(1) st(2) [unfolded us(1), simplified]] tot
    unfolding all same by auto
qed

end

lemma sum_lengths_bound:
  assumes "\<forall>u\<in>set us. length u \<le> m"
  shows "sum_list (map length us) \<le> length us * m"
  using assms by (induction us) (auto simp: add_mono)

lemma backed_up_size:
  assumes us: "\<forall>u\<in>set us. length u \<le> unat cbs + 4112" "length us + 3 < 2 ^ 32" "unat cbs \<le> 0x7E000000"
    and sz: "unat sz < 2 ^ 32"
  shows "unat (sz + of_nat (sum_list (map length us)) :: u64) = unat sz + sum_list (map length us)"
proof -
  have "sum_list (map length us) \<le> length us * (unat cbs + 4112)" by (rule sum_lengths_bound [OF us(1)])
  also have "\<dots> \<le> 2 ^ 32 * (0x7E000000 + 4112)" using us(2,3) by (intro mult_le_mono) simp_all
  finally have "sum_list (map length us) \<le> 2 ^ 32 * (0x7E000000 + 4112)" .
  then have "sum_list (map length us) < 2 ^ 63" by simp
  then show ?thesis using sz by (subst unat_add_no_wrap) (simp_all add: unat_of_nat_u64)
qed

lemma units_nonempty: "list_all2 unit_of bs us \<Longrightarrow> [] \<notin> set us"
  using unit_of_nonempty by (metis in_set_conv_nth list_all2_conv_all_nth)

text \<open>
  C1. A partition saved by the loop of Backup into a newly opened image and restored from it by
  the loop of Recover: both finish without error, every sector of a block that the scan marked
  (and that the limit of the restore admits) is on the target what it was on the source, and no
  other sector of the target changes.
\<close>

theorem restore_inverts_backup:
  assumes fs: "efi_ok fsenv fl opn" "length fn \<le> 64" "\<And>j. j < 2 ^ 32 \<Longrightarrow> fl w (seg fn j) = None"
    and src: "reads_sectors env sec (ucast disk) secs" "ucast disk < g_disknum env"
    and dst: "writes_sectors tenv tsec (ucast tdisk) tsecs" "ucast tdisk < g_disknum tenv" "allocates tenv"
    and P: "unat i < length (g_Partitions ps)" "P = g_Partitions ps ! unat i" "bIfBackup P \<noteq> 0" "0 < unat (TotalSectors P)"
    and scan: "ScanPartitionData env d i (GetDataToBitmap (unused i)) (replicate bufsize 0) ps = Some (r, bitmap, ps')" "0 \<le> r"
    and blocks: "blocks = total_blocks (TotalSectors P)" "unat (bitmap_size blocks) \<le> length bitmap"
      "unat (bitmap_size blocks) < MY_DEFINE_BUFFER_SIZE" "length (chunks k (marked_from bitmap blocks 0)) + 3 < 2 ^ 32"
    and place: "on_disk secs (BootBegin P) blocks" "part_fits tsecs (BootBegin P) (TotalSectors P)"
    and bufs: "backup_buffers cbs k b lzmem" "restore_buffers cbs b2 lzmem2"
    and plain: "plain_part k (sec d (ucast disk)) (BootBegin P) (TotalSectors P) bitmap"
  shows "\<exists>f st n f2 t' rs'.
    FileOpen fsenv False w fn (EFI_FILE_MODE_CREATE OR EFI_FILE_MODE_WRITE OR EFI_FILE_MODE_READ) True = Some (True, f) \<and>
    backup_one env cbs (image_write fsenv) disk unused bufsize d i
      \<lparr>bk_file = f, bk_part = ps, bk_sizes = sizes, bk_slot = b, bk_lzmem = lzmem\<rparr> = Some (True, st) \<and>
    bk_sizes st i = Some n \<and> image_reopen fsenv (bk_file st) = Some f2 \<and>
    restore_one tenv cbs (image_read fsenv) tdisk lim (P\<lparr>BackupDataSize := n\<rparr>)
      (t, \<lparr>rs_file = f2, rs_slot = b2, rs_lzmem = lzmem2\<rparr>) = Some (None, t', rs') \<and>
    tsec t' (ucast tdisk) = with_blocks (tsec t (ucast tdisk)) (sec d (ucast disk)) (BootBegin P) (TotalSectors P)
      {b. b < blocks \<and> marked bitmap b \<and> allowed (if HasWindows P \<noteq> 0 then lim else None) b}"
proof -
  let ?G = "sec d (ucast disk)" and ?sz = "bitmap_size blocks"
  have G: "\<And>i. length (?G i) = 512" using src(1) by (simp add: reads_sectors_def)
  note img = FileIo_image_file [OF fs(1,2)]
  obtain f where f: "FileOpen fsenv False w fn (EFI_FILE_MODE_CREATE OR EFI_FILE_MODE_WRITE OR EFI_FILE_MODE_READ) True = Some (True, f)"
      "writing fl opn fn f []"
    using FileOpen_creates [OF fs] by blast
  have small: "length [] + length (chunks k (marked_from bitmap blocks 0)) + 2 < 2 ^ 32" using blocks(4) by simp
  obtain us f1 b1 lz1 where bd: "backup_data env cbs (image_write fsenv) disk (BootBegin P) (TotalSectors P) bitmap d b lzmem f =
      Some (True, f1, ?sz + of_nat (sum_list (map length us)), b1, lz1)"
    "list_all2 unit_of (map (chunk_bytes ?G (BootBegin P)) (chunks k (marked_from bitmap blocks 0))) us"
    "\<forall>u\<in>set us. length u \<le> unat cbs + 4112" "writing fl opn fn f1 ([] @ take (unat ?sz) bitmap # us)"
    using image_file.backup_data_records [OF img src blocks(1,2) place(1) bufs(1) f(2) small, where d = d] by blast
  define recs where "recs = take (unat ?sz) bitmap # us"
  define n where "n = ?sz + of_nat (sum_list (map length us))"
  have n58: "blocks < 2 ^ 58" "0 < blocks"
    using total_blocks_le [of "TotalSectors P"] P(4) total_blocks_eq [OF place(2)] blocks(1) by simp_all
  have sz0: "0 < unat ?sz" using bitmap_size_pos [OF n58(2,1)] .
  have lus: "length us + 3 < 2 ^ 32" using list_all2_lengthD [OF bd(2)] blocks(4) by simp
  have cbs31: "unat cbs \<le> 0x7E000000" using bufs(1) by (simp add: backup_buffers_def)
  have sz64: "unat ?sz < 2 ^ 32" using blocks(3) by (simp add: MY_DEFINE_BUFFER_SIZE_def)
  have un: "unat n = sum_list (map length recs)"
    unfolding n_def backed_up_size [OF bd(3) lus cbs31 sz64] recs_def using blocks(2) by simp
  have "take (unat ?sz) bitmap \<noteq> []" using sz0 blocks(2) by auto
  then have ne: "[] \<notin> set recs" using units_nonempty [OF bd(2)] unfolding recs_def by auto
  obtain f2 where f2: "image_reopen fsenv f1 = Some f2" "reading fl opn fn f2 [] recs"
    using image_file.again [OF img bd(4) [unfolded append_Nil, folded recs_def] ne] lus by (auto simp: recs_def)
  define st where "st = \<lparr>bk_file = f1, bk_part = ps', bk_sizes = sizes(i \<mapsto> n), bk_slot = b1, bk_lzmem = lz1\<rparr>"
  have bo: "backup_one env cbs (image_write fsenv) disk unused bufsize d i
      \<lparr>bk_file = f, bk_part = ps, bk_sizes = sizes, bk_slot = b, bk_lzmem = lzmem\<rparr> = Some (True, st)"
    using P(1,3) scan bd(1) unfolding backup_one_def by (simp add: Let_def P(2) [symmetric] st_def n_def)
  have pr: "part_records cbs k ?G (BootBegin P) (TotalSectors P) bitmap recs"
    using bd(2,3) unfolding part_records_def blocks(1) recs_def by blast
  let ?P = "P\<lparr>BackupDataSize := n\<rparr>" and ?rs = "\<lparr>rs_file = f2, rs_slot = b2, rs_lzmem = lzmem2\<rparr>"
  have ex: "\<exists>d' rs'. restore_one tenv cbs (image_read fsenv) tdisk lim ?P (t, ?rs) = Some (None, d', rs') \<and>
    tsec d' (ucast tdisk) = with_blocks (tsec t (ucast tdisk)) ?G (BootBegin ?P) (TotalSectors ?P)
      {b. b < total_blocks (TotalSectors ?P) \<and> marked bitmap b \<and> allowed (if HasWindows ?P \<noteq> 0 then lim else None) b} \<and>
    reading fl opn fn (rs_file rs') [] [] \<and> restore_buffers cbs (rs_slot rs') (rs_lzmem rs')"
    by (rule image_file.restore_one_records [where G = ?G and k = k and bitmap = bitmap and recs = recs, OF img])
      (use blocks sz64 dst place(2) P(3,4) G bufs pr plain un f2(2) in \<open>auto simp: MY_DEFINE_BUFFER_SIZE_def backup_buffers_def\<close>)
  then obtain t' rs' where t': "restore_one tenv cbs (image_read fsenv) tdisk lim ?P (t, ?rs) = Some (None, t', rs')"
    "tsec t' (ucast tdisk) = with_blocks (tsec t (ucast tdisk)) ?G (BootBegin P) (TotalSectors P)
      {b. b < blocks \<and> marked bitmap b \<and> allowed (if HasWindows P \<noteq> 0 then lim else None) b}"
    unfolding blocks(1) by auto
  have bs: "bk_sizes st i = Some n" "bk_file st = f1" by (simp_all add: st_def)
  show ?thesis
    by (intro exI [of _ f] exI [of _ st] exI [of _ n] exI [of _ f2] exI [of _ t'] exI [of _ rs'] conjI)
      (use f(1) bo bs f2(1) t' in simp_all)
qed

section \<open>A small example\<close>

lemma ram_allocates: "allocates (ram_env n)"
  by (simp add: allocates_def ram_env_def)

lemma chunk_bytes_zeros: "chunk_bytes (\<lambda>_. replicate 512 0) beginsec bs = replicate (BLOCK_BYTES * length bs) 0"
proof (induction bs)
  case (Cons b bs)
  have "concat (map (\<lambda>_. replicate 512 (0 :: byte)) [s..<s + n]) = replicate (512 * n) 0" for s n
    by (induction n) (simp_all add: replicate_add [symmetric] add.commute)
  then show ?case
    using Cons by (simp add: chunk_bytes_def block_bytes_def replicate_add [symmetric] BLOCK_BYTES_def mult.commute)
qed (simp add: chunk_bytes_def)

lemma zeros_not_old: "\<not> old_header (replicate n 0)"
proof (cases "4 \<le> n")
  case True
  then have "rd32 (replicate n 0) 0 = Some 0" by (simp add: rd32_def rd_le_def slice_def eval_nat_numeral)
  then show ?thesis by (simp add: old_header_def OKR_IMAGE_MAGIC_def)
next
  case False
  then show ?thesis by (simp add: old_header_def rd32_def rd_le_def slice_def)
qed

text \<open>A partition of 100 sectors with no known file system: both its blocks are saved.\<close>

definition raw_volume :: WIN32_PARTITIONINFO where
  "raw_volume = empty_partition\<lparr>BootBegin := 8, TotalSectors := 100, bIfBackup := 1\<rparr>"

definition raw_state :: part_state where
  "raw_state = \<lparr>m_group_desc = False, m_BootBegin = 0, m_SectorsPerCluster = 0, m_PartitionType = 0, m_PartitionIndex = 0,
     m_DiskNumber = 0, m_bLBAMode = False, m_BitmapSectorList = [], m_FatBuffer = None, m_dwFatBufferSize = 0, m_FatSize = 0,
     m_RecursiveTimes = 0, g_dwTotalPartitions = 1, g_Partitions = [raw_volume], g_disklist = [], groupdesc = None,
     groupdescsize = 0, scanbuffer = None, oempartition = 0\<rparr>"

definition raw_slot :: BUFFER_INFO where
  "raw_slot = empty_buffer\<lparr>pointer := replicate 69632 0, totalsize := 65536\<rparr>"

lemma raw_scan:
  "\<exists>ps. ScanPartitionData (ram_env 1) d 0 g (replicate 4097 0) raw_state = Some (0, 0xff # replicate 4096 0, ps)"
  by (simp add: ScanPartitionData_def raw_state_def scan_prepare_def scan_begin_def raw_volume_def empty_partition_def Let_def
      IsUnSupportedPartition_def put_def FAT16_def FAT16_E_def FAT32_def FAT32_E_def NTFS_def PARTITION_LINUX_def)

lemma raw_blocks: "total_blocks 100 = 2" "unat (bitmap_size 2) = 4096"
  using unat_bitmap_size [of 2] by (simp_all add: total_blocks_def BLOCK_SIZE_def)

lemma raw_marked: "marked_from (0xff # replicate 4096 0) 2 0 = [0, 1]"
  by (simp add: marked_from_def marked_def ReadBit_alt upt_rec [of 0 2] upt_rec [of "Suc 0" 2])

lemma ram_sec_Nil: "ram_sec (\<lambda>_. []) k = (\<lambda>_. replicate 512 0)"
  by (simp add: ram_sec_def fun_eq_iff)

lemma raw_plain: "plain_part 1 (ram_sec (\<lambda>_. []) 0) 8 100 (0xff # replicate 4096 0)"
proof -
  have "take 4 (0xff # replicate 4095 0) = [0xff, 0, 0, 0 :: byte]"
    by (simp add: numeral_3_eq_3)
  then have "rd32 (0xff # replicate 4095 0) 0 = Some 0xff"
    by (simp add: rd32_def rd_le_def slice_def)
  then have "\<not> old_header (0xff # replicate 4095 0)"
    by (simp add: old_header_def OKR_IMAGE_MAGIC_def)
  moreover have "8 \<le> BLOCK_BYTES * 2" by (simp add: BLOCK_BYTES_def BLOCK_SIZE_def)
  ultimately show ?thesis
    unfolding plain_part_def raw_blocks raw_marked ram_sec_Nil
    by (simp add: plain_unit_def chunk_bytes_zeros zeros_not_old)
qed

theorem restore_inverts_backup_witness:
  "\<exists>f st n f2 t' rs'.
    FileOpen ram_fs_env False no_files image_name (EFI_FILE_MODE_CREATE OR EFI_FILE_MODE_WRITE OR EFI_FILE_MODE_READ) True = Some (True, f) \<and>
    backup_one (ram_env 1) 65536 (image_write ram_fs_env) 0 (\<lambda>_. []) 4097 (\<lambda>_. []) 0
      \<lparr>bk_file = f, bk_part = raw_state, bk_sizes = (\<lambda>_. None), bk_slot = raw_slot, bk_lzmem = replicate 69921 0\<rparr> = Some (True, st) \<and>
    bk_sizes st 0 = Some n \<and> image_reopen ram_fs_env (bk_file st) = Some f2 \<and>
    restore_one (ram_env 1) 65536 (image_read ram_fs_env) 0 None (raw_volume\<lparr>BackupDataSize := n\<rparr>)
      (\<lambda>_. replicate 512 1, \<lparr>rs_file = f2, rs_slot = raw_slot, rs_lzmem = replicate 65536 0\<rparr>) = Some (None, t', rs') \<and>
    ram_sec t' 0 = (\<lambda>i. if 8 \<le> i \<and> i < 108 then replicate 512 0 else replicate 512 1)"
proof -
  obtain ps where ps: "ScanPartitionData (ram_env 1) (\<lambda>_. []) 0 (GetDataToBitmap []) (replicate 4097 0) raw_state = Some (0, 0xff # replicate 4096 0, ps)"
    using raw_scan by blast
  have P: "TotalSectors raw_volume = 100" "BootBegin raw_volume = 8" "bIfBackup raw_volume = 1" "HasWindows raw_volume = 0"
      "g_Partitions raw_state ! 0 = raw_volume"
    by (simp_all add: raw_volume_def raw_state_def empty_partition_def)
  have bufs: "backup_buffers 65536 1 raw_slot (replicate 69921 0)" "restore_buffers 65536 raw_slot (replicate 65536 0)"
    by (simp_all add: backup_buffers_def restore_buffers_def raw_slot_def BLOCK_BYTES_def BLOCK_SIZE_def LZ4_COMPRESSBOUND_def)
  have "\<exists>f st n f2 t' rs'.
    FileOpen ram_fs_env False no_files image_name (EFI_FILE_MODE_CREATE OR EFI_FILE_MODE_WRITE OR EFI_FILE_MODE_READ) True = Some (True, f) \<and>
    backup_one (ram_env 1) 65536 (image_write ram_fs_env) 0 (\<lambda>_. []) 4097 (\<lambda>_. []) 0
      \<lparr>bk_file = f, bk_part = raw_state, bk_sizes = (\<lambda>_. None), bk_slot = raw_slot, bk_lzmem = replicate 69921 0\<rparr> = Some (True, st) \<and>
    bk_sizes st 0 = Some n \<and> image_reopen ram_fs_env (bk_file st) = Some f2 \<and>
    restore_one (ram_env 1) 65536 (image_read ram_fs_env) 0 None (raw_volume\<lparr>BackupDataSize := n\<rparr>)
      (\<lambda>_. replicate 512 1, \<lparr>rs_file = f2, rs_slot = raw_slot, rs_lzmem = replicate 65536 0\<rparr>) = Some (None, t', rs') \<and>
    ram_sec t' (ucast (0 :: byte)) = with_blocks (ram_sec (\<lambda>_. replicate 512 1) (ucast (0 :: byte))) (ram_sec (\<lambda>_. []) (ucast (0 :: byte)))
      (BootBegin raw_volume) (TotalSectors raw_volume)
      {b. b < 2 \<and> marked (0xff # replicate 4096 0) b \<and> allowed (if HasWindows raw_volume \<noteq> 0 then None else None) b}"
    by (rule restore_inverts_backup [OF ram_fs_ok _ _ ram_reads_sectors _ ram_writes_sectors _ ram_allocates,
          where secs = 1000 and tsecs = 1000 and k = 1 and r = 0 and ps' = ps])
      (use ps P raw_blocks raw_marked bufs raw_plain in
        \<open>auto simp: image_name_def no_files_def raw_state_def on_disk_def part_fits_def BLOCK_SIZE_def MY_DEFINE_BUFFER_SIZE_def ram_env_def\<close>)
  moreover have "with_blocks (ram_sec (\<lambda>_. replicate 512 1) (ucast (0 :: byte))) (ram_sec (\<lambda>_. []) (ucast (0 :: byte)))
      (BootBegin raw_volume) (TotalSectors raw_volume)
      {b. b < 2 \<and> marked (0xff # replicate 4096 0) b \<and> allowed (if HasWindows raw_volume \<noteq> 0 then None else None) b} =
      (\<lambda>i. if 8 \<le> i \<and> i < 108 then replicate 512 0 else replicate 512 1)"
  proof -
    have m: "{b. b < 2 \<and> marked (0xff # replicate 4096 0) b \<and> allowed (if HasWindows raw_volume \<noteq> 0 then None else None) b} = {0, 1}"
      using arg_cong [OF raw_marked, of set] by (auto simp: marked_from_def allowed_def)
    show ?thesis unfolding m by (auto simp: with_blocks_def in_block_def P ram_sec_def fun_eq_iff BLOCK_SIZE_def)
  qed
  ultimately show ?thesis by simp
qed

end
