(* ===== verification/Okr_Damaged.thy ===== *)
theory Okr_Damaged
  imports Okr_Archive
begin

unbundle bit_operations_syntax

text \<open>
  What the restore of \<^verbatim>\<open>src/OkrPkg/okrefi/func.c\<close> does with an image that is not complete: one
  that was cut off behind some unit, and one with a unit that does not hold whole blocks.
\<close>

section \<open>A unit that is not a number of whole blocks\<close>

lemma mod_blocks_sub: "unat (x - of_nat BLOCK_BYTES :: u64) mod BLOCK_BYTES = unat x mod BLOCK_BYTES"
proof -
  define y :: u64 where "y = x - of_nat BLOCK_BYTES"
  have "unat x = (unat y + BLOCK_BYTES) mod 2 ^ 64"
    using unat_word_ariths(1) [of y "of_nat BLOCK_BYTES"] by (simp add: y_def BLOCK_BYTES_def BLOCK_SIZE_def)
  moreover have "BLOCK_BYTES dvd 2 ^ 64" by (simp add: BLOCK_BYTES_def BLOCK_SIZE_def)
  ultimately show ?thesis by (simp only: y_def [symmetric] mod_mod_cancel mod_add_self2)
qed

text \<open>
  The rest of such a unit is never 0: it wraps, and the loop goes on to the last block, exactly as if
  all marked blocks that are left belonged to the unit, and then reports corrupted data.
\<close>

lemma odd_unit_blocks:
  assumes cov: "covers bitmap blocks"
  shows "\<lbrakk>unat n mod BLOCK_BYTES \<noteq> 0; cur \<le> blocks; BLOCK_BYTES * length (marked_from bitmap blocks cur) < 2 ^ 64\<rbrakk> \<Longrightarrow>
    write_blocks env limit bitmap beginsec totsec blocks cur n p info st =
      (case write_blocks env limit bitmap beginsec totsec blocks cur (of_nat (BLOCK_BYTES * length (marked_from bitmap blocks cur))) p info st of
         None \<Rightarrow> None
       | Some (None, _, info1, st1) \<Rightarrow> Some (Some OKR_ERROR_COMPRESS_DATA_CORRUPTED, blocks, info1, st1)
       | Some (Some e, r) \<Rightarrow> Some (Some e, r))"
proof (induction "blocks - cur" arbitrary: cur n p info st)
  case 0
  then have "cur = blocks" "n \<noteq> 0" by (simp, auto)
  moreover have "marked_from bitmap blocks blocks = []" by (simp add: marked_from_def)
  ultimately show ?case by (simp add: write_blocks.simps)
next
  case (Suc k)
  have lt: "cur < blocks" "k = blocks - Suc cur" "Suc cur \<le> blocks" using Suc(2) by auto
  have n: "n \<noteq> 0" using Suc.prems(1) by auto
  have bit: "ReadBit (of_nat cur) bitmap = Some (marked bitmap cur)" using covers_ReadBit [OF cov lt(1)] .
  show ?case
  proof (cases "marked bitmap cur")
    case False
    then have e: "marked_from bitmap blocks cur = marked_from bitmap blocks (Suc cur)"
      using lt marked_from_step [of bitmap blocks cur] by simp
    have "write_blocks env limit bitmap beginsec totsec blocks cur n p info st =
        write_blocks env limit bitmap beginsec totsec blocks (Suc cur) n p info st"
      using lt(1) bit False n by (subst write_blocks.simps) simp
    also have "\<dots> = (case write_blocks env limit bitmap beginsec totsec blocks cur (of_nat (BLOCK_BYTES * length (marked_from bitmap blocks (Suc cur)))) p info st of
         None \<Rightarrow> None
       | Some (None, _, info1, st1) \<Rightarrow> Some (Some OKR_ERROR_COMPRESS_DATA_CORRUPTED, blocks, info1, st1)
       | Some (Some e, r) \<Rightarrow> Some (Some e, r))"
      unfolding Suc.hyps(1) [OF lt(2) Suc.prems(1) lt(3) Suc.prems(3) [unfolded e]]
      using lt(1) bit False by (subst (2) write_blocks.simps) (simp add: write_blocks.simps [where datasize = 0] del: of_nat_mult)
    finally show ?thesis unfolding e .
  next
    case True
    then have e: "marked_from bitmap blocks cur = cur # marked_from bitmap blocks (Suc cur)"
      using lt marked_from_step [of bitmap blocks cur] by simp
    let ?m = "length (marked_from bitmap blocks (Suc cur))"
    have m: "BLOCK_BYTES * Suc ?m < 2 ^ 64" using Suc.prems(3) unfolding e by simp
    then have m': "BLOCK_BYTES * ?m < 2 ^ 64" by simp
    note dz = datasize_step [OF m]
    have odd: "unat (n - of_nat BLOCK_BYTES) mod BLOCK_BYTES \<noteq> 0" using Suc.prems(1) by (simp add: mod_blocks_sub)
    note IH = Suc.hyps(1) [OF lt(2) odd lt(3) m']
    define io where "io = (if (case limit of None \<Rightarrow> True | Some m \<Rightarrow> of_nat cur < m + 1)
        then SmartDiskIo env info (of_nat (cur * BLOCK_SIZE) + beginsec)
          (if Suc cur = blocks then ucast (totsec - of_nat (cur * BLOCK_SIZE)) else of_nat BLOCK_SIZE) p st
        else Some (True, info, st))"
    have step: "write_blocks env limit bitmap beginsec totsec blocks cur x p info st =
        io \<bind> (\<lambda>(ok, info', st'). if \<not> ok then Some (Some OKR_ERROR_WRITE_GPT, cur, info', st')
          else write_blocks env limit bitmap beginsec totsec blocks (Suc cur) (x - of_nat BLOCK_BYTES) (p + BLOCK_BYTES) info' st')"
      if "x \<noteq> 0" for x
      using that lt(1) bit True by (subst write_blocks.simps) (simp add: io_def Let_def del: of_nat_mult)
    show ?thesis
      unfolding e list.size(4) add_Suc_right add_0_right step [OF n] step [OF dz(1)] dz(2)
      by (cases io) (auto simp: IH simp del: of_nat_mult)
  qed
qed

text \<open>
  C32. A unit that decompresses to a size that is not a multiple of a block is not refused. Whatever
  the size is, the loop hands all marked blocks that are left to SmartDiskIo, with the bytes that
  follow one another in the buffer, those behind the unit included, and only then reports corrupted
  data; what SmartDiskIo had not written yet, and a last call would write, is left pending.
\<close>

theorem odd_unit_never_completes:
  assumes dev: "writes_sectors env sec (ucast disk) secs" "ucast disk < g_disknum env"
    and fits: "part_fits secs beginsec totsec" and cov: "covers bitmap (total_blocks totsec)"
    and G: "\<And>i. length (G i) = 512" and idle: "idle COMMAND_WRITE disk info"
    and bs: "bs = marked_from bitmap (total_blocks totsec) cur" "cur \<le> total_blocks totsec" "BLOCK_BYTES * length bs < 2 ^ 32"
    and mem: "lzmem = chunk_bytes G beginsec bs @ t"
    and n: "unat n mod BLOCK_BYTES \<noteq> 0"
  shows "\<exists>info1 st1 info' d'. write_chunk env limit bitmap beginsec totsec (total_blocks totsec) cur n info (d, lzmem) =
      Some (Some OKR_ERROR_COMPRESS_DATA_CORRUPTED, total_blocks totsec, info1, st1) \<and>
    SmartDiskIo env info1 0 0 0 st1 = Some (True, info', d', lzmem) \<and>
    sec d' (ucast disk) = with_blocks (sec d (ucast disk)) G beginsec totsec {b \<in> set bs. allowed limit b}"
proof -
  have all: "bs = take (length bs) (marked_from bitmap (total_blocks totsec) cur)" by (simp add: bs(1))
  obtain cur' info' d' where w: "write_chunk env limit bitmap beginsec totsec (total_blocks totsec) cur (of_nat (BLOCK_BYTES * length bs)) info (d, lzmem) =
      Some (None, cur', info', d', lzmem)"
    "sec d' (ucast disk) = with_blocks (sec d (ucast disk)) G beginsec totsec {b \<in> set bs. allowed limit b}"
    using write_chunk_correct [where G = G, OF dev fits cov G idle all refl bs(3) mem] by blast
  obtain info1 st1 where "write_blocks env limit bitmap beginsec totsec (total_blocks totsec) cur (of_nat (BLOCK_BYTES * length bs)) 0 info (d, lzmem) =
      Some (None, cur', info1, st1)" "SmartDiskIo env info1 0 0 0 st1 = Some (True, info', d', lzmem)"
    using w(1) by (auto simp: write_chunk_def simp del: of_nat_mult elim!: bind_SomeE split: if_splits)
  moreover have "BLOCK_BYTES * length (marked_from bitmap (total_blocks totsec) cur) < 2 ^ 64" using bs(1,3) by simp
  ultimately have "write_blocks env limit bitmap beginsec totsec (total_blocks totsec) cur n 0 info (d, lzmem) =
      Some (Some OKR_ERROR_COMPRESS_DATA_CORRUPTED, total_blocks totsec, info1, st1)"
    unfolding bs(1) by (subst odd_unit_blocks [OF cov n bs(2)]) (simp_all del: of_nat_mult)
  then have "write_chunk env limit bitmap beginsec totsec (total_blocks totsec) cur n info (d, lzmem) =
      Some (Some OKR_ERROR_COMPRESS_DATA_CORRUPTED, total_blocks totsec, info1, st1)" by (simp add: write_chunk_def)
  with \<open>SmartDiskIo env info1 0 0 0 st1 = Some (True, info', d', lzmem)\<close> w(2) show ?thesis by blast
qed

theorem odd_unit_never_completes_witness:
  "\<exists>info1 st1 info' d'. write_chunk (ram_env 1) None [3] 0 128 (total_blocks 128) 0 100 (SmartDiskIoInit 0 COMMAND_WRITE)
      (\<lambda>_. replicate 512 1, replicate 65536 0) =
      Some (Some OKR_ERROR_COMPRESS_DATA_CORRUPTED, total_blocks 128, info1, st1) \<and>
    SmartDiskIo (ram_env 1) info1 0 0 0 st1 = Some (True, info', d', replicate 65536 0) \<and>
    ram_sec d' 0 = with_blocks (ram_sec (\<lambda>_. replicate 512 1) 0) (\<lambda>_. replicate 512 0) 0 128 {0, 1}"
proof -
  have b: "total_blocks 128 = 2" by (simp add: total_blocks_def BLOCK_SIZE_def)
  have m: "marked_from [3] (total_blocks 128) 0 = [0, 1]"
    by (simp add: b marked_from_def marked_def ReadBit_alt upt_rec [of 0 2] upt_rec [of "Suc 0" 2])
  have mem: "replicate 65536 0 = chunk_bytes (\<lambda>_. replicate 512 0) 0 [0, 1] @ []"
    by (simp add: chunk_bytes_zeros BLOCK_BYTES_def BLOCK_SIZE_def)
  have "\<exists>info1 st1 info' d'. write_chunk (ram_env 1) None [3] 0 128 (total_blocks 128) 0 100 (SmartDiskIoInit 0 COMMAND_WRITE)
      (\<lambda>_. replicate 512 1, replicate 65536 0) =
      Some (Some OKR_ERROR_COMPRESS_DATA_CORRUPTED, total_blocks 128, info1, st1) \<and>
    SmartDiskIo (ram_env 1) info1 0 0 0 st1 = Some (True, info', d', replicate 65536 0) \<and>
    ram_sec d' (ucast (0 :: byte)) = with_blocks (ram_sec (\<lambda>_. replicate 512 1) (ucast (0 :: byte))) (\<lambda>_. replicate 512 0) 0 128
      {b \<in> set [0, 1]. allowed None b}"
    by (rule odd_unit_never_completes [OF ram_writes_sectors, where secs = 1000 and t = "[]"])
      (use m in \<open>auto simp: ram_env_def part_fits_def covers_def b idle_init BLOCK_BYTES_def BLOCK_SIZE_def mem\<close>)
  moreover have "{b \<in> set [0, 1]. allowed None b} = {0, 1}" by (auto simp: allowed_def)
  ultimately show ?thesis by simp
qed

section \<open>An image that ends early\<close>

text \<open>
  C31. An image that ends behind the bitmap of a partition and its first units is restored
  without an error: the chunks of these units are written, the others are left out in silence.
\<close>

theorem truncated_image_accepted:
  assumes fs: "efi_ok fsenv fl opn" "length fn \<le> 64"
    and dev: "writes_sectors env sec (ucast disk) secs" "ucast disk < g_disknum env" "allocates env"
    and P: "part_fits secs (BootBegin P) (TotalSectors P)" "0 < unat (TotalSectors P)" "bIfBackup P \<noteq> 0"
    and sz: "sz = unat (bitmap_size (total_blocks (TotalSectors P)))" "sz \<le> length bitmap" "sz < MY_DEFINE_BUFFER_SIZE"
    and G: "\<And>i. length (G i) = 512" and cbs: "unat cbs = BLOCK_BYTES * Suc k"
    and chs: "chs = chunks k (marked_from bitmap (total_blocks (TotalSectors P)) 0)" "length us \<le> length chs"
      "list_all2 unit_of (map (chunk_bytes G (BootBegin P)) (take (length us) chs)) us"
      "\<And>u. u \<in> set us \<Longrightarrow> length u \<le> unat cbs + 4112" "plain_part k G (BootBegin P) (TotalSectors P) bitmap"
    and size: "sz + sum_list (map length us) \<le> unat (BackupDataSize P)"
    and st: "restore_buffers cbs (rs_slot rs) (rs_lzmem rs)" "reading fl opn fn (rs_file rs) [] (take sz bitmap # us)"
  shows "\<exists>d' rs'. restore_one env cbs (image_read fsenv) disk lim P (d, rs) = Some (None, d', rs') \<and>
    sec d' (ucast disk) = with_blocks (sec d (ucast disk)) G (BootBegin P) (TotalSectors P)
      {b \<in> set (concat (take (length us) chs)). allowed (if HasWindows P \<noteq> 0 then lim else None) b}"
proof -
  have chs4: "\<forall>u\<in>set us. length u \<le> unat cbs + 4112" using chs(4) by blast
  have lim: "16 < MY_DEFINE_BUFFER_SIZE" "sz < 2 ^ 32" using sz(3) by (simp_all add: MY_DEFINE_BUFFER_SIZE_def)
  show ?thesis
    using image_file.restore_one_prefix [where G = G and rest = "[]" and lim = lim and d = d,
        OF FileIo_image_file [OF fs] lim(1) sz(3) [unfolded sz(1)] lim(2) [unfolded sz(1)] dev P(1,2) sz(2) [unfolded sz(1)] G cbs chs(1-3) chs4 chs(5)
          P(3) size [unfolded sz(1)] _ st(1)] st(2) [unfolded sz(1)]
    by auto
qed

theorem truncated_image_accepted_witness:
  "\<exists>f d' rs'. reading rfiles ropen image_name f [] [0xff # replicate 4095 0] \<and>
    restore_one (ram_env 1) 65536 (image_read ram_fs_env) 0 None (raw_volume\<lparr>BackupDataSize := 8192\<rparr>)
      (\<lambda>_. replicate 512 1, \<lparr>rs_file = f, rs_slot = raw_slot, rs_lzmem = replicate 65536 0\<rparr>) = Some (None, d', rs') \<and>
    ram_sec d' 0 = (\<lambda>_. replicate 512 1)"
proof -
  have "length image_name \<le> 64" "\<And>j. rfiles no_files (seg image_name j) = None"
    by (simp_all add: image_name_def no_files_def)
  from FileOpen_creates [OF ram_fs_ok this] obtain f0 :: "FILE_HANDLE_INFO \<times> ram_fs" where "writing rfiles ropen image_name f0 []" by blast
  then obtain f1 :: "FILE_HANDLE_INFO \<times> ram_fs" where "writing rfiles ropen image_name f1 [0xff # replicate 4095 0]"
    using ram_image.write_law [of f0 "[]" "0xff # replicate 4095 0"] by auto
  then obtain f :: "FILE_HANDLE_INFO \<times> ram_fs" where f: "reading rfiles ropen image_name f [] [0xff # replicate 4095 0]"
    using ram_image.again [of f1 "[0xff # replicate 4095 0]"] by auto
  have P: "TotalSectors raw_volume = 100" "BootBegin raw_volume = 8" "bIfBackup raw_volume = 1" "HasWindows raw_volume = 0"
    by (simp_all add: raw_volume_def empty_partition_def)
  have bufs: "restore_buffers 65536 raw_slot (replicate 65536 0)"
    by (simp add: restore_buffers_def raw_slot_def BLOCK_BYTES_def BLOCK_SIZE_def)
  have "\<exists>d' rs'. restore_one (ram_env 1) 65536 (image_read ram_fs_env) 0 None (raw_volume\<lparr>BackupDataSize := 8192\<rparr>)
      (\<lambda>_. replicate 512 1, \<lparr>rs_file = f, rs_slot = raw_slot, rs_lzmem = replicate 65536 0\<rparr>) = Some (None, d', rs') \<and>
    ram_sec d' (ucast (0 :: byte)) = with_blocks (ram_sec (\<lambda>_. replicate 512 1) (ucast (0 :: byte))) (ram_sec (\<lambda>_. []) 0)
      (BootBegin (raw_volume\<lparr>BackupDataSize := 8192\<rparr>)) (TotalSectors (raw_volume\<lparr>BackupDataSize := 8192\<rparr>))
      {b \<in> set (concat (take (length ([] :: buf list)) (chunks 1 [0, 1]))). allowed (if HasWindows (raw_volume\<lparr>BackupDataSize := 8192\<rparr>) \<noteq> 0 then None else None) b}"
    by (rule truncated_image_accepted [OF ram_fs_ok _ ram_writes_sectors _ ram_allocates,
          where secs = 1000 and k = 1 and sz = 4096 and us = "[]" and bitmap = "0xff # replicate 4096 0"])
      (use f P raw_blocks raw_marked bufs raw_plain in
        \<open>auto simp: image_name_def part_fits_def BLOCK_SIZE_def BLOCK_BYTES_def MY_DEFINE_BUFFER_SIZE_def ram_env_def ram_sec_def\<close>)
  moreover have "ram_sec (\<lambda>_. replicate 512 1) (ucast (0 :: byte)) = (\<lambda>_. replicate 512 1)" by (simp add: ram_sec_def fun_eq_iff)
  ultimately show ?thesis using f by (intro exI [of _ f]) simp
qed

end
