(* ===== verification/Okr_Time.thy ===== *)
theory Okr_Time
  imports Okr_Prelude
begin

text \<open>
  Calendar time, \<^verbatim>\<open>src/OkrPkg/okrefi/utils.c\<close>: \<open>mytime\<close>, \<open>mygmtime\<close> and \<open>GetSeconds\<close>. What the firmware
  reports is the record \<open>EFI_TIME\<close>; an index outside \<open>CumulativeDays\<close> is \<open>None\<close>.
\<close>

record EFI_TIME =
  Year :: u16
  Month :: byte
  Day :: byte
  Hour :: byte
  Minute :: byte
  Second :: byte
  TimeZone :: u16

record mytm =
  tm_sec :: "32 word"
  tm_min :: "32 word"
  tm_hour :: "32 word"
  tm_mday :: "32 word"
  tm_mon :: "32 word"
  tm_year :: "32 word"
  tm_wday :: "32 word"
  tm_yday :: "32 word"

definition IsLeap :: "u64 \<Rightarrow> bool" where
  "IsLeap y \<longleftrightarrow> y mod 4 = 0 \<and> (y mod 100 \<noteq> 0 \<or> y mod 400 = 0)"

definition SECSPERMIN :: nat where "SECSPERMIN = 60"
definition SECSPERHOUR :: nat where "SECSPERHOUR = 60 * 60"
definition SECSPERDAY :: nat where "SECSPERDAY = 24 * SECSPERHOUR"

definition EFI_UNSPECIFIED_TIMEZONE :: u16 where "EFI_UNSPECIFIED_TIMEZONE = 0x07FF"

definition CumulativeDays :: "bool \<Rightarrow> nat list" where
  "CumulativeDays leap =
     (if leap
      then [0, 0, 31, 31 + 29, 31 + 29 + 31, 31 + 29 + 31 + 30, 31 + 29 + 31 + 30 + 31,
            31 + 29 + 31 + 30 + 31 + 30, 31 + 29 + 31 + 30 + 31 + 30 + 31,
            31 + 29 + 31 + 30 + 31 + 30 + 31 + 31, 31 + 29 + 31 + 30 + 31 + 30 + 31 + 31 + 30,
            31 + 29 + 31 + 30 + 31 + 30 + 31 + 31 + 30 + 31, 31 + 29 + 31 + 30 + 31 + 30 + 31 + 31 + 30 + 31 + 30,
            31 + 29 + 31 + 30 + 31 + 30 + 31 + 31 + 30 + 31 + 30 + 31]
      else [0, 0, 31, 31 + 28, 31 + 28 + 31, 31 + 28 + 31 + 30, 31 + 28 + 31 + 30 + 31,
            31 + 28 + 31 + 30 + 31 + 30, 31 + 28 + 31 + 30 + 31 + 30 + 31,
            31 + 28 + 31 + 30 + 31 + 30 + 31 + 31, 31 + 28 + 31 + 30 + 31 + 30 + 31 + 31 + 30,
            31 + 28 + 31 + 30 + 31 + 30 + 31 + 31 + 30 + 31, 31 + 28 + 31 + 30 + 31 + 30 + 31 + 31 + 30 + 31 + 30,
            31 + 28 + 31 + 30 + 31 + 30 + 31 + 31 + 30 + 31 + 30 + 31])"

text \<open>\<open>Year != Time.Year; Year++\<close> on 64-bit words: for a year before 1970 the loop goes once around.\<close>

function years_loop :: "u64 \<Rightarrow> u64 \<Rightarrow> u64 \<Rightarrow> u64" where
  "years_loop y target cur =
     (if y = target then cur
      else years_loop (y + 1) target (cur + of_nat (CumulativeDays (IsLeap y) ! 13) * of_nat SECSPERDAY))"
  by pat_completeness auto
termination
proof (relation "measure (\<lambda>(y, target, cur). unat (target - y))")
  fix y target cur :: u64
  assume "y \<noteq> target"
  then have "target - y \<noteq> 0" by simp
  then have "unat (target - y - 1) < unat (target - y)"
    by (simp add: unat_minus_one unat_gt_0)
  then show "((y + 1, target, cur + of_nat (CumulativeDays (IsLeap y) ! 13) * of_nat SECSPERDAY), y, target, cur)
      \<in> measure (\<lambda>(y, target, cur). unat (target - y))"
    by (simp add: diff_diff_eq)
qed simp

declare years_loop.simps [simp del]

definition mytime :: "EFI_TIME \<Rightarrow> u64 option" where
  "mytime T =
     (if length (CumulativeDays (IsLeap (ucast (Year T)))) \<le> unat (Month T) then None
      else Some (years_loop 1970 (ucast (Year T)) 0
        + (if TimeZone T \<noteq> EFI_UNSPECIFIED_TIMEZONE then scast (TimeZone T) * 60 else 0)
        + of_nat (CumulativeDays (IsLeap (ucast (Year T))) ! unat (Month T)) * of_nat SECSPERDAY
        + of_nat ((if 0 < Day T then unat (Day T) - 1 else 0) * SECSPERDAY)
        + of_nat (unat (Hour T) * SECSPERHOUR) + of_nat (unat (Minute T) * 60) + ucast (Second T)))"

fun gm_years :: "u64 \<Rightarrow> u64 \<Rightarrow> nat \<Rightarrow> u64 \<times> u64 \<times> nat" where
  "gm_years y n days =
     (if 0 < days \<and> (if IsLeap y then 366 else 365) \<le> days
      then gm_years (y + 1) (n + 1) (days - (if IsLeap y then 366 else 365))
      else (y, n, days))"

declare gm_years.simps [simp del]

fun gm_month :: "nat list \<Rightarrow> nat \<Rightarrow> nat \<Rightarrow> nat \<times> nat" where
  "gm_month cum m days =
     (if 1 < m then (if cum ! m \<le> days then (m, days - cum ! m) else gm_month cum (m - 1) days)
      else (m, days))"

declare gm_month.simps [simp del]

definition mygmtime :: "u64 \<Rightarrow> mytm" where
  "mygmtime timer =
     (let DayNo = unat (ucast (timer div of_nat SECSPERDAY) :: u32);
          DayRemainder = unat (ucast (timer mod of_nat SECSPERDAY) :: u32);
          (y, YearNo, yday) = gm_years 1970 0 DayNo;
          (MonthNo, d) = gm_month (CumulativeDays (IsLeap y)) 12 yday
      in \<lparr>tm_sec = of_nat (DayRemainder mod SECSPERMIN),
          tm_min = of_nat ((DayRemainder mod SECSPERHOUR) div SECSPERMIN),
          tm_hour = of_nat (DayRemainder div SECSPERHOUR),
          tm_mday = of_nat (d + 1), tm_mon = of_nat MonthNo,
          tm_year = ucast (YearNo + (1970 - 1900)),
          tm_wday = (of_nat DayNo + 4) mod 7, tm_yday = of_nat yday\<rparr>)"

text \<open>The static variable \<open>begintime\<close> is passed and returned; it is unset as long as its year and month are 0.\<close>

definition GetSeconds :: "EFI_TIME \<Rightarrow> EFI_TIME \<Rightarrow> u32 \<times> EFI_TIME" where
  "GetSeconds now begintime =
     (if Year begintime = 0 \<and> Month begintime = 0 then (0, now)
      else let s1 = (if Hour now < Hour begintime then ucast (Hour now) + 24 - ucast (Hour begintime)
                     else ucast (Hour now) - ucast (Hour begintime) :: u32);
               s2 = s1 * 60 + ucast (Minute now) - ucast (Minute begintime);
               s3 = s2 * 60 + ucast (Second now) - ucast (Second begintime)
           in (s3, begintime))"

section \<open>The calendar\<close>

definition leap :: "nat \<Rightarrow> bool" where
  "leap y \<longleftrightarrow> 4 dvd y \<and> (\<not> 100 dvd y \<or> 400 dvd y)"

definition year_days :: "nat \<Rightarrow> nat" where
  "year_days y = (if leap y then 366 else 365)"

definition month_days :: "nat \<Rightarrow> nat \<Rightarrow> nat" where
  "month_days y m = (if m = 2 then (if leap y then 29 else 28) else if m \<in> {4, 6, 9, 11} then 30 else 31)"

text \<open>The number of days from the first day of 1970 to the given day.\<close>

definition day_number :: "nat \<Rightarrow> nat \<Rightarrow> nat \<Rightarrow> nat" where
  "day_number y m d = sum_list (map year_days [1970..<y]) + sum_list (map (month_days y) [1..<m]) + (d - 1)"

definition valid_time :: "EFI_TIME \<Rightarrow> bool" where
  "valid_time T \<longleftrightarrow> 1970 \<le> unat (Year T) \<and> 1 \<le> unat (Month T) \<and> unat (Month T) \<le> 12 \<and>
     1 \<le> unat (Day T) \<and> unat (Day T) \<le> month_days (unat (Year T)) (unat (Month T)) \<and>
     unat (Hour T) < 24 \<and> unat (Minute T) < 60 \<and> unat (Second T) < 60 \<and> TimeZone T = EFI_UNSPECIFIED_TIMEZONE"

definition seconds_of_day :: "EFI_TIME \<Rightarrow> nat" where
  "seconds_of_day T = unat (Hour T) * 3600 + unat (Minute T) * 60 + unat (Second T)"

lemma IsLeap_of_nat: "y < 2 ^ 64 \<Longrightarrow> IsLeap (of_nat y) = leap y"
proof -
  assume "y < 2 ^ 64"
  then have "(of_nat y :: u64) mod of_nat k = 0 \<longleftrightarrow> k dvd y" if "k < 2 ^ 64" for k
    using that by (simp add: word_unat_eq_iff unat_mod_distrib unat_of_nat_u64 mod_eq_0_iff_dvd)
  from this [of 4] this [of 100] this [of 400] show ?thesis by (simp add: IsLeap_def leap_def)
qed

lemma CumulativeDays_nth:
  assumes "1 \<le> m" "m \<le> 13"
  shows "CumulativeDays (leap y) ! m = sum_list (map (month_days y) [1..<m])"
proof -
  have "m = 1 \<or> m = 2 \<or> m = 3 \<or> m = 4 \<or> m = 5 \<or> m = 6 \<or> m = 7 \<or> m = 8 \<or> m = 9 \<or> m = 10 \<or> m = 11 \<or> m = 12 \<or> m = 13"
    using assms by presburger
  then show ?thesis
    by (elim disjE; cases "leap y"; simp add: CumulativeDays_def month_days_def upt_rec)
qed

lemma length_CumulativeDays [simp]: "length (CumulativeDays l) = 14"
  by (simp add: CumulativeDays_def)

lemma CumulativeDays_year: "CumulativeDays (leap y) ! 13 = year_days y"
  by (simp add: CumulativeDays_def year_days_def)

lemma years_loop_step:
  assumes "a < b" "b < 2 ^ 64"
  shows "years_loop (of_nat a) (of_nat b) cur = years_loop (of_nat (Suc a)) (of_nat b) (cur + of_nat (year_days a * SECSPERDAY))"
proof -
  have "(of_nat a :: u64) \<noteq> of_nat b"
    using assms unat_of_nat_u64 [of a] unat_of_nat_u64 [of b] by auto
  then show ?thesis
    using assms by (subst years_loop.simps) (simp add: IsLeap_of_nat CumulativeDays_year add.commute)
qed

lemma years_loop_sum:
  assumes "a \<le> b" "b < 2 ^ 64"
  shows "years_loop (of_nat a) (of_nat b) cur = cur + of_nat (sum_list (map year_days [a..<b]) * SECSPERDAY)"
  using assms
proof (induction "b - a" arbitrary: a cur)
  case 0
  then show ?case by (simp add: years_loop.simps)
next
  case (Suc n)
  then have ab: "a < b" by simp
  have "years_loop (of_nat a) (of_nat b) cur = cur + of_nat (year_days a * SECSPERDAY) + of_nat (sum_list (map year_days [Suc a..<b]) * SECSPERDAY)"
    unfolding years_loop_step [OF ab Suc(4)] by (rule Suc(1)) (use Suc(2) ab Suc(4) in simp_all)
  then show ?case by (simp add: upt_conv_Cons [OF ab] algebra_simps)
qed

lemma sum_years_bound: "sum_list (map year_days [a..<b]) \<le> 366 * (b - a)"
  by (induction b) (auto simp: year_days_def Suc_diff_le)

lemma gm_years_sum:
  assumes "k < year_days y" "z \<le> y" "y < 2 ^ 64"
  shows "gm_years (of_nat z) n (sum_list (map year_days [z..<y]) + k) = (of_nat y, n + of_nat (y - z), k)"
  using assms(2)
proof (induction "y - z" arbitrary: z n)
  case 0
  then show ?case using assms(1,3) by (simp add: gm_years.simps IsLeap_of_nat year_days_def)
next
  case (Suc i)
  then have zy: "z < y" by simp
  have yd: "(if IsLeap (of_nat z) then 366 else 365) = year_days z" using zy assms(3) by (simp add: IsLeap_of_nat year_days_def)
  have "0 < year_days z" by (simp add: year_days_def)
  then have "gm_years (of_nat z) n (sum_list (map year_days [z..<y]) + k) =
      gm_years (of_nat (Suc z)) (n + 1) (sum_list (map year_days [Suc z..<y]) + k)"
    unfolding gm_years.simps [of "of_nat z"] yd by (simp add: upt_conv_Cons [OF zy] add.commute)
  also have "\<dots> = (of_nat y, n + 1 + of_nat (y - Suc z), k)"
    by (rule Suc(1)) (use Suc(2) zy in simp_all)
  finally show ?case using zy by (simp add: Suc_diff_Suc [symmetric])
qed

lemma gm_month_correct:
  assumes "1 \<le> m" "m \<le> 12" "1 \<le> d" "d \<le> month_days y m"
  shows "gm_month (CumulativeDays (leap y)) 12 (CumulativeDays (leap y) ! m + (d - 1)) = (m, d - 1)"
proof -
  have "m = 1 \<or> m = 2 \<or> m = 3 \<or> m = 4 \<or> m = 5 \<or> m = 6 \<or> m = 7 \<or> m = 8 \<or> m = 9 \<or> m = 10 \<or> m = 11 \<or> m = 12"
    using assms(1,2) by presburger
  then show ?thesis
    using assms(3,4) by (elim disjE; cases "leap y"; simp add: CumulativeDays_def month_days_def gm_month.simps)
qed

lemma day_in_year:
  assumes "1 \<le> m" "m \<le> 12" "1 \<le> d" "d \<le> month_days y m"
  shows "sum_list (map (month_days y) [1..<m]) + (d - 1) < year_days y"
proof -
  have "sum_list (map (month_days y) [1..<13]) = year_days y"
    using CumulativeDays_nth [of 13 y] CumulativeDays_year [of y] by simp
  moreover have "[1..<13] = [1..<m] @ m # [Suc m..<13]"
    using assms(1,2) upt_add_eq_append [of 1 m "13 - m"] upt_conv_Cons [of m 13] by simp
  ultimately show ?thesis using assms(3,4) by simp
qed


lemma clock_split:
  assumes "s < 60" "m < 60"
  shows "(h * 3600 + m * 60 + s) mod 60 = (s :: nat)" "(h * 3600 + m * 60 + s) mod 3600 div 60 = m"
    "(h * 3600 + m * 60 + s) div 3600 = h"
proof -
  have e: "h * 3600 + m * 60 + s = s + 60 * (h * 60 + m)" "h * 3600 + m * 60 + s = (m * 60 + s) + 3600 * h" by simp_all
  have r: "m * 60 + s < 3600" using assms by linarith
  show "(h * 3600 + m * 60 + s) mod 60 = s" unfolding e(1) using assms(1) by (simp only: mod_mult_self2 mod_less)
  show "(h * 3600 + m * 60 + s) mod 3600 div 60 = m" unfolding e(2) using r assms(1) by simp
  show "(h * 3600 + m * 60 + s) div 3600 = h" unfolding e(2) using r by simp
qed

lemma unat_ucast_u32: "unat x < 2 ^ 32 \<Longrightarrow> unat (ucast x :: u32) = unat x" for x :: u64
  by (metis ucast_unat_eq unat_of_nat_u32)

lemma timer_parts:
  fixes t :: u64
  assumes "unat t = D * SECSPERDAY + S" "S < SECSPERDAY" "D < 2 ^ 32 - 4"
  shows "unat (ucast (t div of_nat SECSPERDAY) :: u32) = D" "unat (ucast (t mod of_nat SECSPERDAY) :: u32) = S"
proof -
  have "unat (t div of_nat SECSPERDAY) = D"
    unfolding unat_div_distrib assms(1) using assms(2) by (simp add: SECSPERDAY_def SECSPERHOUR_def)
  with assms(3) show "unat (ucast (t div of_nat SECSPERDAY) :: u32) = D" by (subst unat_ucast_u32) simp_all
  have "unat (t mod of_nat SECSPERDAY) = S"
    unfolding unat_mod_distrib assms(1) using assms(2) by (simp add: SECSPERDAY_def SECSPERHOUR_def)
  with assms(2) show "unat (ucast (t mod of_nat SECSPERDAY) :: u32) = S"
    by (subst unat_ucast_u32) (simp_all add: SECSPERDAY_def SECSPERHOUR_def)
qed

lemma year_word:
  fixes y :: u16
  assumes "1970 \<le> unat y"
  shows "ucast (of_nat (unat y - 1970) + (1970 - 1900) :: u64) = (ucast y - 1900 :: 32 word)"
proof -
  have "unat y < 2 ^ 64" using unsigned_less [of y, where 'a = nat] by simp
  moreover have "(of_nat (unat y - 1970) :: u64) + (1970 - 1900) = of_nat (unat y - 1900)"
    using assms by (simp add: of_nat_diff)
  ultimately have "ucast (of_nat (unat y - 1970) + (1970 - 1900) :: u64) = (of_nat (unat y - 1900) :: 32 word)"
    by (simp add: unsigned_of_nat take_bit_nat_eq_self del: of_nat_diff)
  then show ?thesis using assms by (simp add: of_nat_diff)
qed

lemma weekday_word: "D < 2 ^ 32 - 4 \<Longrightarrow> (of_nat D + 4 :: 32 word) mod 7 = of_nat ((D + 4) mod 7)"
  using unat_of_nat_u32 [of "D + 4"] by (simp add: word_unat_eq_iff unat_mod_distrib unat_of_nat_u32)

lemma day_number_bound:
  assumes "valid_time T"
  shows "day_number (unat (Year T)) (unat (Month T)) (unat (Day T)) < 366 * 65536"
proof -
  let ?y = "unat (Year T)" and ?m = "unat (Month T)" and ?d = "unat (Day T)"
  have y: "?y < 65536" using unsigned_less [of "Year T"] by simp
  have "sum_list (map (month_days ?y) [1..<?m]) + (?d - 1) < year_days ?y"
    using assms by (intro day_in_year) (auto simp: valid_time_def)
  moreover have "year_days ?y \<le> 366" by (simp add: year_days_def)
  ultimately have "day_number ?y ?m ?d < 366 * (?y - 1970) + 366"
    unfolding day_number_def using sum_years_bound [of 1970 ?y] by linarith
  then show ?thesis using y by simp
qed

lemma mytime_seconds:
  assumes "valid_time T"
  shows "\<exists>t. mytime T = Some t \<and>
    unat t = day_number (unat (Year T)) (unat (Month T)) (unat (Day T)) * SECSPERDAY + seconds_of_day T"
proof -
  let ?y = "unat (Year T)" and ?m = "unat (Month T)" and ?d = "unat (Day T)"
  note v = assms [unfolded valid_time_def]
  have y: "?y < 65536" using unsigned_less [of "Year T"] by simp
  have uy: "ucast (Year T) = (of_nat ?y :: u64)" by simp
  have lp: "IsLeap (ucast (Year T)) = leap ?y" using IsLeap_of_nat [of ?y] y unfolding uy by simp
  have cum: "CumulativeDays (leap ?y) ! ?m = sum_list (map (month_days ?y) [1..<?m])"
    using v by (intro CumulativeDays_nth) auto
  let ?n = "day_number ?y ?m ?d * SECSPERDAY + seconds_of_day T"
  have "day_number ?y ?m ?d < 366 * 65536" by (rule day_number_bound [OF assms])
  moreover have "seconds_of_day T < 86400" using v by (simp add: seconds_of_day_def)
  ultimately have n: "?n < 2 ^ 64" by (simp add: SECSPERDAY_def SECSPERHOUR_def)
  have "0 < Day T" using v by (metis word_gt_0 unat_0 not_one_le_zero)
  moreover define e where "e = ?d - 1"
  ultimately have "mytime T = Some (of_nat ?n)"
    using v years_loop_sum [of 1970 ?y 0] y lp cum
    unfolding mytime_def uy day_number_def e_def [symmetric]
    by (simp add: seconds_of_day_def SECSPERHOUR_def algebra_simps)
  then show ?thesis using n by (auto simp: unat_of_nat_u64 simp del: of_nat_add of_nat_mult)
qed

text \<open>What \<open>mygmtime\<close> makes of the seconds of a date. The month is the one from 1 to 12.\<close>

lemma mygmtime_of_mytime:
  assumes "valid_time T"
  shows "\<exists>t. mytime T = Some t \<and>
    unat t = day_number (unat (Year T)) (unat (Month T)) (unat (Day T)) * SECSPERDAY + seconds_of_day T \<and>
    mygmtime t = \<lparr>tm_sec = ucast (Second T), tm_min = ucast (Minute T), tm_hour = ucast (Hour T),
      tm_mday = ucast (Day T), tm_mon = ucast (Month T), tm_year = ucast (Year T) - 1900,
      tm_wday = of_nat ((day_number (unat (Year T)) (unat (Month T)) (unat (Day T)) + 4) mod 7),
      tm_yday = of_nat (sum_list (map (month_days (unat (Year T))) [1..<unat (Month T)]) + (unat (Day T) - 1))\<rparr>"
proof -
  let ?y = "unat (Year T)" and ?m = "unat (Month T)" and ?d = "unat (Day T)"
  let ?D = "day_number ?y ?m ?d" and ?S = "seconds_of_day T"
  let ?k = "sum_list (map (month_days ?y) [1..<?m]) + (?d - 1)"
  obtain t where t: "mytime T = Some t" "unat t = ?D * SECSPERDAY + ?S" using mytime_seconds [OF assms] by blast
  note v = assms [unfolded valid_time_def]
  have S: "?S < SECSPERDAY" using v by (simp add: seconds_of_day_def SECSPERDAY_def SECSPERHOUR_def)
  have D: "?D < 2 ^ 32 - 4" using day_number_bound [OF assms] by simp
  note parts = timer_parts [OF t(2) S D]
  have y: "?y < 2 ^ 64" using unsigned_less [of "Year T", where 'a = nat] by simp
  have k: "?k < year_days ?y" using day_in_year [of ?m ?d ?y] v by blast
  have gy: "gm_years 1970 0 ?D = (of_nat ?y, of_nat (?y - 1970), ?k)"
    using gm_years_sum [OF k _ y, of 1970 0] v unfolding day_number_def by (simp add: add.assoc del: of_nat_unat of_nat_diff)
  have gm: "gm_month (CumulativeDays (IsLeap (of_nat ?y))) 12 ?k = (?m, ?d - 1)"
    using gm_month_correct [of ?m ?d ?y] CumulativeDays_nth [of ?m ?y] v
    unfolding IsLeap_of_nat [OF y] by simp
  have f: "?S mod SECSPERMIN = unat (Second T)" "?S mod SECSPERHOUR div SECSPERMIN = unat (Minute T)" "?S div SECSPERHOUR = unat (Hour T)"
    using v clock_split [of "unat (Second T)" "unat (Minute T)" "unat (Hour T)"]
    by (simp_all add: seconds_of_day_def SECSPERMIN_def SECSPERHOUR_def)
  have yr: "ucast (of_nat (?y - 1970) + (1970 - 1900) :: u64) = (ucast (Year T) - 1900 :: 32 word)"
    using v by (intro year_word) simp
  have md: "of_nat (?d - 1 + 1) = (ucast (Day T) :: 32 word)" using v by simp
  have "mygmtime t = \<lparr>tm_sec = of_nat (unat (Second T)), tm_min = of_nat (unat (Minute T)), tm_hour = of_nat (unat (Hour T)),
      tm_mday = of_nat (?d - 1 + 1), tm_mon = of_nat ?m, tm_year = ucast (of_nat (?y - 1970) + (1970 - 1900) :: u64),
      tm_wday = (of_nat ?D + 4) mod 7, tm_yday = of_nat ?k\<rparr>"
    unfolding mygmtime_def Let_def parts gy prod.case gm f ..
  then show ?thesis using t unfolding yr weekday_word [OF D] md by simp
qed

lemma mygmtime_month:
  assumes "valid_time T" "mytime T = Some t"
  shows "tm_mon (mygmtime t) = ucast (Month T)"
  using mygmtime_of_mytime [OF assms(1)] assms(2) by auto

text \<open>
  C28. For every valid date from 1970 on with no time zone set, mytime gives the number of seconds since
  the start of 1970, counted day by day, and mygmtime gives back from it the year, the day of the
  month, the time of day, the day of the week and the day of the year.
\<close>

theorem mygmtime_recovers_date:
  assumes "valid_time T"
  shows "\<exists>t. mytime T = Some t \<and>
    unat t = day_number (unat (Year T)) (unat (Month T)) (unat (Day T)) * SECSPERDAY + seconds_of_day T \<and>
    tm_year (mygmtime t) = ucast (Year T) - 1900 \<and> tm_mday (mygmtime t) = ucast (Day T) \<and>
    tm_hour (mygmtime t) = ucast (Hour T) \<and> tm_min (mygmtime t) = ucast (Minute T) \<and> tm_sec (mygmtime t) = ucast (Second T) \<and>
    tm_wday (mygmtime t) = of_nat ((day_number (unat (Year T)) (unat (Month T)) (unat (Day T)) + 4) mod 7) \<and>
    tm_yday (mygmtime t) = of_nat (sum_list (map (month_days (unat (Year T))) [1..<unat (Month T)]) + (unat (Day T) - 1))"
proof -
  from mygmtime_of_mytime [OF assms] obtain t where t: "mytime T = Some t"
    "unat t = day_number (unat (Year T)) (unat (Month T)) (unat (Day T)) * SECSPERDAY + seconds_of_day T"
    "mygmtime t = \<lparr>tm_sec = ucast (Second T), tm_min = ucast (Minute T), tm_hour = ucast (Hour T),
      tm_mday = ucast (Day T), tm_mon = ucast (Month T), tm_year = ucast (Year T) - 1900,
      tm_wday = of_nat ((day_number (unat (Year T)) (unat (Month T)) (unat (Day T)) + 4) mod 7),
      tm_yday = of_nat (sum_list (map (month_days (unat (Year T))) [1..<unat (Month T)]) + (unat (Day T) - 1))\<rparr>"
    by blast
  show ?thesis by (rule exI [of _ t]) (simp only: t mytm.simps simp_thms)
qed

theorem mygmtime_recovers_date_witness:
  "\<exists>t. mytime \<lparr>Year = 2024, Month = 2, Day = 29, Hour = 23, Minute = 59, Second = 58, TimeZone = 0x07FF\<rparr> = Some t \<and>
    tm_year (mygmtime t) = 124 \<and> tm_mday (mygmtime t) = 29 \<and> tm_hour (mygmtime t) = 23 \<and> tm_min (mygmtime t) = 59 \<and>
    tm_sec (mygmtime t) = 58 \<and> tm_wday (mygmtime t) = 4 \<and> tm_yday (mygmtime t) = 59"
proof -
  let ?T = "\<lparr>Year = 2024, Month = 2, Day = 29, Hour = 23, Minute = 59, Second = 58, TimeZone = 0x07FF\<rparr>"
  have "valid_time ?T" by (simp add: valid_time_def month_days_def leap_def EFI_UNSPECIFIED_TIMEZONE_def)
  from mygmtime_recovers_date [OF this] show ?thesis
    by (auto simp: day_number_def month_days_def year_days_def leap_def upt_rec)
qed

definition clock_ok :: "EFI_TIME \<Rightarrow> bool" where
  "clock_ok T \<longleftrightarrow> unat (Hour T) < 24 \<and> unat (Minute T) < 60 \<and> unat (Second T) < 60"

lemma GetSeconds_value:
  assumes "Month begintime \<noteq> 0" "clock_ok now" "clock_ok begintime"
  shows "fst (GetSeconds now begintime) =
    of_nat (seconds_of_day now + (if Hour now < Hour begintime then 86400 else 0)) - of_nat (seconds_of_day begintime)"
  using assms by (simp add: GetSeconds_def Let_def seconds_of_day_def algebra_simps)

text \<open>
  \<open>GetSeconds\<close> returns the seconds between its first call and now, up to whole days, as long
  as now is not earlier in the hour of the first call.
\<close>

theorem GetSeconds_elapsed:
  assumes b: "Month begintime \<noteq> 0" and ok: "clock_ok now" "clock_ok begintime"
    and one: "Hour now = Hour begintime \<Longrightarrow> seconds_of_day begintime \<le> seconds_of_day now"
  shows "unat (fst (GetSeconds now begintime)) = (seconds_of_day now + 86400 - seconds_of_day begintime) mod 86400"
proof -
  have s: "seconds_of_day now < 86400" "seconds_of_day begintime < 86400"
    using ok by (simp_all add: seconds_of_day_def clock_ok_def)
  have le: "seconds_of_day begintime \<le> seconds_of_day now + (if Hour now < Hour begintime then 86400 else 0)"
  proof (cases "Hour begintime < Hour now")
    case True
    then have "unat (Hour begintime) + 1 \<le> unat (Hour now)" by (simp add: word_less_nat_alt)
    then show ?thesis using ok by (simp add: seconds_of_day_def clock_ok_def)
  next
    case False
    then have "Hour now < Hour begintime \<or> Hour now = Hour begintime" by auto
    then show ?thesis using s(2) one by auto
  qed
  have "fst (GetSeconds now begintime) =
      of_nat (seconds_of_day now + (if Hour now < Hour begintime then 86400 else 0) - seconds_of_day begintime)"
    unfolding GetSeconds_value [OF b ok] using le by (simp add: of_nat_diff)
  then have "unat (fst (GetSeconds now begintime)) =
      seconds_of_day now + (if Hour now < Hour begintime then 86400 else 0) - seconds_of_day begintime"
    using s by (simp add: unat_of_nat_u32 del: of_nat_add of_nat_diff)
  moreover have "seconds_of_day now < seconds_of_day begintime" if "Hour now < Hour begintime"
  proof -
    have "unat (Hour now) + 1 \<le> unat (Hour begintime)" using that by (simp add: word_less_nat_alt)
    then show ?thesis using ok by (simp add: seconds_of_day_def clock_ok_def)
  qed
  ultimately show ?thesis using le s by (auto simp: mod_if)
qed

theorem GetSeconds_wraps:
  assumes "Month begintime \<noteq> 0" "clock_ok now" "clock_ok begintime"
    and "Hour now = Hour begintime" "seconds_of_day now < seconds_of_day begintime"
  shows "2 ^ 32 - 3600 < unat (fst (GetSeconds now begintime))"
proof -
  define k where "k = seconds_of_day begintime - seconds_of_day now"
  have k: "0 < k" "k < 3600" using assms by (auto simp: k_def seconds_of_day_def clock_ok_def)
  have "seconds_of_day begintime = seconds_of_day now + k" using assms(5) by (simp add: k_def)
  then have "fst (GetSeconds now begintime) = - of_nat k"
    unfolding GetSeconds_value [OF assms(1-3)] using assms(4) by simp
  then show ?thesis
    using k unat_of_nat_u32 [of k] unat_sub_if_size [of "0 :: u32" "of_nat k"] by (simp add: word_size)
qed

text \<open>A start at 10:20:30, and calls at 11:10:00 and, a day later, at 10:10:00.\<close>

definition ten_twenty :: EFI_TIME where
  "ten_twenty = \<lparr>Year = 2024, Month = 2, Day = 1, Hour = 10, Minute = 20, Second = 30, TimeZone = 0x07FF\<rparr>"

theorem GetSeconds_elapsed_witness:
  "unat (fst (GetSeconds (ten_twenty\<lparr>Hour := 11, Minute := 10, Second := 0\<rparr>) ten_twenty)) = 2970"
  using GetSeconds_elapsed [of ten_twenty "ten_twenty\<lparr>Hour := 11, Minute := 10, Second := 0\<rparr>"]
  by (simp add: ten_twenty_def clock_ok_def seconds_of_day_def)

theorem GetSeconds_wraps_witness:
  "2 ^ 32 - 3600 < unat (fst (GetSeconds (ten_twenty\<lparr>Day := 2, Minute := 10, Second := 0\<rparr>) ten_twenty))"
  by (rule GetSeconds_wraps) (simp_all add: ten_twenty_def clock_ok_def seconds_of_day_def)

end
