(* ===== verification/Okr_Gpt.thy ===== *)
theory Okr_Gpt
  imports Okr_Table
begin

unbundle bit_operations_syntax

text \<open>
  The partition table of the target disk when a restore goes to a new disk,
  \<^verbatim>\<open>src/OkrPkg/okrefi/func.c\<close>: \<open>IsFixNewHddWay\<close>, \<open>GetWirePartSector\<close>, \<open>FixNoDataPartTable\<close>,
  \<open>FixNewHDD\<close>, \<open>FixNewHDDPartitionTable\<close>, \<open>UpdateOKRHeaderInfo\<close>, \<open>FixPartCSize\<close> and \<open>FixSmallDiskCSize\<close>.

  The table is edited in a buffer that holds the sectors 1 to 33 of the disk: the header of a GPT in
  its first 512 bytes and 128 entries of 128 bytes behind it. \<open>disknum\<close> is a \<open>char\<close> and signed.
  \<open>CalculateCrc32\<close> of the firmware is the parameter \<open>crc\<close>, and the two random numbers that
  \<open>FixNewHDD\<close> uses are \<open>r1\<close> and \<open>r2\<close>. Messages to the user are left out. Variables that the code
  reads before it has set them are \<open>None\<close>, and so is a second \<open>FreePool\<close> of the same buffer.
\<close>

section \<open>The header of an image\<close>

text \<open>The fields of \<open>OKR_HEADER\<close> that the restore looks at; \<open>hdr_Partition\<close> has \<open>PartitionCount\<close> elements.\<close>

record OKR_HEADER =
  hdr_Memo :: buf
  hdr_Disksize :: u64
  hdr_SourceDiskGUID :: buf
  hdr_WinPartNtfsGuid :: buf
  hdr_GptSize :: u32
  hdr_bGpt :: byte
  hdr_Partition :: "WIN32_PARTITIONINFO list"

definition Windows_Data_TypeGuid :: buf where
  "Windows_Data_TypeGuid = [0xa2,0xa0,0xd0,0xeb,0xe5,0xb9,0x33,0x44,0x87,0xc0,0x68,0xb6,0xb7,0x26,0x99,0xc7]"
definition Window_Recovery_TypeGuid :: buf where
  "Window_Recovery_TypeGuid = [0xa4,0xbb,0x94,0xde,0xd1,0x06,0x40,0x4d,0xa1,0x6a,0xbf,0xd5,0x01,0x79,0xd6,0xac]"
definition LenovoLabel :: "u16 list" where
  "LenovoLabel = map (ucast \<circ> (of_char :: char \<Rightarrow> byte)) ''LENOVO_PART''"

definition GPT_SIZE :: nat where "GPT_SIZE = 16896"

text \<open>\<open>for (i = 0; i < n; i++) if (P(i)) break;\<close>\<close>

fun first_index :: "('a \<Rightarrow> bool) \<Rightarrow> 'a list \<Rightarrow> nat option" where
  "first_index P [] = None"
| "first_index P (x # xs) = (if P x then Some 0 else map_option Suc (first_index P xs))"

definition UpdateOKRHeaderInfo :: "OKR_HEADER \<Rightarrow> u64 \<Rightarrow> OKR_HEADER" where
  "UpdateOKRHeaderInfo H begin =
     (case first_index (\<lambda>P. TypeGuid P = Window_Recovery_TypeGuid) (hdr_Partition H) of
        None \<Rightarrow> H
      | Some i \<Rightarrow> H\<lparr>hdr_Partition := (hdr_Partition H)[i := (hdr_Partition H ! i)\<lparr>BootBegin := begin\<rparr>]\<rparr>)"

section \<open>The way the table is rewritten\<close>

definition wire_partition :: "WIN32_PARTITIONINFO \<Rightarrow> bool" where
  "wire_partition P \<longleftrightarrow> TypeGuid P = Window_Recovery_TypeGuid \<and> take 11 (Label P) \<noteq> LenovoLabel"

definition os_partition :: "WIN32_PARTITIONINFO \<Rightarrow> bool" where
  "os_partition P \<longleftrightarrow> bIfBackup P = 1 \<and> HasWindows P = 1"

text \<open>The globals \<open>IsNoDataPartFlag\<close>, \<open>g_WinREState\<close> and \<open>g_wireTotalSectors\<close>.\<close>

record wire_state =
  IsNoDataPartFlag :: bool
  g_WinREState :: byte
  g_wireTotalSectors :: u64

definition IsFixNewHddWay :: "OKR_HEADER \<Rightarrow> wire_state \<Rightarrow> wire_state option" where
  "IsFixNewHddWay H w =
     do {
       wirecount \<leftarrow> first_index wire_partition (hdr_Partition H);
       t \<leftarrow> first_index os_partition (hdr_Partition H);
       let W = hdr_Partition H ! wirecount;
       let T = hdr_Partition H ! t;
       let (w, SizeMined) =
         (if BootBegin T \<le> BootBegin W then (w, BootBegin W - BootBegin T - TotalSectors T)
          else (w\<lparr>g_WinREState := 0\<rparr>, hdr_Disksize H - BootBegin T - TotalSectors T));
       Some (if SizeMined < 0x1000 then w\<lparr>IsNoDataPartFlag := True, g_WinREState := 2\<rparr>
             else w\<lparr>IsNoDataPartFlag := False, g_WinREState := 1\<rparr>) }"

definition GetWirePartSector :: "OKR_HEADER \<Rightarrow> wire_state \<Rightarrow> wire_state option" where
  "GetWirePartSector H w =
     do {
       wirecount \<leftarrow> first_index wire_partition (hdr_Partition H);
       Some (w\<lparr>g_wireTotalSectors := TotalSectors (hdr_Partition H ! wirecount)\<rparr>) }"

section \<open>Steps on the buffer\<close>

definition put64 :: "buf \<Rightarrow> nat \<Rightarrow> u64 \<Rightarrow> buf option" where
  "put64 buf i x = put buf i (le_bytes 8 x)"

definition put32 :: "buf \<Rightarrow> nat \<Rightarrow> u32 \<Rightarrow> buf option" where
  "put32 buf i x = put buf i (le_bytes 4 x)"

text \<open>The search over the entries; the result is \<open>GPT_SIZE\<close> when there is none.\<close>

function find_entry :: "(nat \<Rightarrow> bool option) \<Rightarrow> nat \<Rightarrow> nat option" where
  "find_entry P i =
     (if i < GPT_SIZE then do { hit \<leftarrow> P i; if hit then Some i else find_entry P (i + 128) } else Some i)"
  by pat_completeness auto
termination
  by (relation "measure (\<lambda>(P, i). GPT_SIZE - i)") auto

declare find_entry.simps [simp del]

definition begins_at :: "buf \<Rightarrow> u64 \<Rightarrow> nat \<Rightarrow> bool option" where
  "begins_at buf x i = do { b \<leftarrow> rd64 buf (i + 0x20); Some (b = x) }"

definition efi_part :: "buf \<Rightarrow> bool option" where
  "efi_part buf = do { x \<leftarrow> slice buf 0 8; Some (x = [0x45, 0x46, 0x49, 0x20, 0x50, 0x41, 0x52, 0x54]) }"

definition clear_rest :: "buf \<Rightarrow> nat \<Rightarrow> buf option" where
  "clear_rest buf i = (if i < GPT_SIZE then put buf i (replicate (GPT_SIZE - i) 0) else Some buf)"

definition disk_size :: "part_state \<Rightarrow> byte \<Rightarrow> u64 option" where
  "disk_size s disknum =
     (if 0 \<le> sint disknum \<and> nat (sint disknum) < length (g_disklist s)
      then Some (totalsector (g_disklist s ! nat (sint disknum))) else None)"

text \<open>The header as it is edited first: the fields for the copy at the end of the disk.\<close>

definition open_header :: "u64 \<Rightarrow> buf \<Rightarrow> buf option" where
  "open_header nsec buf =
     do {
       m \<leftarrow> put buf 0x10 [0, 0, 0, 0];
       m \<leftarrow> put64 m 0x20 (nsec - 1);
       put64 m 0x30 (nsec - 0x22) }"

text \<open>The two check sums, and the table in the sectors 1 to 33.\<close>

definition write_primary ::
  "'d disk_env \<Rightarrow> (buf \<Rightarrow> u32) \<Rightarrow> 'd \<Rightarrow> u16 \<Rightarrow> buf \<Rightarrow> (bool \<times> 'd \<times> buf) option" where
  "write_primary env crc d disk buf =
     do {
       tab \<leftarrow> slice buf 512 16384;
       m \<leftarrow> put32 buf 0x58 (crc tab);
       m \<leftarrow> put32 m 0x10 0;
       hd \<leftarrow> slice m 0 0x5c;
       m \<leftarrow> put32 m 0x10 (crc hd);
       (ok, d') \<leftarrow> DiskWrite env d disk 1 33 m 0;
       Some (ok, d', m) }"

definition write_backup ::
  "'d disk_env \<Rightarrow> (buf \<Rightarrow> u32) \<Rightarrow> 'd \<Rightarrow> u16 \<Rightarrow> u64 \<Rightarrow> buf \<Rightarrow> (bool \<times> 'd) option" where
  "write_backup env crc d disk nsec buf =
     do {
       (ok, d1) \<leftarrow> DiskWrite env d disk (nsec - 33) 32 buf 512;
       if \<not> ok then Some (False, d1)
       else do {
         temp \<leftarrow> rd64 buf 0x20;
         x \<leftarrow> rd64 buf 0x18;
         m \<leftarrow> put64 buf 0x20 x;
         m \<leftarrow> put64 m 0x18 temp;
         last \<leftarrow> rd64 m 0x30;
         m \<leftarrow> put64 m 0x48 (last + 1);
         m \<leftarrow> put32 m 0x10 0;
         hd \<leftarrow> slice m 0 0x5c;
         m \<leftarrow> put32 m 0x10 (crc hd);
         DiskWrite env d1 disk (nsec - 1) 1 m 0 } }"

text \<open>The first sector of a new partition is cleared; errors are only logged.\<close>

definition wipe_sector :: "'d disk_env \<Rightarrow> 'd \<Rightarrow> u16 \<Rightarrow> u64 \<Rightarrow> buf \<Rightarrow> 'd option" where
  "wipe_sector env d disk lba ntfsbuffer =
     do {
       (_, m) \<leftarrow> DiskRead env d disk lba 1 ntfsbuffer 0;
       m \<leftarrow> put m 0 (replicate 512 0);
       (_, d') \<leftarrow> DiskWrite env d disk lba 1 m 0;
       Some d' }"

section \<open>Without a data partition\<close>

definition wire_entry :: "buf \<Rightarrow> nat \<Rightarrow> u64 \<Rightarrow> u64 \<Rightarrow> buf option" where
  "wire_entry buf i begin wire =
     do {
       m \<leftarrow> put64 buf (i + 0x20) begin;
       m \<leftarrow> put64 m (i + 0x28) ((begin + wire) AND 0xffffffffffffff00);
       m \<leftarrow> put m i Window_Recovery_TypeGuid;
       put64 m (i + 0x30) 0x8000000000000001 }"

text \<open>The entries behind that of the system, which is at \<open>i\<close>. The results are the index of the last
  entry, the start of a new partition and \<open>fixSmallc\<close>.\<close>

definition no_data_entries ::
  "u64 \<Rightarrow> wire_state \<Rightarrow> u64 \<Rightarrow> u64 \<Rightarrow> nat \<Rightarrow> buf \<Rightarrow> (buf \<times> nat \<times> u64 option \<times> bool) option" where
  "no_data_entries nsec w begin len i buf =
     (if begin + len + g_wireTotalSectors w < nsec
      then
        if g_WinREState w \<noteq> 0
        then do {
          let start = (begin + len + 0xF) AND 0xfffffffffffffff0;
          m \<leftarrow> wire_entry buf (i + 128) start (g_wireTotalSectors w);
          Some (m, i + 128, Some start, False) }
        else Some (buf, i, None, False)
      else
        if g_WinREState w \<noteq> 0
        then do {
          let len = nsec - (begin + g_wireTotalSectors w) - 0x22;
          m \<leftarrow> put64 buf (i + 0x28) ((begin + len) AND 0xffffffffffffff00);
          let start = (begin + len) AND 0xfffffffffffffff0;
          m \<leftarrow> wire_entry m (i + 128) start (g_wireTotalSectors w);
          Some (m, i + 128, Some start, True) }
        else do {
          let len = nsec - begin - 0x22;
          m \<leftarrow> put64 buf (i + 0x28) ((begin + len) AND 0xffffffffffffff00);
          Some (m, i, None, True) })"

definition no_data_gpt ::
  "'d disk_env \<Rightarrow> (buf \<Rightarrow> u32) \<Rightarrow> wire_state \<Rightarrow> u16 \<Rightarrow> u64 option \<Rightarrow> u64 \<Rightarrow> u64 \<Rightarrow> buf \<Rightarrow> buf option \<Rightarrow> 'd \<Rightarrow> OKR_HEADER \<Rightarrow> bool
   \<Rightarrow> ('d \<times> OKR_HEADER \<times> bool) option" where
  "no_data_gpt env crc w disk dsize begin len buf ntfsbuffer d H small =
     do {
       (ok, m) \<leftarrow> DiskRead env d disk 1 33 buf 0;
       if \<not> ok then Some (d, H, small)
       else do {
         efi \<leftarrow> efi_part m;
         if \<not> efi then Some (d, H, small)
         else do {
           nsec \<leftarrow> dsize;
           m \<leftarrow> open_header nsec m;
           i \<leftarrow> find_entry (begins_at m begin) 512;
           if i > 4096 then Some (d, H, small)
           else do {
             (m, i, new, small) \<leftarrow> no_data_entries nsec w begin len i m;
             (H, d) \<leftarrow> (case new of
                None \<Rightarrow> Some (H, d)
              | Some start \<Rightarrow> do {
                  nb \<leftarrow> ntfsbuffer;
                  d \<leftarrow> wipe_sector env d disk start nb;
                  Some (UpdateOKRHeaderInfo H start, d) });
             m \<leftarrow> clear_rest m (i + 128);
             (ok, d, m) \<leftarrow> write_primary env crc d disk m;
             if \<not> ok then Some (d, H, small)
             else do {
               (_, d) \<leftarrow> write_backup env crc d disk nsec m;
               Some (d, H, small) } } } } }"

section \<open>The four entries of an MBR\<close>

fun find_mbr :: "buf \<Rightarrow> u32 \<Rightarrow> nat list \<Rightarrow> nat option option" where
  "find_mbr buf begin [] = Some None"
| "find_mbr buf begin (i # is) =
     do { b \<leftarrow> rd32 buf (0x1c6 + i * 16); if b = begin then Some (Some i) else find_mbr buf begin is }"

text \<open>The entry of a new partition, or the new length of that of the system; the results are the index
  of the last entry, the start of a new partition and \<open>fixSmallc\<close>.\<close>

definition mbr_entries ::
  "u64 \<Rightarrow> u64 \<Rightarrow> u64 \<Rightarrow> nat \<Rightarrow> buf \<Rightarrow> (buf \<times> nat \<times> u64 option \<times> bool) option" where
  "mbr_entries nsec begin len i buf =
     (if begin + len + 0x64000 < nsec \<and> i < 3
      then do {
        let i = i + 1;
        m \<leftarrow> put buf (0x1be + 16 * i) [0, 0xfe, 0xff, 0xff, 7, 0xfe, 0xff, 0xff];
        let start = (ucast ((begin + len + 0xff) AND 0xffffff00) :: u32);
        m \<leftarrow> put32 m (0x1be + i * 16 + 8) start;
        m \<leftarrow> put32 m (0x1be + i * 16 + 12) (ucast ((nsec - begin - len - 0xff) AND 0xfffffff0));
        Some (m, i, Some (ucast start), False) }
      else do {
        m \<leftarrow> put32 buf (0x1ca + i * 16) (ucast ((nsec - begin) AND 0xfffffff0));
        Some (m, i, None, True) })"

text \<open>On its error paths the code frees the buffer once more behind the label \<open>Done\<close>.\<close>

definition fix_mbr ::
  "'d disk_env \<Rightarrow> u16 \<Rightarrow> u64 option \<Rightarrow> u64 \<Rightarrow> u64 \<Rightarrow> buf \<Rightarrow> buf option \<Rightarrow> 'd \<Rightarrow> bool \<Rightarrow> ('d \<times> bool) option" where
  "fix_mbr env disk dsize begin len buf ntfsbuffer d small =
     do {
       (ok, m) \<leftarrow> DiskRead env d disk 0 1 buf 0;
       if \<not> ok then None
       else do {
         mark \<leftarrow> rd16 m 0x1fe;
         if mark \<noteq> 0xaa55 then None
         else do {
           found \<leftarrow> find_mbr m (ucast begin) [0, 1, 2, 3];
           (case found of
              None \<Rightarrow> Some (d, small)
            | Some i \<Rightarrow> do {
                nsec \<leftarrow> dsize;
                (m, i, new, small) \<leftarrow> mbr_entries nsec begin len i m;
                d \<leftarrow> (case new of None \<Rightarrow> Some d | Some start \<Rightarrow> do { nb \<leftarrow> ntfsbuffer; wipe_sector env d disk start nb });
                m \<leftarrow> (if i < 3 then put m (0x1be + i * 16 + 16) (replicate (16 * (3 - i)) 0) else Some m);
                (ok, d) \<leftarrow> DiskWrite env d disk 0 1 m 0;
                if \<not> ok then None else Some (d, small) }) } } }"

definition FixNoDataPartTable ::
  "'d disk_env \<Rightarrow> (buf \<Rightarrow> u32) \<Rightarrow> wire_state \<Rightarrow> byte \<Rightarrow> u64 \<Rightarrow> u64 \<Rightarrow> 'd \<Rightarrow> part_state \<Rightarrow> OKR_HEADER \<Rightarrow> bool
   \<Rightarrow> ('d \<times> part_state \<times> OKR_HEADER \<times> bool) option" where
  "FixNoDataPartTable env crc w disknum begin len d s H small =
     (if sint disknum < 0 \<or> begin = 0 \<or> len = 0 then Some (d, s, H, small)
      else case AllocatePool env d GPT_SIZE of
        None \<Rightarrow> Some (d, s, H, small)
      | Some buf \<Rightarrow> do {
          let disk = ucast disknum;
          let ntfsbuffer = AllocatePool env d 512;
          (gpt, s) \<leftarrow> IsGPT env d disk s;
          let dsize = disk_size s disknum;
          if gpt
          then do { (d, H, small) \<leftarrow> no_data_gpt env crc w disk dsize begin len buf ntfsbuffer d H small;
                    Some (d, s, H, small) }
          else do { (d, small) \<leftarrow> fix_mbr env disk dsize begin len buf ntfsbuffer d small;
                    Some (d, s, H, small) } })"

section \<open>With a data partition\<close>

definition WinrePartGUID1 :: u64 where "WinrePartGUID1 = 0x4d4006d1de94bba4"

text \<open>The end of the last partition in front of the recovery partition.\<close>

definition data_end :: "u64 \<Rightarrow> wire_state \<Rightarrow> u64 \<Rightarrow> u64" where
  "data_end nsec w align =
     (if g_WinREState w \<noteq> 0 then (nsec - g_wireTotalSectors w - 0x22 - 1) AND 0xffffffffffffff00
      else (nsec - 0x22) AND align)"

definition new_hdd_entries ::
  "u64 \<Rightarrow> wire_state \<Rightarrow> u64 \<Rightarrow> u64 \<Rightarrow> u64 \<Rightarrow> u64 \<Rightarrow> nat \<Rightarrow> buf \<Rightarrow> (buf \<times> nat \<times> u64 option \<times> bool) option" where
  "new_hdd_entries nsec w r1 r2 begin len i buf =
     (if begin + len + g_wireTotalSectors w + 0x64000 < nsec
      then do {
        os \<leftarrow> slice buf i 128;
        m \<leftarrow> put buf (i + 128) os;
        let i = i + 128;
        m \<leftarrow> put64 m (i + 0x10) r1;
        m \<leftarrow> put64 m (i + 0x18) r2;
        let start = (begin + len + 0xF) AND 0xfffffffffffffff0;
        m \<leftarrow> put64 m (i + 0x20) start;
        m \<leftarrow> put64 m (i + 0x28) (data_end nsec w 0xfffffffffffffff0);
        Some (m, i, Some start, False) }
      else do {
        m \<leftarrow> put64 buf (i + 0x28) (data_end nsec w 0xffffffffffffff00);
        Some (m, i, None, True) })"

text \<open>The entry of the recovery partition, at \<open>m\<close> in the table that was read, moves behind the others.\<close>

definition move_wire :: "wire_state \<Rightarrow> nat \<Rightarrow> nat \<Rightarrow> buf \<Rightarrow> (buf \<times> nat) option" where
  "move_wire w m i buf =
     (if g_WinREState w \<noteq> 0 \<and> i \<le> m
      then do { x \<leftarrow> slice buf m 128; buf \<leftarrow> put buf i x; Some (buf, i + 128) }
      else Some (buf, i))"

definition new_hdd_gpt ::
  "'d disk_env \<Rightarrow> (buf \<Rightarrow> u32) \<Rightarrow> wire_state \<Rightarrow> u64 \<Rightarrow> u64 \<Rightarrow> u16 \<Rightarrow> u64 option \<Rightarrow> u64 \<Rightarrow> u64 \<Rightarrow> buf \<Rightarrow> buf option \<Rightarrow> 'd \<Rightarrow> bool
   \<Rightarrow> ('d \<times> bool) option" where
  "new_hdd_gpt env crc w r1 r2 disk dsize begin len buf ntfsbuffer d small =
     do {
       (ok, b) \<leftarrow> DiskRead env d disk 1 33 buf 0;
       if \<not> ok then Some (d, small)
       else do {
         efi \<leftarrow> efi_part b;
         if \<not> efi then Some (d, small)
         else do {
           nsec \<leftarrow> dsize;
           b \<leftarrow> open_header nsec b;
           i \<leftarrow> find_entry (begins_at b begin) 512;
           if i > 4096 then Some (d, small)
           else do {
             m \<leftarrow> find_entry (\<lambda>j. do { x \<leftarrow> rd64 b j; Some (x = WinrePartGUID1) }) 512;
             (b, i, new, small) \<leftarrow> new_hdd_entries nsec w r1 r2 begin len i b;
             d \<leftarrow> (case new of None \<Rightarrow> Some d | Some start \<Rightarrow> do { nb \<leftarrow> ntfsbuffer; wipe_sector env d disk start nb });
             (b, i) \<leftarrow> move_wire w m (i + 128) b;
             b \<leftarrow> clear_rest b i;
             (_, d, _) \<leftarrow> write_primary env crc d disk b;
             Some (d, small) } } } }"

definition FixNewHDD ::
  "'d disk_env \<Rightarrow> (buf \<Rightarrow> u32) \<Rightarrow> wire_state \<Rightarrow> u64 \<Rightarrow> u64 \<Rightarrow> byte \<Rightarrow> u64 \<Rightarrow> u64 \<Rightarrow> 'd \<Rightarrow> part_state \<Rightarrow> bool
   \<Rightarrow> ('d \<times> part_state \<times> bool) option" where
  "FixNewHDD env crc w r1 r2 disknum begin len d s small =
     (if sint disknum < 0 \<or> begin = 0 \<or> len = 0 then Some (d, s, small)
      else case AllocatePool env d GPT_SIZE of
        None \<Rightarrow> Some (d, s, small)
      | Some buf \<Rightarrow> do {
          let disk = ucast disknum;
          let ntfsbuffer = AllocatePool env d 512;
          (gpt, s) \<leftarrow> IsGPT env d disk s;
          let dsize = disk_size s disknum;
          (d, small) \<leftarrow>
            (if gpt then new_hdd_gpt env crc w r1 r2 disk dsize begin len buf ntfsbuffer d small
             else fix_mbr env disk dsize begin len buf ntfsbuffer d small);
          Some (d, s, small) })"

section \<open>The recovery partition at the end of the disk\<close>

definition wire_at_end :: "u64 \<Rightarrow> u64 \<Rightarrow> nat \<Rightarrow> buf \<Rightarrow> (buf \<times> u64) option" where
  "wire_at_end nsec wire j buf =
     do {
       m \<leftarrow> put buf j Window_Recovery_TypeGuid;
       let start = (nsec - wire - 0x22) AND 0xfffffffffffffff0;
       m \<leftarrow> put64 m (j + 0x20) start;
       m \<leftarrow> put64 m (j + 0x28) ((nsec - 0x22) AND 0xffffffffffffff00);
       m \<leftarrow> put64 m (j + 0x30) 0x8000000000000001;
       m \<leftarrow> clear_rest m (j + 128);
       Some (m, start) }"

definition entry_of :: "buf \<Rightarrow> u64 \<Rightarrow> nat \<Rightarrow> bool option" where
  "entry_of buf x j = do { b \<leftarrow> rd64 buf (j + 0x20); Some (b = x \<or> b = x + 0x20) }"

definition free_entry :: "buf \<Rightarrow> nat \<Rightarrow> bool option" where
  "free_entry buf j = do { b \<leftarrow> rd64 buf (j + 0x20); e \<leftarrow> rd64 buf (j + 0x28); Some (b = 0 \<or> e = 0) }"

text \<open>The loop over the partitions of the image behind that of the system, up to the recovery
  partition.\<close>

fun place_wire ::
  "'d disk_env \<Rightarrow> u16 \<Rightarrow> u64 \<Rightarrow> u64 \<Rightarrow> buf \<Rightarrow> nat list \<Rightarrow> buf \<Rightarrow> 'd \<Rightarrow> OKR_HEADER \<Rightarrow> (buf \<times> 'd \<times> OKR_HEADER) option" where
  "place_wire env disk nsec wire nb [] buf d H = Some (buf, d, H)"
| "place_wire env disk nsec wire nb (i # is) buf d H =
     do {
       let P = hdr_Partition H ! i;
       let iswire = (bIfBackup P \<noteq> 0 \<and> TypeGuid P = Window_Recovery_TypeGuid);
       j \<leftarrow> find_entry (entry_of buf (BootBegin P)) 512;
       if \<not> iswire then place_wire env disk nsec wire nb is buf d H
       else do {
         j \<leftarrow> (if j < GPT_SIZE then Some j else find_entry (free_entry buf) 512);
         if j < GPT_SIZE
         then do {
           (m, start) \<leftarrow> wire_at_end nsec wire j buf;
           d \<leftarrow> wipe_sector env d disk start nb;
           Some (m, d, H\<lparr>hdr_Partition := (hdr_Partition H)[i := P\<lparr>BootBegin := start\<rparr>]\<rparr>) }
         else place_wire env disk nsec wire nb is buf d H } }"

definition data_os_partition :: "WIN32_PARTITIONINFO \<Rightarrow> bool" where
  "data_os_partition P \<longleftrightarrow> TypeGuid P = Windows_Data_TypeGuid \<and> HasWindows P = 1"

definition FixNewHDDPartitionTable ::
  "'d disk_env \<Rightarrow> (buf \<Rightarrow> u32) \<Rightarrow> wire_state \<Rightarrow> byte \<Rightarrow> 'd \<Rightarrow> part_state \<Rightarrow> OKR_HEADER \<Rightarrow> ('d \<times> part_state \<times> OKR_HEADER) option" where
  "FixNewHDDPartitionTable env crc w disknum d s H =
     (case AllocatePool env d GPT_SIZE of
        None \<Rightarrow> Some (d, s, H)
      | Some buf \<Rightarrow> (case AllocatePool env d 512 of
          None \<Rightarrow> Some (d, s, H)
        | Some nb \<Rightarrow> do {
            let disk = scast disknum;
            (gpt, s) \<leftarrow> IsGPT env d disk s;
            if \<not> gpt then Some (d, s, H)
            else do {
              (ok, b) \<leftarrow> DiskRead env d disk 1 33 buf 0;
              if \<not> ok then Some (d, s, H)
              else do {
                efi \<leftarrow> efi_part b;
                if \<not> efi then Some (d, s, H)
                else do {
                  b \<leftarrow> put b 0x10 [0, 0, 0, 0];
                  nsec \<leftarrow> disk_size s disknum;
                  let c = (case first_index data_os_partition (hdr_Partition H) of None \<Rightarrow> 0 | Some i \<Rightarrow> i);
                  (b, d, H) \<leftarrow> place_wire env disk nsec (g_wireTotalSectors w) nb
                    [c + 1..<length (hdr_Partition H)] b d H;
                  (ok, d, b) \<leftarrow> write_primary env crc d disk b;
                  if \<not> ok then Some (d, s, H)
                  else do { (_, d) \<leftarrow> write_backup env crc d disk nsec b; Some (d, s, H) } } } } }))"

text \<open>The part of \<open>Recover\<close> that rewrites the table of a new disk before the partitions are restored.\<close>

definition fix_found_disk ::
  "'d disk_env \<Rightarrow> (buf \<Rightarrow> u32) \<Rightarrow> u64 \<Rightarrow> u64 \<Rightarrow> byte \<Rightarrow> u64 \<Rightarrow> u64 \<Rightarrow> wire_state \<Rightarrow> 'd \<Rightarrow> part_state \<Rightarrow> OKR_HEADER
   \<Rightarrow> (wire_state \<times> 'd \<times> part_state \<times> OKR_HEADER \<times> bool) option" where
  "fix_found_disk env crc r1 r2 disknum begin len w d s H =
     do {
       w \<leftarrow> IsFixNewHddWay H w;
       w \<leftarrow> GetWirePartSector H w;
       if IsNoDataPartFlag w
       then do {
         (d, s, H, small) \<leftarrow> FixNoDataPartTable env crc w disknum begin len d s H False;
         Some (w, d, s, H, small) }
       else do {
         (d, s, small) \<leftarrow> FixNewHDD env crc w r1 r2 disknum begin len d s False;
         (d, s, H) \<leftarrow> (if g_WinREState w \<noteq> 0 then FixNewHDDPartitionTable env crc w disknum d s H else Some (d, s, H));
         Some (w, d, s, H, small) } }"

section \<open>The size in the boot sector of the system\<close>

definition patch_size :: "'d disk_env \<Rightarrow> 'd \<Rightarrow> u16 \<Rightarrow> u64 \<Rightarrow> u64 \<Rightarrow> buf \<Rightarrow> ('d \<times> bool) option" where
  "patch_size env d disk begin n mem =
     do {
       (ok, m) \<leftarrow> DiskRead env d disk begin 1 mem 0;
       if \<not> ok then Some (d, False)
       else do {
         m \<leftarrow> put64 m 0x28 n;
         (_, d') \<leftarrow> DiskWrite env d disk begin 1 m 0;
         Some (d', True) } }"

text \<open>The results are the device and \<open>last_upcase\<close>.\<close>

definition FixPartCSize :: "'d disk_env \<Rightarrow> 'd \<Rightarrow> byte \<Rightarrow> u64 \<Rightarrow> u64 \<Rightarrow> ('d \<times> bool) option" where
  "FixPartCSize env d disknum begin len =
     (if sint disknum < 0 \<or> begin = 0 \<or> len = 0 then Some (d, False)
      else case AllocatePool env d 512 of
        None \<Rightarrow> Some (d, False)
      | Some mem \<Rightarrow> patch_size env d (ucast disknum) begin len mem)"

definition FixSmallDiskCSize :: "'d disk_env \<Rightarrow> 'd \<Rightarrow> part_state \<Rightarrow> byte \<Rightarrow> u64 \<Rightarrow> u64 \<Rightarrow> 'd option" where
  "FixSmallDiskCSize env d s disknum begin len =
     (if sint disknum < 0 \<or> begin = 0 \<or> len = 0 then Some d
      else case AllocatePool env d 512 of
        None \<Rightarrow> Some d
      | Some mem \<Rightarrow> do {
          nsec \<leftarrow> disk_size s disknum;
          let n = ((nsec AND 0xffffffffffffff00) - begin + 1) AND 0xffffffffffffffc0;
          (d', _) \<leftarrow> patch_size env d (ucast disknum) begin n mem;
          Some d' })"

end
