(* ===== verification/Okr_GptCorrect.thy ===== *)
theory Okr_GptCorrect
  imports Okr_Gpt Okr_ScanCorrect Okr_TableCorrect
begin

unbundle bit_operations_syntax

text \<open>
  Correctness of the rewritten partition table: what makes a copy of a GPT valid, which of the
  functions of \<^verbatim>\<open>Okr_Gpt\<close> leave both copies valid, which only the first, and where the entries go
  when there is no room behind the system.
\<close>

section \<open>Updates at the same and at other places\<close>

definition over :: "buf \<Rightarrow> nat \<Rightarrow> buf \<Rightarrow> buf" where
  "over b i xs = take i b @ xs @ drop (i + length xs) b"

lemma put_over: "i + length xs \<le> length b \<Longrightarrow> put b i xs = Some (over b i xs)"
  by (simp add: put_def over_def)

lemma length_over [simp]: "i + length xs \<le> length b \<Longrightarrow> length (over b i xs) = length b"
  by (simp add: over_def)

lemma put64_over: "i + 8 \<le> length b \<Longrightarrow> put64 b i x = Some (over b i (le_bytes 8 x))"
  by (simp add: put64_def put_over)

lemma put32_over: "i + 4 \<le> length b \<Longrightarrow> put32 b i x = Some (over b i (le_bytes 4 x))"
  by (simp add: put32_def put_over)

lemma take_over [simp]: "n \<le> i \<Longrightarrow> i \<le> length b \<Longrightarrow> take n (over b i xs) = take n b"
  by (simp add: over_def)

lemma drop_over [simp]:
  assumes "i + length xs \<le> n" "i + length xs \<le> length b"
  shows "drop n (over b i xs) = drop n b"
  using assms by (simp add: over_def)

lemma nth_over:
  assumes "i + length xs \<le> length b" "j < length b"
  shows "over b i xs ! j = (if i \<le> j \<and> j < i + length xs then xs ! (j - i) else b ! j)"
  by (rule put_nth [OF put_over [OF assms(1)] assms(2)])

lemma take_drop_over:
  assumes "j + n \<le> i \<or> i + length xs \<le> j" "i + length xs \<le> length b"
  shows "take n (drop j (over b i xs)) = take n (drop j b)"
proof (rule nth_equalityI)
  show "length (take n (drop j (over b i xs))) = length (take n (drop j b))" using assms(2) by simp
  fix k assume "k < length (take n (drop j (over b i xs)))"
  then have k: "k < n" "k < length b - j" using assms(2) by simp_all
  then have jk: "j + k < length b" by simp
  have "over b i xs ! (j + k) = b ! (j + k)"
    using nth_over [OF assms(2) jk] k(1) assms(1) by auto
  then show "take n (drop j (over b i xs)) ! k = take n (drop j b) ! k" using k jk assms(2) by simp
qed

lemma rd_le_over:
  assumes "j + n \<le> i \<or> i + length xs \<le> j" "i + length xs \<le> length b"
  shows "rd_le n (over b i xs) j = rd_le n b j"
  using take_drop_over [OF assms] assms(2) by (simp add: rd_le_def)

lemma rd_over_same:
  "i + 8 \<le> length b \<Longrightarrow> rd64 (over b i (le_bytes 8 x)) i = Some x"
  "i + 4 \<le> length b \<Longrightarrow> rd32 (over b i (le_bytes 4 y)) i = Some y"
  unfolding rd64_def rd32_def by (rule put_le_rd_le, rule put_over, simp, simp)+

lemma rd_over:
  "j + 8 \<le> i \<or> i + length xs \<le> j \<Longrightarrow> i + length xs \<le> length b \<Longrightarrow> rd64 (over b i xs) j = rd64 b j"
  "j + 4 \<le> i \<or> i + length xs \<le> j \<Longrightarrow> i + length xs \<le> length b \<Longrightarrow> rd32 (over b i xs) j = rd32 b j"
  unfolding rd64_def rd32_def by (auto intro: rd_le_over)

lemma slice_fits: "i + n \<le> length b \<Longrightarrow> slice b i n = Some (take n (drop i b))"
  by (simp add: slice_def)

lemma rd64_fits: "i + 8 \<le> length b \<Longrightarrow> rd64 b i \<noteq> None"
  by (simp add: rd64_def rd_le_def)

lemma rd_le_take: "i + n \<le> k \<Longrightarrow> k \<le> length b \<Longrightarrow> rd_le n (take k b) i = rd_le n b i"
  by (simp add: rd_le_def take_drop min_def)

lemma rd_take:
  "i + 8 \<le> k \<Longrightarrow> k \<le> length b \<Longrightarrow> rd64 (take k b) i = rd64 b i"
  "i + 4 \<le> k \<Longrightarrow> k \<le> length b \<Longrightarrow> rd32 (take k b) i = rd32 b i"
  by (simp_all add: rd64_def rd32_def rd_le_take)

lemmas step_simps = put_over put64_over put32_over rd_over_same rd_over slice_fits take_drop_over

section \<open>What makes a copy of the table valid\<close>

text \<open>The sum of the header is taken over its first 0x5c bytes with the field of the sum itself zero.\<close>

definition header_sum :: "(buf \<Rightarrow> u32) \<Rightarrow> buf \<Rightarrow> u32" where
  "header_sum crc h = crc (take 0x5c (over h 0x10 (le_bytes 4 (0 :: u32))))"

text \<open>The 128 entries of a table that begins in sector \<open>tab\<close>.\<close>

definition table_at :: "(nat \<Rightarrow> buf) \<Rightarrow> nat \<Rightarrow> buf" where
  "table_at f tab = concat (map f [tab..<tab + 32])"

text \<open>A copy of the table whose header is in sector \<open>own\<close> and whose entries begin in sector \<open>tab\<close>,
  with the other copy's header in sector \<open>other\<close>.\<close>

definition gpt_copy :: "(buf \<Rightarrow> u32) \<Rightarrow> (nat \<Rightarrow> buf) \<Rightarrow> nat \<Rightarrow> nat \<Rightarrow> nat \<Rightarrow> bool" where
  "gpt_copy crc f own other tab \<longleftrightarrow>
     efi_part (f own) = Some True \<and>
     rd64 (f own) 0x18 = Some (of_nat own) \<and> rd64 (f own) 0x20 = Some (of_nat other) \<and>
     rd64 (f own) 0x48 = Some (of_nat tab) \<and>
     rd32 (f own) 0x10 = Some (header_sum crc (f own)) \<and>
     rd32 (f own) 0x58 = Some (crc (table_at f tab))"

lemma over_over: "length xs = length ys \<Longrightarrow> i + length xs \<le> length b \<Longrightarrow> over (over b i xs) i ys = over b i ys"
  by (simp add: over_def)

lemma header_sum_over:
  "length h \<ge> 0x5c \<Longrightarrow> header_sum crc (over h 0x10 (le_bytes 4 (x::u32))) = header_sum crc h"
  by (simp add: header_sum_def over_over)

lemma take_over_inside: "i + length xs \<le> k \<Longrightarrow> k \<le> length b \<Longrightarrow> take k (over b i xs) = over (take k b) i xs"
  by (cases "k = i") (simp_all add: over_def take_drop min_def)

lemma header_sum_take: "length h \<ge> 0x5c \<Longrightarrow> k \<ge> 0x5c \<Longrightarrow> header_sum crc (take k h) = header_sum crc h"
  by (cases "k \<le> length h") (simp_all add: header_sum_def flip: take_over_inside)

section \<open>Reading and writing\<close>

lemma DiskWrite_sectors:
  assumes "writes_sectors env sec k totd" "k < g_disknum env"
    and "0 < unat cnt" "unat cnt \<le> 2048" "unat lba + unat cnt \<le> totd" "off + 512 * unat cnt \<le> length m"
  obtains d' where "DiskWrite env d k lba cnt m off = Some (True, d')"
    "sec d' k = store_sectors (sec d k) (unat lba) (take (512 * unat cnt) (drop off m))"
proof -
  let ?x = "take (512 * unat cnt) (drop off m)"
  have u: "unat (512 * cnt) = 512 * unat cnt"
    using assms(4) by (simp add: unat_word_ariths)
  have l: "length ?x = 512 * unat cnt" using assms(6) by simp
  then obtain d' where "WriteBlocks env d k lba ?x = (d', True)" "sec d' k = store_sectors (sec d k) (unat lba) ?x"
    using assms(1) [unfolded writes_sectors_def, rule_format, of ?x lba d] assms(3-5) by auto
  moreover from this have "DiskWrite env d k lba cnt m off = Some (True, d')"
    using u assms(2,6) by (simp add: DiskWrite_def slice_fits)
  ultimately show thesis by (intro that)
qed

lemma wipe_sector_ok:
  assumes rd: "reads_sectors env sec k totd" and wr: "writes_sectors env sec k totd" and k: "k < g_disknum env"
    and "unat lba < totd" "length nb = 512"
  obtains d' where "wipe_sector env d k lba nb = Some d'"
    "sec d' k = store_sectors (sec d k) (unat lba) (replicate 512 0)"
proof -
  obtain m where m: "DiskRead env d k lba 1 nb 0 = Some (True, m)" "length m = 512"
    using DiskRead_sectors [OF rd k, of 1 lba nb d] length_sectors_of [OF rd, of d "unat lba" 1] assms(4,5) by auto
  have z: "over m 0 (replicate 512 0) = replicate 512 0" using m(2) by (simp add: over_def)
  obtain d' where "DiskWrite env d k lba 1 (replicate 512 0) 0 = Some (True, d')"
    "sec d' k = store_sectors (sec d k) (unat lba) (replicate 512 0)"
    by (rule DiskWrite_sectors [OF wr k, of 1 lba 0 "replicate 512 0" d]) (use assms(4) in simp_all)
  moreover from this m have "wipe_sector env d k lba nb = Some d'"
    by (simp add: wipe_sector_def put_over z)
  ultimately show thesis by (intro that)
qed

text \<open>What the header in a buffer says: its own sector, the other copy's, the last sector that
  partitions may use, and where its entries are.\<close>

definition header_fields :: "buf \<Rightarrow> u64 \<Rightarrow> u64 \<Rightarrow> u64 \<Rightarrow> u64 \<Rightarrow> bool" where
  "header_fields b own other lu tab \<longleftrightarrow> length b = GPT_SIZE \<and> efi_part b = Some True \<and>
     rd64 b 0x18 = Some own \<and> rd64 b 0x20 = Some other \<and> rd64 b 0x30 = Some lu \<and> rd64 b 0x48 = Some tab"

lemma efi_part_over:
  "8 \<le> i \<Longrightarrow> i + length xs \<le> length b \<Longrightarrow> efi_part (over b i xs) = efi_part b"
  by (simp add: efi_part_def slice_fits)

lemmas header_simps = header_fields_def efi_part_over GPT_SIZE_def

definition sums :: "(buf \<Rightarrow> u32) \<Rightarrow> buf \<Rightarrow> bool" where
  "sums crc b \<longleftrightarrow> rd32 b 0x10 = Some (header_sum crc b) \<and> rd32 b 0x58 = Some (crc (drop 512 b))"

lemma write_primary_ok:
  assumes wr: "writes_sectors env sec k totd" and k: "k < g_disknum env" and n: "34 \<le> totd"
    and b: "header_fields b own other lu tab"
  obtains d' m where "write_primary env crc d k b = Some (True, d', m)"
    "sec d' k = store_sectors (sec d k) 1 m" "header_fields m own other lu tab" "sums crc m" "drop 512 m = drop 512 b"
proof -
  have len: "length b = 16896" using b by (simp add: header_simps)
  let ?m1 = "over (over b 0x58 (le_bytes 4 (crc (drop 512 b)))) 0x10 (le_bytes 4 (0 :: u32))"
  let ?m = "over ?m1 0x10 (le_bytes 4 (crc (take 0x5c ?m1)))"
  have t: "take 16384 (drop 512 b) = drop 512 b" using len by simp
  obtain d' where d': "DiskWrite env d k 1 33 ?m 0 = Some (True, d')" "sec d' k = store_sectors (sec d k) 1 (take 16896 ?m)"
    by (rule DiskWrite_sectors [OF wr k, of 33 1 0 ?m d]) (use n len in simp_all)
  have "write_primary env crc d k b = Some (True, d', ?m)"
    using d'(1) len t by (simp add: write_primary_def step_simps)
  moreover have "header_fields ?m own other lu tab"
    using b len by (simp add: header_simps step_simps)
  moreover have "header_sum crc ?m = crc (take 0x5c ?m1)"
    using len by (simp add: header_sum_over) (simp add: header_sum_def over_over)
  then have "sums crc ?m"
    using len by (simp add: sums_def step_simps)
  moreover have "drop 512 ?m = drop 512 b" using len by simp
  ultimately show thesis using that d'(2) len by simp
qed

lemma write_backup_ok:
  assumes wr: "writes_sectors env sec k (unat nsec)" and k: "k < g_disknum env" and n: "34 \<le> unat nsec"
    and b: "header_fields b own other lu tab" "sums crc b"
  obtains d' m where "write_backup env crc d k nsec b = Some (True, d')"
    "sec d' k = store_sectors (store_sectors (sec d k) (unat nsec - 33) (drop 512 b)) (unat nsec - 1) (take 512 m)"
    "header_fields m other own lu (lu + 1)" "sums crc m" "drop 512 m = drop 512 b"
proof -
  have len: "length b = 16896" using b by (simp add: header_simps)
  have u: "unat (nsec - 33) = unat nsec - 33" "unat (nsec - 1) = unat nsec - 1"
    using n by (simp_all add: unat_sub_no_wrap)
  let ?m3 = "over (over (over b 0x20 (le_bytes 8 own)) 0x18 (le_bytes 8 other)) 0x48 (le_bytes 8 (lu + 1))"
  let ?m4 = "over ?m3 0x10 (le_bytes 4 (0 :: u32))"
  let ?m = "over ?m4 0x10 (le_bytes 4 (crc (take 0x5c ?m4)))"
  have t: "take 16384 (drop 512 b) = drop 512 b" using len by simp
  obtain d1 where d1: "DiskWrite env d k (nsec - 33) 32 b 512 = Some (True, d1)"
    "sec d1 k = store_sectors (sec d k) (unat nsec - 33) (drop 512 b)"
    by (rule DiskWrite_sectors [OF wr k, of 32 "nsec - 33" 512 b d]) (use n len u t in simp_all)
  obtain d2 where d2: "DiskWrite env d1 k (nsec - 1) 1 ?m 0 = Some (True, d2)"
    "sec d2 k = store_sectors (sec d1 k) (unat nsec - 1) (take 512 ?m)"
    by (rule DiskWrite_sectors [OF wr k, of 1 "nsec - 1" 0 ?m d1]) (use n len u in simp_all)
  have f: "rd64 b 0x18 = Some own" "rd64 b 0x20 = Some other" "rd64 b 0x30 = Some lu"
    using b(1) by (simp_all add: header_simps)
  have "write_backup env crc d k nsec b = Some (True, d2)"
    using d1(1) d2(1) len f by (simp add: write_backup_def step_simps)
  moreover have "header_fields ?m other own lu (lu + 1)"
    using b(1) len by (simp add: header_simps step_simps)
  moreover have "header_sum crc ?m = crc (take 0x5c ?m4)"
    using len by (simp add: header_sum_over) (simp add: header_sum_def over_over)
  then have "sums crc ?m"
    using len b(2) by (simp add: sums_def step_simps)
  moreover have "drop 512 ?m = drop 512 b" using len by simp
  ultimately show thesis using that d1(2) d2(2) by simp
qed

section \<open>The two copies on the disk\<close>

lemma concat_pieces:
  "concat (map (\<lambda>i. take 512 (drop (512 * (i - s)) b)) [s..<s + c]) = take (512 * c) b"
proof (induction c)
  case (Suc c)
  have "take (512 * Suc c) b = take (512 * c) b @ take 512 (drop (512 * c) b)"
    by (simp add: take_add [symmetric] add.commute)
  with Suc show ?case by simp
qed simp

lemma sectors_stored:
  assumes "\<And>i. s \<le> i \<Longrightarrow> i < s + c \<Longrightarrow> f i = store_sectors g s b i" "length b = 512 * c"
  shows "concat (map f [s..<s + c]) = b"
proof -
  have "map f [s..<s + c] = map (\<lambda>i. take 512 (drop (512 * (i - s)) b)) [s..<s + c]"
    using assms by (auto simp: store_sectors_def)
  then show ?thesis using concat_pieces [of s b c] assms(2) by (simp only: take_all order_refl)
qed

lemma efi_part_take: "8 \<le> k \<Longrightarrow> k \<le> length b \<Longrightarrow> efi_part (take k b) = efi_part b"
  by (simp add: efi_part_def slice_fits min_def)

lemma gpt_copy_intro:
  assumes "f own = take 512 m" "table_at f tab = drop 512 m"
    "header_fields m (of_nat own) (of_nat other) lu (of_nat tab)" "sums crc m"
  shows "gpt_copy crc f own other tab"
  using assms by (simp add: gpt_copy_def header_simps sums_def rd_take header_sum_take efi_part_take)

lemma both_copies:
  assumes m: "header_fields m 1 (of_nat (n - 1)) lu 2" "sums crc m"
    and m': "header_fields m' (of_nat (n - 1)) 1 lu (of_nat (n - 33))" "sums crc m'" "drop 512 m' = drop 512 m"
    and n: "67 \<le> n"
    and f: "f = store_sectors (store_sectors (store_sectors g 1 m) (n - 33) (drop 512 m)) (n - 1) (take 512 m')"
  shows "gpt_copy crc f 1 (n - 1) 2" "gpt_copy crc f (n - 1) 1 (n - 33)"
    "table_at f 2 = drop 512 m" "table_at f (n - 33) = drop 512 m"
    "\<And>i. i = 0 \<or> 34 \<le> i \<and> i < n - 33 \<or> n \<le> i \<Longrightarrow> f i = g i"
proof -
  have len: "length m = 16896" "length m' = 16896" using m m' by (simp_all add: header_simps)
  note st = store_sectors_def
  have one: "f 1 = take 512 m" using n len by (auto simp: f st)
  have last: "f (n - 1) = take 512 m'" using n len by (simp add: f st min_def)
  have A: "f i = store_sectors g 2 (drop 512 m) i" if "2 \<le> i" "i < 2 + 32" for i
    using n len that by (auto simp: f st min_def intro!: arg_cong [where f = "take 512"] arg_cong2 [where f = drop])
  show primary: "table_at f 2 = drop 512 m"
    unfolding table_at_def by (rule sectors_stored [of 2 32 f g, OF A]) (use len in simp_all)
  have B: "f i = store_sectors g (n - 33) (drop 512 m) i" if "n - 33 \<le> i" "i < n - 33 + 32" for i
    using n len that by (auto simp: f st min_def)
  show backup: "table_at f (n - 33) = drop 512 m"
    unfolding table_at_def by (rule sectors_stored [of "n - 33" 32 f g, OF B]) (use len in simp_all)
  show "gpt_copy crc f 1 (n - 1) 2"
    by (rule gpt_copy_intro [where m = m]) (use one primary m in simp_all)
  show "gpt_copy crc f (n - 1) 1 (n - 33)"
    by (rule gpt_copy_intro [where m = m']) (use last backup m' in simp_all)
  show "f i = g i" if "i = 0 \<or> 34 \<le> i \<and> i < n - 33 \<or> n \<le> i" for i
    using n len that by (auto simp: f st min_def)
qed

section \<open>Rounding down\<close>

lemma unat_and_not_mask: "unat ((x :: u64) AND NOT (mask n)) = unat x div 2 ^ n * 2 ^ n"
proof -
  have e: "x AND NOT (mask n) = push_bit n (drop_bit n x)"
    by (rule bit_word_eqI) (auto simp: bit_simps)
  have "unat x div 2 ^ n * 2 ^ n \<le> unat x" by (rule div_times_less_eq_dividend)
  also have x: "unat x < 2 ^ 64" using unsigned_less [where 'a = nat and w = x] by simp
  finally have l: "unat x div 2 ^ n * 2 ^ n < 2 ^ 64" .
  have "unat (push_bit n (drop_bit n x)) = take_bit 64 (unat x div 2 ^ n * 2 ^ n)"
    unfolding unsigned_push_bit_eq unsigned_drop_bit_eq by (simp add: push_bit_eq_mult drop_bit_eq_div take_bit_nat_eq_self [OF x])
  with e l show ?thesis by (simp only: take_bit_nat_eq_self)
qed

lemma unat_align:
  "unat ((x :: u64) AND 0xfffffffffffffff0) = unat x div 16 * 16"
  "unat ((x :: u64) AND 0xffffffffffffff00) = unat x div 256 * 256"
  "unat ((x :: u64) AND 0xffffffffffffffc0) = unat x div 64 * 64"
proof -
  have "(0xfffffffffffffff0 :: u64) = NOT (mask 4)" "(0xffffffffffffff00 :: u64) = NOT (mask 8)"
    "(0xffffffffffffffc0 :: u64) = NOT (mask 6)" by (simp_all add: mask_eq_exp_minus_1)
  then show "unat ((x :: u64) AND 0xfffffffffffffff0) = unat x div 16 * 16"
    "unat ((x :: u64) AND 0xffffffffffffff00) = unat x div 256 * 256"
    "unat ((x :: u64) AND 0xffffffffffffffc0) = unat x div 64 * 64"
    by (simp_all only: unat_and_not_mask) simp_all
qed

lemma round_256:
  fixes x :: nat
  shows "x mod 256 < 16 \<Longrightarrow> x div 256 * 256 = x div 16 * 16"
    "\<not> x mod 256 < 16 \<Longrightarrow> x div 16 * 16 div 256 * 256 + 16 \<le> x div 16 * 16"
proof -
  obtain q r where x: "x = 256 * q + r" "r < 256"
    by (metis mod_less_divisor mult_div_mod_eq zero_less_numeral)
  have "x div 16 = 16 * q + r div 16" unfolding x by simp
  then have d: "x div 16 * 16 = 256 * q + r div 16 * 16" by simp
  have r: "r div 16 * 16 < 256" using x(2) by (metis div_times_less_eq_dividend le_less_trans)
  have m: "x mod 256 = r" "x div 256 = q" using x(2) by (simp_all add: x(1))
  show "x mod 256 < 16 \<Longrightarrow> x div 256 * 256 = x div 16 * 16" unfolding d m by simp
  have "(256 * q + r div 16 * 16) div 256 = q" using r by simp
  moreover have "16 \<le> r div 16 * 16" if "\<not> r < 16" using div_le_mono [of 16 r 16] that by simp
  ultimately show "\<not> x mod 256 < 16 \<Longrightarrow> x div 16 * 16 div 256 * 256 + 16 \<le> x div 16 * 16" unfolding d m by simp
qed

section \<open>Steps on the entries\<close>

lemma open_header_ok:
  assumes "header_fields b own other lu tab"
  obtains m where "open_header nsec b = Some m" "header_fields m own (nsec - 1) (nsec - 0x22) tab" "drop 512 m = drop 512 b"
proof
  have len: "length b = 16896" using assms by (simp add: header_simps)
  let ?m = "over (over (over b 0x10 [0, 0, 0, 0]) 0x20 (le_bytes 8 (nsec - 1))) 0x30 (le_bytes 8 (nsec - 0x22))"
  show "open_header nsec b = Some ?m"
    using len by (simp add: open_header_def step_simps)
  show "header_fields ?m own (nsec - 1) (nsec - 0x22) tab" "drop 512 ?m = drop 512 b"
    using assms len by (simp_all add: header_simps step_simps)
qed

lemma find_entry_first:
  assumes "\<And>j. i \<le> j \<Longrightarrow> j < i + 128 * e \<Longrightarrow> 128 dvd (j - i) \<Longrightarrow> P j = Some False"
    and "P (i + 128 * e) = Some True" "i + 128 * e < GPT_SIZE"
  shows "find_entry P i = Some (i + 128 * e)"
  using assms
proof (induction e arbitrary: i)
  case 0
  then show ?case by (subst find_entry.simps) simp
next
  case (Suc e)
  have "P i = Some False" using Suc.prems(1) [of i] by simp
  moreover have "find_entry P (i + 128) = Some (i + 128 + 128 * e)"
  proof (rule Suc.IH)
    show "P j = Some False" if "i + 128 \<le> j" "j < i + 128 + 128 * e" "128 dvd j - (i + 128)" for j
    proof -
      have "j - i = (j - (i + 128)) + 128" using that by simp
      then have "128 dvd j - i" using that(3) by (metis dvd_add dvd_refl)
      then show ?thesis using Suc.prems(1) [of j] that by simp
    qed
  qed (use Suc.prems in \<open>simp_all add: algebra_simps\<close>)
  ultimately show ?case using Suc.prems(3) by (subst find_entry.simps) (simp add: algebra_simps)
qed

lemma find_entry_total:
  assumes "\<And>j. j + 128 \<le> GPT_SIZE \<Longrightarrow> P j \<noteq> None" "128 dvd i"
  obtains j where "find_entry P i = Some j" "128 dvd j" "i \<le> j" "j < GPT_SIZE \<longrightarrow> P j = Some True"
  using assms
proof (induction P i arbitrary: thesis rule: find_entry.induct)
  case (1 P i)
  show ?case
  proof (cases "i < GPT_SIZE")
    case True
    have "i + 128 \<le> GPT_SIZE"
      using 1(4) True by (auto simp: GPT_SIZE_def elim!: dvdE)
    with 1(3) obtain h where h: "P i = Some h" by auto
    show ?thesis
    proof (cases h)
      case True
      with h \<open>i < GPT_SIZE\<close> 1 show ?thesis by (auto simp: find_entry.simps)
    next
      case False
      obtain j where "find_entry P (i + 128) = Some j" "128 dvd j" "i + 128 \<le> j" "j < GPT_SIZE \<longrightarrow> P j = Some True"
        using 1(1) [OF True h False] 1(3,4) by auto
      with h False True 1(2) [of j] show ?thesis by (auto simp: find_entry.simps [of P i])
    qed
  next
    case False
    with 1 show ?thesis by (auto simp: find_entry.simps)
  qed
qed

lemma clear_rest_ok:
  assumes "length b = GPT_SIZE"
  obtains m where "clear_rest b i = Some m" "length m = GPT_SIZE" "take i m = take i b"
    "drop i m = replicate (GPT_SIZE - i) 0"
proof (cases "i < GPT_SIZE")
  case True
  with assms show thesis
    by (intro that [of "over b i (replicate (GPT_SIZE - i) 0)"])
      (simp_all add: clear_rest_def put_over, simp add: over_def)
next
  case False
  with assms show thesis by (intro that [of b]) (simp_all add: clear_rest_def)
qed

lemma length_type_guid [simp]: "length Window_Recovery_TypeGuid = 16"
  by (simp add: Window_Recovery_TypeGuid_def)

lemma take_drop_over_same: "i + length xs \<le> length b \<Longrightarrow> n = length xs \<Longrightarrow> take n (drop i (over b i xs)) = xs"
  by (simp add: over_def)

lemma wire_entry_ok:
  assumes "j + 128 \<le> length b"
  obtains m where "wire_entry b j start wire = Some m" "length m = length b" "take j m = take j b"
    "take 16 (drop j m) = Window_Recovery_TypeGuid" "rd64 m (j + 0x20) = Some start"
    "rd64 m (j + 0x28) = Some ((start + wire) AND 0xffffffffffffff00)"
    "\<And>x. x + 8 \<le> j \<Longrightarrow> rd64 m x = rd64 b x"
proof
  let ?m = "over (over (over (over b (j + 0x20) (le_bytes 8 start)) (j + 0x28)
    (le_bytes 8 ((start + wire) AND 0xffffffffffffff00))) j Window_Recovery_TypeGuid) (j + 0x30) (le_bytes 8 (0x8000000000000001 :: u64))"
  show "wire_entry b j start wire = Some ?m"
    using assms by (simp add: wire_entry_def step_simps)
  show "length ?m = length b" "take j ?m = take j b"
    "take 16 (drop j ?m) = Window_Recovery_TypeGuid" "rd64 ?m (j + 0x20) = Some start"
    "rd64 ?m (j + 0x28) = Some ((start + wire) AND 0xffffffffffffff00)"
    "\<And>x. x + 8 \<le> j \<Longrightarrow> rd64 ?m x = rd64 b x"
    using assms by (simp_all add: step_simps take_drop_over_same)
qed

lemma no_data_entries_ok:
  assumes len: "length b = GPT_SIZE" and i: "512 \<le> i" "i + 256 \<le> GPT_SIZE"
    and n: "unat (g_wireTotalSectors w) + 34 \<le> unat nsec" "16 \<le> unat (g_wireTotalSectors w)"
      "unat begin + unat len + unat (g_wireTotalSectors w) < 2 ^ 64"
  obtains m new small where
    "no_data_entries nsec w begin len i b = Some (m, if g_WinREState w = 0 then i else i + 128, new, small)"
    "length m = GPT_SIZE" "take i m = take i b"
    "if g_WinREState w = 0 then new = None
     else \<exists>start. new = Some start \<and> unat start < unat nsec \<and>
       take 16 (drop (i + 128) m) = Window_Recovery_TypeGuid \<and> rd64 m (i + 128 + 0x20) = Some start"
proof -
  note result = that
  let ?w = "g_wireTotalSectors w"
  have step: thesis
    if "b' = b \<or> (\<exists>e. b' = over b (i + 0x28) (le_bytes 8 (e :: u64)))"
      and "g_WinREState w \<noteq> 0 \<Longrightarrow> unat start < unat nsec"
      and "no_data_entries nsec w begin len i b = (if g_WinREState w = 0 then Some (b', i, None, small)
        else do { m \<leftarrow> wire_entry b' (i + 128) start ?w; Some (m, i + 128, Some start, small) })"
    for b' start small
  proof -
    have b': "length b' = GPT_SIZE" "take i b' = take i b"
      using that(1) len i by (auto simp: GPT_SIZE_def)
    obtain m where m: "wire_entry b' (i + 128) start ?w = Some m" "length m = length b'" "take (i + 128) m = take (i + 128) b'"
      "take 16 (drop (i + 128) m) = Window_Recovery_TypeGuid" "rd64 m (i + 128 + 0x20) = Some start"
      by (rule wire_entry_ok [of "i + 128" b' start ?w]) (use b' i in simp_all)
    have "take i m = take i b'" using arg_cong [OF m(3), of "take i"] by (simp add: min_def)
    with b' m that show thesis
      by (intro result [of "if g_WinREState w = 0 then b' else m" "if g_WinREState w = 0 then None else Some start" small])
        (cases "g_WinREState w = 0"; simp)+
  qed
  show thesis
  proof (cases "begin + len + ?w < nsec")
    case True
    let ?s = "(begin + len + 0xF) AND 0xfffffffffffffff0"
    have u: "unat (begin + len + ?w) = unat begin + unat len + unat ?w"
      using n(3) by (simp add: unat_add_no_wrap)
    have "unat (begin + len + 0xF) = unat begin + unat len + 15"
      using n by (simp add: unat_add_no_wrap)
    then have "unat ?s < unat nsec"
      using True u n(2) div_times_less_eq_dividend [of "unat (begin + len + 0xF)" 16]
      by (simp add: unat_align word_less_nat_alt)
    then show thesis
      by (intro step [of b ?s False]) (use True in \<open>simp_all add: no_data_entries_def Let_def\<close>)
  next
    case False
    let ?x = "nsec - ?w - 0x22"
    let ?s = "?x AND 0xfffffffffffffff0"
    have x: "begin + (nsec - (begin + ?w) - 0x22) = ?x" by (simp add: algebra_simps)
    have "unat ?x = unat nsec - unat ?w - 34" using n(1) by (simp add: unat_sub_no_wrap)
    then have s: "unat ?s < unat nsec"
      using n(1) div_times_less_eq_dividend [of "unat ?x" 16] by (simp add: unat_align)
    let ?e = "if g_WinREState w = 0 then (begin + (nsec - begin - 0x22)) AND 0xffffffffffffff00
      else ?x AND 0xffffffffffffff00"
    show thesis
      by (rule step [of "over b (i + 0x28) (le_bytes 8 ?e)" ?s True])
        (use False s i len in \<open>auto simp: no_data_entries_def Let_def x put64_over GPT_SIZE_def\<close>)
  qed
qed

lemma take_prefix: "take j a = take j b \<Longrightarrow> n \<le> j \<Longrightarrow> take n a = take n b"
  by (metis min_absorb1 take_take)

lemma header_fields_take:
  assumes "header_fields b own other lu tab" "512 \<le> i" "take i m = take i b" "length m = length b"
  shows "header_fields m own other lu tab"
proof -
  have len: "length b = 16896" using assms(1) by (simp add: header_simps)
  have t: "take 512 m = take 512 b" by (rule take_prefix [OF assms(3,2)])
  have r: "rd64 m x = rd64 b x" if "x + 8 \<le> 512" for x
    using rd_take(1) [OF that, of m] rd_take(1) [OF that, of b] len assms(4) by (simp add: t)
  have "efi_part m = efi_part b"
    using efi_part_take [of 512 m] efi_part_take [of 512 b] len assms(4) by (simp add: t)
  with assms(1,4) len show ?thesis by (simp add: header_simps r)
qed

lemma write_both_ok:
  assumes wr: "writes_sectors env sec k (unat nsec)" and k: "k < g_disknum env" and n: "67 \<le> unat nsec"
    and b: "header_fields b 1 (nsec - 1) (nsec - 0x22) 2"
  obtains d1 m d2 where "write_primary env crc d k b = Some (True, d1, m)"
    "write_backup env crc d1 k nsec m = Some (True, d2)"
    "gpt_copy crc (sec d2 k) 1 (unat nsec - 1) 2" "gpt_copy crc (sec d2 k) (unat nsec - 1) 1 (unat nsec - 33)"
    "table_at (sec d2 k) 2 = drop 512 b" "table_at (sec d2 k) (unat nsec - 33) = drop 512 b"
    "\<forall>i. i = 0 \<or> 34 \<le> i \<and> i < unat nsec - 33 \<or> unat nsec \<le> i \<longrightarrow> sec d2 k i = sec d k i"
proof -
  obtain d1 m where d1: "write_primary env crc d k b = Some (True, d1, m)" "sec d1 k = store_sectors (sec d k) 1 m"
    "header_fields m 1 (nsec - 1) (nsec - 0x22) 2" "sums crc m" "drop 512 m = drop 512 b"
    by (rule write_primary_ok [OF wr k _ b, of crc d]) (use n in auto)
  obtain d2 m' where d2: "write_backup env crc d1 k nsec m = Some (True, d2)"
    "sec d2 k = store_sectors (store_sectors (sec d1 k) (unat nsec - 33) (drop 512 m)) (unat nsec - 1) (take 512 m')"
    "header_fields m' (nsec - 1) 1 (nsec - 0x22) (nsec - 0x22 + 1)" "sums crc m'" "drop 512 m' = drop 512 m"
    by (rule write_backup_ok [OF wr k _ d1(3,4), of d1]) (use n in auto)
  have u: "of_nat (unat nsec - 1) = nsec - 1" "of_nat (unat nsec - 33) = nsec - 0x22 + 1"
    using n by (simp_all add: of_nat_diff)
  have "header_fields m 1 (of_nat (unat nsec - 1)) (nsec - 0x22) 2"
    "header_fields m' (of_nat (unat nsec - 1)) 1 (nsec - 0x22) (of_nat (unat nsec - 33))"
    using d1(3) d2(3) unfolding u by simp_all
  note both = both_copies [OF this(1) d1(4) this(2) d2(4,5) n d2(2) [unfolded d1(2)]]
  show thesis
    using that [OF d1(1) d2(1)] both d1(5) by simp
qed

section \<open>The table of the target disk\<close>

text \<open>The primary header before: it is in sector 1 and its entries begin in sector 2.\<close>

definition first_header :: "(nat \<Rightarrow> buf) \<Rightarrow> bool" where
  "first_header f \<longleftrightarrow> efi_part (f 1) = Some True \<and> rd64 (f 1) 0x18 = Some 1 \<and> rd64 (f 1) 0x48 = Some 2"

text \<open>Entry number \<open>e\<close> is the first that begins at \<open>x\<close>.\<close>

definition first_begin :: "buf \<Rightarrow> u64 \<Rightarrow> nat \<Rightarrow> bool" where
  "first_begin tab x e \<longleftrightarrow> rd64 tab (128 * e + 0x20) = Some x \<and> (\<forall>e' < e. rd64 tab (128 * e' + 0x20) \<noteq> Some x)"

lemma rd64_drop: "512 \<le> length b \<Longrightarrow> rd64 b (512 + j) = rd64 (drop 512 b) j"
  by (auto simp: rd64_def rd_le_def add.commute)

lemma find_begin:
  assumes "length b = GPT_SIZE" "drop 512 b = tab" "first_begin tab x e" "e \<le> 28"
  shows "find_entry (begins_at b x) 512 = Some (512 + 128 * e)"
proof (rule find_entry_first)
  have B: "begins_at b x (512 + j) = Some (rd64 tab (j + 0x20) = Some x)" if "j + 128 \<le> 16384" for j
  proof -
    have "rd64 b (512 + (j + 0x20)) = rd64 tab (j + 0x20)"
      using rd64_drop [of b "j + 0x20"] assms(1,2) by (simp add: GPT_SIZE_def)
    moreover have "rd64 b (512 + (j + 0x20)) \<noteq> None" using that assms(1) by (intro rd64_fits) (simp add: GPT_SIZE_def)
    ultimately show ?thesis by (auto simp: begins_at_def ac_simps)
  qed
  show "begins_at b x (512 + 128 * e) = Some True"
    using B [of "128 * e"] assms(3,4) by (simp add: first_begin_def)
  show "begins_at b x j = Some False" if j: "512 \<le> j" "j < 512 + 128 * e" "128 dvd j - 512" for j
  proof -
    obtain c where c: "j - 512 = 128 * c" using j(3) by (auto elim: dvdE)
    then have "c < e" "j = 512 + 128 * c" using j by auto
    then show ?thesis using B [of "128 * c"] assms(3,4) by (simp add: first_begin_def)
  qed
qed (use assms(4) in \<open>simp add: GPT_SIZE_def\<close>)

lemma read_table:
  assumes rd: "reads_sectors env sec k (unat nsec)" and k: "k < g_disknum env" and n: "34 \<le> unat nsec"
    and old: "first_header (sec d k)" and buf: "length buf = GPT_SIZE"
  obtains b other lu where "DiskRead env d k 1 33 buf 0 = Some (True, b)" "header_fields b 1 other lu 2"
    "drop 512 b = table_at (sec d k) 2" "rd64 (sec d k 1) 0x20 = Some other" "rd64 (sec d k 1) 0x30 = Some lu"
proof -
  have "[1..<1 + 33] = (1 :: nat) # [2..<2 + 32]" using upt_conv_Cons [of 1 34] by (simp only: numeral_2_eq_2) simp
  then have eq: "sectors_of sec d k 1 33 = sec d k 1 @ table_at (sec d k) 2"
    by (simp only: table_at_def list.map concat.simps)
  then obtain b where b: "b = sec d k 1 @ table_at (sec d k) 2" "b = sectors_of sec d k 1 33" by simp
  have l: "length (sec d k 1) = 512" "length b = 16896"
    using rd length_sectors_of [OF rd, of d 1 33] b(2) by (simp_all add: reads_sectors_def)
  have "DiskRead env d k 1 33 buf 0 = Some (True, b)"
    using DiskRead_sectors [OF rd k, of 33 1 buf d] n buf b(2) by (simp add: GPT_SIZE_def)
  moreover obtain x y where "rd64 b 0x20 = Some x" "rd64 b 0x30 = Some y"
    using rd64_fits [of "0x20" b] rd64_fits [of "0x30" b] l by auto
  moreover have "take 512 b = sec d k 1" using l by (simp add: b(1))
  ultimately have "header_fields b 1 x y 2" "rd64 (sec d k 1) 0x20 = Some x" "rd64 (sec d k 1) 0x30 = Some y"
    using old l rd_take(1) [of "0x18" 512 b] rd_take(1) [of "0x48" 512 b] efi_part_take [of 512 b]
      rd_take(1) [of "0x20" 512 b] rd_take(1) [of "0x30" 512 b]
    by (simp_all add: first_header_def header_simps)
  moreover have "drop 512 b = table_at (sec d k) 2" using l by (simp add: b(1))
  ultimately show thesis using \<open>DiskRead env d k 1 33 buf 0 = Some (True, b)\<close> by (intro that)
qed

lemma table_of_entries:
  assumes "length b = GPT_SIZE" "take i m2 = take i b" "take j m3 = take j m2" "512 \<le> i" "i \<le> j"
  shows "take (i - 512) (drop 512 m3) = take (i - 512) (drop 512 b)"
proof -
  have "take i m3 = take i m2" by (rule take_prefix [OF assms(3,5)])
  with assms(2) have "take i m3 = take i b" by simp
  then show ?thesis using drop_take [of 512 i m3] drop_take [of 512 i b] by simp
qed

lemma no_data_gpt_ok:
  assumes rd: "reads_sectors env sec k (unat nsec)" and wr: "writes_sectors env sec k (unat nsec)" and k: "k < g_disknum env"
    and n: "67 \<le> unat nsec"
    and old: "first_header (sec d k)" "first_begin (table_at (sec d k) 2) begin e" "e \<le> 28"
    and buf: "length buf = GPT_SIZE" "length nb = 512"
    and size: "unat (g_wireTotalSectors w) + 34 \<le> unat nsec" "16 \<le> unat (g_wireTotalSectors w)"
      "unat begin + unat len + unat (g_wireTotalSectors w) < 2 ^ 64"
  obtains d' H' small' f tab where "no_data_gpt env crc w k (Some nsec) begin len buf (Some nb) d H small = Some (d', H', small')"
    "f = sec d' k" "tab = table_at f 2"
    "gpt_copy crc f 1 (unat nsec - 1) 2" "gpt_copy crc f (unat nsec - 1) 1 (unat nsec - 33)" "table_at f (unat nsec - 33) = tab"
    "take (128 * e) tab = take (128 * e) (table_at (sec d k) 2)" "set (drop (128 * (e + 2)) tab) \<subseteq> {0}"
    "if g_WinREState w = 0 then H' = H \<and> (\<forall>i. i = 0 \<or> 34 \<le> i \<and> i < unat nsec - 33 \<longrightarrow> f i = sec d k i)
     else \<exists>start. take 16 (drop (128 * (e + 1)) tab) = Window_Recovery_TypeGuid \<and> rd64 tab (128 * (e + 1) + 0x20) = Some start \<and>
       H' = UpdateOKRHeaderInfo H start \<and> (\<forall>i. i = 0 \<or> 34 \<le> i \<and> i < unat nsec - 33 \<longrightarrow> i \<noteq> unat start \<longrightarrow> f i = sec d k i)"
proof -
  obtain b other lu where b: "DiskRead env d k 1 33 buf 0 = Some (True, b)" "header_fields b 1 other lu 2"
      "drop 512 b = table_at (sec d k) 2"
    by (rule read_table [OF rd k _ old(1) buf(1)]) (use n in auto)
  obtain m where m: "open_header nsec b = Some m" "header_fields m 1 (nsec - 1) (nsec - 0x22) 2" "drop 512 m = drop 512 b"
    by (rule open_header_ok [OF b(2)])
  have len: "length m = GPT_SIZE" using m(2) by (simp add: header_fields_def)
  let ?i = "512 + 128 * e"
  have i: "find_entry (begins_at m begin) 512 = Some ?i"
    by (rule find_begin [OF len _ old(2,3)]) (simp add: m(3) b(3))
  have i2: "512 \<le> ?i" "?i + 256 \<le> GPT_SIZE" using old(3) by (simp_all add: GPT_SIZE_def)
  obtain m2 new small2 where m2: "no_data_entries nsec w begin len ?i m = Some (m2, if g_WinREState w = 0 then ?i else ?i + 128, new, small2)"
    "length m2 = GPT_SIZE" "take ?i m2 = take ?i m"
    "if g_WinREState w = 0 then new = None
     else \<exists>start. new = Some start \<and> unat start < unat nsec \<and>
       take 16 (drop (?i + 128) m2) = Window_Recovery_TypeGuid \<and> rd64 m2 (?i + 128 + 0x20) = Some start"
    by (rule no_data_entries_ok [OF len i2 size])
  have efi: "efi_part b = Some True" using b(2) by (simp add: header_fields_def)
  let ?j = "(if g_WinREState w = 0 then ?i else ?i + 128) + 128"
  obtain m3 where m3: "clear_rest m2 ?j = Some m3" "length m3 = GPT_SIZE" "take ?j m3 = take ?j m2"
    "drop ?j m3 = replicate (GPT_SIZE - ?j) 0"
    by (rule clear_rest_ok [OF m2(2)])
  have "drop (128 * (e + 2)) (drop 512 m3) = drop (512 + 128 * (e + 2) - ?j) (drop ?j m3)" by (simp add: ac_simps)
  then have zero: "set (drop (128 * (e + 2)) (drop 512 m3)) \<subseteq> {0}" by (auto simp: m3(4))
  have "take 512 m3 = take 512 m2" by (rule take_prefix [OF m3(3)]) simp
  moreover have "take 512 m2 = take 512 m" by (rule take_prefix [OF m2(3)]) simp
  ultimately have h3: "header_fields m3 1 (nsec - 1) (nsec - 0x22) 2"
    by (intro header_fields_take [OF m(2)]) (simp_all add: m3(2) len)
  obtain d1 where d1: "(case new of None \<Rightarrow> Some (H, d)
        | Some start \<Rightarrow> do { nb \<leftarrow> Some nb; d \<leftarrow> wipe_sector env d k start nb; Some (UpdateOKRHeaderInfo H start, d) })
      = Some (case new of None \<Rightarrow> H | Some start \<Rightarrow> UpdateOKRHeaderInfo H start, d1)"
      "\<And>i. (\<forall>start. new = Some start \<longrightarrow> i \<noteq> unat start) \<Longrightarrow> sec d1 k i = sec d k i"
  proof (cases new)
    case None
    then show thesis by (intro that [of d]) simp_all
  next
    case (Some start)
    then have "unat start < unat nsec" using m2(4) by (auto split: if_splits)
    then obtain d1 where "wipe_sector env d k start nb = Some d1" "sec d1 k = store_sectors (sec d k) (unat start) (replicate 512 0)"
      by (rule wipe_sector_ok [OF rd wr k _ buf(2), of start d])
    with Some show thesis by (intro that [of d1]) (auto simp: store_sectors_def)
  qed
  obtain d2 m4 d3 where w: "write_primary env crc d1 k m3 = Some (True, d2, m4)" "write_backup env crc d2 k nsec m4 = Some (True, d3)"
    and res: "gpt_copy crc (sec d3 k) 1 (unat nsec - 1) 2" "gpt_copy crc (sec d3 k) (unat nsec - 1) 1 (unat nsec - 33)"
    "table_at (sec d3 k) 2 = drop 512 m3" "table_at (sec d3 k) (unat nsec - 33) = drop 512 m3"
    and fr: "\<forall>i. i = 0 \<or> 34 \<le> i \<and> i < unat nsec - 33 \<or> unat nsec \<le> i \<longrightarrow> sec d3 k i = sec d1 k i"
    by (rule write_both_ok [OF wr k n h3, of crc d1])
  have run: "no_data_gpt env crc w k (Some nsec) begin len buf (Some nb) d H small
      = Some (d3, case new of None \<Rightarrow> H | Some start \<Rightarrow> UpdateOKRHeaderInfo H start, small2)"
    unfolding no_data_gpt_def using old(3) d1(1) w by (simp add: b(1) efi m(1) i m2(1) m3(1))
  have front: "take (128 * e) (drop 512 m3) = take (128 * e) (table_at (sec d k) 2)"
    using table_of_entries [OF len m2(3) m3(3)] m(3) b(3) by simp
  show thesis
  proof (cases "g_WinREState w = 0")
    case True
    with m2(4) have "new = None" by simp
    with True show thesis
      using that [OF run refl refl] res front zero fr d1(2) by auto
  next
    case False
    with m2(4) obtain start where new: "new = Some start"
      "take 16 (drop (?i + 128) m2) = Window_Recovery_TypeGuid" "rd64 m2 (?i + 128 + 0x20) = Some start" by auto
    have e: "take 128 (drop (?i + 128) m3) = take 128 (drop (?i + 128) m2)"
      using arg_cong [OF m3(3), of "drop (?i + 128)"] False by (simp add: drop_take)
    have "take 16 (drop (?i + 128) m3) = Window_Recovery_TypeGuid"
      using arg_cong [OF e, of "take 16"] new(2) by (simp add: min_def)
    moreover have "rd64 m3 (?i + 128 + 0x20) = rd64 m2 (?i + 128 + 0x20)"
    proof -
      have "take 8 (drop (?i + 128 + 0x20) m) = take 8 (drop 0x20 (take 128 (drop (?i + 128) m)))" for m :: buf
        by (simp add: drop_take min_def add.commute)
      then show ?thesis using e m2(2) m3(2) by (simp add: rd64_def rd_le_def)
    qed
    moreover have "?i + 128 + 0x20 = 512 + (128 * (e + 1) + 0x20)" "drop (?i + 128) m3 = drop (128 * (e + 1)) (drop 512 m3)" by simp_all
    ultimately have "take 16 (drop (128 * (e + 1)) (drop 512 m3)) = Window_Recovery_TypeGuid"
      "rd64 (drop 512 m3) (128 * (e + 1) + 0x20) = Some start"
      using rd64_drop [of m3 "128 * (e + 1) + 0x20"] m3(2) new(3) by (simp_all add: GPT_SIZE_def)
    with False new show thesis
      using that [OF run refl refl] res front zero fr d1(2) by auto
  qed
qed

section \<open>A disk with a data partition\<close>

lemma new_hdd_entries_ok:
  assumes len: "length b = GPT_SIZE" and i: "512 \<le> i" "i + 256 \<le> GPT_SIZE"
    and n: "unat begin + unat len + unat (g_wireTotalSectors w) + 0x64000 < 2 ^ 64" "0 < unat begin"
  obtains m i' new small where
    "new_hdd_entries nsec w r1 r2 begin len i b = Some (m, i', new, small)" "i \<le> i'" "i' \<le> i + 128"
    "length m = GPT_SIZE" "take i m = take i b" "128 dvd i \<longrightarrow> 128 dvd i'"
    "\<forall>start. new = Some start \<longrightarrow> 0 < unat start \<and> unat start + 33 < unat nsec"
proof (cases "begin + len + g_wireTotalSectors w + 0x64000 < nsec")
  case True
  let ?s = "(begin + len + 0xF) AND 0xfffffffffffffff0"
  have "unat (begin + len + g_wireTotalSectors w + 0x64000) = unat begin + unat len + unat (g_wireTotalSectors w) + 0x64000"
    using n(1) by (simp add: unat_add_no_wrap)
  moreover have "unat (begin + len + 0xF) = unat begin + unat len + 15"
    using n by (simp add: unat_add_no_wrap)
  moreover have "1 \<le> (unat begin + unat len + 15) div 16"
    using div_le_mono [of 16 "unat begin + unat len + 15" 16] n(2) by simp
  ultimately have s: "0 < unat ?s" "unat ?s + 33 < unat nsec"
    using True div_times_less_eq_dividend [of "unat (begin + len + 0xF)" 16]
    by (simp_all add: unat_align word_less_nat_alt)
  let ?o = "over b (i + 128) (take 128 (drop i b))"
  let ?m = "over (over (over (over ?o (i + 128 + 0x10) (le_bytes 8 r1)) (i + 128 + 0x18) (le_bytes 8 r2))
    (i + 128 + 0x20) (le_bytes 8 ?s)) (i + 128 + 0x28) (le_bytes 8 (data_end nsec w 0xfffffffffffffff0))"
  have o: "length ?o = GPT_SIZE" "take i ?o = take i b" using len i by (simp_all add: GPT_SIZE_def)
  show thesis
  proof (rule that [of ?m "i + 128" "Some ?s" False])
    show "new_hdd_entries nsec w r1 r2 begin len i b = Some (?m, i + 128, Some ?s, False)"
      using True len i by (simp add: new_hdd_entries_def Let_def step_simps GPT_SIZE_def)
  qed (use o i s in \<open>simp_all add: GPT_SIZE_def\<close>)
next
  case False
  show thesis
    by (rule that [of "over b (i + 0x28) (le_bytes 8 (data_end nsec w 0xffffffffffffff00))" i None True])
      (use False len i in \<open>simp_all add: new_hdd_entries_def Let_def put64_over GPT_SIZE_def\<close>)
qed

lemma move_wire_ok:
  assumes len: "length b = GPT_SIZE" and i: "128 dvd i" "i + 128 \<le> GPT_SIZE" and m: "128 dvd m" "m < GPT_SIZE \<or> g_WinREState w = 0"
  obtains b' i' where "move_wire w m i b = Some (b', i')" "i \<le> i'" "length b' = GPT_SIZE" "take i b' = take i b"
proof (cases "g_WinREState w \<noteq> 0 \<and> i \<le> m")
  case True
  with m have "m + 128 \<le> GPT_SIZE" by (auto simp: GPT_SIZE_def elim!: dvdE)
  with True len i show thesis
    by (intro that [of "over b i (take 128 (drop m b))" "i + 128"]) (simp_all add: move_wire_def step_simps GPT_SIZE_def)
next
  case False
  with len show thesis by (intro that [of b i]) (auto simp: move_wire_def)
qed

text \<open>The search for the recovery partition.\<close>

definition is_winre :: "buf \<Rightarrow> nat \<Rightarrow> bool option" where
  "is_winre b j = do { x \<leftarrow> rd64 b j; Some (x = WinrePartGUID1) }"

definition has_winre :: "buf \<Rightarrow> bool" where
  "has_winre tab \<longleftrightarrow> (\<exists>c < 128. rd64 tab (128 * c) = Some WinrePartGUID1)"

lemma find_winre:
  assumes len: "length b = GPT_SIZE"
  obtains m where "find_entry (is_winre b) 512 = Some m" "128 dvd m" "has_winre (drop 512 b) \<longrightarrow> m < GPT_SIZE"
proof (cases "has_winre (drop 512 b)")
  case True
  define c where "c = (LEAST c. rd64 (drop 512 b) (128 * c) = Some WinrePartGUID1)"
  have c: "rd64 (drop 512 b) (128 * c) = Some WinrePartGUID1" "c < 128"
    using True unfolding has_winre_def c_def by (auto intro: LeastI Least_le [THEN le_less_trans])
  have rd: "rd64 b (512 + 128 * j) = rd64 (drop 512 b) (128 * j)" for j using len by (intro rd64_drop) (simp add: GPT_SIZE_def)
  have "find_entry (is_winre b) 512 = Some (512 + 128 * c)"
  proof (rule find_entry_first)
    show "is_winre b j = Some False" if j: "512 \<le> j" "j < 512 + 128 * c" "128 dvd j - 512" for j
    proof -
      obtain a where a: "j - 512 = 128 * a" using j(3) by (auto elim: dvdE)
      then have j': "a < c" "j = 512 + 128 * a" using j by auto
      then have "rd64 (drop 512 b) (128 * a) \<noteq> Some WinrePartGUID1" unfolding c_def by (metis not_less_Least)
      moreover have "rd64 b j \<noteq> None" using j' c(2) len by (intro rd64_fits) (simp add: GPT_SIZE_def)
      ultimately show ?thesis using rd [of a] j'(2) by (auto simp: is_winre_def)
    qed
    show "is_winre b (512 + 128 * c) = Some True" using rd [of c] c(1) by (simp add: is_winre_def)
  qed (use c(2) in \<open>simp add: GPT_SIZE_def\<close>)
  then show thesis by (rule that) (use c(2) in \<open>auto simp: GPT_SIZE_def\<close>)
next
  case False
  have "is_winre b j \<noteq> None" if "j + 128 \<le> GPT_SIZE" for j
    using rd64_fits [of j b] that len by (auto simp: is_winre_def)
  moreover have "128 dvd (512 :: nat)" by simp
  ultimately obtain m where "find_entry (is_winre b) 512 = Some m" "128 dvd m"
    using find_entry_total by metis
  with False show thesis by (intro that) auto
qed

lemma put_sum_zero:
  assumes "header_fields b own other lu tab"
  obtains m where "put b 0x10 [0, 0, 0, 0] = Some m" "header_fields m own other lu tab" "drop 512 m = drop 512 b"
proof
  have len: "length b = 16896" using assms by (simp add: header_simps)
  show "put b 0x10 [0, 0, 0, 0] = Some (over b 0x10 [0, 0, 0, 0])"
    using len by (simp add: put_over)
  show "header_fields (over b 0x10 [0, 0, 0, 0]) own other lu tab" "drop 512 (over b 0x10 [0, 0, 0, 0]) = drop 512 b"
    using assms len by (simp_all add: header_simps step_simps)
qed

text \<open>One copy on the disk, after the first table was written alone.\<close>

lemma one_copy:
  assumes m: "header_fields m 1 (of_nat other) lu 2" "sums crc m" and f: "f = store_sectors g 1 m"
  shows "gpt_copy crc f 1 other 2" "table_at f 2 = drop 512 m" "rd64 (f 1) 0x30 = Some lu"
    "\<forall>i. i = 0 \<or> 34 \<le> i \<longrightarrow> f i = g i"
proof -
  have len: "length m = 16896" using m by (simp_all add: header_simps)
  have one: "f 1 = take 512 m" using len by (auto simp: f store_sectors_def)
  have A: "f i = store_sectors g 2 (drop 512 m) i" if "2 \<le> i" "i < 2 + 32" for i
    using len that by (auto simp: f store_sectors_def min_def intro!: arg_cong [where f = "take 512"] arg_cong2 [where f = drop])
  show tab: "table_at f 2 = drop 512 m"
    unfolding table_at_def by (rule sectors_stored [of 2 32 f g, OF A]) (use len in simp_all)
  show "gpt_copy crc f 1 other 2"
    by (rule gpt_copy_intro [where m = m]) (use one tab m in simp_all)
  show "rd64 (f 1) 0x30 = Some lu"
    unfolding one using m len rd_take(1) [of "0x30" 512 m] by (simp add: header_simps)
  show "\<forall>i. i = 0 \<or> 34 \<le> i \<longrightarrow> f i = g i" using len by (auto simp: f store_sectors_def)
qed

lemma new_hdd_gpt_ok:
  assumes rd: "reads_sectors env sec k (unat nsec)" and wr: "writes_sectors env sec k (unat nsec)" and k: "k < g_disknum env"
    and n: "67 \<le> unat nsec"
    and old: "first_header (sec d k)" "first_begin (table_at (sec d k) 2) begin e" "e \<le> 28"
    and winre: "has_winre (table_at (sec d k) 2) \<or> g_WinREState w = 0"
    and buf: "length buf = GPT_SIZE" "length nb = 512"
    and size: "unat begin + unat len + unat (g_wireTotalSectors w) + 0x64000 < 2 ^ 64" "0 < unat begin"
  obtains d' small' f where "new_hdd_gpt env crc w r1 r2 k (Some nsec) begin len buf (Some nb) d small = Some (d', small')"
    "f = sec d' k" "gpt_copy crc f 1 (unat nsec - 1) 2" "rd64 (f 1) 0x30 = Some (nsec - 0x22)"
    "take (128 * e) (table_at f 2) = take (128 * e) (table_at (sec d k) 2)"
    "\<exists>x. \<forall>i \<ge> 34. i \<noteq> x \<longrightarrow> f i = sec d k i" "\<forall>i. i = 0 \<or> unat nsec - 33 \<le> i \<longrightarrow> f i = sec d k i"
proof -
  obtain b other lu where b: "DiskRead env d k 1 33 buf 0 = Some (True, b)" "header_fields b 1 other lu 2"
      "drop 512 b = table_at (sec d k) 2"
    by (rule read_table [OF rd k _ old(1) buf(1)]) (use n in auto)
  obtain m where m: "open_header nsec b = Some m" "header_fields m 1 (nsec - 1) (nsec - 0x22) 2" "drop 512 m = drop 512 b"
    by (rule open_header_ok [OF b(2)])
  have len: "length m = GPT_SIZE" using m(2) by (simp add: header_fields_def)
  let ?i = "512 + 128 * e"
  have i: "find_entry (begins_at m begin) 512 = Some ?i"
    by (rule find_begin [OF len _ old(2,3)]) (simp add: m(3) b(3))
  obtain x where x: "find_entry (is_winre m) 512 = Some x" "128 dvd x" "has_winre (drop 512 m) \<longrightarrow> x < GPT_SIZE"
    by (rule find_winre [OF len])
  have i2: "512 \<le> ?i" "?i + 256 \<le> GPT_SIZE" "128 dvd ?i" using old(3) by (simp_all add: GPT_SIZE_def)
  obtain m2 i' new small2 where m2: "new_hdd_entries nsec w r1 r2 begin len ?i m = Some (m2, i', new, small2)"
    "?i \<le> i'" "i' \<le> ?i + 128" "length m2 = GPT_SIZE" "take ?i m2 = take ?i m" "128 dvd ?i \<longrightarrow> 128 dvd i'"
    "\<forall>start. new = Some start \<longrightarrow> 0 < unat start \<and> unat start + 33 < unat nsec"
    by (rule new_hdd_entries_ok [OF len i2(1,2) size])
  obtain d1 where d1: "(case new of None \<Rightarrow> Some d | Some start \<Rightarrow> do { nb \<leftarrow> Some nb; wipe_sector env d k start nb }) = Some d1"
      "\<And>i. (\<forall>start. new = Some start \<longrightarrow> i \<noteq> unat start) \<Longrightarrow> sec d1 k i = sec d k i"
  proof (cases new)
    case None
    then show thesis by (intro that [of d]) simp_all
  next
    case (Some start)
    then have "unat start < unat nsec" using m2(7) by auto
    then obtain d1 where "wipe_sector env d k start nb = Some d1" "sec d1 k = store_sectors (sec d k) (unat start) (replicate 512 0)"
      by (rule wipe_sector_ok [OF rd wr k _ buf(2), of start d])
    with Some show thesis by (intro that [of d1]) (auto simp: store_sectors_def)
  qed
  have i3: "128 dvd i' + 128" "i' + 128 + 128 \<le> GPT_SIZE" "x < GPT_SIZE \<or> g_WinREState w = 0"
    using m2(2,3,6) i2(3) old(3) x(3) winre by (auto simp: GPT_SIZE_def m(3) b(3))
  obtain m3 j where m3: "move_wire w x (i' + 128) m2 = Some (m3, j)" "i' + 128 \<le> j" "length m3 = GPT_SIZE"
      "take (i' + 128) m3 = take (i' + 128) m2"
    by (rule move_wire_ok [OF m2(4) i3(1,2) x(2) i3(3)])
  obtain m4 where m4: "clear_rest m3 j = Some m4" "length m4 = GPT_SIZE" "take j m4 = take j m3"
    by (rule clear_rest_ok [OF m3(3)])
  have t: "take ?i m4 = take ?i m"
  proof -
    have "take ?i m4 = take ?i m3" by (rule take_prefix [OF m4(3)]) (use m2(2) m3(2) in simp)
    moreover have "take ?i m3 = take ?i m2" by (rule take_prefix [OF m3(4)]) (use m2(2) in simp)
    ultimately show ?thesis using m2(5) by simp
  qed
  have h4: "header_fields m4 1 (nsec - 1) (nsec - 0x22) 2"
    by (rule header_fields_take [OF m(2) i2(1) t]) (simp add: m4(2) len)
  obtain d2 m5 where d2: "write_primary env crc d1 k m4 = Some (True, d2, m5)" "sec d2 k = store_sectors (sec d1 k) 1 m5"
    "header_fields m5 1 (nsec - 1) (nsec - 0x22) 2" "sums crc m5" "drop 512 m5 = drop 512 m4"
    by (rule write_primary_ok [OF wr k _ h4, of crc d1]) (use n in auto)
  have u: "of_nat (unat nsec - 1) = nsec - 1" using n by (simp add: of_nat_diff)
  note one = one_copy [OF d2(3) [folded u] d2(4) d2(2)]
  have efi: "efi_part b = Some True" using b(2) by (simp add: header_fields_def)
  have run: "new_hdd_gpt env crc w r1 r2 k (Some nsec) begin len buf (Some nb) d small = Some (d2, small2)"
    unfolding new_hdd_gpt_def is_winre_def [symmetric] using old(3) d1(1) by (simp add: b(1) efi m(1) i x(1) m2(1) m3(1) m4(1) d2(1))
  have front: "take (128 * e) (drop 512 m4) = take (128 * e) (table_at (sec d k) 2)"
    using drop_take [of 512 ?i m4] drop_take [of 512 ?i m] t m(3) b(3) by simp
  have tail: "\<forall>i. i = 0 \<or> unat nsec - 33 \<le> i \<longrightarrow> sec d2 k i = sec d k i"
  proof (intro allI impI)
    fix i assume i: "i = 0 \<or> unat nsec - 33 \<le> i"
    have "i \<noteq> unat start" if "new = Some start" for start using m2(7) that i by auto
    then have "sec d1 k i = sec d k i" by (intro d1(2)) blast
    moreover have "sec d2 k i = sec d1 k i" using one(4) i n by auto
    ultimately show "sec d2 k i = sec d k i" by simp
  qed
  have rest: "\<exists>x. \<forall>i \<ge> 34. i \<noteq> x \<longrightarrow> sec d2 k i = sec d k i"
    using one(4) d1(2) by (intro exI [of _ "case new of None \<Rightarrow> 0 | Some s \<Rightarrow> unat s"]) (auto split: option.splits)
  show thesis
    using that [OF run refl] one front tail rest d2(5) by simp
qed

lemma wire_at_end_ok:
  assumes len: "length b = GPT_SIZE" and j: "512 \<le> j" "j + 128 \<le> GPT_SIZE"
  obtains m where "wire_at_end nsec wire j b = Some (m, (nsec - wire - 0x22) AND 0xfffffffffffffff0)"
    "length m = GPT_SIZE" "take 512 m = take 512 b"
proof -
  let ?s = "(nsec - wire - 0x22) AND 0xfffffffffffffff0"
  let ?m = "over (over (over (over b j Window_Recovery_TypeGuid) (j + 0x20) (le_bytes 8 ?s))
    (j + 0x28) (le_bytes 8 ((nsec - 0x22) AND 0xffffffffffffff00))) (j + 0x30) (le_bytes 8 (0x8000000000000001 :: u64))"
  have m: "length ?m = GPT_SIZE" "take 512 ?m = take 512 b"
    using len j by (simp_all add: GPT_SIZE_def)
  obtain m' where m': "clear_rest ?m (j + 128) = Some m'" "length m' = GPT_SIZE" "take (j + 128) m' = take (j + 128) ?m"
    by (rule clear_rest_ok [OF m(1)])
  have "wire_at_end nsec wire j b = Some (m', ?s)"
    using len j m'(1) by (simp add: wire_at_end_def Let_def step_simps GPT_SIZE_def)
  moreover have "take 512 m' = take 512 b"
    unfolding m(2) [symmetric] by (rule take_prefix [OF m'(3)]) (use j in simp)
  ultimately show thesis using that m'(2) by blast
qed

lemma find_free:
  assumes "length b = GPT_SIZE"
  obtains j where "find_entry (free_entry b) 512 = Some j" "j < GPT_SIZE \<longrightarrow> 512 \<le> j \<and> j + 128 \<le> GPT_SIZE"
proof -
  have "free_entry b j \<noteq> None" if "j + 128 \<le> GPT_SIZE" for j
    using rd64_fits [of "j + 0x20" b] rd64_fits [of "j + 0x28" b] that assms by (auto simp: free_entry_def)
  moreover have "128 dvd (512 :: nat)" by simp
  ultimately obtain j where "find_entry (free_entry b) 512 = Some j" "128 dvd j" "512 \<le> j"
    using find_entry_total by metis
  then show thesis by (intro that [of j]) (auto simp: GPT_SIZE_def elim!: dvdE)
qed

lemma find_entry_of:
  assumes "length b = GPT_SIZE"
  obtains j where "find_entry (entry_of b x) 512 = Some j" "j < GPT_SIZE \<longrightarrow> 512 \<le> j \<and> j + 128 \<le> GPT_SIZE"
proof -
  have "entry_of b x j \<noteq> None" if "j + 128 \<le> GPT_SIZE" for j
    using rd64_fits [of "j + 0x20" b] that assms by (auto simp: entry_of_def)
  moreover have "128 dvd (512 :: nat)" by simp
  ultimately obtain j where "find_entry (entry_of b x) 512 = Some j" "128 dvd j" "512 \<le> j"
    using find_entry_total by metis
  then show thesis by (intro that [of j]) (auto simp: GPT_SIZE_def elim!: dvdE)
qed

lemma place_wire_ok:
  assumes rd: "reads_sectors env sec k (unat nsec)" and wr: "writes_sectors env sec k (unat nsec)" and k: "k < g_disknum env"
    and nb: "length nb = 512" and n: "unat wire + 34 \<le> unat nsec" and b: "length b = GPT_SIZE"
  shows "\<exists>m d' H'. place_wire env k nsec wire nb is b d H = Some (m, d', H') \<and> length m = GPT_SIZE \<and> take 512 m = take 512 b \<and>
    (\<forall>i. i \<noteq> (unat nsec - unat wire - 34) div 16 * 16 \<longrightarrow> sec d' k i = sec d k i)"
proof (induction "is")
  case (Cons i "is")
  let ?P = "hdr_Partition H ! i"
  obtain j where j: "find_entry (entry_of b (BootBegin ?P)) 512 = Some j" "j < GPT_SIZE \<longrightarrow> 512 \<le> j \<and> j + 128 \<le> GPT_SIZE"
    by (rule find_entry_of [OF b])
  show ?case
  proof (cases "bIfBackup ?P \<noteq> 0 \<and> TypeGuid ?P = Window_Recovery_TypeGuid")
    case False
    with Cons j show ?thesis by (simp add: Let_def)
  next
    case True
    obtain jf where jf: "find_entry (free_entry b) 512 = Some jf" "jf < GPT_SIZE \<longrightarrow> 512 \<le> jf \<and> jf + 128 \<le> GPT_SIZE"
      by (rule find_free [OF b])
    obtain j' where j': "(if j < GPT_SIZE then Some j else find_entry (free_entry b) 512) = Some j'"
      "j' < GPT_SIZE \<longrightarrow> 512 \<le> j' \<and> j' + 128 \<le> GPT_SIZE"
      using jf j(2) that by (cases "j < GPT_SIZE") simp_all
    show ?thesis
    proof (cases "j' < GPT_SIZE")
      case False
      with Cons True j(1) j'(1) show ?thesis by (simp add: Let_def)
    next
      case lt: True
      let ?s = "(nsec - wire - 0x22) AND 0xfffffffffffffff0"
      have s: "unat ?s = (unat nsec - unat wire - 34) div 16 * 16"
        using n by (simp add: unat_align unat_sub_no_wrap)
      then have "unat ?s < unat nsec"
        using n div_times_less_eq_dividend [of "unat nsec - unat wire - 34" 16] by linarith
      then obtain d' where d': "wipe_sector env d k ?s nb = Some d'" "sec d' k = store_sectors (sec d k) (unat ?s) (replicate 512 0)"
        by (rule wipe_sector_ok [OF rd wr k _ nb, of ?s d])
      obtain m where m: "wire_at_end nsec wire j' b = Some (m, ?s)" "length m = GPT_SIZE" "take 512 m = take 512 b"
        by (rule wire_at_end_ok [OF b, of j' nsec wire]) (use lt j'(2) in auto)
      from d' s have "\<forall>i. i \<noteq> (unat nsec - unat wire - 34) div 16 * 16 \<longrightarrow> sec d' k i = sec d k i"
        by (auto simp: store_sectors_def)
      with True lt j(1) j'(1) m d'(1) show ?thesis by (simp add: Let_def)
    qed
  qed
qed (use b in simp)

section \<open>The target disk\<close>

text \<open>What the device and the list of disks promise about the target disk of \<open>nsec\<close> sectors.\<close>

definition target ::
  "'d disk_env \<Rightarrow> ('d \<Rightarrow> u16 \<Rightarrow> nat \<Rightarrow> buf) \<Rightarrow> byte \<Rightarrow> part_state \<Rightarrow> u64 \<Rightarrow> bool" where
  "target env sec disknum s nsec \<longleftrightarrow>
     reads_sectors env sec (ucast disknum) (unat nsec) \<and> writes_sectors env sec (ucast disknum) (unat nsec) \<and>
     ucast disknum < g_disknum env \<and> allocates env \<and> disk_size s disknum = Some nsec \<and> 67 \<le> unat nsec"

text \<open>A disk with a GPT whose entry \<open>e\<close> is that of the system, which begins at \<open>begin\<close>.\<close>

definition gpt_mark :: "buf \<Rightarrow> bool" where
  "gpt_mark b \<longleftrightarrow> rd16 b 510 = Some 0xaa55 \<and> (\<exists>i < 4. is_gpt_pid (b ! (0x1be + 16 * i + 4)))"

definition gpt_system :: "(nat \<Rightarrow> buf) \<Rightarrow> u64 \<Rightarrow> nat \<Rightarrow> bool" where
  "gpt_system f begin e \<longleftrightarrow> gpt_mark (f 0) \<and> first_header f \<and> first_begin (table_at f 2) begin e \<and> e \<le> 28"

definition two_copies :: "(buf \<Rightarrow> u32) \<Rightarrow> (nat \<Rightarrow> buf) \<Rightarrow> nat \<Rightarrow> bool" where
  "two_copies crc f n \<longleftrightarrow> gpt_copy crc f 1 (n - 1) 2 \<and> gpt_copy crc f (n - 1) 1 (n - 33) \<and> table_at f (n - 33) = table_at f 2"

lemma target_disknum:
  assumes "disk_size s disknum = Some nsec"
  shows "0 \<le> sint disknum" "scast disknum = (ucast disknum :: u16)" "unat (ucast disknum :: u16) < length (g_disklist s)"
proof -
  show p: "0 \<le> sint disknum" using assms by (simp add: disk_size_def split: if_splits)
  have "sint disknum < 128" using sint_lt [of disknum] by simp
  moreover have "uint disknum = take_bit 8 (sint disknum)"
    using uint_word_of_int_eq [where k = "sint disknum" and 'a = 8] by simp
  ultimately have u: "sint disknum = uint disknum" using p by (simp add: take_bit_int_eq_self)
  show "scast disknum = (ucast disknum :: u16)" by (simp only: scast_eq ucast_eq u)
  have "nat (uint disknum) < length (g_disklist s)" using assms u by (simp add: disk_size_def split: if_splits)
  then show "unat (ucast disknum :: u16) < length (g_disklist s)" by simp
qed

lemma IsGPT_target:
  assumes t: "target env sec disknum s nsec" and g: "gpt_mark (sec d (ucast disknum) 0)"
  shows "IsGPT env d (ucast disknum) s = Some (True, s)"
proof -
  let ?k = "ucast disknum :: u16"
  obtain mem where mem: "AllocatePool env d 4096 = Some mem" "length mem = 4096"
    using t unfolding target_def allocates_def by blast
  have rd: "reads_sectors env sec ?k (unat nsec)" "?k < g_disknum env" and l: "length (sec d ?k 0) = 512"
    using t by (auto simp: target_def reads_sectors_def)
  have "DiskRead env d ?k 0 1 mem 0 = Some (True, sec d ?k 0 @ drop 512 mem)"
    using DiskRead_sectors [OF rd, of 1 0 mem d] t mem(2) by (simp add: target_def)
  from IsGPT_iff [OF mem target_disknum(3) this l, of s nsec] t g
  obtain s' where "IsGPT env d ?k s = Some (True, s')" by (auto simp: target_def gpt_mark_def)
  moreover from this have "s' = s" by (auto simp: IsGPT_def Let_def option_simps split: option.splits if_splits)
  ultimately show ?thesis by simp
qed

lemma targetD:
  assumes "target env sec disknum s nsec"
  shows "reads_sectors env sec (ucast disknum) (unat nsec)" "writes_sectors env sec (ucast disknum) (unat nsec)"
    "ucast disknum < g_disknum env" "disk_size s disknum = Some nsec" "67 \<le> unat nsec" "\<not> sint disknum < 0"
  using assms target_disknum(1) [of s disknum nsec] by (auto simp: target_def)

lemma target_pools:
  assumes "target env sec disknum s nsec"
  obtains buf nb where "AllocatePool env d GPT_SIZE = Some buf" "length buf = GPT_SIZE"
    "AllocatePool env d 512 = Some nb" "length nb = 512"
  using assms unfolding target_def allocates_def by metis

text \<open>What a restore without a data partition does to the sectors.\<close>

definition winre_behind :: "(nat \<Rightarrow> buf) \<Rightarrow> nat \<Rightarrow> u64 \<Rightarrow> bool" where
  "winre_behind f e start \<longleftrightarrow>
     take 16 (drop (128 * (e + 1)) (table_at f 2)) = Window_Recovery_TypeGuid \<and>
     rd64 (table_at f 2) (128 * (e + 1) + 0x20) = Some start"

lemma FixNoDataPartTable_ok:
  assumes t: "target env sec disknum s nsec" and g: "gpt_system (sec d (ucast disknum)) begin e"
    and "begin \<noteq> 0" "len \<noteq> 0"
    and size: "unat (g_wireTotalSectors w) + 34 \<le> unat nsec" "16 \<le> unat (g_wireTotalSectors w)"
      "unat begin + unat len + unat (g_wireTotalSectors w) < 2 ^ 64"
  shows "\<exists>d' H' small' f. FixNoDataPartTable env crc w disknum begin len d s H small = Some (d', s, H', small') \<and>
    f = sec d' (ucast disknum) \<and> two_copies crc f (unat nsec) \<and>
    take (128 * e) (table_at f 2) = take (128 * e) (table_at (sec d (ucast disknum)) 2) \<and>
    set (drop (128 * (e + 2)) (table_at f 2)) \<subseteq> {0} \<and>
    (if g_WinREState w = 0
     then H' = H \<and> (\<forall>i. i = 0 \<or> 34 \<le> i \<and> i < unat nsec - 33 \<longrightarrow> f i = sec d (ucast disknum) i)
     else \<exists>start. winre_behind f e start \<and> H' = UpdateOKRHeaderInfo H start \<and>
       (\<forall>i. i = 0 \<or> 34 \<le> i \<and> i < unat nsec - 33 \<longrightarrow> i \<noteq> unat start \<longrightarrow> f i = sec d (ucast disknum) i))"
proof -
  let ?k = "ucast disknum :: u16"
  note td = targetD [OF t]
  obtain buf nb where pools: "AllocatePool env d GPT_SIZE = Some buf" "length buf = GPT_SIZE"
    "AllocatePool env d 512 = Some nb" "length nb = 512" by (rule target_pools [OF t])
  have gpt: "IsGPT env d ?k s = Some (True, s)"
    using g by (intro IsGPT_target [OF t]) (simp add: gpt_system_def)
  obtain d' H' small' f tab where run: "no_data_gpt env crc w ?k (Some nsec) begin len buf (Some nb) d H small = Some (d', H', small')"
    and res: "f = sec d' ?k" "tab = table_at f 2"
    "gpt_copy crc f 1 (unat nsec - 1) 2" "gpt_copy crc f (unat nsec - 1) 1 (unat nsec - 33)" "table_at f (unat nsec - 33) = tab"
    "take (128 * e) tab = take (128 * e) (table_at (sec d ?k) 2)" "set (drop (128 * (e + 2)) tab) \<subseteq> {0}"
    "if g_WinREState w = 0 then H' = H \<and> (\<forall>i. i = 0 \<or> 34 \<le> i \<and> i < unat nsec - 33 \<longrightarrow> f i = sec d ?k i)
     else \<exists>start. take 16 (drop (128 * (e + 1)) tab) = Window_Recovery_TypeGuid \<and> rd64 tab (128 * (e + 1) + 0x20) = Some start \<and>
       H' = UpdateOKRHeaderInfo H start \<and> (\<forall>i. i = 0 \<or> 34 \<le> i \<and> i < unat nsec - 33 \<longrightarrow> i \<noteq> unat start \<longrightarrow> f i = sec d ?k i)"
    by (rule no_data_gpt_ok [OF td(1,2,3,5) _ _ _ pools(2,4) size, of d e crc H small])
      (use g in \<open>simp_all add: gpt_system_def\<close>)
  have "FixNoDataPartTable env crc w disknum begin len d s H small = Some (d', s, H', small')"
    using assms(3,4) td(4,6) by (simp add: FixNoDataPartTable_def pools(1,3) Let_def gpt run)
  moreover have "two_copies crc f (unat nsec)" using res by (simp add: two_copies_def)
  moreover have "if g_WinREState w = 0
     then H' = H \<and> (\<forall>i. i = 0 \<or> 34 \<le> i \<and> i < unat nsec - 33 \<longrightarrow> f i = sec d ?k i)
     else \<exists>start. winre_behind f e start \<and> H' = UpdateOKRHeaderInfo H start \<and>
       (\<forall>i. i = 0 \<or> 34 \<le> i \<and> i < unat nsec - 33 \<longrightarrow> i \<noteq> unat start \<longrightarrow> f i = sec d ?k i)"
    using res(8) unfolding res(2) winre_behind_def conj_assoc .
  ultimately show ?thesis
    using res(1,6,7) unfolding res(2)
    by (intro exI [of _ d'] exI [of _ H'] exI [of _ small'] exI [of _ f] conjI)
qed

lemma FixNewHDD_ok:
  assumes t: "target env sec disknum s nsec" and g: "gpt_system (sec d (ucast disknum)) begin e"
    and winre: "has_winre (table_at (sec d (ucast disknum)) 2) \<or> g_WinREState w = 0"
    and "begin \<noteq> 0" "len \<noteq> 0"
    and size: "unat begin + unat len + unat (g_wireTotalSectors w) + 0x64000 < 2 ^ 64"
  shows "\<exists>d' small' f. FixNewHDD env crc w r1 r2 disknum begin len d s small = Some (d', s, small') \<and>
    f = sec d' (ucast disknum) \<and> gpt_copy crc f 1 (unat nsec - 1) 2 \<and> rd64 (f 1) 0x30 = Some (nsec - 0x22) \<and>
    take (128 * e) (table_at f 2) = take (128 * e) (table_at (sec d (ucast disknum)) 2) \<and>
    (\<exists>x. \<forall>i \<ge> 34. i \<noteq> x \<longrightarrow> f i = sec d (ucast disknum) i) \<and>
    (\<forall>i. i = 0 \<or> unat nsec - 33 \<le> i \<longrightarrow> f i = sec d (ucast disknum) i)"
proof -
  let ?k = "ucast disknum :: u16"
  note td = targetD [OF t]
  obtain buf nb where pools: "AllocatePool env d GPT_SIZE = Some buf" "length buf = GPT_SIZE"
    "AllocatePool env d 512 = Some nb" "length nb = 512" by (rule target_pools [OF t])
  have gpt: "IsGPT env d ?k s = Some (True, s)"
    using g by (intro IsGPT_target [OF t]) (simp add: gpt_system_def)
  obtain d' small' f where run: "new_hdd_gpt env crc w r1 r2 ?k (Some nsec) begin len buf (Some nb) d small = Some (d', small')"
    and res: "f = sec d' ?k" "gpt_copy crc f 1 (unat nsec - 1) 2" "rd64 (f 1) 0x30 = Some (nsec - 0x22)"
    "take (128 * e) (table_at f 2) = take (128 * e) (table_at (sec d ?k) 2)"
    "\<exists>x. \<forall>i \<ge> 34. i \<noteq> x \<longrightarrow> f i = sec d ?k i" "\<forall>i. i = 0 \<or> unat nsec - 33 \<le> i \<longrightarrow> f i = sec d ?k i"
    by (rule new_hdd_gpt_ok [OF td(1,2,3,5) _ _ _ winre pools(2,4) size, of e crc r1 r2 small])
      (use g \<open>begin \<noteq> 0\<close> in \<open>simp_all add: gpt_system_def unat_gt_0\<close>)
  have "FixNewHDD env crc w r1 r2 disknum begin len d s small = Some (d', s, small')"
    using assms(4,5) td(4,6) by (simp add: FixNewHDD_def pools(1,3) Let_def gpt run)
  with res show ?thesis by blast
qed

lemma FixNewHDDPartitionTable_ok:
  assumes t: "target env sec disknum s nsec" and g: "gpt_mark (sec d (ucast disknum) 0)" "first_header (sec d (ucast disknum))"
    and h: "rd64 (sec d (ucast disknum) 1) 0x20 = Some (nsec - 1)" "rd64 (sec d (ucast disknum) 1) 0x30 = Some (nsec - 0x22)"
    and size: "unat (g_wireTotalSectors w) + 34 \<le> unat nsec"
  obtains d' H' where "FixNewHDDPartitionTable env crc w disknum d s H = Some (d', s, H')"
    "two_copies crc (sec d' (ucast disknum)) (unat nsec)"
    "\<forall>i. i = 0 \<or> 34 \<le> i \<and> i < unat nsec - 33 \<longrightarrow> i \<noteq> (unat nsec - unat (g_wireTotalSectors w) - 34) div 16 * 16
      \<longrightarrow> sec d' (ucast disknum) i = sec d (ucast disknum) i"
proof -
  let ?k = "ucast disknum :: u16" and ?w = "g_wireTotalSectors w"
  note td = targetD [OF t]
  obtain buf nb where pools: "AllocatePool env d GPT_SIZE = Some buf" "length buf = GPT_SIZE"
    "AllocatePool env d 512 = Some nb" "length nb = 512" by (rule target_pools [OF t])
  note gpt = IsGPT_target [where d = d, OF t g(1)]
  obtain b other lu where b: "DiskRead env d ?k 1 33 buf 0 = Some (True, b)" "header_fields b 1 other lu 2"
    "drop 512 b = table_at (sec d ?k) 2" "rd64 (sec d ?k 1) 0x20 = Some other" "rd64 (sec d ?k 1) 0x30 = Some lu"
    by (rule read_table [OF td(1,3) _ g(2) pools(2)]) (use td(5) in auto)
  with h have hb: "header_fields b 1 (nsec - 1) (nsec - 0x22) 2" by simp
  obtain b1 where b1: "put b 0x10 [0, 0, 0, 0] = Some b1" "header_fields b1 1 (nsec - 1) (nsec - 0x22) 2"
    by (rule put_sum_zero [OF hb])
  have len: "length b1 = GPT_SIZE" using b1(2) by (simp add: header_fields_def)
  let ?c = "case first_index data_os_partition (hdr_Partition H) of None \<Rightarrow> 0 | Some i \<Rightarrow> i"
  obtain m d1 H1 where m: "place_wire env ?k nsec ?w nb [?c + 1..<length (hdr_Partition H)] b1 d H = Some (m, d1, H1)"
    "length m = GPT_SIZE" "take 512 m = take 512 b1"
    "\<forall>i. i \<noteq> (unat nsec - unat ?w - 34) div 16 * 16 \<longrightarrow> sec d1 ?k i = sec d ?k i"
    using place_wire_ok [OF td(1-3) pools(4) size len, of "[?c + 1..<length (hdr_Partition H)]" d H] by blast
  have hm: "header_fields m 1 (nsec - 1) (nsec - 0x22) 2"
    by (rule header_fields_take [OF b1(2) order_refl m(3)]) (simp add: m(2) len)
  obtain d2 m2 d3 where w: "write_primary env crc d1 ?k m = Some (True, d2, m2)" "write_backup env crc d2 ?k nsec m2 = Some (True, d3)"
    and res: "gpt_copy crc (sec d3 ?k) 1 (unat nsec - 1) 2" "gpt_copy crc (sec d3 ?k) (unat nsec - 1) 1 (unat nsec - 33)"
    "table_at (sec d3 ?k) 2 = drop 512 m" "table_at (sec d3 ?k) (unat nsec - 33) = drop 512 m"
    and fr: "\<forall>i. i = 0 \<or> 34 \<le> i \<and> i < unat nsec - 33 \<or> unat nsec \<le> i \<longrightarrow> sec d3 ?k i = sec d1 ?k i"
    by (rule write_both_ok [OF td(2,3,5) hm, of crc d1])
  have efi: "efi_part b = Some True" using b(2) by (simp add: header_fields_def)
  have "FixNewHDDPartitionTable env crc w disknum d s H = Some (d3, s, H1)"
    unfolding FixNewHDDPartitionTable_def target_disknum(2) [OF td(4)]
    by (simp add: pools(1,3) Let_def gpt b(1) efi b1(1) td(4) m(1) [simplified] w)
  with res fr m(4) show thesis by (intro that) (auto simp: two_copies_def)
qed

text \<open>The way that the table of a new disk is rewritten, as long as the image has a system and a recovery partition.\<close>

lemma IsFixNewHddWay_state: "IsFixNewHddWay H w = Some w' \<Longrightarrow> g_WinREState w' = (if IsNoDataPartFlag w' then 2 else 1)"
  by (auto simp: IsFixNewHddWay_def Let_def option_simps split: if_splits)

text \<open>
  Without a recovery partition on the disk the search ends at the end of the buffer, and the entry that
  \<open>FixNewHDD\<close> copies from there is not in the buffer any more.
\<close>

lemma FixNewHDD_reads_behind:
  assumes t: "target env sec disknum s nsec" and g: "gpt_system (sec d (ucast disknum)) begin e"
    and winre: "\<not> has_winre (table_at (sec d (ucast disknum)) 2)" "g_WinREState w \<noteq> 0"
    and "begin \<noteq> 0" "len \<noteq> 0"
    and size: "unat begin + unat len + unat (g_wireTotalSectors w) + 0x64000 < 2 ^ 64"
  shows "FixNewHDD env crc w r1 r2 disknum begin len d s small = None"
proof -
  let ?k = "ucast disknum :: u16"
  note td = targetD [OF t]
  obtain buf nb where pools: "AllocatePool env d GPT_SIZE = Some buf" "length buf = GPT_SIZE"
    "AllocatePool env d 512 = Some nb" "length nb = 512" by (rule target_pools [OF t])
  have gpt: "IsGPT env d ?k s = Some (True, s)"
    using g by (intro IsGPT_target [OF t]) (simp add: gpt_system_def)
  have old: "first_header (sec d ?k)" "first_begin (table_at (sec d ?k) 2) begin e" "e \<le> 28"
    using g by (simp_all add: gpt_system_def)
  obtain b other lu where b: "DiskRead env d ?k 1 33 buf 0 = Some (True, b)" "header_fields b 1 other lu 2"
      "drop 512 b = table_at (sec d ?k) 2"
    by (rule read_table [OF td(1,3) _ old(1) pools(2)]) (use td(5) in auto)
  obtain m where m: "open_header nsec b = Some m" "header_fields m 1 (nsec - 1) (nsec - 0x22) 2" "drop 512 m = drop 512 b"
    by (rule open_header_ok [OF b(2)])
  have len: "length m = GPT_SIZE" using m(2) by (simp add: header_fields_def)
  let ?i = "512 + 128 * e"
  have i: "find_entry (begins_at m begin) 512 = Some ?i"
    by (rule find_begin [OF len _ old(2,3)]) (simp add: m(3) b(3))
  have i2: "512 \<le> ?i" "?i + 256 \<le> GPT_SIZE" using old(3) by (simp_all add: GPT_SIZE_def)
  have "is_winre m j \<noteq> None" if "j + 128 \<le> GPT_SIZE" for j
    using rd64_fits [of j m] that len by (auto simp: is_winre_def)
  moreover have "128 dvd (512 :: nat)" by simp
  ultimately obtain x where x: "find_entry (is_winre m) 512 = Some x" "128 dvd x" "512 \<le> x" "x < GPT_SIZE \<longrightarrow> is_winre m x = Some True"
    using find_entry_total by metis
  have big: "GPT_SIZE \<le> x"
  proof (rule ccontr)
    assume lt: "\<not> GPT_SIZE \<le> x"
    obtain c where c: "x = 128 * c" using x(2) by (auto elim: dvdE)
    have "rd64 m x = Some WinrePartGUID1" using lt x(4) by (auto simp: is_winre_def option_simps)
    then have "rd64 (drop 512 m) (128 * (c - 4)) = Some WinrePartGUID1"
      using rd64_drop [of m "128 * (c - 4)"] len c x(3) by (simp add: GPT_SIZE_def diff_mult_distrib2)
    with winre(1) lt c x(3) show False by (auto simp: has_winre_def m(3) b(3) GPT_SIZE_def)
  qed
  obtain m2 i' new small2 where m2: "new_hdd_entries nsec w r1 r2 begin len ?i m = Some (m2, i', new, small2)"
    "i' \<le> ?i + 128" "length m2 = GPT_SIZE"
    by (rule new_hdd_entries_ok [OF len i2 size]) (use \<open>begin \<noteq> 0\<close> in \<open>auto simp: unat_gt_0\<close>)
  have efi: "efi_part b = Some True" using b(2) by (simp add: header_fields_def)
  have mv: "move_wire w x (i' + 128) m2 = None"
    using big m2(2,3) i2(2) winre(2) by (simp add: move_wire_def slice_def)
  have "new_hdd_gpt env crc w r1 r2 ?k (Some nsec) begin len buf (Some nb) d small = None"
    unfolding new_hdd_gpt_def is_winre_def [symmetric] using old(3) mv
    by (simp add: b(1) efi m(1) i x(1) m2(1) option_simps split: option.split)
  then show ?thesis
    using assms(5,6) td(4,6) by (simp add: FixNewHDD_def pools(1,3) Let_def gpt)
qed

lemma rd64_take_eq: "take n a = take n b \<Longrightarrow> i + 8 \<le> n \<Longrightarrow> n \<le> length a \<Longrightarrow> n \<le> length b \<Longrightarrow> rd64 a i = rd64 b i"
  by (metis rd_take(1))

text \<open>The entry that \<open>FixNewHDDPartitionTable\<close> writes is too short on most disks.\<close>

lemma wire_at_end_short:
  assumes len: "length b = GPT_SIZE" and j: "j + 128 \<le> GPT_SIZE"
    and wire: "256 dvd unat wire" "0 < unat wire" "unat wire + 34 \<le> unat nsec" and big: "\<not> (unat nsec - 34) mod 256 < 16"
  shows "\<exists>m start wend. wire_at_end nsec wire j b = Some (m, start) \<and> rd64 m (j + 0x20) = Some start \<and>
    rd64 m (j + 0x28) = Some wend \<and> unat wend + 1 - unat start < unat wire"
proof -
  let ?s = "(nsec - wire - 0x22) AND 0xfffffffffffffff0" and ?e = "(nsec - 0x22) AND 0xffffffffffffff00"
  let ?m = "over (over (over (over b j Window_Recovery_TypeGuid) (j + 0x20) (le_bytes 8 ?s))
    (j + 0x28) (le_bytes 8 ?e)) (j + 0x30) (le_bytes 8 (0x8000000000000001 :: u64))"
  have m: "length ?m = GPT_SIZE" using len j by (simp add: GPT_SIZE_def)
  have r: "rd64 ?m (j + 0x20) = Some ?s" "rd64 ?m (j + 0x28) = Some ?e"
    using len j by (simp_all add: step_simps GPT_SIZE_def)
  obtain m' where m': "clear_rest ?m (j + 128) = Some m'" "length m' = GPT_SIZE" "take (j + 128) m' = take (j + 128) ?m"
    by (rule clear_rest_ok [OF m])
  have rd: "rd64 m' x = rd64 ?m x" if "x + 8 \<le> j + 128" for x
    by (rule rd64_take_eq [OF m'(3) that]) (use m m'(2) j in simp_all)
  have "wire_at_end nsec wire j b = Some (m', ?s)"
    using len j m'(1) by (simp add: wire_at_end_def Let_def step_simps GPT_SIZE_def)
  moreover have "unat ?e + 1 - unat ?s < unat wire"
  proof -
    obtain c where c: "unat wire = 256 * c" using wire(1) by (auto elim: dvdE)
    let ?y = "unat nsec - 34"
    have "?y = (?y - unat wire) + 256 * c" using wire(3) c by simp
    then have "?y div 256 = (?y - unat wire) div 256 + c" "?y mod 256 = (?y - unat wire) mod 256"
      by (metis div_mult_self2 zero_neq_numeral add.commute, metis mod_mult_self2)
    moreover have "unat (nsec - 0x22) = ?y" using wire(3) by (simp add: unat_sub_no_wrap)
    ultimately have e: "unat ?e = (?y - unat wire) div 256 * 256 + unat wire" "\<not> (?y - unat wire) mod 256 < 16"
      using big c by (simp_all add: unat_align algebra_simps)
    have u: "unat ?s = (?y - unat wire) div 16 * 16"
      using wire(3) by (simp add: unat_align unat_sub_no_wrap)
    have "(?y - unat wire) div 16 * 16 div 256 = (?y - unat wire) div 256"
      using div_mult2_eq [of "?y - unat wire" 16 16] by simp
    with round_256(2) [OF e(2)] have "(?y - unat wire) div 256 * 256 + 16 \<le> unat ?s" by (simp only: u)
    with e(1) wire(2) show ?thesis by linarith
  qed
  ultimately show ?thesis
    using r rd [of "j + 0x20"] rd [of "j + 0x28"] by (intro exI [of _ m'] exI [of _ ?s] exI [of _ ?e] conjI) simp_all
qed

section \<open>A small disk\<close>

definition gpt_sectors :: "nat \<Rightarrow> buf" where
  "gpt_sectors i =
     (if i = 0 then replicate 450 0 @ [0xee] @ replicate 59 0 @ [0x55, 0xaa]
      else if i = 1 then [0x45, 0x46, 0x49, 0x20, 0x50, 0x41, 0x52, 0x54] @ replicate 16 0 @ [1] @ replicate 47 0 @ [2] @ replicate 439 0
      else if i = 2 then replicate 32 0 @ [64] @ replicate 95 0 @ le_bytes 8 WinrePartGUID1 @ replicate 376 0
      else replicate 512 0)"

definition big_disk :: part_state where
  "big_disk = blank_state\<lparr>g_disklist := [\<lparr>totalsector = 2000, formatted = False, disk_guid = replicate 16 0,
       removable = False, datadisk = False, curdisktype = 0, isRAIDDisk = 0, raidDisksn = replicate 20 0\<rparr>]\<rparr>"

lemma length_gpt_sectors: "length (gpt_sectors i) = 512"
  by (simp add: gpt_sectors_def)

lemma ram_gpt_sectors: "ram_sec gpt_sectors k = gpt_sectors"
  by (rule ext) (simp add: ram_sec_def length_gpt_sectors)

lemma gpt_table: "table_at gpt_sectors 2 = gpt_sectors 2 @ concat (map gpt_sectors [3..<34])"
proof -
  have "[2..<2 + 32] = (2 :: nat) # [3..<34]" by (simp add: upt_rec)
  then show ?thesis by (simp only: table_at_def list.map concat.simps)
qed

lemma gpt_table_entries:
  "rd64 (table_at gpt_sectors 2) 0x20 = Some 64" "rd64 (table_at gpt_sectors 2) 128 = Some WinrePartGUID1"
proof -
  have "rd64 (gpt_sectors 2) 0x20 = Some 64" by code_simp
  moreover have "rd64 (gpt_sectors 2) 128 = Some WinrePartGUID1" by code_simp
  ultimately show "rd64 (table_at gpt_sectors 2) 0x20 = Some 64" "rd64 (table_at gpt_sectors 2) 128 = Some WinrePartGUID1"
    unfolding gpt_table by (blast intro: rd64_append)+
qed

lemma gpt_sectors_system: "gpt_system (ram_sec gpt_sectors k) 64 0"
proof -
  have "rd16 (gpt_sectors 0) 510 = Some 0xaa55" "is_gpt_pid (gpt_sectors 0 ! (0x1be + 16 * 0 + 4))" by code_simp+
  then have "gpt_mark (gpt_sectors 0)" unfolding gpt_mark_def by (intro conjI exI [of _ 0]) simp_all
  moreover have "first_header gpt_sectors" by code_simp
  ultimately show ?thesis
    using gpt_table_entries(1) by (simp add: gpt_system_def first_begin_def ram_gpt_sectors)
qed

lemma gpt_sectors_winre: "has_winre (table_at (ram_sec gpt_sectors k) 2)"
  using gpt_table_entries(2) by (auto simp: has_winre_def ram_gpt_sectors intro!: exI [of _ 1])

lemma ram_target: "target (ram_env 1) ram_sec 0 big_disk 2000"
  by (simp add: target_def ram_reads_sectors ram_writes_sectors allocates_def disk_size_def big_disk_def) (simp add: ram_env_def)


definition gpt_header :: OKR_HEADER where
  "gpt_header = \<lparr>hdr_Memo = [], hdr_Disksize = 2000, hdr_SourceDiskGUID = [], hdr_WinPartNtfsGuid = [], hdr_GptSize = 0,
     hdr_bGpt = 1, hdr_Partition = [empty_partition\<lparr>BootBegin := 64, TotalSectors := 100, bIfBackup := 1, HasWindows := 1\<rparr>,
       empty_partition\<lparr>BootBegin := 164, TotalSectors := 256, bIfBackup := 1, TypeGuid := Window_Recovery_TypeGuid\<rparr>]\<rparr>"

definition wire_256 :: wire_state where
  "wire_256 = \<lparr>IsNoDataPartFlag = True, g_WinREState = 2, g_wireTotalSectors = 256\<rparr>"

lemma gpt_header_facts:
  "first_index wire_partition (hdr_Partition gpt_header) = Some 1" "first_index os_partition (hdr_Partition gpt_header) = Some 0"
  "TotalSectors (hdr_Partition gpt_header ! 1) = 256"
  by code_simp+

section \<open>Properties\<close>

text \<open>
  C9. On a GPT disk whose header is in place and lists the system as one of its first 29 partitions,
  FixNoDataPartTable returns and leaves two valid copies of the table, each with its own sector, the
  sector of the other, the place of its entries and both check sums: the entries in front of the
  system are kept, those behind the recovery partition are empty, the image's header gets the start
  that the table has for the recovery partition, and apart from that sector nothing else on the disk
  changes.
\<close>

theorem FixNoDataPartTable_tables:
  assumes t: "target env sec disknum s nsec" and g: "gpt_system (sec d (ucast disknum)) begin e"
    and "begin \<noteq> 0" "len \<noteq> 0"
    and size: "unat (g_wireTotalSectors w) + 34 \<le> unat nsec" "16 \<le> unat (g_wireTotalSectors w)"
      "unat begin + unat len + unat (g_wireTotalSectors w) < 2 ^ 64"
  shows "\<exists>d' H' small' f. FixNoDataPartTable env crc w disknum begin len d s H small = Some (d', s, H', small') \<and>
    f = sec d' (ucast disknum) \<and> two_copies crc f (unat nsec) \<and>
    take (128 * e) (table_at f 2) = take (128 * e) (table_at (sec d (ucast disknum)) 2) \<and>
    set (drop (128 * (e + 2)) (table_at f 2)) \<subseteq> {0} \<and>
    (if g_WinREState w = 0
     then H' = H \<and> (\<forall>i. i = 0 \<or> 34 \<le> i \<and> i < unat nsec - 33 \<longrightarrow> f i = sec d (ucast disknum) i)
     else \<exists>start. winre_behind f e start \<and> H' = UpdateOKRHeaderInfo H start \<and>
       (\<forall>i. i = 0 \<or> 34 \<le> i \<and> i < unat nsec - 33 \<longrightarrow> i \<noteq> unat start \<longrightarrow> f i = sec d (ucast disknum) i))"
  by (rule FixNoDataPartTable_ok [OF assms])

theorem FixNoDataPartTable_tables_witness:
  "\<exists>d' H' small' f. FixNoDataPartTable (ram_env 1) (\<lambda>_. 7) wire_256 0 64 100 gpt_sectors big_disk gpt_header False
      = Some (d', big_disk, H', small') \<and>
    f = ram_sec d' (ucast (0 :: byte)) \<and> two_copies (\<lambda>_. 7) f (unat (2000 :: u64)) \<and>
    take (128 * 0) (table_at f 2) = take (128 * 0) (table_at (ram_sec gpt_sectors (ucast (0 :: byte))) 2) \<and>
    set (drop (128 * (0 + 2)) (table_at f 2)) \<subseteq> {0} \<and>
    (if g_WinREState wire_256 = 0
     then H' = gpt_header \<and> (\<forall>i. i = 0 \<or> 34 \<le> i \<and> i < unat (2000 :: u64) - 33 \<longrightarrow> f i = ram_sec gpt_sectors (ucast (0 :: byte)) i)
     else \<exists>start. winre_behind f 0 start \<and> H' = UpdateOKRHeaderInfo gpt_header start \<and>
       (\<forall>i. i = 0 \<or> 34 \<le> i \<and> i < unat (2000 :: u64) - 33 \<longrightarrow> i \<noteq> unat start \<longrightarrow> f i = ram_sec gpt_sectors (ucast (0 :: byte)) i))"
  by (rule FixNoDataPartTable_tables [where sec = ram_sec and d = gpt_sectors and disknum = 0, OF ram_target gpt_sectors_system]) (simp_all add: wire_256_def)

text \<open>
  C38. FixNewHDD writes the first copy of the table only: the primary header is valid and counts on a
  second copy at the end of the disk, but the last 33 sectors keep what they had.
\<close>

theorem FixNewHDD_first_copy_only:
  assumes t: "target env sec disknum s nsec" and g: "gpt_system (sec d (ucast disknum)) begin e"
    and winre: "has_winre (table_at (sec d (ucast disknum)) 2) \<or> g_WinREState w = 0"
    and "begin \<noteq> 0" "len \<noteq> 0"
    and size: "unat begin + unat len + unat (g_wireTotalSectors w) + 0x64000 < 2 ^ 64"
  shows "\<exists>d' small' f. FixNewHDD env crc w r1 r2 disknum begin len d s small = Some (d', s, small') \<and>
    f = sec d' (ucast disknum) \<and> gpt_copy crc f 1 (unat nsec - 1) 2 \<and> rd64 (f 1) 0x30 = Some (nsec - 0x22) \<and>
    take (128 * e) (table_at f 2) = take (128 * e) (table_at (sec d (ucast disknum)) 2) \<and>
    (\<exists>x. \<forall>i \<ge> 34. i \<noteq> x \<longrightarrow> f i = sec d (ucast disknum) i) \<and>
    (\<forall>i. i = 0 \<or> unat nsec - 33 \<le> i \<longrightarrow> f i = sec d (ucast disknum) i)"
  by (rule FixNewHDD_ok [OF assms])

theorem FixNewHDD_first_copy_only_witness:
  "\<exists>d' small' f. FixNewHDD (ram_env 1) (\<lambda>_. 7) wire_256 5 6 0 64 100 gpt_sectors big_disk False = Some (d', big_disk, small') \<and>
    f = ram_sec d' (ucast (0 :: byte)) \<and> gpt_copy (\<lambda>_. 7) f 1 (unat (2000 :: u64) - 1) 2 \<and> rd64 (f 1) 0x30 = Some (2000 - 0x22) \<and>
    take (128 * 0) (table_at f 2) = take (128 * 0) (table_at (ram_sec gpt_sectors (ucast (0 :: byte))) 2) \<and>
    (\<exists>x. \<forall>i \<ge> 34. i \<noteq> x \<longrightarrow> f i = ram_sec gpt_sectors (ucast (0 :: byte)) i) \<and>
    (\<forall>i. i = 0 \<or> unat (2000 :: u64) - 33 \<le> i \<longrightarrow> f i = ram_sec gpt_sectors (ucast (0 :: byte)) i)"
  by (rule FixNewHDD_first_copy_only [where sec = ram_sec and d = gpt_sectors and disknum = 0, OF ram_target gpt_sectors_system])
    (simp_all add: gpt_sectors_winre wire_256_def)

text \<open>
  C8. Recover rewrites the table of a newly found disk in one of two ways, which IsFixNewHddWay chooses
  by the room between the system and the recovery partition of the image. On a GPT disk that has both,
  either way returns and leaves two valid copies of the table that point at each other.
\<close>

theorem fix_found_disk_tables:
  assumes t: "target env sec disknum s nsec" and g: "gpt_system (sec d (ucast disknum)) begin e"
    and winre: "has_winre (table_at (sec d (ucast disknum)) 2)"
    and "begin \<noteq> 0" "len \<noteq> 0"
    and H: "first_index wire_partition (hdr_Partition H) = Some i" "first_index os_partition (hdr_Partition H) = Some j"
    and size: "unat (TotalSectors (hdr_Partition H ! i)) + 34 \<le> unat nsec" "16 \<le> unat (TotalSectors (hdr_Partition H ! i))"
      "unat begin + unat len + unat (TotalSectors (hdr_Partition H ! i)) + 0x64000 < 2 ^ 64"
  shows "\<exists>w' d' H' small. fix_found_disk env crc r1 r2 disknum begin len w d s H = Some (w', d', s, H', small) \<and>
    two_copies crc (sec d' (ucast disknum)) (unat nsec)"
proof -
  let ?k = "ucast disknum :: u16"
  have "IsFixNewHddWay H w \<noteq> None" using H by (simp add: IsFixNewHddWay_def Let_def split: prod.split)
  then obtain w1 where w1: "IsFixNewHddWay H w = Some w1" by blast
  define w2 where "w2 = w1\<lparr>g_wireTotalSectors := TotalSectors (hdr_Partition H ! i)\<rparr>"
  have w2: "GetWirePartSector H w1 = Some w2" using H(1) by (simp add: GetWirePartSector_def w2_def)
  have st: "g_wireTotalSectors w2 = TotalSectors (hdr_Partition H ! i)" "g_WinREState w2 \<noteq> 0"
    using IsFixNewHddWay_state [OF w1] by (simp_all add: w2_def split: if_splits)
  show ?thesis
  proof (cases "IsNoDataPartFlag w2")
    case True
    obtain d' H' small f where "FixNoDataPartTable env crc w2 disknum begin len d s H False = Some (d', s, H', small)"
      "f = sec d' ?k" "two_copies crc f (unat nsec)"
      using FixNoDataPartTable_ok [OF t g assms(4,5), of w2 crc H False] size by (auto simp: st(1))
    with True w1 w2 show ?thesis by (simp add: fix_found_disk_def)
  next
    case False
    obtain d1 small f where one: "FixNewHDD env crc w2 r1 r2 disknum begin len d s False = Some (d1, s, small)"
      "f = sec d1 ?k" "gpt_copy crc f 1 (unat nsec - 1) 2" "rd64 (f 1) 0x30 = Some (nsec - 0x22)" "f 0 = sec d ?k 0"
      using FixNewHDD_ok [OF t g _ assms(4,5), of w2 crc r1 r2 False] winre size(3) by (auto simp: st(1))
    have n: "of_nat (unat nsec - 1) = nsec - 1" using targetD(5) [OF t] by (simp add: of_nat_diff)
    have "gpt_mark (sec d1 ?k 0)" "first_header (sec d1 ?k)" "rd64 (sec d1 ?k 1) 0x20 = Some (nsec - 1)"
      "rd64 (sec d1 ?k 1) 0x30 = Some (nsec - 0x22)"
      using one g unfolding gpt_copy_def n by (simp_all add: gpt_system_def first_header_def)
    then obtain d2 H2 where "FixNewHDDPartitionTable env crc w2 disknum d1 s H = Some (d2, s, H2)"
      "two_copies crc (sec d2 ?k) (unat nsec)"
      by (rule FixNewHDDPartitionTable_ok [OF t, of d1 w2 crc H]) (use size(1) in \<open>simp add: st(1)\<close>)
    with False w1 w2 one(1) st(2) show ?thesis by (simp add: fix_found_disk_def)
  qed
qed

theorem fix_found_disk_tables_witness:
  "\<exists>w' d' H' small. fix_found_disk (ram_env 1) (\<lambda>_. 7) 5 6 0 64 100 wire_256 gpt_sectors big_disk gpt_header
      = Some (w', d', big_disk, H', small) \<and>
    two_copies (\<lambda>_. 7) (ram_sec d' (ucast (0 :: byte))) (unat (2000 :: u64))"
  by (rule fix_found_disk_tables [where sec = ram_sec and d = gpt_sectors and disknum = 0, OF ram_target gpt_sectors_system gpt_sectors_winre _ _ gpt_header_facts(1,2)])
    (simp_all add: gpt_header_facts(3) [simplified])

lemma round_16:
  fixes q a w :: nat
  assumes "q * 256 + 1 = a * 16 + w"
  shows "w mod 16 = 1"
proof -
  have "q * 256 + 1 = 1 + 16 * (q * 16)" by simp
  then have "w + 16 * a = 1 + 16 * (q * 16)" using assms by linarith
  then have "(w + 16 * a) mod 16 = (1 + 16 * (q * 16)) mod 16" by (rule arg_cong)
  then show ?thesis unfolding mod_mult_self2 by simp
qed

text \<open>
  C37. When the disk has no room behind the system, FixNoDataPartTable shrinks the system and puts the
  recovery partition behind it. Unless the number of sectors of the recovery partition is one more
  than a multiple of 16, which no partition of whole kilobytes has, its new entry has another number of
  sectors than the partition. For one of whole units of 256 sectors the entry is too short, or the
  last sector of the system is the first of the recovery partition.
\<close>

theorem no_data_winre_wrong:
  assumes "length b = GPT_SIZE" "512 \<le> i" "i + 256 \<le> GPT_SIZE" "\<not> begin + len + g_wireTotalSectors w < nsec"
    and "g_WinREState w \<noteq> 0" "unat (g_wireTotalSectors w) + 34 \<le> unat nsec" "unat (g_wireTotalSectors w) mod 16 \<noteq> 1"
    "0 < unat (g_wireTotalSectors w)"
  shows "\<exists>m start sysend wend. no_data_entries nsec w begin len i b = Some (m, i + 128, Some start, True) \<and>
    rd64 m (i + 0x28) = Some sysend \<and> rd64 m (i + 128 + 0x20) = Some start \<and> rd64 m (i + 128 + 0x28) = Some wend \<and>
    unat wend + 1 - unat start \<noteq> unat (g_wireTotalSectors w) \<and>
    (256 dvd unat (g_wireTotalSectors w) \<longrightarrow> sysend = start \<or> unat wend + 1 - unat start < unat (g_wireTotalSectors w))"
proof -
  let ?w = "g_wireTotalSectors w"
  let ?x = "nsec - ?w - 0x22"
  let ?s = "?x AND 0xfffffffffffffff0" and ?e = "?x AND 0xffffffffffffff00"
  let ?r = "(?s + ?w) AND 0xffffffffffffff00"
  have x: "begin + (nsec - (begin + ?w) - 0x22) = ?x" by (simp add: algebra_simps)
  have ux: "unat ?x = unat nsec - unat ?w - 34" using assms(6) by (simp add: unat_sub_no_wrap)
  let ?b = "over b (i + 0x28) (le_bytes 8 ?e)"
  have len: "length ?b = GPT_SIZE" using assms(1-3) by (simp add: GPT_SIZE_def)
  obtain m where m: "wire_entry ?b (i + 128) ?s ?w = Some m" "rd64 m (i + 128 + 0x20) = Some ?s"
    "rd64 m (i + 128 + 0x28) = Some ?r" "\<And>x. x + 8 \<le> i + 128 \<Longrightarrow> rd64 m x = rd64 ?b x"
    by (rule wire_entry_ok [of "i + 128" ?b ?s ?w]) (use len assms(3) in simp_all)
  have "rd64 m (i + 0x28) = Some ?e"
    using m(4) [of "i + 0x28"] assms(1-3) by (simp add: rd_over_same GPT_SIZE_def)
  moreover have "no_data_entries nsec w begin len i b = Some (m, i + 128, Some ?s, True)"
    using assms(1-5) m(1) by (simp add: no_data_entries_def Let_def x put64_over GPT_SIZE_def)
  moreover have us: "unat ?s = unat ?x div 16 * 16" by (simp add: unat_align)
  have "unat ?s + unat ?w \<le> unat nsec"
    using us ux div_times_less_eq_dividend [of "unat ?x" 16] assms(6) by linarith
  then have "unat (?s + ?w) = unat ?s + unat ?w"
    using unsigned_less [where 'a = nat and w = nsec] by (intro unat_add_no_wrap) simp
  then have r: "unat ?r = (unat ?s + unat ?w) div 256 * 256" by (simp add: unat_align)
  have "unat ?r + 1 - unat ?s \<noteq> unat ?w"
  proof
    assume "unat ?r + 1 - unat ?s = unat ?w"
    then have "unat ?r + 1 = unat ?s + unat ?w" using assms(8) by linarith
    then have "(unat ?s + unat ?w) div 256 * 256 + 1 = unat ?x div 16 * 16 + unat ?w" by (simp only: r us)
    from round_16 [OF this] assms(7) show False by contradiction
  qed
  moreover have "?e = ?s \<or> unat ?r + 1 - unat ?s < unat ?w" if d: "256 dvd unat ?w"
  proof (cases "unat ?x mod 256 < 16")
    case True
    from round_256(1) [OF this] have "unat ?e = unat ?s" by (simp only: unat_align)
    then show ?thesis by (simp add: word_unat_eq_iff)
  next
    case False
    obtain c where c: "unat ?w = 256 * c" using d by (auto elim: dvdE)
    have "(unat ?s + unat ?w) div 256 * 256 = unat ?s div 256 * 256 + unat ?w" by (simp add: c)
    moreover have "unat ?s div 256 * 256 + 16 \<le> unat ?s" using round_256(2) [OF False] by (simp only: us)
    ultimately have "unat ?r + 1 - unat ?s < unat ?w" using r assms(8) by linarith
    then show ?thesis by (rule disjI2)
  qed
  ultimately show ?thesis
    using m(2,3) by (intro exI [of _ m] exI [of _ ?s] exI [of _ ?e] exI [of _ ?r]) blast
qed

theorem no_data_winre_wrong_witness:
  "\<exists>m start sysend wend. no_data_entries 400 wire_256 64 100 512 (replicate GPT_SIZE 0) = Some (m, 512 + 128, Some start, True) \<and>
    rd64 m (512 + 0x28) = Some sysend \<and> rd64 m (512 + 128 + 0x20) = Some start \<and> rd64 m (512 + 128 + 0x28) = Some wend \<and>
    unat wend + 1 - unat start \<noteq> unat (g_wireTotalSectors wire_256) \<and>
    (256 dvd unat (g_wireTotalSectors wire_256) \<longrightarrow> sysend = start \<or> unat wend + 1 - unat start < unat (g_wireTotalSectors wire_256))"
  by (rule no_data_winre_wrong) (simp_all add: wire_256_def GPT_SIZE_def)

end
