(* ===== verification/Okr_Target.thy ===== *)
theory Okr_Target
  imports Okr_Gpt
begin

text \<open>
  The checks in front of a restore, \<^verbatim>\<open>src/OkrPkg/okrefi/func.c\<close>: whether the partition table of the
  target disk has to be restored (\<open>IfNeedRecoverPartTable\<close> and its variants), which disk the target is
  (\<open>GetDestinationDisk\<close>), and the checks for RAID disks and BitLocker volumes.

  The fields of \<open>g_data\<close> that take part are the record \<open>restore_data\<close>; \<open>RecoverDiskNumber\<close> is a \<open>char\<close> and
  signed. Loops over \<open>g_Partitions\<close> need the first \<open>g_dwTotalPartitions\<close> elements in the array. The
  answers of the user are the function \<open>ask\<close>, which is true when the button that goes on was pressed: no
  question is asked twice after an answer that goes on. A read of \<open>g_disklist\<close> outside its bounds is \<open>None\<close>.
\<close>

definition DISK_DATA :: byte where "DISK_DATA = 0"
definition DISK_SYSDISK :: byte where "DISK_SYSDISK = 1"
definition NEW_FOUND_DISK :: int where "NEW_FOUND_DISK = 2"

record restore_data =
  RecoverDiskNumber :: byte
  bForceRestorePartition :: bool
  bFactoryRestore :: bool
  bIsAutoFunc :: bool
  comefromnewhddface :: int
  destdisktype :: int
  selecteddisk :: int
  CurImageSyspartitionsize :: u64
  PartCBootBegin :: u64
  PartCTotalSector :: u64
  needlimit :: bool
  destpartindex :: int
  oldisk_c_small :: int

definition used_partitions :: "part_state \<Rightarrow> WIN32_PARTITIONINFO list option" where
  "used_partitions s =
     (if unat (g_dwTotalPartitions s) \<le> length (g_Partitions s)
      then Some (take (unat (g_dwTotalPartitions s)) (g_Partitions s)) else None)"

definition disk_at :: "part_state \<Rightarrow> int \<Rightarrow> DISKINFO option" where
  "disk_at s i = (if 0 \<le> i \<and> nat i < length (g_disklist s) then Some (g_disklist s ! nat i) else None)"

section \<open>Has the partition table changed\<close>

definition same_place :: "restore_data \<Rightarrow> WIN32_PARTITIONINFO \<Rightarrow> WIN32_PARTITIONINFO \<Rightarrow> bool" where
  "same_place rd P G \<longleftrightarrow> BootBegin G = BootBegin P \<and> uint (DiskNumber G) = sint (RecoverDiskNumber rd)"

definition missing_part :: "restore_data \<Rightarrow> WIN32_PARTITIONINFO list \<Rightarrow> WIN32_PARTITIONINFO \<Rightarrow> bool" where
  "missing_part rd gs P \<longleftrightarrow> bIfBackup P \<noteq> 0 \<and> first_index (same_place rd P) gs = None"

definition changed_part :: "restore_data \<Rightarrow> WIN32_PARTITIONINFO list \<Rightarrow> WIN32_PARTITIONINFO \<Rightarrow> bool" where
  "changed_part rd gs P \<longleftrightarrow> bIfBackup P \<noteq> 0 \<and>
     (case first_index (same_place rd P) gs of
        None \<Rightarrow> True
      | Some j \<Rightarrow> UniGuid (gs ! j) \<noteq> UniGuid P \<or> TotalSectors (gs ! j) \<noteq> TotalSectors P \<or>
          PartitionTableBegin (gs ! j) \<noteq> PartitionTableBegin P)"

definition IfNeedRecoverPartTable_Linux :: "restore_data \<Rightarrow> part_state \<Rightarrow> OKR_HEADER \<Rightarrow> bool option" where
  "IfNeedRecoverPartTable_Linux rd s H =
     do { gs \<leftarrow> used_partitions s; Some (list_ex (changed_part rd gs) (hdr_Partition H)) }"

definition IfPartTableChanged :: "restore_data \<Rightarrow> part_state \<Rightarrow> OKR_HEADER \<Rightarrow> bool option" where
  "IfPartTableChanged rd s H =
     (if bForceRestorePartition rd then Some True else IfNeedRecoverPartTable_Linux rd s H)"

text \<open>The results are the value and \<open>klchange\<close>.\<close>

definition table_forced :: "restore_data \<Rightarrow> bool" where
  "table_forced rd \<longleftrightarrow> bForceRestorePartition rd \<or> (destdisktype rd = NEW_FOUND_DISK \<and> comefromnewhddface rd = 1)"

definition IfNeedRecoverPartTable_delete ::
  "restore_data \<Rightarrow> part_state \<Rightarrow> OKR_HEADER \<Rightarrow> int \<Rightarrow> (bool \<times> int) option" where
  "IfNeedRecoverPartTable_delete rd s H klchange =
     (if table_forced rd then Some (True, klchange)
      else do {
        gs \<leftarrow> used_partitions s;
        Some (if list_ex (missing_part rd gs) (hdr_Partition H) then (True, 1) else (False, klchange)) })"

definition IfNeedRecoverPartTable ::
  "restore_data \<Rightarrow> part_state \<Rightarrow> OKR_HEADER \<Rightarrow> int \<Rightarrow> (bool \<times> int) option" where
  "IfNeedRecoverPartTable rd s H klchange =
     (if table_forced rd then Some (True, klchange)
      else do {
        gs \<leftarrow> used_partitions s;
        Some (case first_index (changed_part rd gs) (hdr_Partition H) of
                None \<Rightarrow> (False, klchange)
              | Some i \<Rightarrow> (True, if missing_part rd gs (hdr_Partition H ! i) then 1 else klchange)) })"

text \<open>The decision in \<open>Recover\<close>: \<open>bPartitionChanged\<close>, or \<open>None\<close> inside when the restore is given up.\<close>

definition table_decision ::
  "restore_data \<Rightarrow> part_state \<Rightarrow> OKR_HEADER \<Rightarrow> (restore_data \<times> bool option) option" where
  "table_decision rd s H =
     (if bFactoryRestore rd then Some (rd\<lparr>bForceRestorePartition := True\<rparr>, Some True)
      else do {
        (changed, klchange) \<leftarrow> IfNeedRecoverPartTable_delete rd s H 0;
        if bForceRestorePartition rd then Some (rd, Some changed)
        else if klchange \<noteq> 0 then Some (rd, None)
        else do { (changed, _) \<leftarrow> IfNeedRecoverPartTable rd s H klchange; Some (rd, Some changed) } })"

section \<open>The table of an MBR\<close>

definition GetFirstPartitionBeginSector :: "part_state \<Rightarrow> u16 \<Rightarrow> u64 option" where
  "GetFirstPartitionBeginSector s disk =
     do { gs \<leftarrow> used_partitions s;
          Some (case find (\<lambda>G. ucast (DiskNumber G) = disk) gs of None \<Rightarrow> 0 | Some G \<Rightarrow> BootBegin G) }"

definition IsGptSystem :: "part_state \<Rightarrow> u16 \<Rightarrow> bool option" where
  "IsGptSystem s disk =
     do { gs \<leftarrow> used_partitions s;
          Some (case find (\<lambda>G. ucast (DiskNumber G) = disk) gs of None \<Rightarrow> False | Some G \<Rightarrow> bGpt G \<noteq> 0) }"

definition IsBackup :: "OKR_HEADER \<Rightarrow> u32 \<Rightarrow> u32 \<Rightarrow> bool" where
  "IsBackup H begin len \<longleftrightarrow>
     list_ex (\<lambda>P. bIfBackup P \<noteq> 0 \<and> BackupDataSize P \<noteq> 0 \<and> BootBegin P = ucast begin \<and> TotalSectors P = ucast len)
       (hdr_Partition H)"

fun recheck_entries :: "OKR_HEADER \<Rightarrow> buf \<Rightarrow> buf \<Rightarrow> nat list \<Rightarrow> bool option" where
  "recheck_entries H Mbr BackupMbr [] = Some False"
| "recheck_entries H Mbr BackupMbr (i # is) =
     do {
       begin1 \<leftarrow> rd32 BackupMbr (0x1be + 16 * i + 8);
       len1 \<leftarrow> rd32 BackupMbr (0x1be + 16 * i + 12);
       begin2 \<leftarrow> rd32 Mbr (0x1be + 16 * i + 8);
       len2 \<leftarrow> rd32 Mbr (0x1be + 16 * i + 12);
       if IsBackup H begin1 len1 \<and> (begin1 \<noteq> begin2 \<or> len1 \<noteq> len2) then Some True
       else recheck_entries H Mbr BackupMbr is }"

definition RecheckPartitionTable_Linux :: "OKR_HEADER \<Rightarrow> buf \<Rightarrow> buf \<Rightarrow> bool option" where
  "RecheckPartitionTable_Linux H Mbr BackupMbr = recheck_entries H Mbr BackupMbr [0, 1, 2, 3]"

definition RecheckPartitionTable :: "restore_data \<Rightarrow> OKR_HEADER \<Rightarrow> buf \<Rightarrow> buf \<Rightarrow> bool option" where
  "RecheckPartitionTable rd H Mbr BackupMbr =
     (if bForceRestorePartition rd then Some True else RecheckPartitionTable_Linux H Mbr BackupMbr)"

section \<open>BitLocker volumes, RAID disks\<close>

definition is_bitlocker :: "WIN32_PARTITIONINFO \<Rightarrow> bool" where
  "is_bitlocker G \<longleftrightarrow> PartitionType G = SHD_BITLOCKER \<or> PartitionType G = SHD_BITLOCKERTOGO"

definition IfExistBitlocker :: "part_state \<Rightarrow> bool option" where
  "IfExistBitlocker s = do { gs \<leftarrow> used_partitions s; Some (list_ex is_bitlocker gs) }"

definition IfExistBitlockerOnDisk :: "part_state \<Rightarrow> int \<Rightarrow> bool option" where
  "IfExistBitlockerOnDisk s disk =
     do { gs \<leftarrow> used_partitions s; Some (list_ex (\<lambda>G. uint (DiskNumber G) = disk \<and> is_bitlocker G) gs) }"

text \<open>The loop over the data partitions: the last one decides, unless one without BitLocker ends it.\<close>

fun all_bitlocker :: "WIN32_PARTITIONINFO list \<Rightarrow> bool \<Rightarrow> bool" where
  "all_bitlocker [] r = r"
| "all_bitlocker (G # gs) r =
     (if TypeGuid G = Windows_Data_TypeGuid \<and> bIfBackup G = 0 \<and> PartitionType G \<noteq> UNKNOWN_PARTITION
      then if is_bitlocker G then all_bitlocker gs True else False
      else all_bitlocker gs r)"

definition CheckIfAllDataParBitlocker :: "part_state \<Rightarrow> u16 \<Rightarrow> bool option" where
  "CheckIfAllDataParBitlocker s disk =
     do { gs \<leftarrow> used_partitions s; Some (all_bitlocker (filter (\<lambda>G. disk = ucast (DiskNumber G)) gs) False) }"

definition CheckIfAllDataParBitlockerInAllDisk :: "part_state \<Rightarrow> bool option" where
  "CheckIfAllDataParBitlockerInAllDisk s = do { gs \<leftarrow> used_partitions s; Some (all_bitlocker gs False) }"

definition IfDataParExistBitlocker :: "part_state \<Rightarrow> OKR_HEADER option \<Rightarrow> bool option" where
  "IfDataParExistBitlocker s header =
     do {
       gs \<leftarrow> used_partitions s;
       Some (case filter is_bitlocker gs of
               [] \<Rightarrow> False
             | [G] \<Rightarrow> (case header of
                 None \<Rightarrow> False
               | Some H \<Rightarrow> (case find (\<lambda>P. HasWindows P \<noteq> 0) (hdr_Partition H) of
                   None \<Rightarrow> False
                 | Some P \<Rightarrow> BootBegin G \<noteq> BootBegin P))
             | _ \<Rightarrow> True) }"

definition IsLenovoPart :: "part_state \<Rightarrow> nat \<Rightarrow> bool option" where
  "IsLenovoPart s i =
     (if i < length (g_Partitions s)
      then let G = g_Partitions s ! i in
        Some (take 11 (Label G) = LenovoLabel \<and> TypeGuid G = Window_Recovery_TypeGuid \<and> PartitionType G = FAT32)
      else None)"

text \<open>The serial number of the system disk is at 112 in \<open>Memo\<close>.\<close>

definition CompareHddSN :: "buf \<Rightarrow> buf \<Rightarrow> int" where
  "CompareHddSN sn1 sn2 = (if take 20 sn1 = take 20 sn2 then 1 else -1)"

definition CheckRAIDDiskRecovery :: "part_state \<Rightarrow> u16 \<Rightarrow> OKR_HEADER \<Rightarrow> int option" where
  "CheckRAIDDiskRecovery s disk H =
     do {
       sn \<leftarrow> slice (hdr_Memo H) 112 20;
       D \<leftarrow> disk_at s (uint disk);
       Some (if take 4 sn = [0x52, 0x41, 0x49, 0x44]
             then if isRAIDDisk D = 1 then if CompareHddSN (raidDisksn D) sn \<noteq> 1 then -3 else 0 else -1
             else if isRAIDDisk D = 1 then -2 else 0) }"

section \<open>The target disk\<close>

definition same_partition :: "WIN32_PARTITIONINFO \<Rightarrow> WIN32_PARTITIONINFO \<Rightarrow> bool" where
  "same_partition G P \<longleftrightarrow> BootBegin G = BootBegin P \<and> TotalSectors G = TotalSectors P \<and>
     PartitionType G = PartitionType P \<and> UniGuid G = UniGuid P \<and> take 16 (Label G) = take 16 (Label P)"

definition data_size :: "WIN32_PARTITIONINFO list \<Rightarrow> u64" where
  "data_size ps = sum_list (map TotalSectors (filter (\<lambda>P. bIfBackup P \<noteq> 0) ps))"

text \<open>A disk whose size differs from that of the saved disk by more than 8 MB is taken for another one.\<close>

definition other_size :: "OKR_HEADER \<Rightarrow> DISKINFO \<Rightarrow> bool" where
  "other_size H D \<longleftrightarrow> hdr_Disksize H > totalsector D + 2048 * 8 \<or> totalsector D > hdr_Disksize H + 2048 * 8"

text \<open>What becomes of a disk that was found: \<open>destdisk\<close> and \<open>candidate\<close>. When the data does not fit,
  \<open>destdisk\<close> is -1 already when the size is looked up again.\<close>

definition check_size :: "part_state \<Rightarrow> OKR_HEADER \<Rightarrow> u64 \<Rightarrow> int \<Rightarrow> (int \<times> int) option" where
  "check_size s H datasize destdisk =
     (if destdisk = -1 then Some (-1, -1)
      else do {
        D \<leftarrow> disk_at s destdisk;
        let destdisk = (if datasize \<ge> totalsector D then -1 else destdisk);
        let candidate = destdisk;
        D \<leftarrow> disk_at s destdisk;
        Some (if other_size H D then -1 else destdisk, candidate) })"

subsection \<open>The variant for Linux\<close>

text \<open>\<open>backupdisk\<close> is the number of the disk in the image; the state changes when a disk is marked as a
  data disk.\<close>

definition linux_match ::
  "int \<Rightarrow> WIN32_PARTITIONINFO \<Rightarrow> WIN32_PARTITIONINFO \<Rightarrow> int \<Rightarrow> part_state \<Rightarrow> (int \<times> part_state) option" where
  "linux_match backupdisk P G destdisk s =
     (if bIfBackup P \<noteq> 0
      then if backupdisk = uint (DiskNumber P) \<and> destdisk = -1
        then do { D \<leftarrow> disk_at s (uint (DiskNumber G)); Some (if removable D then -1 else uint (DiskNumber G), s) }
        else Some (destdisk, s)
      else if backupdisk \<noteq> uint (DiskNumber P)
        then do {
          s \<leftarrow> set_disk (ucast (DiskNumber G)) (\<lambda>D. D\<lparr>datadisk := True\<rparr>) s;
          Some (if destdisk = uint (DiskNumber G) then -1 else destdisk, s) }
        else Some (destdisk, s))"

fun linux_loop ::
  "int \<Rightarrow> WIN32_PARTITIONINFO list \<Rightarrow> WIN32_PARTITIONINFO list \<Rightarrow> int \<Rightarrow> part_state \<Rightarrow> (int \<times> part_state) option" where
  "linux_loop backupdisk gs [] destdisk s = Some (destdisk, s)"
| "linux_loop backupdisk gs (P # ps) destdisk s =
     do {
       (destdisk, s) \<leftarrow> (case find (\<lambda>G. same_partition G P) gs of
          None \<Rightarrow> Some (destdisk, s)
        | Some G \<Rightarrow> linux_match backupdisk P G destdisk s);
       linux_loop backupdisk gs ps destdisk s }"

fun linux_exact :: "part_state \<Rightarrow> OKR_HEADER \<Rightarrow> u64 \<Rightarrow> int \<Rightarrow> int list \<Rightarrow> (int \<times> int) option" where
  "linux_exact s H datasize candidate [] = Some (-1, candidate)"
| "linux_exact s H datasize candidate (i # is) =
     do {
       D \<leftarrow> disk_at s i;
       if removable D \<or> datadisk D then linux_exact s H datasize candidate is
       else if \<not> formatted D \<and> totalsector D \<ge> datasize \<and> candidate = -1 then Some (i, candidate)
       else if totalsector D = hdr_Disksize H \<and> candidate = -1 then Some (-1, i)
       else linux_exact s H datasize candidate is }"

fun linux_search :: "part_state \<Rightarrow> u64 \<Rightarrow> int \<Rightarrow> int \<Rightarrow> int list \<Rightarrow> (int \<times> int) option" where
  "linux_search s datasize destdisk candidate [] = Some (destdisk, candidate)"
| "linux_search s datasize destdisk candidate (i # is) =
     do {
       D \<leftarrow> disk_at s i;
       if removable D \<or> datadisk D then linux_search s datasize destdisk candidate is
       else if \<not> formatted D \<and> totalsector D \<ge> datasize then Some (i, candidate)
       else linux_search s datasize destdisk
         (if totalsector D \<ge> datasize \<and> candidate = -1 then i else candidate) is }"

definition GetDestinationDisk_Linux ::
  "u16 \<Rightarrow> restore_data \<Rightarrow> part_state \<Rightarrow> OKR_HEADER \<Rightarrow> (bool \<times> restore_data \<times> part_state) option" where
  "GetDestinationDisk_Linux disknum rd s H =
     do {
       let ps = hdr_Partition H;
       let backupdisk = (case find (\<lambda>P. bIfBackup P \<noteq> 0) ps of None \<Rightarrow> 0 | Some P \<Rightarrow> uint (DiskNumber P));
       gs \<leftarrow> used_partitions s;
       (destdisk, s) \<leftarrow> linux_loop backupdisk gs ps (-1) s;
       let datasize = data_size ps;
       let disks = map int [0..<unat disknum];
       (destdisk, candidate) \<leftarrow> check_size s H datasize destdisk;
       (destdisk, candidate) \<leftarrow> (if destdisk = -1 then linux_exact s H datasize candidate disks else Some (destdisk, candidate));
       (destdisk, candidate) \<leftarrow> (if candidate = -1 then linux_search s datasize destdisk candidate disks else Some (destdisk, candidate));
       let destdisk = (if destdisk = -1 then candidate else destdisk);
       let rd = rd\<lparr>RecoverDiskNumber := of_int destdisk\<rparr>;
       Some (RecoverDiskNumber rd \<noteq> -1, rd, s) }"

subsection \<open>The variant for Windows\<close>

datatype question = SIZE_CHANGE | FORCE_INFO | BOOTPOS_CHANGE

text \<open>\<open>destdisk\<close>, \<open>*ifolddisk\<close> and \<open>findc\<close> with the fields of \<open>g_data\<close>.\<close>

record search_state =
  destdisk :: int
  ifolddisk :: int
  findc :: bool
  gdata :: restore_data

definition give_up :: "search_state \<Rightarrow> search_state" where
  "give_up st = st\<lparr>destdisk := -1, gdata := (gdata st)\<lparr>RecoverDiskNumber := -1\<rparr>\<rparr>"

definition EXTRA_SIZE1 :: u64 where "EXTRA_SIZE1 = 0x2800000"

text \<open>The results say whether the function returns \<open>FALSE\<close> at once.\<close>

definition ask_force :: "(question \<Rightarrow> bool) \<Rightarrow> question \<Rightarrow> search_state \<Rightarrow> bool \<times> search_state" where
  "ask_force ask q st =
     (if ask q \<and> ask FORCE_INFO then (False, st\<lparr>gdata := (gdata st)\<lparr>bForceRestorePartition := True\<rparr>\<rparr>)
      else (True, give_up st))"

definition resized :: "u64 \<Rightarrow> u64 \<Rightarrow> bool" where
  "resized now old \<longleftrightarrow> (now < old \<and> now < old - 0x8000) \<or> (old < now \<and> old < now - 0x8000)"

definition too_small :: "u64 \<Rightarrow> u64 \<Rightarrow> u64 \<Rightarrow> bool" where
  "too_small need now old \<longleftrightarrow> (need + EXTRA_SIZE1 < old \<and> now < need + EXTRA_SIZE1) \<or> old < need + EXTRA_SIZE1"

definition system_found ::
  "(question \<Rightarrow> bool) \<Rightarrow> WIN32_PARTITIONINFO \<Rightarrow> int \<Rightarrow> WIN32_PARTITIONINFO \<Rightarrow> search_state \<Rightarrow> bool \<times> search_state" where
  "system_found ask P j G st0 =
     (let now = TotalSectors G; old = TotalSectors P;
        rd = (gdata st0)\<lparr>destpartindex := j, PartCBootBegin := BootBegin G, PartCTotalSector := now,
          oldisk_c_small := (if now < old then 1 else if old < now then 2 else oldisk_c_small (gdata st0))\<rparr>;
        st = st0\<lparr>destdisk := uint (DiskNumber G), ifolddisk := 1, findc := True, gdata := rd\<rparr>;
        (back, st) = (if resized now old \<and> is_bitlocker G \<and> \<not> bForceRestorePartition rd
           then ask_force ask SIZE_CHANGE st else (False, st))
      in if back then (True, st)
         else if now < old - 0x8000 \<and> CurImageSyspartitionsize rd \<noteq> 0
         then if too_small (CurImageSyspartitionsize rd * of_nat BLOCK_SIZE) now old \<and> \<not> bForceRestorePartition (gdata st)
              then (True, give_up st)
              else (False, st\<lparr>gdata := (gdata st)\<lparr>needlimit := True\<rparr>\<rparr>)
         else (False, st))"

fun target_inner ::
  "(question \<Rightarrow> bool) \<Rightarrow> part_state \<Rightarrow> int \<Rightarrow> WIN32_PARTITIONINFO \<Rightarrow> int \<Rightarrow> WIN32_PARTITIONINFO list \<Rightarrow> search_state
   \<Rightarrow> (bool \<times> search_state) option" where
  "target_inner ask s sysdisk P j [] st = Some (False, st)"
| "target_inner ask s sysdisk P j (G # gs) st =
     (if sysdisk \<noteq> -1 \<and> uint (DiskNumber G) \<noteq> sysdisk then target_inner ask s sysdisk P (j + 1) gs st
      else if same_partition G P
      then do {
        let st = st\<lparr>ifolddisk := 1, findc := True\<rparr>;
        st \<leftarrow> (if bIfBackup P \<noteq> 0 \<and> destdisk st = -1
           then do {
             D \<leftarrow> disk_at s (uint (DiskNumber G));
             Some (st\<lparr>destdisk := if removable D then -1 else uint (DiskNumber G),
               gdata := (gdata st)\<lparr>destpartindex := j\<rparr>\<rparr>) }
           else Some st);
        Some (False, st) }
      else do {
        let st = (if HasWindows P = 1 \<and> \<not> findc st
          then st\<lparr>gdata := (gdata st)\<lparr>PartCBootBegin := BootBegin P, PartCTotalSector := TotalSectors P\<rparr>\<rparr> else st);
        let (back, st) = (if BootBegin G = BootBegin P \<and> HasWindows P = 1 then system_found ask P j G st else (False, st));
        if back then Some (True, st) else target_inner ask s sysdisk P (j + 1) gs st })"

fun target_outer ::
  "(question \<Rightarrow> bool) \<Rightarrow> part_state \<Rightarrow> int \<Rightarrow> int \<Rightarrow> WIN32_PARTITIONINFO list \<Rightarrow> WIN32_PARTITIONINFO list \<Rightarrow> search_state
   \<Rightarrow> (bool \<times> search_state) option" where
  "target_outer ask s backupdisk sysdisk gs [] st = Some (False, st)"
| "target_outer ask s backupdisk sysdisk gs (P # ps) st =
     (if backupdisk \<noteq> -1 \<and> uint (DiskNumber P) \<noteq> backupdisk \<and> bIfBackup P \<noteq> 0
      then target_outer ask s backupdisk sysdisk gs ps st
      else do {
        (back, st) \<leftarrow> target_inner ask s sysdisk P 0 gs st;
        if back then Some (True, st) else target_outer ask s backupdisk sysdisk gs ps st })"

fun target_search :: "part_state \<Rightarrow> u64 \<Rightarrow> int \<Rightarrow> int list \<Rightarrow> (int \<times> int) option" where
  "target_search s datasize candidate [] = Some (-1, candidate)"
| "target_search s datasize candidate (i # is) =
     do {
       D \<leftarrow> disk_at s i;
       if removable D \<or> curdisktype D = DISK_DATA then target_search s datasize candidate is
       else if \<not> formatted D \<and> totalsector D \<ge> datasize then Some (i, candidate)
       else target_search s datasize (if totalsector D \<ge> datasize \<and> candidate = -1 then i else candidate) is }"

fun system_disk :: "part_state \<Rightarrow> int list \<Rightarrow> int option" where
  "system_disk s [] = Some (-1)"
| "system_disk s (i # is) = do { D \<leftarrow> disk_at s i; if curdisktype D = DISK_SYSDISK then Some i else system_disk s is }"

text \<open>The part that looks for the old disk: whether to return \<open>FALSE\<close>, the state, and \<open>candidate\<close>.\<close>

definition find_old_disk ::
  "(question \<Rightarrow> bool) \<Rightarrow> part_state \<Rightarrow> OKR_HEADER \<Rightarrow> int \<Rightarrow> int \<Rightarrow> u64 \<Rightarrow> search_state \<Rightarrow> (bool \<times> search_state \<times> int) option" where
  "find_old_disk ask s H backupdisk sysdisk datasize st =
     do {
       gs \<leftarrow> used_partitions s;
       (back, st) \<leftarrow> target_outer ask s backupdisk sysdisk gs (hdr_Partition H) st;
       if back then Some (True, st, -1)
       else do {
         (dest, candidate) \<leftarrow> check_size s H datasize (destdisk st);
         let st = st\<lparr>destdisk := dest\<rparr>;
         locked \<leftarrow> IfExistBitlockerOnDisk s sysdisk;
         let (back, st) = (if \<not> bForceRestorePartition (gdata st) \<and> dest = -1 \<and> locked
           then ask_force ask BOOTPOS_CHANGE st else (False, st));
         Some (back, st, candidate) } }"

text \<open>The results are the value, \<open>*ifolddisk\<close> and the fields of \<open>g_data\<close>.\<close>

definition GetDestinationDisk ::
  "(question \<Rightarrow> bool) \<Rightarrow> u16 \<Rightarrow> restore_data \<Rightarrow> part_state \<Rightarrow> OKR_HEADER \<Rightarrow> (bool \<times> int \<times> restore_data) option" where
  "GetDestinationDisk ask disknum rd s H =
     do {
       let ps = hdr_Partition H;
       let disks = map int [0..<unat disknum];
       let backupdisk = (case find (\<lambda>P. bIfBackup P \<noteq> 0) ps of None \<Rightarrow> -1 | Some P \<Rightarrow> uint (DiskNumber P));
       sysdisk \<leftarrow> system_disk s disks;
       let datasize = data_size ps;
       let st = \<lparr>destdisk = -1, ifolddisk = -1, findc = False, gdata = rd\<lparr>oldisk_c_small := 0\<rparr>\<rparr>;
       (back, st, candidate) \<leftarrow>
         (if backupdisk \<noteq> -1 \<or> sysdisk \<noteq> -1 then find_old_disk ask s H backupdisk sysdisk datasize st
          else Some (False, st, -1));
       if back then Some (False, ifolddisk st, gdata st)
       else do {
         dest \<leftarrow> (if \<not> bIsAutoFunc (gdata st) \<and> destdisk st = -1
           then do {
             (dest, candidate) \<leftarrow> target_search s datasize candidate disks;
             Some (if dest = -1 then candidate else dest) }
           else Some (destdisk st));
         let rd = (gdata st)\<lparr>RecoverDiskNumber := of_int dest\<rparr>;
         if RecoverDiskNumber rd = -1 then Some (False, ifolddisk st, rd)
         else Some (True, if ifolddisk st = -1 then 2 else ifolddisk st, rd) } }"

definition CheckPartitionStartPosition :: "part_state \<Rightarrow> OKR_HEADER \<Rightarrow> bool option" where
  "CheckPartitionStartPosition s H =
     do { gs \<leftarrow> used_partitions s;
          Some (list_ex (\<lambda>P. HasWindows P = 1 \<and> list_ex (\<lambda>G. BootBegin G = BootBegin P) gs) (hdr_Partition H)) }"

definition CheckDestinationDisk :: "restore_data \<Rightarrow> bool \<times> restore_data" where
  "CheckDestinationDisk rd = (True, rd\<lparr>RecoverDiskNumber := of_int (selecteddisk rd)\<rparr>)"

end
