(* ===== verification/Okr_TargetCorrect.thy ===== *)
theory Okr_TargetCorrect
  imports Okr_Target Okr_TableCorrect
begin

text \<open>
  What the checks in front of a restore establish: the target disk has room for the data, a disk that
  is not the old one is no removable or data disk, and the decision about the partition table is the
  comparison of every saved partition with the one at its place. For a Linux image the target is never
  removable. The look-up of a disk that is too small leaves the list of disks.
\<close>

section \<open>Searching lists\<close>

lemma first_index_None: "first_index P xs = None \<longleftrightarrow> (\<forall>x \<in> set xs. \<not> P x)"
  by (induction xs) auto

lemma first_index_Some: "first_index P xs = Some i \<Longrightarrow> i < length xs \<and> P (xs ! i)"
  by (induction xs arbitrary: i) (auto split: if_splits)

lemma disk_at_range: "disk_at s i = Some D \<Longrightarrow> 0 \<le> i \<and> i < int (length (g_disklist s))"
  by (auto simp: disk_at_def split: if_splits)

lemma sint_small: "0 \<le> d \<Longrightarrow> d < 16 \<Longrightarrow> sint (of_int d :: byte) = d"
  by (simp add: signed_of_int signed_take_bit_int_eq_self)

section \<open>Room on the target\<close>

text \<open>No disk, or one with room for the data.\<close>

definition has_room :: "part_state \<Rightarrow> u64 \<Rightarrow> int \<Rightarrow> bool" where
  "has_room s datasize d \<longleftrightarrow> d = -1 \<or> (\<exists>D. disk_at s d = Some D \<and> datasize \<le> totalsector D)"

definition new_target :: "part_state \<Rightarrow> int \<Rightarrow> bool" where
  "new_target s d \<longleftrightarrow> d = -1 \<or> (\<exists>D. disk_at s d = Some D \<and> \<not> removable D \<and> curdisktype D \<noteq> DISK_DATA)"

lemma check_size_room:
  assumes "check_size s H datasize d = Some (d', c)"
  shows "has_room s datasize d'" "has_room s datasize c" "d = -1 \<Longrightarrow> d' = -1 \<and> c = -1"
  using assms by (auto simp: check_size_def has_room_def Let_def option_simps split: if_splits intro: less_imp_le)

lemma target_search_room:
  assumes "target_search s datasize c is = Some (d, c')" "has_room s datasize c"
  shows "has_room s datasize d \<and> has_room s datasize c'"
  using assms
proof (induction "is" arbitrary: c)
  case (Cons i "is")
  obtain D where D: "disk_at s i = Some D" using Cons.prems(1) by (auto simp: option_simps)
  have "has_room s datasize (if datasize \<le> totalsector D \<and> c = -1 then i else c)"
    using Cons.prems(2) D by (auto simp: has_room_def)
  with Cons D show ?case by (auto simp: has_room_def split: if_splits)
qed (auto simp: has_room_def)

lemma target_search_new:
  assumes "target_search s datasize c is = Some (d, c')" "new_target s c"
  shows "new_target s d \<and> new_target s c'"
  using assms
proof (induction "is" arbitrary: c)
  case (Cons i "is")
  obtain D where D: "disk_at s i = Some D" using Cons.prems(1) by (auto simp: option_simps)
  show ?case
  proof (cases "removable D \<or> curdisktype D = DISK_DATA")
    case True
    with Cons D show ?thesis by auto
  next
    case False
    with D have "new_target s i" by (simp add: new_target_def)
    moreover from this have "new_target s (if datasize \<le> totalsector D \<and> c = -1 then i else c)"
      using Cons.prems(2) by simp
    ultimately show ?thesis using Cons D False by (auto split: if_splits)
  qed
qed (auto simp: new_target_def)

section \<open>The loops over the partitions\<close>

text \<open>As long as no partition of the image was found, there is no target.\<close>

definition not_found_yet :: "search_state \<Rightarrow> bool" where
  "not_found_yet st \<longleftrightarrow> (ifolddisk st = -1 \<and> destdisk st = -1) \<or> ifolddisk st = 1"

lemma system_found_old: "system_found ask P j G st = (b, st') \<Longrightarrow> ifolddisk st' = 1"
  by (auto simp: system_found_def ask_force_def give_up_def Let_def split: if_splits prod.splits)

lemma target_inner_found:
  assumes "target_inner ask s sd P j gs st = Some (b, st')" "not_found_yet st"
  shows "not_found_yet st'"
  using assms
proof (induction gs arbitrary: j st)
  case (Cons G gs)
  show ?case
  proof (cases "(sd \<noteq> -1 \<and> uint (DiskNumber G) \<noteq> sd) \<or> same_partition G P")
    case True
    with Cons show ?thesis
      by (cases "sd \<noteq> -1 \<and> uint (DiskNumber G) \<noteq> sd") (auto simp: Let_def option_simps not_found_yet_def split: if_splits)
  next
    case False
    define st1 where "st1 = (if HasWindows P = 1 \<and> \<not> findc st
      then st\<lparr>gdata := (gdata st)\<lparr>PartCBootBegin := BootBegin P, PartCTotalSector := TotalSectors P\<rparr>\<rparr> else st)"
    obtain bk st2 where s2: "(if BootBegin G = BootBegin P \<and> HasWindows P = 1 then system_found ask P j G st1 else (False, st1)) = (bk, st2)"
      by fastforce
    have "not_found_yet st1" using Cons.prems(2) by (simp add: st1_def not_found_yet_def)
    with s2 have "not_found_yet st2"
      using system_found_old [of ask P j G st1 bk st2] by (auto simp: not_found_yet_def split: if_splits)
    moreover have "(if bk then Some (True, st2) else target_inner ask s sd P (j + 1) gs st2) = Some (b, st')"
      using Cons.prems(1) False s2 by (auto simp: Let_def st1_def split: if_splits)
    ultimately show ?thesis using Cons.IH by (auto split: if_splits)
  qed
qed simp

lemma target_outer_found:
  assumes "target_outer ask s bd sd gs ps st = Some (b, st')" "not_found_yet st"
  shows "not_found_yet st'"
  using assms
proof (induction ps arbitrary: st)
  case (Cons P ps)
  show ?case
  proof (cases "bd \<noteq> -1 \<and> uint (DiskNumber P) \<noteq> bd \<and> bIfBackup P \<noteq> 0")
    case True
    with Cons show ?thesis by simp
  next
    case False
    then obtain bk st2 where "target_inner ask s sd P 0 gs st = Some (bk, st2)"
      and r: "(if bk then Some (True, st2) else target_outer ask s bd sd gs ps st2) = Some (b, st')"
      using Cons.prems(1) by (auto simp: option_simps)
    then have "not_found_yet st2" using Cons.prems(2) target_inner_found by blast
    with r Cons.IH show ?thesis by (auto split: if_splits)
  qed
qed simp

lemma find_old_disk_facts:
  assumes r: "find_old_disk ask s H bd sd datasize st = Some (False, st', c)" and st: "not_found_yet st"
  shows "has_room s datasize (destdisk st')" "has_room s datasize c" "ifolddisk st' \<noteq> 1 \<Longrightarrow> ifolddisk st' = -1 \<and> destdisk st' = -1 \<and> c = -1"
proof -
  obtain gs where gs: "used_partitions s = Some gs"
    using r by (auto simp: find_old_disk_def option_simps)
  obtain bk st1 where o1: "target_outer ask s bd sd gs (hdr_Partition H) st = Some (bk, st1)"
    using r gs by (cases "target_outer ask s bd sd gs (hdr_Partition H) st") (auto simp: find_old_disk_def)
  have nb: "\<not> bk" using r gs o1 by (auto simp: find_old_disk_def)
  then have o: "target_outer ask s bd sd gs (hdr_Partition H) st = Some (False, st1)" using o1 by simp
  obtain d c1 where c1: "check_size s H datasize (destdisk st1) = Some (d, c1)"
    using r gs o by (cases "check_size s H datasize (destdisk st1)") (auto simp: find_old_disk_def)
  obtain locked where l: "IfExistBitlockerOnDisk s sd = Some locked"
    using r gs o c1 by (cases "IfExistBitlockerOnDisk s sd") (auto simp: find_old_disk_def Let_def)
  let ?f = "if \<not> bForceRestorePartition (gdata st1) \<and> d = -1 \<and> locked
      then ask_force ask BOOTPOS_CHANGE (st1\<lparr>destdisk := d\<rparr>) else (False, st1\<lparr>destdisk := d\<rparr>)"
  have f0: "(case ?f of (b, st) \<Rightarrow> Some (b, st, c1)) = Some (False, st', c)"
    using r gs o c1 l by (simp add: find_old_disk_def Let_def)
  then have c: "check_size s H datasize (destdisk st1) = Some (d, c)" and f: "?f = (False, st')"
    using c1 by (auto split: prod.splits)
  have st': "destdisk st' = d" "ifolddisk st' = ifolddisk st1"
    using f by (auto simp: ask_force_def split: if_splits)
  note room = check_size_room [OF c]
  show "has_room s datasize (destdisk st')" "has_room s datasize c" using room st' by simp_all
  have "not_found_yet st1" by (rule target_outer_found [OF o st])
  then show "ifolddisk st' = -1 \<and> destdisk st' = -1 \<and> c = -1" if "ifolddisk st' \<noteq> 1"
    using that st' room(3) by (auto simp: not_found_yet_def)
qed

section \<open>The target of a Linux image\<close>

definition fixed_disk :: "part_state \<Rightarrow> int \<Rightarrow> bool" where
  "fixed_disk s d \<longleftrightarrow> d = -1 \<or> (\<exists>D. disk_at s d = Some D \<and> \<not> removable D)"

lemma fixed_disk_marked:
  assumes "set_disk i (\<lambda>D. D\<lparr>datadisk := True\<rparr>) s = Some s'" "fixed_disk s d"
  shows "fixed_disk s' d"
  using assms by (auto simp: fixed_disk_def disk_at_def set_disk_def nth_list_update split: if_splits)

lemma linux_match_fixed:
  assumes "linux_match b P G d s = Some (d', s')" "fixed_disk s d"
  shows "fixed_disk s' d'"
proof -
  have "fixed_disk s' d" if "set_disk i (\<lambda>D. D\<lparr>datadisk := True\<rparr>) s = Some s'" for i
    using fixed_disk_marked that assms(2) by blast
  then show ?thesis using assms
    by (auto simp: linux_match_def option_simps fixed_disk_def split: if_splits)
qed

lemma linux_loop_fixed:
  "linux_loop b gs ps d s = Some (d', s') \<Longrightarrow> fixed_disk s d \<Longrightarrow> fixed_disk s' d'"
  by (induction ps arbitrary: d s) (auto simp: option_simps split: option.splits dest!: linux_match_fixed)

lemma check_size_fixed: "check_size s H n d = Some (d', c) \<Longrightarrow> fixed_disk s d \<Longrightarrow> fixed_disk s d' \<and> fixed_disk s c"
  by (auto simp: check_size_def fixed_disk_def Let_def option_simps split: if_splits)

lemma linux_exact_fixed: "linux_exact s H n c is = Some (d, c') \<Longrightarrow> fixed_disk s c \<Longrightarrow> fixed_disk s d \<and> fixed_disk s c'"
  by (induction "is" arbitrary: c) (auto simp: option_simps fixed_disk_def split: if_splits)

lemma linux_search_fixed:
  "linux_search s n d c is = Some (d', c') \<Longrightarrow> fixed_disk s d \<Longrightarrow> fixed_disk s c \<Longrightarrow> fixed_disk s d' \<and> fixed_disk s c'"
proof (induction "is" arbitrary: c)
  case (Cons i "is")
  obtain D where D: "disk_at s i = Some D" using Cons.prems(1) by (auto simp: option_simps)
  show ?case
  proof (cases "removable D \<or> datadisk D")
    case False
    with D have "fixed_disk s i" by (simp add: fixed_disk_def)
    then show ?thesis using Cons D False by (auto split: if_splits)
  qed (use Cons D in auto)
qed simp

text \<open>Whatever the image: a removable disk is never the target.\<close>

lemma GetDestinationDisk_Linux_fixed:
  assumes "GetDestinationDisk_Linux n rd s H = Some (True, rd', s')" "length (g_disklist s') \<le> 16"
  shows "\<exists>D. disk_at s' (sint (RecoverDiskNumber rd')) = Some D \<and> \<not> removable D"
proof -
  let ?disks = "map int [0..<unat n]" and ?ds = "data_size (hdr_Partition H)"
  define b where "b = (case find (\<lambda>P. bIfBackup P \<noteq> 0) (hdr_Partition H) of None \<Rightarrow> 0 | Some P \<Rightarrow> uint (DiskNumber P))"
  note r = assms(1) [unfolded GetDestinationDisk_Linux_def Let_def, folded b_def]
  obtain gs where gs: "used_partitions s = Some gs" using r by (auto simp: option_simps)
  obtain d1 s1 where l: "linux_loop b gs (hdr_Partition H) (-1) s = Some (d1, s1)"
    using r gs by (cases "linux_loop b gs (hdr_Partition H) (-1) s") auto
  obtain d2 c2 where c: "check_size s1 H ?ds d1 = Some (d2, c2)"
    using r gs l by (cases "check_size s1 H ?ds d1") auto
  let ?e = "if d2 = -1 then linux_exact s1 H ?ds c2 ?disks else Some (d2, c2)"
  obtain d3 c3 where e: "?e = Some (d3, c3)" using r gs l c by (cases ?e) auto
  let ?f = "if c3 = -1 then linux_search s1 ?ds d3 c3 ?disks else Some (d3, c3)"
  obtain d4 c4 where f: "?f = Some (d4, c4)"
    using r unfolding gs l c Option.bind.bind_lunit prod.case e by (cases ?f) auto
  let ?d = "if d4 = -1 then c4 else d4"
  have res: "rd' = rd\<lparr>RecoverDiskNumber := of_int ?d\<rparr>" "s' = s1" "(of_int ?d :: byte) \<noteq> -1"
    using r unfolding gs l c Option.bind.bind_lunit prod.case e f by auto
  have "fixed_disk s1 d1" by (rule linux_loop_fixed [OF l]) (simp add: fixed_disk_def)
  then have "fixed_disk s1 d2 \<and> fixed_disk s1 c2" by (rule check_size_fixed [OF c])
  then have "fixed_disk s1 d3 \<and> fixed_disk s1 c3" using e linux_exact_fixed by (auto split: if_splits)
  then have "fixed_disk s1 d4 \<and> fixed_disk s1 c4" using f linux_search_fixed by (auto split: if_splits)
  then have "fixed_disk s1 ?d" by simp
  moreover have "?d \<noteq> -1"
  proof
    assume "?d = -1"
    then have "(of_int ?d :: byte) = -1" by (simp only: of_int_minus of_int_1)
    then show False using res(3) by blast
  qed
  ultimately obtain D where D: "disk_at s1 ?d = Some D" "\<not> removable D" unfolding fixed_disk_def by blast
  have "sint (of_int ?d :: byte) = ?d"
    using disk_at_range [OF D(1)] assms(2) res(2) by (intro sint_small) auto
  then show ?thesis using D res(1,2) by simp
qed

section \<open>Examples\<close>

definition fresh_data :: restore_data where
  "fresh_data = \<lparr>RecoverDiskNumber = 0, bForceRestorePartition = False, bFactoryRestore = False, bIsAutoFunc = False,
     comefromnewhddface = 0, destdisktype = 0, selecteddisk = 0, CurImageSyspartitionsize = 0, PartCBootBegin = 0,
     PartCTotalSector = 0, needlimit = False, destpartindex = -1, oldisk_c_small = 0\<rparr>"

definition a_disk :: "u64 \<Rightarrow> byte \<Rightarrow> bool \<Rightarrow> DISKINFO" where
  "a_disk n t rem = \<lparr>totalsector = n, formatted = False, disk_guid = replicate 16 0, removable = rem, datadisk = False,
     curdisktype = t, isRAIDDisk = 0, raidDisksn = replicate 20 0\<rparr>"

definition a_system :: WIN32_PARTITIONINFO where
  "a_system = empty_partition\<lparr>BootBegin := 64, TotalSectors := 100, bIfBackup := 1, HasWindows := 1\<rparr>"

definition an_image :: OKR_HEADER where
  "an_image = \<lparr>hdr_Memo = [], hdr_Disksize = 2000, hdr_SourceDiskGUID = [], hdr_WinPartNtfsGuid = [], hdr_GptSize = 0,
     hdr_bGpt = 1, hdr_Partition = [a_system]\<rparr>"

definition with_disk :: "DISKINFO \<Rightarrow> WIN32_PARTITIONINFO list \<Rightarrow> part_state" where
  "with_disk D gs = blank_state\<lparr>g_disklist := [D], g_Partitions := gs, g_dwTotalPartitions := of_nat (length gs)\<rparr>"

text \<open>A system that was enlarged, on a removable disk: that disk is the target.\<close>

lemma GetDestinationDisk_removable:
  "map_option (\<lambda>(ok, old, rd). (ok, old, RecoverDiskNumber rd))
     (GetDestinationDisk (\<lambda>_. False) 1 fresh_data
       (with_disk (a_disk 2000 DISK_SYSDISK True) [a_system\<lparr>TotalSectors := 200\<rparr>]) an_image) = Some (True, 1, 0)"
  by code_simp

section \<open>Properties\<close>

text \<open>
  C10. When GetDestinationDisk succeeds, the disk that it chose is in the list and has at least as many
  sectors as the saved partitions together. A disk that is not recognised as the old one is neither
  removable nor a data disk, and is never chosen by an automatic restore.
\<close>

theorem GetDestinationDisk_room:
  assumes "GetDestinationDisk ask n rd s H = Some (True, old, rd')" "length (g_disklist s) \<le> 16"
  shows "\<exists>D. disk_at s (sint (RecoverDiskNumber rd')) = Some D \<and> data_size (hdr_Partition H) \<le> totalsector D \<and>
    (old = 2 \<longrightarrow> \<not> removable D \<and> curdisktype D \<noteq> DISK_DATA \<and> \<not> bIsAutoFunc rd')"
proof -
  let ?ds = "data_size (hdr_Partition H)" and ?disks = "map int [0..<unat n]"
  define bd where "bd = (case find (\<lambda>P. bIfBackup P \<noteq> 0) (hdr_Partition H) of None \<Rightarrow> -1 | Some P \<Rightarrow> uint (DiskNumber P))"
  define st0 where "st0 = \<lparr>destdisk = -1, ifolddisk = -1, findc = False, gdata = rd\<lparr>oldisk_c_small := 0\<rparr>\<rparr>"
  note r = assms(1) [unfolded GetDestinationDisk_def Let_def, folded bd_def st0_def]
  obtain sd where sd: "system_disk s ?disks = Some sd"
    using r by (auto simp: option_simps)
  define fnd where "fnd = (if bd \<noteq> -1 \<or> sd \<noteq> -1 then find_old_disk ask s H bd sd ?ds st0 else Some (False, st0, -1))"
  note r = r [unfolded sd Option.bind.bind_lunit, folded fnd_def]
  obtain b st c where F0: "fnd = Some (b, st, c)"
    using r by (cases fnd) auto
  have "\<not> b" using r by (auto simp: F0)
  then have F: "fnd = Some (False, st, c)" using F0 by simp
  let ?dest = "if \<not> bIsAutoFunc (gdata st) \<and> destdisk st = -1
    then do { (dest, candidate) \<leftarrow> target_search s ?ds c ?disks; Some (if dest = -1 then candidate else dest) }
    else Some (destdisk st)"
  obtain d where d: "?dest = Some d" using r by (cases ?dest) (auto simp: F)
  have res: "(of_int d :: byte) \<noteq> -1" "old = (if ifolddisk st = -1 then 2 else ifolddisk st)"
    "rd' = (gdata st)\<lparr>RecoverDiskNumber := of_int d\<rparr>"
    using r by (auto simp: F d split: if_splits)
  have st0: "not_found_yet st0" by (simp add: not_found_yet_def st0_def)
  have facts: "has_room s ?ds (destdisk st) \<and> has_room s ?ds c \<and>
    (ifolddisk st \<noteq> 1 \<longrightarrow> ifolddisk st = -1 \<and> destdisk st = -1 \<and> c = -1)"
  proof (cases "bd \<noteq> -1 \<or> sd \<noteq> -1")
    case True
    then have "find_old_disk ask s H bd sd ?ds st0 = Some (False, st, c)" using F by (simp add: fnd_def)
    from find_old_disk_facts [OF this st0] show ?thesis by blast
  next
    case False
    then have "st = st0 \<and> c = -1" using F by (auto simp: fnd_def)
    then show ?thesis by (simp add: st0_def has_room_def)
  qed
  have "has_room s ?ds d"
  proof (cases "\<not> bIsAutoFunc (gdata st) \<and> destdisk st = -1")
    case True
    obtain d' c' where t: "target_search s ?ds c ?disks = Some (d', c')"
      using d True by (cases "target_search s ?ds c ?disks") auto
    then have "d = (if d' = -1 then c' else d')" using d True by simp
    then show ?thesis using target_search_room [OF t] facts by simp
  next
    case False
    then have "d = destdisk st" using d unfolding if_not_P [OF False] by simp
    then show ?thesis using facts by simp
  qed
  moreover have "d \<noteq> -1" using res(1) by auto
  ultimately obtain D where D: "disk_at s d = Some D" "?ds \<le> totalsector D" by (auto simp: has_room_def)
  have "sint (RecoverDiskNumber rd') = d"
    using disk_at_range [OF D(1)] assms(2) by (simp add: res(3) sint_small)
  moreover have "\<not> removable D \<and> curdisktype D \<noteq> DISK_DATA \<and> \<not> bIsAutoFunc rd'" if "old = 2"
  proof -
    have "ifolddisk st \<noteq> 1" using res(2) that by auto
    then have n: "ifolddisk st = -1 \<and> destdisk st = -1 \<and> c = -1" using facts by blast
    have "d = destdisk st" if a: "bIsAutoFunc (gdata st)"
    proof -
      have "\<not> (\<not> bIsAutoFunc (gdata st) \<and> destdisk st = -1)" using a by simp
      from d [unfolded if_not_P [OF this]] show ?thesis by simp
    qed
    with n \<open>d \<noteq> -1\<close> have na: "\<not> bIsAutoFunc (gdata st)" by blast
    obtain d' c' where t: "target_search s ?ds c ?disks = Some (d', c')"
      using d n na by (cases "target_search s ?ds c ?disks") auto
    have d': "d = (if d' = -1 then c' else d')" using d t na n by simp
    have "new_target s d' \<and> new_target s c'" by (rule target_search_new [OF t]) (simp add: n new_target_def)
    then show ?thesis using d' na D(1) \<open>d \<noteq> -1\<close> by (auto simp: new_target_def res(3) split: if_splits)
  qed
  ultimately show ?thesis using D by blast
qed

lemma GetDestinationDisk_room_witness:
  "\<exists>D. disk_at (with_disk (a_disk 2000 2 False) []) (sint (RecoverDiskNumber fresh_data)) = Some D \<and>
    data_size (hdr_Partition an_image) \<le> totalsector D \<and>
    (2 = (2 :: int) \<longrightarrow> \<not> removable D \<and> curdisktype D \<noteq> DISK_DATA \<and> \<not> bIsAutoFunc fresh_data)"
proof (rule GetDestinationDisk_room)
  show "GetDestinationDisk (\<lambda>_. False) 1 fresh_data (with_disk (a_disk 2000 2 False) []) an_image = Some (True, 2, fresh_data)"
    by code_simp
qed code_simp

text \<open>
  C39. When the disk on which the partitions of the image were found is no larger than the saved data,
  GetDestinationDisk has set destdisk to -1 and looks up the size of that disk once more: it reads in
  front of the list of disks.
\<close>

theorem GetDestinationDisk_small_disk:
  assumes "find (\<lambda>P. bIfBackup P \<noteq> 0) (hdr_Partition H) = Some P" "used_partitions s = Some gs"
    and "system_disk s (map int [0..<unat n]) = Some sd"
    and "target_outer ask s (uint (DiskNumber P)) sd gs (hdr_Partition H)
      \<lparr>destdisk = -1, ifolddisk = -1, findc = False, gdata = rd\<lparr>oldisk_c_small := 0\<rparr>\<rparr> = Some (False, st)"
    and "disk_at s (destdisk st) = Some D" "totalsector D \<le> data_size (hdr_Partition H)"
  shows "GetDestinationDisk ask n rd s H = None"
proof -
  have "0 \<le> destdisk st" using disk_at_range [OF assms(5)] by simp
  then have "destdisk st \<noteq> -1" by simp
  then have "check_size s H (data_size (hdr_Partition H)) (destdisk st) = None"
    using assms(5,6) by (simp add: check_size_def disk_at_def)
  moreover have "uint (DiskNumber P) \<noteq> -1" using uint_nonnegative [of "DiskNumber P"] by linarith
  ultimately show ?thesis
    using assms(1-4) by (simp add: GetDestinationDisk_def find_old_disk_def Let_def)
qed

lemma GetDestinationDisk_small_disk_witness:
  "GetDestinationDisk (\<lambda>_. False) 1 fresh_data (with_disk (a_disk 90 DISK_SYSDISK False) [a_system]) an_image = None"
proof (rule GetDestinationDisk_small_disk)
  show "target_outer (\<lambda>_. False) (with_disk (a_disk 90 DISK_SYSDISK False) [a_system]) (uint (DiskNumber a_system)) 0 [a_system]
      (hdr_Partition an_image) \<lparr>destdisk = -1, ifolddisk = -1, findc = False, gdata = fresh_data\<lparr>oldisk_c_small := 0\<rparr>\<rparr>
    = Some (False, \<lparr>destdisk = 0, ifolddisk = 1, findc = True, gdata = fresh_data\<lparr>destpartindex := 0\<rparr>\<rparr>)"
    by code_simp
  show "disk_at (with_disk (a_disk 90 DISK_SYSDISK False) [a_system])
      (destdisk \<lparr>destdisk = 0, ifolddisk = 1, findc = True, gdata = fresh_data\<lparr>destpartindex := 0\<rparr>\<rparr>)
    = Some (a_disk 90 DISK_SYSDISK False)"
    by (simp add: disk_at_def with_disk_def)
qed code_simp+

text \<open>
  The first decision: without force, and with at most one partition at a place of the target disk,
  the restore is given up when a saved partition has no partition at its place, and the table counts as
  unchanged when every saved partition is at its place with its identifier, size and table position.
  What follows from it is in \<open>Okr_TableStep\<close>.
\<close>

lemma table_decision_exact:
  assumes "used_partitions s = Some gs" "\<not> bFactoryRestore rd" "\<not> table_forced rd"
    and one: "\<forall>G \<in> set gs. \<forall>G' \<in> set gs. BootBegin G = BootBegin G' \<and> DiskNumber G = DiskNumber G' \<longrightarrow> G = G'"
  shows "\<exists>r. table_decision rd s H = Some (rd, r) \<and>
    (r = None \<longleftrightarrow> (\<exists>P \<in> set (hdr_Partition H). bIfBackup P \<noteq> 0 \<and> (\<forall>G \<in> set gs. \<not> same_place rd P G))) \<and>
    (r = Some False \<longleftrightarrow> (\<forall>P \<in> set (hdr_Partition H). bIfBackup P \<noteq> 0 \<longrightarrow>
      (\<exists>G \<in> set gs. same_place rd P G \<and> UniGuid G = UniGuid P \<and> TotalSectors G = TotalSectors P \<and>
        PartitionTableBegin G = PartitionTableBegin P)))"
proof -
  let ?ps = "hdr_Partition H"
  let ?same = "\<lambda>P G. UniGuid G = UniGuid P \<and> TotalSectors G = TotalSectors P \<and> PartitionTableBegin G = PartitionTableBegin P"
  have nf: "\<not> bForceRestorePartition rd" using assms(3) by (simp add: table_forced_def)
  have miss: "missing_part rd gs P \<longleftrightarrow> bIfBackup P \<noteq> 0 \<and> (\<forall>G \<in> set gs. \<not> same_place rd P G)" for P
    by (simp add: missing_part_def first_index_None)
  have chg: "changed_part rd gs P \<longleftrightarrow> bIfBackup P \<noteq> 0 \<and> \<not> (\<exists>G \<in> set gs. same_place rd P G \<and> ?same P G)" for P
  proof (cases "first_index (same_place rd P) gs")
    case None
    then have "\<forall>G \<in> set gs. \<not> same_place rd P G" by (simp add: first_index_None)
    with None show ?thesis by (auto simp: changed_part_def)
  next
    case (Some j)
    note j = first_index_Some [OF this]
    have "G = gs ! j" if "G \<in> set gs" "same_place rd P G" for G
    proof -
      have "DiskNumber G = DiskNumber (gs ! j)" "BootBegin G = BootBegin (gs ! j)"
        using that(2) j by (simp_all add: same_place_def word_uint_eq_iff)
      then show ?thesis using one that(1) j nth_mem by blast
    qed
    then have "(\<exists>G \<in> set gs. same_place rd P G \<and> ?same P G) \<longleftrightarrow> ?same P (gs ! j)"
      using j nth_mem [of j gs] by blast
    then show ?thesis using Some by (auto simp: changed_part_def)
  qed
  have sub: "missing_part rd gs P \<Longrightarrow> changed_part rd gs P" for P by (auto simp: miss chg)
  show ?thesis
  proof (cases "list_ex (missing_part rd gs) ?ps")
    case True
    then have "table_decision rd s H = Some (rd, None)"
      using assms(1-3) nf by (simp add: table_decision_def IfNeedRecoverPartTable_delete_def)
    moreover obtain P where "P \<in> set ?ps" "missing_part rd gs P" using True by (auto simp: list_ex_iff)
    ultimately show ?thesis using miss by blast
  next
    case False
    then have no: "\<not> (\<exists>P \<in> set ?ps. bIfBackup P \<noteq> 0 \<and> (\<forall>G \<in> set gs. \<not> same_place rd P G))"
      by (auto simp: list_ex_iff miss)
    have "table_decision rd s H = Some (rd, Some (first_index (changed_part rd gs) ?ps \<noteq> None))"
      using assms(1-3) nf False
      by (auto simp: table_decision_def IfNeedRecoverPartTable_delete_def IfNeedRecoverPartTable_def split: option.split)
    moreover have "first_index (changed_part rd gs) ?ps = None \<longleftrightarrow> (\<forall>P \<in> set ?ps. bIfBackup P \<noteq> 0 \<longrightarrow>
        (\<exists>G \<in> set gs. same_place rd P G \<and> ?same P G))"
      by (auto simp: first_index_None chg)
    ultimately show ?thesis using no by auto
  qed
qed

lemma table_decision_exact_witness:
  "\<exists>r. table_decision fresh_data (with_disk (a_disk 2000 DISK_SYSDISK False) [a_system]) an_image = Some (fresh_data, r) \<and>
    (r = None \<longleftrightarrow> (\<exists>P \<in> set (hdr_Partition an_image). bIfBackup P \<noteq> 0 \<and> (\<forall>G \<in> set [a_system]. \<not> same_place fresh_data P G))) \<and>
    (r = Some False \<longleftrightarrow> (\<forall>P \<in> set (hdr_Partition an_image). bIfBackup P \<noteq> 0 \<longrightarrow>
      (\<exists>G \<in> set [a_system]. same_place fresh_data P G \<and> UniGuid G = UniGuid P \<and> TotalSectors G = TotalSectors P \<and>
        PartitionTableBegin G = PartitionTableBegin P)))"
  by (rule table_decision_exact) (simp_all add: used_partitions_def with_disk_def fresh_data_def table_forced_def)

end
