(* ===== verification/Okr_TableStep.thy ===== *)
theory Okr_TableStep
  imports Okr_TargetCorrect Okr_Pipeline
begin

text \<open>
  What a restore does with the partition table of the target disk: the part of \<open>Recover\<close> in
  \<^verbatim>\<open>src/OkrPkg/okrefi/func.c\<close> from the comparison of the tables to the loop over the partitions.
  \<open>bPartitionChanged\<close> is computed, compared with the disk that was found, overridden and computed again
  from the MBR; \<open>needrecover\<close> says whether sectors are written at all, and a table that is the same
  only gets its boot code back.

  The decompression buffer \<open>g_lz4_buffer\<close> holds the saved table at 0 and the sector 0 of the disk at
  \<open>0x100000\<close>. \<open>ask\<close> are the answers of the user, \<open>valid\<close> the result of \<open>ValidImageCheckValue\<close>, \<open>opened\<close>
  the image after it was opened again and positioned behind its header, \<open>None\<close> when that failed, and
  \<open>fr\<close> reads from it. \<open>olddisk\<close> is what \<open>GetDestinationDisk\<close> returned. The property at the end is that a
  restore to the old disk without force leaves the partition table and the partitions alone.
\<close>

section \<open>The step as the code has it\<close>

datatype table_question = R_SYS_HINT | RECOVER_NEW_DISK_WARNING | PARTITION_CHANGED_FORCE_WARNING

text \<open>\<open>goto Done\<close>, with the error that was set; or going on, with \<open>bPartitionChanged\<close>.\<close>

datatype table_end = GiveUp "dwErrorCode option" | GoOn bool

definition recover_disk :: "restore_data \<Rightarrow> u16" where
  "recover_disk rd = scast (RecoverDiskNumber rd)"

text \<open>The checks on a disk that was found: the serial number of the volume with Windows, and for a
  table that changed the place of that partition and the identifier of the disk.\<close>

definition same_windows :: "'d disk_env \<Rightarrow> 'd \<Rightarrow> restore_data \<Rightarrow> part_state \<Rightarrow> OKR_HEADER \<Rightarrow> bool option" where
  "same_windows env d rd s H =
     do {
       gs \<leftarrow> used_partitions s;
       (case find (\<lambda>G. HasWindows G \<noteq> 0 \<and> uint (DiskNumber G) = sint (RecoverDiskNumber rd)) gs of
          None \<Rightarrow> Some True
        | Some G \<Rightarrow> do {
            (ok, ntfsbuff) \<leftarrow> DiskRead env d (recover_disk rd) (BootBegin G) 1 (replicate 512 0) 0;
            if \<not> ok then Some True
            else do { serial \<leftarrow> slice ntfsbuff 0x48 8; Some (take 8 (hdr_WinPartNtfsGuid H) = serial) } }) }"

definition old_disk_check ::
  "'d disk_env \<Rightarrow> 'd \<Rightarrow> restore_data \<Rightarrow> part_state \<Rightarrow> OKR_HEADER \<Rightarrow> bool \<Rightarrow> int \<Rightarrow> bool \<Rightarrow> bool option" where
  "old_disk_check env d rd s H OldImage olddisk changed =
     (if comefromnewhddface rd = 0 \<and> (olddisk = 2 \<or> olddisk = 1) \<and> \<not> OldImage \<and> \<not> bForceRestorePartition rd
      then do {
        same \<leftarrow> same_windows env d rd s H;
        if \<not> same then Some False
        else if \<not> changed then Some True
        else do {
          start \<leftarrow> CheckPartitionStartPosition s H;
          if \<not> start then Some False
          else do { D \<leftarrow> disk_at s (sint (RecoverDiskNumber rd)); Some (hdr_SourceDiskGUID H = disk_guid D) } } }
      else Some True)"

definition user_agrees :: "(table_question \<Rightarrow> bool) \<Rightarrow> restore_data \<Rightarrow> bool" where
  "user_agrees ask rd =
     (if comefromnewhddface rd = 0
      then (\<not> bForceRestorePartition rd \<and> \<not> bIsAutoFunc rd \<longrightarrow> ask R_SYS_HINT)
      else comefromnewhddface rd = 1 \<longrightarrow>
        (destdisktype rd = NEW_FOUND_DISK \<longrightarrow> ask RECOVER_NEW_DISK_WARNING) \<and>
        (destdisktype rd = uint DISK_SYSDISK \<and> \<not> bIsAutoFunc rd \<longrightarrow> ask R_SYS_HINT))"

definition chosen_disk :: "int \<Rightarrow> restore_data \<Rightarrow> bool" where
  "chosen_disk t rd \<longleftrightarrow> destdisktype rd = t \<and> comefromnewhddface rd = 1"

definition override_changed :: "restore_data \<Rightarrow> bool \<Rightarrow> restore_data \<times> bool" where
  "override_changed rd changed =
     (let (rd, changed) = (if chosen_disk NEW_FOUND_DISK rd then (rd\<lparr>bForceRestorePartition := True\<rparr>, True) else (rd, changed))
      in (rd, if chosen_disk (uint DISK_SYSDISK) rd then False else changed))"

definition need_recover :: "restore_data \<Rightarrow> int \<Rightarrow> bool \<Rightarrow> bool \<Rightarrow> bool \<Rightarrow> bool" where
  "need_recover rd olddisk changed gpt_disk gpt_image =
     (let need = \<not> (changed \<and> comefromnewhddface rd = 0 \<and> olddisk = 1);
        need = (if \<not> gpt_disk \<and> gpt_image then True else need);
        need = (if gpt_disk \<and> \<not> gpt_image then True else need);
        need = (if comefromnewhddface rd = 0 \<and> bForceRestorePartition rd then True else need);
        need = (if chosen_disk NEW_FOUND_DISK rd then True else need)
      in if chosen_disk (uint DISK_SYSDISK) rd then False else need)"

text \<open>How many sectors are written, and the buffer they are written from.\<close>

definition boot_code_only ::
  "restore_data \<Rightarrow> part_state \<Rightarrow> OKR_HEADER \<Rightarrow> bool \<Rightarrow> buf \<Rightarrow> (u32 \<times> buf) option" where
  "boot_code_only rd s H changed mem =
     (let number = hdr_GptSize H div 512 in
      if \<not> changed \<and> \<not> bFactoryRestore rd
      then do {
        gpt \<leftarrow> IsGptSystem s (recover_disk rd);
        if hdr_bGpt H \<noteq> 0 \<or> gpt \<or> number = 0 then Some (0, mem)
        else do {
          entries \<leftarrow> slice mem (0x100000 + 0x1be) 0x40;
          mem \<leftarrow> put mem 0x1be entries;
          firstsector \<leftarrow> GetFirstPartitionBeginSector s (recover_disk rd);
          Some (if firstsector \<noteq> 0 \<and> ucast number > firstsector then ucast firstsector else number, mem) } }
      else Some (number, mem))"

definition write_table ::
  "'d disk_env \<Rightarrow> 'd \<Rightarrow> restore_data \<Rightarrow> part_state \<Rightarrow> OKR_HEADER \<Rightarrow> bool \<Rightarrow> buf \<Rightarrow> ('d \<times> buf \<times> table_end) option" where
  "write_table env d rd s H changed mem =
     do {
       (number, mem) \<leftarrow> boot_code_only rd s H changed mem;
       if number = 0 then Some (d, mem, GoOn changed)
       else do {
         (ok, d) \<leftarrow> DiskWrite env d (recover_disk rd) 0 number mem 0;
         Some (d, mem, if ok then GoOn changed else GiveUp (Some OKR_ERROR_WRITE_GPT)) } }"

text \<open>The questions about a changed table on a disk that is not the old one.\<close>

definition unmatched ::
  "(table_question \<Rightarrow> bool) \<Rightarrow> restore_data \<Rightarrow> int \<Rightarrow> bool \<Rightarrow> bool" where
  "unmatched ask rd olddisk changed \<longleftrightarrow> changed \<and> comefromnewhddface rd = 0 \<and> olddisk = 0 \<and>
     (bForceRestorePartition rd \<longrightarrow> \<not> ask PARTITION_CHANGED_FORCE_WARNING)"

definition restore_table ::
  "'d disk_env \<Rightarrow> (table_question \<Rightarrow> bool) \<Rightarrow> ('f \<Rightarrow> nat \<Rightarrow> (bool \<times> buf \<times> 'f) option) \<Rightarrow> 'f \<Rightarrow> restore_data
   \<Rightarrow> part_state \<Rightarrow> OKR_HEADER \<Rightarrow> int \<Rightarrow> bool \<Rightarrow> 'd \<Rightarrow> buf \<Rightarrow> ('d \<times> buf \<times> table_end) option" where
  "restore_table env ask fr f rd s H olddisk changed d mem =
     do {
       (ok, table, _) \<leftarrow> fr f (unat (hdr_GptSize H));
       mem \<leftarrow> put mem 0 table;
       if \<not> ok \<or> length table \<noteq> unat (hdr_GptSize H) then Some (d, mem, GiveUp (Some OKR_ERROR_READ_FILE))
       else do {
         (ok, mem) \<leftarrow> DiskRead env d (recover_disk rd) 0 1 mem 0x100000;
         if \<not> ok then Some (d, mem, GiveUp (Some OKR_ERROR_READ_DISK))
         else do {
           changed \<leftarrow> (if \<not> changed \<and> hdr_bGpt H = 0 then RecheckPartitionTable rd H (drop 0x100000 mem) mem else Some changed);
           if unmatched ask rd olddisk changed then Some (d, mem, GiveUp (Some OKR_ERROR_UNMATCHED_PARTITION))
           else do {
             gpt \<leftarrow> IsGptSystem s (recover_disk rd);
             let need = need_recover rd olddisk changed gpt (hdr_bGpt H \<noteq> 0);
             let changed = (if comefromnewhddface rd = 0 \<and> bForceRestorePartition rd then True else changed);
             if need then write_table env d rd s H changed mem else Some (d, mem, GoOn changed) } } } }"

definition table_step ::
  "'d disk_env \<Rightarrow> (table_question \<Rightarrow> bool) \<Rightarrow> bool \<Rightarrow> 'f option \<Rightarrow> ('f \<Rightarrow> nat \<Rightarrow> (bool \<times> buf \<times> 'f) option)
   \<Rightarrow> restore_data \<Rightarrow> part_state \<Rightarrow> OKR_HEADER \<Rightarrow> bool \<Rightarrow> int \<Rightarrow> 'd \<Rightarrow> buf \<Rightarrow> (restore_data \<times> 'd \<times> buf \<times> table_end) option" where
  "table_step env ask valid opened fr rd s H OldImage olddisk d mem =
     do {
       (rd, decision) \<leftarrow> table_decision rd s H;
       (case decision of
          None \<Rightarrow> Some (rd, d, mem, GiveUp None)
        | Some changed \<Rightarrow> do {
            ok \<leftarrow> old_disk_check env d rd s H OldImage olddisk changed;
            if \<not> (ok \<and> user_agrees ask rd \<and> valid) then Some (rd, d, mem, GiveUp None)
            else let (rd, changed) = override_changed rd changed in
              (case opened of
                 None \<Rightarrow> Some (rd, d, mem, GiveUp (Some OKR_ERROR_OPEN_FILE))
               | Some f \<Rightarrow> do {
                   (d, mem, r) \<leftarrow> restore_table env ask fr f rd s H olddisk changed d mem;
                   Some (rd, d, mem, r) }) }) }"

section \<open>Boot code without the table\<close>

text \<open>The saved sectors with the partition entries of the sector 0 of the disk.\<close>

definition kept_entries :: "buf \<Rightarrow> buf \<Rightarrow> buf" where
  "kept_entries table sector = take 0x1be table @ take 0x40 (drop 0x1be sector) @ drop 0x1fe table"

lemma read_sector:
  assumes "reads_sectors env sec k secs" "k < g_disknum env" "unat lba < secs" "at + 512 \<le> length mem"
  shows "DiskRead env d k lba 1 mem at = Some (True, take at mem @ sec d k (unat lba) @ drop (at + 512) mem)"
proof -
  have "ReadBlocks env d k lba 512 = Some (sec d k (unat lba))"
    using assms(1) [unfolded reads_sectors_def, THEN conjunct2, rule_format, of 1 lba d] assms(3) by simp
  moreover have "length (sec d k (unat lba)) = 512" using assms(1) by (simp add: reads_sectors_def)
  ultimately show ?thesis using assms(2,4) by (simp add: DiskRead_def put_def)
qed

lemma boot_code_only_mbr:
  assumes "\<not> bFactoryRestore rd" "hdr_bGpt H = 0" "IsGptSystem s (recover_disk rd) = Some False"
    and "GetFirstPartitionBeginSector s (recover_disk rd) = Some first" "first \<noteq> 0"
    and "length table = unat (hdr_GptSize H)" "length table \<le> 0x100000" "length sector = 512"
    and "take 0x100000 mem = table @ gap" "take 512 (drop 0x100000 mem) = sector" "0x100200 \<le> length mem"
  shows "\<exists>number mem'. boot_code_only rd s H False mem = Some (number, mem') \<and> length mem' = length mem \<and>
    unat number = min (unat (hdr_GptSize H) div 512) (unat first) \<and>
    take (512 * unat number) mem' = take (512 * unat number) (kept_entries table sector)"
proof (cases "hdr_GptSize H div 512 = 0")
  case True
  have "boot_code_only rd s H False mem = Some (0, mem)"
    using assms(1-3) unfolding boot_code_only_def Let_def True by simp
  moreover have "unat (hdr_GptSize H) div 512 = 0" using arg_cong [OF True, of unat] unfolding unat_div_distrib by simp
  ultimately show ?thesis by simp
next
  case False
  let ?n = "hdr_GptSize H div 512"
  have n: "unat ?n = unat (hdr_GptSize H) div 512" by simp
  then have "unat (hdr_GptSize H) div 512 \<noteq> 0" using False by (metis unat_eq_0)
  then have len: "512 \<le> length table" using assms(6) by simp
  have mem: "mem = table @ gap @ drop 0x100000 mem" using assms(9) by (metis append.assoc append_take_drop_id)
  have sl: "slice mem (0x100000 + 0x1be) 0x40 = Some (take 0x40 (drop 0x1be sector))"
    using assms(11) unfolding assms(10) [symmetric] by (simp add: slice_def drop_take add.commute)
  have "put (table @ t) 0x1be (take 0x40 (drop 0x1be sector)) = Some (kept_entries table sector @ t)" for t
    using len assms(8) by (simp add: put_def kept_entries_def)
  then have "put mem 0x1be (take 0x40 (drop 0x1be sector)) = Some (kept_entries table sector @ gap @ drop 0x100000 mem)"
    by (metis mem)
  with sl have b: "boot_code_only rd s H False mem =
      Some (if ucast ?n > first then ucast first else ?n, kept_entries table sector @ gap @ drop 0x100000 mem)"
    using assms(1-5) False by (simp add: boot_code_only_def Let_def)
  have l: "length (kept_entries table sector) = length table" using len assms(8) by (simp add: kept_entries_def)
  have u: "unat (ucast ?n :: u64) = unat ?n" by simp
  have m: "unat (if ucast ?n > first then ucast first else ?n) = min (unat (hdr_GptSize H) div 512) (unat first)"
  proof (cases "ucast ?n > first")
    case True
    then have "unat first < unat ?n" using u by (simp add: word_less_nat_alt)
    moreover from this have "unat (ucast first :: u32) = unat first"
      using unsigned_less [of ?n, where 'a = nat] by (simp add: unsigned_ucast_eq take_bit_nat_eq_self)
    ultimately show ?thesis using True n by simp
  next
    case False
    then have "unat ?n \<le> unat first" using u by (simp add: word_less_nat_alt)
    then show ?thesis using False n by simp
  qed
  have "512 * min (unat (hdr_GptSize H) div 512) (unat first) \<le> length table" unfolding assms(6) by linarith
  moreover have "length (kept_entries table sector @ gap @ drop 0x100000 mem) = length mem"
    unfolding length_append l by (subst mem) simp
  ultimately show ?thesis unfolding b using m l by simp
qed


lemma write_table_mbr:
  assumes dev: "reads_sectors env sec k secs" "writes_sectors env sec k secs" "k < g_disknum env" "k = recover_disk rd"
    and rd: "\<not> bFactoryRestore rd" "hdr_bGpt H = 0" "IsGptSystem s (recover_disk rd) = Some False"
    and first: "GetFirstPartitionBeginSector s (recover_disk rd) = Some first" "first \<noteq> 0"
    and table: "length table = unat (hdr_GptSize H)" "length table \<le> 0x100000" "unat (hdr_GptSize H) div 512 \<le> secs"
    and mem: "take 0x100000 mem = table @ gap" "take 512 (drop 0x100000 mem) = sec d k 0" "0x100200 \<le> length mem"
  shows "\<exists>d' mem'. write_table env d rd s H False mem = Some (d', mem', GoOn False) \<and>
    sec d' k = store_sectors (sec d k) 0
      (take (512 * min (unat (hdr_GptSize H) div 512) (unat first)) (kept_entries table (sec d k 0)))"
proof -
  let ?n = "min (unat (hdr_GptSize H) div 512) (unat first)"
  have len: "length (sec d k 0) = 512" using dev(1) by (simp add: reads_sectors_def)
  obtain number mem' where b: "boot_code_only rd s H False mem = Some (number, mem')" "length mem' = length mem"
      "unat number = ?n" "take (512 * unat number) mem' = take (512 * unat number) (kept_entries table (sec d k 0))"
    using boot_code_only_mbr [OF rd first table(1,2) len mem] by blast
  show ?thesis
  proof (cases "number = 0")
    case True
    then have "store_sectors (sec d k) 0 (take (512 * ?n) xs) = sec d k" for xs using b(3) unfolding True by (simp add: store_sectors_def fun_eq_iff)
    then show ?thesis using True b(1) by (simp add: write_table_def)
  next
    case False
    let ?bytes = "take (512 * ?n) (kept_entries table (sec d k 0))"
    have n: "0 < ?n" "?n \<le> 2048" "?n \<le> secs" "512 * ?n \<le> length mem"
      using b(3) table mem(3) unat_eq_zero [of number] False by (metis gr0I, linarith+)
    then have u: "unat (512 * number) = 512 * ?n" using b(3) by (simp add: unat_word_ariths)
    then have sl: "slice mem' 0 (unat (512 * number)) = Some ?bytes"
      using b(2-4) n(4) by (simp add: slice_def)
    have eq: "?bytes = take (512 * ?n) mem'" using b(3,4) by simp
    have "length ?bytes = 512 * ?n" unfolding eq using n(4) b(2) by simp
    then obtain d' where d': "WriteBlocks env d k 0 ?bytes = (d', True)" "sec d' k = store_sectors (sec d k) 0 ?bytes"
      using dev(2) [unfolded writes_sectors_def, rule_format, of ?bytes 0 d] n by auto
    then show ?thesis using False b(1) sl dev(3,4) by (simp add: write_table_def DiskWrite_def)
  qed
qed

lemma kept_entries_safe:
  assumes "length sector = 512" "n = 0 \<or> 512 \<le> length table" "f 0 = sector"
  shows "take 0x40 (drop 0x1be (store_sectors f 0 (take (512 * n) (kept_entries table sector)) 0)) = take 0x40 (drop 0x1be (f 0))"
    "n \<le> i \<Longrightarrow> store_sectors f 0 (take (512 * n) (kept_entries table sector)) i = f i"
proof -
  show "take 0x40 (drop 0x1be (store_sectors f 0 (take (512 * n) (kept_entries table sector)) 0)) = take 0x40 (drop 0x1be (f 0))"
  proof (cases "n = 0")
    case False
    then have "512 \<le> length table" "512 \<le> 512 * n" using assms(2) by auto
    then show ?thesis using assms(1,3) by (simp add: store_sectors_def kept_entries_def drop_take)
  qed (simp add: store_sectors_def)
  have "length (take (512 * n) (kept_entries table sector)) div 512 \<le> n" by simp
  then show "n \<le> i \<Longrightarrow> store_sectors f 0 (take (512 * n) (kept_entries table sector)) i = f i"
    by (simp add: store_sectors_def del: length_take)
qed


section \<open>The step returns\<close>

lemma recheck_entries_total:
  "\<lbrakk>\<forall>i \<in> set is. i < 4; 512 \<le> length Mbr; 512 \<le> length BackupMbr\<rbrakk> \<Longrightarrow> \<exists>r. recheck_entries H Mbr BackupMbr is = Some r"
proof (induction "is")
  case (Cons i "is")
  have "\<exists>x. rd32 m (0x1be + 16 * i + 8) = Some x" "\<exists>x. rd32 m (0x1be + 16 * i + 12) = Some x" if "512 \<le> length m" for m
    using that Cons.prems(1) by (simp_all add: rd32_def rd_le_def)
  from this [OF Cons.prems(2)] this [OF Cons.prems(3)] show ?case using Cons by auto
qed auto

lemma table_decision_total:
  assumes "used_partitions s = Some gs" "\<not> bFactoryRestore rd" "\<not> bForceRestorePartition rd"
  shows "\<exists>r. table_decision rd s H = Some (rd, r)"
  using assms by (auto simp: table_decision_def IfNeedRecoverPartTable_delete_def IfNeedRecoverPartTable_def split: prod.split)

lemma old_disk_check_total:
  assumes dev: "reads_sectors env sec (recover_disk rd) secs" "recover_disk rd < g_disknum env"
    and parts: "used_partitions s = Some gs" "disk_at s (sint (RecoverDiskNumber rd)) = Some D"
    and inside: "\<forall>G \<in> set gs. uint (DiskNumber G) = sint (RecoverDiskNumber rd) \<longrightarrow> unat (BootBegin G) < secs"
  shows "\<exists>ok. old_disk_check env d rd s H OldImage olddisk changed = Some ok"
proof -
  have "\<exists>same. same_windows env d rd s H = Some same"
  proof (cases "find (\<lambda>G. HasWindows G \<noteq> 0 \<and> uint (DiskNumber G) = sint (RecoverDiskNumber rd)) gs")
    case None
    then show ?thesis using parts(1) by (intro exI [of _ True]) (simp add: same_windows_def)
  next
    case (Some G)
    then have "unat (BootBegin G) < secs" using inside by (auto simp: find_Some_iff)
    from read_sector [OF dev this, of 0 "replicate 512 0"]
    have "DiskRead env d (recover_disk rd) (BootBegin G) 1 (replicate 512 0) 0 = Some (True, sec d (recover_disk rd) (unat (BootBegin G)))" by simp
    moreover have "length (sec d (recover_disk rd) (unat (BootBegin G))) = 512" using dev(1) by (simp add: reads_sectors_def)
    ultimately show ?thesis using Some parts(1) by (simp add: same_windows_def slice_def)
  qed
  then show ?thesis using parts by (auto simp: old_disk_check_def CheckPartitionStartPosition_def)
qed

lemma restore_table_old_disk:
  assumes dev: "reads_sectors env sec k secs" "writes_sectors env sec k secs" "k < g_disknum env" "k = recover_disk rd" "0 < secs"
    and rd: "comefromnewhddface rd = 0" "\<not> bForceRestorePartition rd" "\<not> bFactoryRestore rd"
    and kind: "IsGptSystem s (recover_disk rd) = Some (hdr_bGpt H \<noteq> 0)"
    and first: "GetFirstPartitionBeginSector s (recover_disk rd) = Some first" "first \<noteq> 0"
    and size: "unat (hdr_GptSize H) \<le> 0x100000" "unat (hdr_GptSize H) div 512 \<le> secs" "0x100200 \<le> length mem"
    and fr: "fr f (unat (hdr_GptSize H)) = Some (ok, table, f')" "length table \<le> unat (hdr_GptSize H)"
  shows "\<exists>d' mem' e. restore_table env ask fr f rd s H 1 changed d mem = Some (d', mem', e) \<and>
    (d' = d \<or> ok \<and> e = GoOn False \<and> hdr_bGpt H = 0 \<and> length table = unat (hdr_GptSize H) \<and>
      sec d' k = store_sectors (sec d k) 0
        (take (512 * min (unat (hdr_GptSize H) div 512) (unat first)) (kept_entries table (sec d k 0))))"
proof -
  let ?mem1 = "table @ drop (length table) mem"
  let ?mem2 = "take 0x100000 ?mem1 @ sec d k 0 @ drop (0x100000 + 512) ?mem1"
  have put: "put mem 0 table = Some ?mem1" using fr(2) size(1,3) by (simp add: put_def)
  show ?thesis
  proof (cases "ok \<and> length table = unat (hdr_GptSize H)")
    case False
    then have "restore_table env ask fr f rd s H 1 changed d mem = Some (d, ?mem1, GiveUp (Some OKR_ERROR_READ_FILE))"
      using fr(1) put by (simp add: restore_table_def)
    then show ?thesis by blast
  next
    case True
    have l1: "length ?mem1 = length mem" using fr(2) size by simp
    have len: "length (sec d k 0) = 512" using dev(1) by (simp add: reads_sectors_def)
    have read: "DiskRead env d (recover_disk rd) 0 1 ?mem1 0x100000 = Some (True, ?mem2)"
      using read_sector [OF dev(1,3), of 0 "0x100000" ?mem1 d] dev(4,5) size(3) unfolding l1 by simp
    have m2: "take 0x100000 ?mem2 = table @ take (0x100000 - length table) (drop (length table) mem)"
        "take 512 (drop 0x100000 ?mem2) = sec d k 0" "0x100200 \<le> length ?mem2"
      using True size l1 len by simp_all
    obtain c where c: "(if \<not> changed \<and> hdr_bGpt H = 0 then RecheckPartitionTable rd H (drop 0x100000 ?mem2) ?mem2 else Some changed) = Some c"
    proof -
      have "512 \<le> length (drop 0x100000 ?mem2)" "512 \<le> length ?mem2" using m2(3) by (simp_all only: length_drop)
      from recheck_entries_total [of "[0,1,2,3]", OF _ this] have "\<exists>r. RecheckPartitionTable rd H (drop 0x100000 ?mem2) ?mem2 = Some r"
        using rd(2) by (simp add: RecheckPartitionTable_def RecheckPartitionTable_Linux_def)
      then show thesis using that by (cases "\<not> changed \<and> hdr_bGpt H = 0") auto
    qed
    have need: "need_recover rd 1 c (hdr_bGpt H \<noteq> 0) (hdr_bGpt H \<noteq> 0) = (\<not> c)"
      using rd(1,2) by (simp add: need_recover_def chosen_disk_def)
    have r: "restore_table env ask fr f rd s H 1 changed d mem =
        (if c then Some (d, ?mem2, GoOn True) else write_table env d rd s H False ?mem2)"
      unfolding restore_table_def fr(1) bind.bind_lunit put case_prod_conv read c kind Let_def need
      using True rd(1,2) by (simp add: unmatched_def)
    show ?thesis
    proof (cases "c \<or> hdr_bGpt H \<noteq> 0")
      case True
      then have "\<exists>mem' e. restore_table env ask fr f rd s H 1 changed d mem = Some (d, mem', e)"
        unfolding r write_table_def boot_code_only_def Let_def using kind rd(3) by auto
      then show ?thesis by blast
    next
      case False
      then have g: "hdr_bGpt H = 0" "IsGptSystem s (recover_disk rd) = Some False" using kind by auto
      have len1: "length table = unat (hdr_GptSize H)" "length table \<le> 0x100000" using True size(1) by simp_all
      from write_table_mbr [OF dev(1-4) rd(3) g first len1 size(2) m2] show ?thesis
        unfolding r using False g(1) True by auto
    qed
  qed
qed


text \<open>
  C11. A restore to the disk the image was taken from, without force, never changes the partition
  table. On a GPT disk nothing is written before the partitions; on a disk with an MBR, only the sectors
  in front of the first partition can change, and the four partition entries of the MBR stay. This is so
  whatever the comparison of the tables gives, whatever the user answers and whatever the image holds, as long as
  the image is of the same kind of table; when the sectors are written, they are exactly the saved ones
  with the entries of the disk.
\<close>

theorem restore_keeps_partition_table:
  assumes dev: "reads_sectors env sec k secs" "writes_sectors env sec k secs" "k < g_disknum env" "k = recover_disk rd"
    and rd: "comefromnewhddface rd = 0" "\<not> bForceRestorePartition rd" "\<not> bFactoryRestore rd"
    and parts: "used_partitions s = Some gs" "disk_at s (sint (RecoverDiskNumber rd)) = Some D" "0 < secs"
      "\<forall>G \<in> set gs. uint (DiskNumber G) = sint (RecoverDiskNumber rd) \<longrightarrow> unat (BootBegin G) < secs"
    and kind: "IsGptSystem s k = Some (hdr_bGpt H \<noteq> 0)"
    and first: "GetFirstPartitionBeginSector s k = Some first" "first \<noteq> 0"
    and size: "unat (hdr_GptSize H) \<le> 0x100000" "unat (hdr_GptSize H) div 512 \<le> secs" "0x100200 \<le> length mem"
    and fr: "\<And>f. \<exists>ok table f'. fr f (unat (hdr_GptSize H)) = Some (ok, table, f') \<and> length table \<le> unat (hdr_GptSize H)"
  shows "\<exists>d' mem' e. table_step env ask valid opened fr rd s H OldImage 1 d mem = Some (rd, d', mem', e) \<and>
    (hdr_bGpt H \<noteq> 0 \<longrightarrow> d' = d) \<and>
    (\<forall>i. unat first \<le> i \<longrightarrow> sec d' k i = sec d k i) \<and>
    take 0x40 (drop 0x1be (sec d' k 0)) = take 0x40 (drop 0x1be (sec d k 0)) \<and>
    (d' = d \<or> (\<exists>f table f'. opened = Some f \<and> fr f (unat (hdr_GptSize H)) = Some (True, table, f') \<and> e = GoOn False \<and>
      sec d' k = store_sectors (sec d k) 0
        (take (512 * min (unat (hdr_GptSize H) div 512) (unat first)) (kept_entries table (sec d k 0)))))"
proof -
  note kind' = kind [unfolded dev(4)] and first' = first(1) [unfolded dev(4)]
  have len: "length (sec d k 0) = 512" using dev(1) by (simp add: reads_sectors_def)
  obtain r where dec: "table_decision rd s H = Some (rd, r)"
    using table_decision_total [OF parts(1) rd(3,2)] by blast
  have ov: "override_changed rd c = (rd, c)" for c using rd(1) by (simp add: override_changed_def chosen_disk_def)
  have ok: "\<exists>ok. old_disk_check env d rd s H OldImage 1 c = Some ok" for c
    by (rule old_disk_check_total [OF dev(1,3) [unfolded dev(4)] parts(1,2,4)])
  have "(\<exists>e. table_step env ask valid opened fr rd s H OldImage 1 d mem = Some (rd, d, mem, e)) \<or>
    (\<exists>f c. opened = Some f \<and> table_step env ask valid opened fr rd s H OldImage 1 d mem =
       restore_table env ask fr f rd s H 1 c d mem \<bind> (\<lambda>(d, mem, e). Some (rd, d, mem, e)))"
  proof (cases r)
    case None
    then show ?thesis by (simp add: table_step_def dec)
  next
    case (Some c)
    obtain b where "old_disk_check env d rd s H OldImage 1 c = Some b" using ok by blast
    then show ?thesis using Some by (cases opened) (auto simp: table_step_def dec ov)
  qed
  then consider e where "table_step env ask valid opened fr rd s H OldImage 1 d mem = Some (rd, d, mem, e)"
    | f c where "opened = Some f" "table_step env ask valid opened fr rd s H OldImage 1 d mem =
       restore_table env ask fr f rd s H 1 c d mem \<bind> (\<lambda>(d, mem, e). Some (rd, d, mem, e))" by blast
  then show ?thesis
  proof cases
    case 1
    then show ?thesis by auto
  next
    case 2
    obtain b table f' where fr': "fr f (unat (hdr_GptSize H)) = Some (b, table, f')" "length table \<le> unat (hdr_GptSize H)"
      using fr by blast
    obtain d' mem' e where res: "restore_table env ask fr f rd s H 1 c d mem = Some (d', mem', e)"
      "d' = d \<or> b \<and> e = GoOn False \<and> hdr_bGpt H = 0 \<and> length table = unat (hdr_GptSize H) \<and>
        sec d' k = store_sectors (sec d k) 0
          (take (512 * min (unat (hdr_GptSize H) div 512) (unat first)) (kept_entries table (sec d k 0)))"
      using restore_table_old_disk [where ask = ask and changed = c and d = d and fr = fr and f = f, OF dev parts(3) rd kind' first' first(2) size fr'] by blast
    let ?n = "min (unat (hdr_GptSize H) div 512) (unat first)"
    show ?thesis
    proof (cases "d' = d")
      case True
      then show ?thesis using 2(2) res(1) by auto
    next
      case False
      then have b: b "e = GoOn False" "hdr_bGpt H = 0" "length table = unat (hdr_GptSize H)"
        "sec d' k = store_sectors (sec d k) 0 (take (512 * ?n) (kept_entries table (sec d k 0)))" using res(2) by blast+
      have "?n = 0 \<or> 512 \<le> length table" using b(4) by linarith
      note safe = kept_entries_safe [where f = "sec d k", OF len this refl]
      have "sec d' k i = sec d k i" if "unat first \<le> i" for i using safe(2) [of i] that b(5) by simp
      moreover have "take 0x40 (drop 0x1be (sec d' k 0)) = take 0x40 (drop 0x1be (sec d k 0))" using safe(1) b(5) by simp
      ultimately show ?thesis using 2 res(1) fr'(1) b by (intro exI [of _ d'] exI [of _ mem'] exI [of _ e]) simp
    qed
  qed
qed


theorem restore_keeps_partition_table_witness:
  "\<exists>d' mem' e. table_step (ram_env 1) (\<lambda>_. True) True (Some ()) (\<lambda>_ n. Some (True, replicate n 7, ())) fresh_data
      (with_disk (a_disk 2000 DISK_SYSDISK False) [a_system]) (an_image\<lparr>hdr_bGpt := 0, hdr_GptSize := 1024\<rparr>) True 1
      (\<lambda>_. []) (replicate 0x100200 0) = Some (fresh_data, d', mem', e) \<and>
    (\<forall>i. 64 \<le> i \<longrightarrow> ram_sec d' 0 i = ram_sec (\<lambda>_. []) 0 i) \<and>
    take 0x40 (drop 0x1be (ram_sec d' 0 0)) = take 0x40 (drop 0x1be (ram_sec (\<lambda>_. []) 0 0)) \<and>
    (d' = (\<lambda>_. []) \<or> e = GoOn False \<and>
      ram_sec d' 0 = store_sectors (ram_sec (\<lambda>_. []) 0) 0 (take (512 * 2) (kept_entries (replicate 1024 7) (ram_sec (\<lambda>_. []) 0 0))))"
proof -
  let ?s = "with_disk (a_disk 2000 DISK_SYSDISK False) [a_system]" and ?H = "an_image\<lparr>hdr_bGpt := 0, hdr_GptSize := 1024\<rparr>"
  let ?fr = "\<lambda>(_ :: unit) n. Some (True, replicate n (7 :: byte), ())"
  have gs: "used_partitions ?s = Some [a_system]" by (simp add: used_partitions_def with_disk_def)
  have P: "DiskNumber a_system = 0" "BootBegin a_system = 64" "bGpt a_system = 0" by (simp_all add: a_system_def empty_partition_def)
  have rd: "recover_disk fresh_data = 0" "RecoverDiskNumber fresh_data = 0" "comefromnewhddface fresh_data = 0"
    "\<not> bForceRestorePartition fresh_data" "\<not> bFactoryRestore fresh_data"
    by (simp_all add: recover_disk_def fresh_data_def)
  have "IsGptSystem ?s 0 = Some (hdr_bGpt ?H \<noteq> 0)" "GetFirstPartitionBeginSector ?s 0 = Some 64"
    by (simp_all add: IsGptSystem_def GetFirstPartitionBeginSector_def gs P)
  note at_disk = this
  have "disk_at ?s 0 = Some (a_disk 2000 DISK_SYSDISK False)" by (simp add: disk_at_def with_disk_def)
  then have "\<exists>d' mem' e. table_step (ram_env 1) (\<lambda>_. True) True (Some ()) ?fr fresh_data ?s ?H True 1 (\<lambda>_. []) (replicate 0x100200 0)
      = Some (fresh_data, d', mem', e) \<and>
    (hdr_bGpt ?H \<noteq> 0 \<longrightarrow> d' = (\<lambda>_. [])) \<and>
    (\<forall>i. unat (64 :: u64) \<le> i \<longrightarrow> ram_sec d' 0 i = ram_sec (\<lambda>_. []) 0 i) \<and>
    take 0x40 (drop 0x1be (ram_sec d' 0 0)) = take 0x40 (drop 0x1be (ram_sec (\<lambda>_. []) 0 0)) \<and>
    (d' = (\<lambda>_. []) \<or> (\<exists>f table f'. Some () = Some f \<and> ?fr f (unat (hdr_GptSize ?H)) = Some (True, table, f') \<and> e = GoOn False \<and>
      ram_sec d' 0 = store_sectors (ram_sec (\<lambda>_. []) 0) 0
        (take (512 * min (unat (hdr_GptSize ?H) div 512) (unat (64 :: u64))) (kept_entries table (ram_sec (\<lambda>_. []) 0 0)))))"
    by (intro restore_keeps_partition_table [OF ram_reads_sectors ram_writes_sectors, where gs = "[a_system]" and secs = 2000])
      (use gs P rd at_disk in \<open>auto simp: ram_env_def\<close>)
  then show ?thesis by simp
qed

end
