(* ===== verification/Spec2Isabelle.thy ===== *)
theory Spec2Isabelle
  imports Okr_Bitmap Okr_DiskIo Okr_Ntfs Okr_Strings Okr_Volume Okr_Scan Okr_ScanCorrect Okr_Table
    Okr_TableCorrect Okr_NtfsFile Okr_FatFile Okr_Unused Okr_Ring Okr_NtfsCache Okr_Archive Okr_Damaged Okr_Lz4Encode
    Okr_Time Okr_GptCorrect Okr_TargetCorrect Okr_TableStep
begin

text \<open>
  A verification of the core of the OneKey Recovery UEFI application, \<^verbatim>\<open>src/OkrPkg/okrefi\<close>.

  The program saves the partitions of a disk to an image file and restores them. A backup finds the
  partitions of the disks (partition.c), scans the allocation table of each volume for the sectors in
  use (partition.c), leaves out the hibernation and paging files (getlist.c), marks blocks of 64 sectors
  in a bitmap (func.c), and writes the bitmap and the compressed blocks to an image that the file layer
  splits into numbered files (func.c, utils.c). A restore reads the same records back and writes the
  marked blocks. Two threads can share the work through a ring of buffers (utils.c).

  \<^bold>\<open>Conventions.\<close> Machine integers are words of their width, so that wrap-around is part of every
  definition. Buffers are lists of bytes, and every access is checked: \<open>None\<close> stands for an access
  outside a buffer, for following a null or freed pointer, and for a loop that never ends
  (\<open>partial_function (option)\<close>); \<open>Some\<close> says that the call returns and stays inside its buffers. What
  lies outside the repository is a parameter: block devices and memory allocation are the record
  \<open>disk_env\<close>, the firmware's files and the NTFS library the record \<open>fs_env\<close>. Their documented behaviour
  is a hypothesis with a name: \<open>reads_sectors\<close>, \<open>writes_sectors\<close>, \<open>allocates\<close>, \<open>efi_ok\<close>, \<open>n_reads\<close> and
  \<open>n_writes\<close>; each holds of a device or a file system kept in memory (\<open>ram_env\<close>, \<open>ram_fs_env\<close>), on which
  the examples are evaluated.

  \<^bold>\<open>Theories.\<close>
  \<^item> \<^verbatim>\<open>Okr_Prelude\<close>, \<^verbatim>\<open>Okr_Types\<close>: words, buffers, the option monad; the partition descriptor
    \<open>WIN32_PARTITIONINFO\<close> of biosdisk.h with the views of its union.
  \<^item> \<^verbatim>\<open>Okr_Bitmap\<close> (func.c, \<open>MarkBit\<close> to \<open>GetDataToBitmap\<close>): a range of sectors marks exactly the blocks it
    touches, unless it lies in a file that is left out.
  \<^item> \<^verbatim>\<open>Okr_DiskIo\<close> (utils.c, \<open>DiskRead\<close> to \<open>SmartDiskIo\<close>): merged requests have the effect of the single
    ones, for reads and for writes.
  \<^item> \<^verbatim>\<open>Okr_Ntfs\<close>, \<^verbatim>\<open>Okr_Volume\<close>, \<^verbatim>\<open>Okr_Scan\<close>, \<^verbatim>\<open>Okr_ScanCorrect\<close> (partition.c): attributes, update sequences
    and run lists of NTFS records; the state of a mounted volume; the scan. For FAT16, FAT32 and NTFS
    the scan marks the blocks of the metadata and of exactly the used clusters.
  \<^item> \<^verbatim>\<open>Okr_NtfsFile\<close>, \<^verbatim>\<open>Okr_FatFile\<close>, \<^verbatim>\<open>Okr_Unused\<close> (getlist.c): finding a file of the root directory and its
    sectors, and the lists of the files that a backup leaves out. The lists refine a log of
    partitions with their sectors; the growth of the array is modelled with an explicit heap.
  \<^item> \<^verbatim>\<open>Okr_Table\<close>, \<^verbatim>\<open>Okr_TableCorrect\<close> (partition.c): the partition tables of the disks, MBR, extended and
    GPT; the table that \<open>GetPartitionInfo\<close> builds, sorting, and the limits of the parsers.
  \<^item> \<^verbatim>\<open>Okr_Gpt\<close>, \<^verbatim>\<open>Okr_GptCorrect\<close> (func.c, \<open>IsFixNewHddWay\<close> to \<open>FixNewHDDPartitionTable\<close>): the table of a new disk,
    rewritten before a restore. Both ways leave two valid copies of a GPT; \<open>FixNewHDD\<close> alone leaves the
    second copy stale, and the recovery partition gets a wrong entry when the disk is full.
  \<^item> \<^verbatim>\<open>Okr_Target\<close>, \<^verbatim>\<open>Okr_TargetCorrect\<close> (func.c, \<open>IfNeedRecoverPartTable\<close>, \<open>GetDestinationDisk\<close> and the checks for
    RAID disks and BitLocker volumes): which disk is restored to, and the comparison of its table with the
    saved one. The answers of the user are a parameter. The target has room for the data; a disk too
    small makes the search read in front of the list of disks.
  \<^item> \<^verbatim>\<open>Okr_TableStep\<close> (func.c, \<open>Recover\<close> up to the loop over the partitions): what is written to the front of
    the target disk. On the old disk, without force, the partition table and the partitions stay.
  \<^item> \<^verbatim>\<open>Okr_BufferArray\<close>, \<^verbatim>\<open>Okr_Ring\<close> (utils.c): the ring as a step relation in which every poll of a
    shared flag is a step; order, exclusion, no mutual wait, and what can be delivered or lost.
  \<^item> \<^verbatim>\<open>Okr_FileIo\<close>, \<^verbatim>\<open>Okr_FileIoCorrect\<close>, \<^verbatim>\<open>Okr_NtfsCache\<close> (utils.c): split image files and the cache of NTFS
    files. Records come back as they were written; the cache is invisible.
  \<^item> \<^verbatim>\<open>Okr_Lz4\<close>, \<^verbatim>\<open>Okr_Lz4Copy\<close>, \<^verbatim>\<open>Okr_Lz4Decode\<close>, \<^verbatim>\<open>Okr_Lz4Search\<close>, \<^verbatim>\<open>Okr_Lz4Encode\<close> (lz4.c): the compressor
    with its hash table, its copies in steps of eight bytes and its buffers. The decompressor stays
    inside its buffers on any input; what is compressed comes back; and a compressed chunk is never
    taken for the header of an old image.
  \<^item> \<^verbatim>\<open>Okr_Pipeline\<close>, \<^verbatim>\<open>Okr_Chunks\<close>, \<^verbatim>\<open>Okr_Archive\<close>, \<^verbatim>\<open>Okr_Damaged\<close> (func.c): the loops of \<open>Backup\<close> and \<open>Recover\<close>.
    What is restored is what was saved; and what happens with incomplete images.
  \<^item> \<^verbatim>\<open>Okr_Strings\<close>, \<^verbatim>\<open>Okr_Time\<close> (utils.c): comparisons and conversions of strings, and calendar time.

  \<^bold>\<open>Interfaces.\<close> The backup and the restore use the image only through the locale \<open>image_file\<close>: writing
  appends a record, and reading gives the records in order, piece by piece. \<open>FileIo_image_file\<close> shows it for
  \<open>FileWrite\<close>, \<open>FileRead\<close>, \<open>FileClose\<close> and \<open>FileOpen\<close>, and \<open>ram_image\<close> is an interpretation. \<open>bit_store\<close> is
  the contract of the bitmap and \<open>fifo_channel\<close> that of the ring; both are interpreted. The scan
  hands over sectors through a function, as the code does with a pointer to \<open>GetDataToBitmap\<close>.

  \<^bold>\<open>Bounds.\<close> A read of a record that may go on to the next image file is shorter than the 20 MB of
  \<open>MY_DEFINE_BUFFER_SIZE\<close>, since a longer one does not return at the end of a file. The round trip needs
  a bitmap, and chunks that compression does not shorten, that do not start with the mark of an old
  image (\<open>plain_part\<close>), since \<open>FileRead\<close> converts such data. The lists of files are exact up to 8192 elements, the size of the first array. The only fuel is
  the depth of \<open>GetNtfsFileRecord\<close>, which calls itself through attribute lists, and the number of
  rounds of \<open>Init_BufferArray\<close>, 256, more than the steps from the largest size to the smallest.

  \<^bold>\<open>Not modelled.\<close> The screens and dialogues (face.c, window.c, vga.c and others), which are output only; the
  disk drivers under ssd, which program hardware; the NTFS library under ntfswin and pbkdf2, which
  are third-party code; the streaming functions of lz4.c, which are never called; start-up and
  options (myapp.c). Of func.c the checks in front of a restore, the rewriting of the partition table and
  the loops over the data are modelled, not the dialogue around them, the list of images, or the bodies
  of the two threads. Directory handling and the mounting of file systems in utils.c call only the
  firmware.
\<close>

end
